(* ===== verification/Prelude.thy ===== *)
theory Prelude
  imports "HOL-Library.Word"
begin

text \<open>
  Shared vocabulary of the development.

  \<^item> Machine integers: Rust's \<open>u8\<close>, \<open>u32\<close>, \<open>u64\<close>, \<open>u128\<close> are words of that width, so
    plain \<open>+\<close> wraps as it does in a release build; \<open>saturating_add\<close>, \<open>saturating_sub\<close>,
    \<open>checked_add\<close> and \<open>checked_mul\<close> are the standard library's operations of those names.
  \<^item> Fixed byte arrays: \<open>[u8; n]\<close> is a word of \<open>8 * n\<close> bits read big-endian. Every
    word of that width is exactly one array, and the lexicographic order of arrays (the
    order of \<open>BTreeMap\<close> keys) is the order of the words.
  \<^item> Buffers: \<open>bytes::Buf\<close> readers are functions from the remaining bytes to an error or to
    a value and the bytes left; \<open>bytes::BufMut\<close> writers return the bytes they append.
  \<^item> Ordered maps: \<open>BTreeMap\<close> is an association list with strictly increasing keys.

  The collections \<open>codec_reads\<close> (what a reader returns on what a writer wrote) and
  \<open>btree_simps\<close> (lookups after updates of an ordered map) carry the component proofs.
\<close>

named_theorems codec_reads
named_theorems btree_simps

section \<open>Machine integers\<close>

type_synonym u8 = "8 word"
type_synonym u32 = "32 word"
type_synonym u64 = "64 word"
type_synonym u128 = "128 word"

definition saturating_add :: "'a::len word \<Rightarrow> 'a word \<Rightarrow> 'a word" where
  "saturating_add a b = (if unat a + unat b < 2 ^ LENGTH('a) then a + b else - 1)"

definition saturating_sub :: "'a::len word \<Rightarrow> 'a word \<Rightarrow> 'a word" where
  "saturating_sub a b = (if b \<le> a then a - b else 0)"

definition checked_add :: "'a::len word \<Rightarrow> 'a word \<Rightarrow> 'a word option" where
  "checked_add a b = (if unat a + unat b < 2 ^ LENGTH('a) then Some (a + b) else None)"

definition checked_mul :: "'a::len word \<Rightarrow> 'a word \<Rightarrow> 'a word option" where
  "checked_mul a b = (if unat a * unat b < 2 ^ LENGTH('a) then Some (a * b) else None)"

lemma unat_add_exact:
  fixes a b :: "'a::len word"
  assumes "unat a + unat b < 2 ^ LENGTH('a)"
  shows "unat (a + b) = unat a + unat b"
  using assms by (simp add: unat_word_ariths)

lemma unat_mult_exact:
  fixes a b :: "'a::len word"
  assumes "unat a * unat b < 2 ^ LENGTH('a)"
  shows "unat (a * b) = unat a * unat b"
  using assms by (simp add: unat_word_ariths)

lemma unat_saturating_add:
  "unat (saturating_add (a :: 'a::len word) b) = min (unat a + unat b) (2 ^ LENGTH('a) - 1)"
proof (cases "unat a + unat b < 2 ^ LENGTH('a)")
  case True
  then show ?thesis by (simp add: saturating_add_def unat_add_exact)
next
  case False
  then show ?thesis by (simp add: saturating_add_def unsigned_minus_1_eq_mask mask_eq_exp_minus_1)
qed

lemma unat_saturating_sub:
  "unat (saturating_sub a b) = unat a - unat b"
  by (auto simp: saturating_sub_def unat_sub_if' word_le_nat_alt)

lemma saturating_sub_le: "saturating_sub a b \<le> a"
  by (simp add: word_le_nat_alt unat_saturating_sub)

lemma saturating_sub_0 [simp]: "saturating_sub a 0 = a"
  by (simp add: saturating_sub_def)

lemma saturating_sub_self [simp]: "saturating_sub a a = 0"
  by (simp add: saturating_sub_def)

lemma unat_min: "unat (min a b) = min (unat a) (unat b)"
  by (simp add: min_def word_le_nat_alt)

lemma checked_add_Some:
  "checked_add (a :: 'a::len word) b = Some r \<longleftrightarrow>
     unat a + unat b < 2 ^ LENGTH('a) \<and> unat r = unat a + unat b"
  by (auto simp: checked_add_def unat_add_exact word_unat_eq_iff)

lemma checked_mul_Some:
  "checked_mul (a :: 'a::len word) b = Some r \<longleftrightarrow>
     unat a * unat b < 2 ^ LENGTH('a) \<and> unat r = unat a * unat b"
  by (auto simp: checked_mul_def unat_mult_exact word_unat_eq_iff)

section \<open>Bytes\<close>

fun nat_to_le :: "nat \<Rightarrow> nat \<Rightarrow> u8 list" where
  "nat_to_le 0 k = []"
| "nat_to_le (Suc n) k = word_of_nat (k mod 256) # nat_to_le n (k div 256)"

fun le_to_nat :: "u8 list \<Rightarrow> nat" where
  "le_to_nat [] = 0"
| "le_to_nat (b # bs) = unat b + 256 * le_to_nat bs"

definition to_le_bytes :: "'a::len word \<Rightarrow> u8 list" where
  "to_le_bytes w = nat_to_le (LENGTH('a) div 8) (unat w)"

definition from_le_bytes :: "u8 list \<Rightarrow> 'a::len word" where
  "from_le_bytes bs = word_of_nat (le_to_nat bs)"

definition to_be_bytes :: "'a::len word \<Rightarrow> u8 list" where
  "to_be_bytes w = rev (to_le_bytes w)"

definition from_be_bytes :: "u8 list \<Rightarrow> 'a::len word" where
  "from_be_bytes bs = from_le_bytes (rev bs)"

lemma length_nat_to_le [simp]: "length (nat_to_le n k) = n"
  by (induction n arbitrary: k) auto

lemma length_to_le_bytes [simp]: "length (to_le_bytes (w :: 'a::len word)) = LENGTH('a) div 8"
  by (simp add: to_le_bytes_def)

lemma length_to_be_bytes [simp]: "length (to_be_bytes (w :: 'a::len word)) = LENGTH('a) div 8"
  by (simp add: to_be_bytes_def)

lemma le_to_nat_bound: "le_to_nat bs < 256 ^ length bs"
proof (induction bs)
  case Nil
  then show ?case by simp
next
  case (Cons b bs)
  have "unat b < 256" using unsigned_less [of b] by simp
  with Cons show ?case by simp
qed

lemma le_nat_round: "le_to_nat (nat_to_le n k) = k mod 256 ^ n"
proof (induction n arbitrary: k)
  case 0
  then show ?case by simp
next
  case (Suc n)
  have "unat (word_of_nat (k mod 256) :: u8) = k mod 256"
    by (simp add: unat_of_nat)
  with Suc show ?case by (simp add: mod_mult2_eq)
qed

lemma nat_le_round: "nat_to_le (length bs) (le_to_nat bs) = bs"
proof (induction bs)
  case Nil
  then show ?case by simp
next
  case (Cons b bs)
  have "unat b < 256" using unsigned_less [of b] by simp
  with Cons show ?case by simp
qed

lemma pow256: "256 ^ n = (2 :: nat) ^ (8 * n)"
  by (simp add: power_mult)

lemma from_to_le_bytes:
  assumes "8 dvd LENGTH('a)"
  shows "from_le_bytes (to_le_bytes (w :: 'a::len word)) = w"
proof -
  have "(256 :: nat) ^ (LENGTH('a) div 8) = 2 ^ LENGTH('a)"
    using assms by (simp add: pow256)
  then have "le_to_nat (to_le_bytes w) = unat w"
    using unsigned_less [of w] by (simp add: to_le_bytes_def le_nat_round)
  then show ?thesis by (simp add: from_le_bytes_def)
qed

lemma to_from_le_bytes:
  assumes "8 * length bs = LENGTH('a)"
  shows "to_le_bytes (from_le_bytes bs :: 'a::len word) = bs"
proof -
  have "le_to_nat bs < 2 ^ LENGTH('a)"
    using le_to_nat_bound [of bs] assms by (simp add: pow256)
  then have "unat (from_le_bytes bs :: 'a word) = le_to_nat bs"
    by (simp add: from_le_bytes_def unat_of_nat)
  moreover have "LENGTH('a) div 8 = length bs" using assms by simp
  ultimately show ?thesis by (simp add: to_le_bytes_def nat_le_round)
qed

lemma from_to_be_bytes:
  "8 dvd LENGTH('a) \<Longrightarrow> from_be_bytes (to_be_bytes (w :: 'a::len word)) = w"
  by (simp add: from_be_bytes_def to_be_bytes_def from_to_le_bytes)

lemma to_from_be_bytes:
  "8 * length bs = LENGTH('a) \<Longrightarrow> to_be_bytes (from_be_bytes bs :: 'a::len word) = bs"
  by (simp add: from_be_bytes_def to_be_bytes_def to_from_le_bytes)

lemma unat_word_of_nat:
  "n < 2 ^ LENGTH('a) \<Longrightarrow> unat (word_of_nat n :: 'a::len word) = n"
  by (simp add: unsigned_of_nat take_bit_nat_eq_self)

lemma unat_less: "unat (w :: 'a::len word) < 2 ^ LENGTH('a)"
  by (rule unsigned_less)

lemma to_be_bytes_u8: "to_be_bytes (b :: u8) = [b]"
proof -
  have "unat b < 256" using unat_less [of b] by simp
  then show ?thesis by (simp add: to_be_bytes_def to_le_bytes_def)
qed

lemma inj_on_unat: "inj_on (unat :: 'a::len word \<Rightarrow> nat) A"
  by (simp add: inj_on_def word_unat_eq_iff)

lemma unat_plus_one: "w \<noteq> -1 \<Longrightarrow> unat (w + 1) = Suc (unat (w :: 'a::len word))"
  using unatSuc [of w] by (simp add: add.commute eq_neg_iff_add_eq_0)

lemma unat_ucast_wider:
  assumes "LENGTH('a) \<le> LENGTH('b)"
  shows "unat (ucast (w :: 'a::len word) :: 'b::len word) = unat w"
proof -
  have "unat w < 2 ^ LENGTH('b)"
    by (rule less_le_trans [OF unat_less]) (rule power_increasing [OF assms], simp)
  then show ?thesis by (simp add: unsigned_ucast_eq take_bit_nat_eq_self unsigned_take_bit_eq)
qed

lemma word_one_le: "1 \<le> w \<longleftrightarrow> w \<noteq> (0 :: 'a::len word)"
  using unat_eq_0 [of w] by (auto simp: word_le_nat_alt Suc_le_eq)

lemma option_eqI:
  assumes "\<And>i. a = Some i \<longleftrightarrow> b = Some i"
  shows "a = b"
proof (cases a)
  case None
  with assms have "b \<noteq> Some i" for i by blast
  with None show ?thesis by (cases b) auto
next
  case (Some x)
  with assms [of x] show ?thesis by simp
qed

end
