(* ===== verification/Buffer.thy ===== *)
theory Buffer
  imports Prelude
begin

text \<open>
  The codec layer: readers over the bytes left in a buffer (\<open>bytes::Buf\<close> with
  \<open>commonware_codec::Read\<close>), and the contract of a codec as a locale. A component that
  gives a \<open>write\<close> and a \<open>read_cfg\<close> interprets \<open>codec\<close> (what was written is read back,
  whatever follows it) and, where the reader accepts nothing else, \<open>exact_codec\<close>; it then
  has the round trip of sequences and of the whole-buffer \<open>decode\<close> from here.
\<close>

section \<open>Readers\<close>

datatype codec_error = EndOfBuffer | Invalid string string | ExtraData nat

type_synonym 'a reader = "u8 list \<Rightarrow> codec_error + ('a \<times> u8 list)"

definition ret :: "'a \<Rightarrow> 'a reader" where
  "ret x buf = Inr (x, buf)"

definition fail :: "codec_error \<Rightarrow> 'a reader" where
  "fail e buf = Inl e"

definition rbind :: "'a reader \<Rightarrow> ('a \<Rightarrow> 'b reader) \<Rightarrow> 'b reader" where
  "rbind m f buf = (case m buf of Inl e \<Rightarrow> Inl e | Inr (x, rest) \<Rightarrow> f x rest)"

text \<open>\<open>ensure P e\<close> is the early return \<open>if !P { return Err(e) }\<close>; \<open>at_least n e\<close> is
  \<open>if buf.remaining() < n { return Err(e) }\<close>.\<close>

definition ensure :: "bool \<Rightarrow> codec_error \<Rightarrow> unit reader" where
  "ensure b e buf = (if b then Inr ((), buf) else Inl e)"

definition at_least :: "nat \<Rightarrow> codec_error \<Rightarrow> unit reader" where
  "at_least n e buf = (if length buf < n then Inl e else Inr ((), buf))"

text \<open>\<open>try_copy_to_slice\<close> into a slice of \<open>n\<close> bytes; \<open>get_be\<close> is \<open>try_get_u8\<close>,
  \<open>try_get_u32\<close>, \<open>try_get_u64\<close> and the copy into a byte array, \<open>get_le\<close> the copy into a
  byte array followed by \<open>from_le_bytes\<close>.\<close>

definition take_bytes :: "nat \<Rightarrow> u8 list reader" where
  "take_bytes n buf =
     (if length buf < n then Inl EndOfBuffer else Inr (take n buf, drop n buf))"

definition get_be :: "'a::len word reader" where
  "get_be = rbind (take_bytes (LENGTH('a) div 8)) (\<lambda>bs. ret (from_be_bytes bs))"

definition get_le :: "'a::len word reader" where
  "get_le = rbind (take_bytes (LENGTH('a) div 8)) (\<lambda>bs. ret (from_le_bytes bs))"

fun read_many :: "'a reader \<Rightarrow> nat \<Rightarrow> 'a list reader" where
  "read_many rd 0 = ret []"
| "read_many rd (Suc n) =
     rbind rd (\<lambda>x. rbind (read_many rd n) (\<lambda>xs. ret (x # xs)))"

text \<open>\<open>DecodeExt::decode\<close>: a read that must use up the buffer.\<close>

definition decode :: "'a reader \<Rightarrow> u8 list \<Rightarrow> codec_error + 'a" where
  "decode rd buf =
     (case rd buf of
        Inl e \<Rightarrow> Inl e
      | Inr (x, rest) \<Rightarrow> if rest = [] then Inr x else Inl (ExtraData (length rest)))"

section \<open>What a reader returns on written bytes\<close>

definition reads :: "'a reader \<Rightarrow> 'a \<Rightarrow> u8 list \<Rightarrow> bool" where
  "reads rd x bs \<longleftrightarrow> (\<forall>rest. rd (bs @ rest) = Inr (x, rest))"

lemma readsD: "reads rd x bs \<Longrightarrow> rd (bs @ rest) = Inr (x, rest)"
  by (simp add: reads_def)

lemma reads_decode: "reads rd x bs \<Longrightarrow> decode rd bs = Inr x"
  using readsD [of rd x bs "[]"] by (simp add: decode_def)

lemma reads_rbind: "reads m x bs \<Longrightarrow> rbind m f (bs @ rest) = f x rest"
  by (simp add: reads_def rbind_def)

lemma reads_rbind_end: "reads m x bs \<Longrightarrow> rbind m f bs = f x []"
  using reads_rbind [of m x bs f "[]"] by simp

lemma rbind_ensure [codec_reads]:
  "rbind (ensure b e) f buf = (if b then f () buf else Inl e)"
  by (simp add: rbind_def ensure_def)

lemma rbind_at_least [codec_reads]:
  "rbind (at_least n e) f buf = (if n \<le> length buf then f () buf else Inl e)"
  by (simp add: rbind_def at_least_def)

lemma rbind_ret [codec_reads]: "rbind (ret x) f buf = f x buf"
  by (simp add: rbind_def ret_def)

lemma ret_apply [codec_reads]: "ret x buf = Inr (x, buf)"
  by (simp add: ret_def)

lemma rbind_assoc [codec_reads]: "rbind (rbind m f) g = rbind m (\<lambda>x. rbind (f x) g)"
  by (rule ext) (simp add: rbind_def split: sum.split)

lemma reads_take_bytes: "length bs = n \<Longrightarrow> reads (take_bytes n) bs bs"
  by (simp add: reads_def take_bytes_def)

lemma reads_get_be: "8 dvd LENGTH('a) \<Longrightarrow> reads get_be (w :: 'a::len word) (to_be_bytes w)"
  by (simp add: reads_def get_be_def reads_rbind [OF reads_take_bytes] ret_def from_to_be_bytes)

lemma reads_get_le: "8 dvd LENGTH('a) \<Longrightarrow> reads get_le (w :: 'a::len word) (to_le_bytes w)"
  by (simp add: reads_def get_le_def reads_rbind [OF reads_take_bytes] ret_def from_to_le_bytes)

lemmas [codec_reads] =
  reads_rbind [OF reads_take_bytes] reads_rbind_end [OF reads_take_bytes]
  reads_rbind [OF reads_get_be] reads_rbind_end [OF reads_get_be]
  reads_rbind [OF reads_get_le] reads_rbind_end [OF reads_get_le]

section \<open>What bytes a reader accepted\<close>

lemma rbind_Inr:
  "rbind m f buf = Inr r \<longleftrightarrow> (\<exists>x rest. m buf = Inr (x, rest) \<and> f x rest = Inr r)"
  by (auto simp: rbind_def split: sum.splits)

lemma ret_Inr: "ret x buf = Inr (y, rest) \<longleftrightarrow> y = x \<and> rest = buf"
  by (auto simp: ret_def)

lemma fail_Inr [simp]: "fail e buf \<noteq> Inr r"
  by (simp add: fail_def)

lemma ensure_Inr: "ensure b e buf = Inr (u, rest) \<longleftrightarrow> b \<and> rest = buf"
  by (auto simp: ensure_def)

lemma at_least_Inr: "at_least n e buf = Inr (u, rest) \<longleftrightarrow> n \<le> length buf \<and> rest = buf"
  by (auto simp: at_least_def)

lemma take_bytes_Inr:
  "take_bytes n buf = Inr (bs, rest) \<longleftrightarrow> length bs = n \<and> buf = bs @ rest"
  by (auto simp: take_bytes_def)

lemma get_be_Inr:
  assumes "8 dvd LENGTH('a)"
  shows "get_be buf = Inr (w :: 'a::len word, rest) \<longleftrightarrow> buf = to_be_bytes w @ rest"
proof
  assume "get_be buf = Inr (w, rest)"
  then obtain bs where "length bs = LENGTH('a) div 8" "buf = bs @ rest" "w = from_be_bytes bs"
    by (auto simp: get_be_def rbind_Inr ret_Inr take_bytes_Inr)
  moreover from this have "8 * length bs = LENGTH('a)" using assms by simp
  ultimately show "buf = to_be_bytes w @ rest" by (simp add: to_from_be_bytes)
next
  assume "buf = to_be_bytes w @ rest"
  then show "get_be buf = Inr (w, rest)" using readsD [OF reads_get_be [OF assms, of w]] by simp
qed

lemma get_le_Inr:
  assumes "8 dvd LENGTH('a)"
  shows "get_le buf = Inr (w :: 'a::len word, rest) \<longleftrightarrow> buf = to_le_bytes w @ rest"
proof
  assume "get_le buf = Inr (w, rest)"
  then obtain bs where "length bs = LENGTH('a) div 8" "buf = bs @ rest" "w = from_le_bytes bs"
    by (auto simp: get_le_def rbind_Inr ret_Inr take_bytes_Inr)
  moreover from this have "8 * length bs = LENGTH('a)" using assms by simp
  ultimately show "buf = to_le_bytes w @ rest" by (simp add: to_from_le_bytes)
next
  assume "buf = to_le_bytes w @ rest"
  then show "get_le buf = Inr (w, rest)" using readsD [OF reads_get_le [OF assms, of w]] by simp
qed

lemma case_sum_fail_Inr:
  "(case m of Inl _ \<Rightarrow> fail e | Inr k \<Rightarrow> f k) buf = Inr r \<longleftrightarrow> (\<exists>k. m = Inr k \<and> f k buf = Inr r)"
  by (cases m) simp_all

lemmas reader_Inr =
  rbind_Inr ret_Inr ensure_Inr at_least_Inr take_bytes_Inr

section \<open>The contract of a codec\<close>

locale codec =
  fixes wr :: "'a \<Rightarrow> u8 list"
    and rd :: "'a reader"
    and ok :: "'a \<Rightarrow> bool"
  assumes read_written: "ok x \<Longrightarrow> reads rd x (wr x)"
begin

lemma decode_written: "ok x \<Longrightarrow> decode rd (wr x) = Inr x"
  by (rule reads_decode) (rule read_written)

lemma read_many_written:
  "list_all ok xs \<Longrightarrow> reads (read_many rd (length xs)) xs (concat (map wr xs))"
proof (induction xs)
  case Nil
  then show ?case by (simp add: reads_def ret_def)
next
  case (Cons x xs)
  then have "reads rd x (wr x)" and "reads (read_many rd (length xs)) xs (concat (map wr xs))"
    by (simp_all add: read_written)
  then show ?case by (simp add: reads_def reads_rbind rbind_def ret_def)
qed

lemma written_inj: "ok x \<Longrightarrow> ok y \<Longrightarrow> wr x = wr y \<Longrightarrow> x = y"
  by (metis decode_written sum.inject(2))

end

locale exact_codec = codec +
  assumes written_read: "rd buf = Inr (x, rest) \<Longrightarrow> ok x \<and> buf = wr x @ rest"
begin

lemma read_iff: "rd buf = Inr (x, rest) \<longleftrightarrow> ok x \<and> buf = wr x @ rest"
  using written_read readsD [OF read_written] by blast

lemma decode_iff: "decode rd buf = Inr x \<longleftrightarrow> ok x \<and> buf = wr x"
proof
  assume "decode rd buf = Inr x"
  then have "rd buf = Inr (x, [])"
    by (auto simp: decode_def split: sum.splits if_splits)
  then show "ok x \<and> buf = wr x" by (simp add: read_iff)
qed (simp add: decode_written)

lemma read_many_read:
  "read_many rd n buf = Inr (xs, rest) \<Longrightarrow>
     length xs = n \<and> list_all ok xs \<and> buf = concat (map wr xs) @ rest"
proof (induction n arbitrary: buf xs)
  case 0
  then show ?case by (simp add: ret_Inr)
next
  case (Suc n)
  from Suc.prems obtain x mid ys where "rd buf = Inr (x, mid)"
    and "read_many rd n mid = Inr (ys, rest)" and "xs = x # ys"
    by (auto simp: rbind_Inr ret_Inr)
  with Suc.IH [of mid ys] show ?case by (simp add: read_iff)
qed

end

end
