(* ===== verification/Ordered_Map.thy ===== *)
theory Ordered_Map
  imports Prelude
begin

text \<open>
  \<open>std::collections::BTreeMap\<close>. The contract is the locale \<open>ordered_map\<close>: lookups after
  inserts and removals, iteration in strictly increasing key order, and, proved once there,
  how the number of entries with a property moves with each update and that the contents
  determine the iteration. The model is an association list kept in key order, so
  iteration order, positions and the evaluation of closed maps are those of the source.
\<close>

section \<open>The contract\<close>

locale ordered_map =
  fixes get :: "'m \<Rightarrow> 'k::linorder \<Rightarrow> 'v option"
    and ins :: "'k \<Rightarrow> 'v \<Rightarrow> 'm \<Rightarrow> 'm"
    and del :: "'k \<Rightarrow> 'm \<Rightarrow> 'm"
    and entries :: "'m \<Rightarrow> ('k \<times> 'v) list"
    and ok :: "'m \<Rightarrow> bool"
  assumes ok_ins: "ok m \<Longrightarrow> ok (ins k v m)"
    and ok_del: "ok m \<Longrightarrow> ok (del k m)"
    and keys_increase: "ok m \<Longrightarrow> sorted_wrt (<) (map fst (entries m))"
    and get_entry: "ok m \<Longrightarrow> get m k = Some v \<longleftrightarrow> (k, v) \<in> set (entries m)"
    and get_ins: "ok m \<Longrightarrow> get (ins k v m) k' = (if k' = k then Some v else get m k')"
    and get_del: "ok m \<Longrightarrow> get (del k m) k' = (if k' = k then None else get m k')"
begin

lemma distinct_keys: "ok m \<Longrightarrow> distinct (map fst (entries m))"
  using keys_increase strict_sorted_iff by blast

lemma count_card:
  assumes "ok m"
  shows "length (filter P (entries m)) = card {k. \<exists>v. get m k = Some v \<and> P (k, v)}"
proof -
  let ?es = "filter P (entries m)"
  have "distinct (map fst ?es)"
    using distinct_keys [OF assms] by (simp add: distinct_map_filter)
  then have "length ?es = card (fst ` set ?es)"
    using distinct_card [of "map fst ?es"] by simp
  moreover have "fst ` set ?es = {k. \<exists>v. get m k = Some v \<and> P (k, v)}"
    by (force simp: get_entry [OF assms])
  ultimately show ?thesis by simp
qed

lemma finite_count:
  assumes "ok m"
  shows "finite {k. \<exists>v. get m k = Some v \<and> P (k, v)}"
proof -
  have "{k. \<exists>v. get m k = Some v \<and> P (k, v)} \<subseteq> fst ` set (entries m)"
    by (force simp: get_entry [OF assms])
  then show ?thesis by (rule finite_subset) simp
qed

lemma count_ins:
  assumes "ok m"
  shows "length (filter P (entries (ins k v m))) +
      (case get m k of None \<Rightarrow> 0 | Some u \<Rightarrow> if P (k, u) then 1 else 0) =
    length (filter P (entries m)) + (if P (k, v) then 1 else 0)"
proof -
  define R where "R = {k'. k' \<noteq> k \<and> (\<exists>u. get m k' = Some u \<and> P (k', u))}"
  have fin: "finite R"
    by (rule finite_subset [OF _ finite_count [OF assms, of P]]) (auto simp: R_def)
  have card_R: "card (insert k R) = Suc (card R)"
    by (rule card_insert_disjoint [OF fin]) (simp add: R_def)
  have "{k'. \<exists>u. get (ins k v m) k' = Some u \<and> P (k', u)} =
      (if P (k, v) then insert k R else R)"
    by (auto simp: R_def get_ins [OF assms])
  moreover have "{k'. \<exists>u. get m k' = Some u \<and> P (k', u)} =
      (case get m k of None \<Rightarrow> R | Some u \<Rightarrow> if P (k, u) then insert k R else R)"
    by (auto simp: R_def split: option.split)
  ultimately show ?thesis
    unfolding count_card [OF assms] count_card [OF ok_ins [OF assms]]
    by (cases "get m k") (simp_all add: card_R)
qed

lemma count_del:
  assumes "ok m"
  shows "length (filter P (entries (del k m))) +
      (case get m k of None \<Rightarrow> 0 | Some u \<Rightarrow> if P (k, u) then 1 else 0) =
    length (filter P (entries m))"
proof -
  define R where "R = {k'. k' \<noteq> k \<and> (\<exists>u. get m k' = Some u \<and> P (k', u))}"
  have fin: "finite R"
    by (rule finite_subset [OF _ finite_count [OF assms, of P]]) (auto simp: R_def)
  have card_R: "card (insert k R) = Suc (card R)"
    by (rule card_insert_disjoint [OF fin]) (simp add: R_def)
  have "{k'. \<exists>u. get (del k m) k' = Some u \<and> P (k', u)} = R"
    by (auto simp: R_def get_del [OF assms])
  moreover have "{k'. \<exists>u. get m k' = Some u \<and> P (k', u)} =
      (case get m k of None \<Rightarrow> R | Some u \<Rightarrow> if P (k, u) then insert k R else R)"
    by (auto simp: R_def split: option.split)
  ultimately show ?thesis
    unfolding count_card [OF assms] count_card [OF ok_del [OF assms]]
    by (cases "get m k") (simp_all add: card_R)
qed

text \<open>Two maps with the same contents are iterated the same way.\<close>

lemma entries_determined:
  assumes "ok m" and "ok m'" and "\<And>k. get m k = get m' k"
  shows "entries m = entries m'"
proof -
  have set_eq: "set (entries m) = set (entries m')"
    using get_entry [OF assms(1)] get_entry [OF assms(2)] assms(3)
    by (metis (no_types, lifting) subrelI subset_antisym)
  have keys: "map fst (entries m) = map fst (entries m')"
    using keys_increase [OF assms(1)] keys_increase [OF assms(2)] set_eq
    by (intro strict_sorted_equal) simp_all
  have inj: "inj_on fst (set (entries m) \<union> set (entries m'))"
    using distinct_keys [OF assms(1)] set_eq by (simp add: distinct_map)
  from inj keys show ?thesis by (rule map_inj_on [rotated])
qed

end

section \<open>The model\<close>

type_synonym ('k, 'v) btree = "('k \<times> 'v) list"

definition bt_get :: "('k, 'v) btree \<Rightarrow> 'k \<Rightarrow> 'v option" where
  "bt_get m k = map_of m k"

fun bt_insert :: "'k::linorder \<Rightarrow> 'v \<Rightarrow> ('k, 'v) btree \<Rightarrow> ('k, 'v) btree" where
  "bt_insert k v [] = [(k, v)]"
| "bt_insert k v (e # es) =
     (if k = fst e then (k, v) # es
      else if k < fst e then (k, v) # e # es
      else e # bt_insert k v es)"

fun bt_remove :: "'k \<Rightarrow> ('k, 'v) btree \<Rightarrow> ('k, 'v) btree" where
  "bt_remove k [] = []"
| "bt_remove k (e # es) = (if k = fst e then es else e # bt_remove k es)"

text \<open>\<open>keys().position(|k| k == key)\<close>: \<open>None\<close> when the key is absent.\<close>

fun position :: "('a \<Rightarrow> bool) \<Rightarrow> 'a list \<Rightarrow> nat option" where
  "position P [] = None"
| "position P (x # xs) = (if P x then Some 0 else map_option Suc (position P xs))"

definition bt_position :: "'k \<Rightarrow> ('k, 'v) btree \<Rightarrow> nat option" where
  "bt_position k m = position (\<lambda>k'. k' = k) (map fst m)"

definition bt_ok :: "('k::linorder, 'v) btree \<Rightarrow> bool" where
  "bt_ok m \<longleftrightarrow> sorted_wrt (<) (map fst m)"

lemma bt_ok_simps [simp]:
  "bt_ok []"
  "bt_ok (e # m) \<longleftrightarrow> (\<forall>x \<in> set m. fst e < fst x) \<and> bt_ok m"
  by (auto simp: bt_ok_def)

lemma set_bt_insert: "set (bt_insert k v m) \<subseteq> insert (k, v) (set m)"
  by (induction m) auto

lemma fst_bt_insert: "fst ` set (bt_insert k v m) = insert k (fst ` set m)"
  by (induction m) (auto simp: image_iff)

lemma set_bt_remove: "set (bt_remove k m) \<subseteq> set m"
  by (induction m) auto

lemma bt_ok_insert: "bt_ok m \<Longrightarrow> bt_ok (bt_insert k v m)"
proof (induction m)
  case Nil
  then show ?case by simp
next
  case (Cons e m)
  then show ?case using set_bt_insert [of k v m] by fastforce
qed

lemma bt_ok_remove: "bt_ok m \<Longrightarrow> bt_ok (bt_remove k m)"
proof (induction m)
  case Nil
  then show ?case by simp
next
  case (Cons e m)
  then show ?case using set_bt_remove [of k m] by auto
qed

lemma bt_get_insert [btree_simps]:
  "bt_get (bt_insert k v m) k' = (if k' = k then Some v else bt_get m k')"
  by (induction m) (auto simp: bt_get_def)

lemma bt_get_absent:
  "\<forall>x \<in> set m. k < fst x \<Longrightarrow> bt_get (m :: ('k::linorder, 'v) btree) k = None"
  by (induction m) (auto simp: bt_get_def)

lemma bt_get_remove [btree_simps]:
  "bt_ok m \<Longrightarrow> bt_get (bt_remove k m) k' = (if k' = k then None else bt_get m k')"
proof (induction m)
  case Nil
  then show ?case by (simp add: bt_get_def)
next
  case (Cons e m)
  then have "bt_get m (fst e) = None" by (intro bt_get_absent) simp
  with Cons show ?case by (auto simp: bt_get_def)
qed

lemma bt_get_iff: "bt_ok m \<Longrightarrow> bt_get m k = Some v \<longleftrightarrow> (k, v) \<in> set m"
  by (simp add: bt_get_def bt_ok_def map_of_eq_Some_iff strict_sorted_iff)

interpretation bt: ordered_map bt_get bt_insert bt_remove "\<lambda>m. m" bt_ok
  by unfold_locales
    (simp_all add: bt_ok_insert bt_ok_remove bt_get_iff bt_get_insert bt_get_remove,
      simp add: bt_ok_def)

lemmas bt_ok_updates [btree_simps] = bt.ok_ins bt.ok_del

section \<open>Positions\<close>

lemma position_Some:
  "position P xs = Some i \<Longrightarrow> i < length xs \<and> P (xs ! i) \<and> (\<forall>j < i. \<not> P (xs ! j))"
proof (induction xs arbitrary: i)
  case Nil
  then show ?case by simp
next
  case (Cons x xs)
  then show ?case by (fastforce simp: nth_Cons split: if_splits nat.splits)
qed

lemma position_None: "position P xs = None \<longleftrightarrow> (\<forall>x \<in> set xs. \<not> P x)"
  by (induction xs) auto

lemma bt_position_insert:
  "\<exists>i. bt_position k (bt_insert k v m) = Some i"
proof (rule ccontr)
  assume "\<nexists>i. bt_position k (bt_insert k v m) = Some i"
  then have "k \<notin> fst ` set (bt_insert k v m)"
    by (auto simp: bt_position_def position_None)
  then show False by (simp add: fst_bt_insert)
qed

text \<open>An update keeps every slot, an insert of a new key opens one slot, a removal closes
  one.\<close>

lemma bt_insert_update:
  "bt_ok m \<Longrightarrow> bt_get m k = Some u \<Longrightarrow> bt_position k (bt_insert k v m) = Some i \<Longrightarrow>
     i < length m \<and> bt_insert k v m = m[i := (k, v)] \<and> bt_position k m = Some i"
proof (induction m arbitrary: i)
  case Nil
  then show ?case by (simp add: bt_get_def)
next
  case (Cons e m)
  show ?case
  proof (cases "k = fst e")
    case True
    with Cons.prems show ?thesis by (simp add: bt_position_def)
  next
    case False
    with Cons.prems have get: "bt_get m k = Some u" by (simp add: bt_get_def)
    with Cons.prems have lt: "fst e < k"
      by (metis bt_get_iff bt_ok_simps(2) fst_conv)
    then have "\<not> k < fst e" by simp
    with False Cons.prems(3) obtain j where
      "i = Suc j" "bt_position k (bt_insert k v m) = Some j"
      by (auto simp: bt_position_def)
    with Cons.IH [OF _ get this(2)] Cons.prems(1) False lt show ?thesis
      by (auto simp: bt_position_def)
  qed
qed

lemma bt_insert_new:
  "bt_ok m \<Longrightarrow> bt_get m k = None \<Longrightarrow> bt_position k (bt_insert k v m) = Some i \<Longrightarrow>
     i \<le> length m \<and> bt_insert k v m = take i m @ (k, v) # drop i m"
proof (induction m arbitrary: i)
  case Nil
  then show ?case by (simp add: bt_position_def)
next
  case (Cons e m)
  from Cons.prems have ne: "k \<noteq> fst e" and get: "bt_get m k = None"
    by (auto simp: bt_get_def split: if_splits)
  show ?case
  proof (cases "k < fst e")
    case True
    with ne Cons.prems show ?thesis by (simp add: bt_position_def)
  next
    case False
    with ne Cons.prems obtain j where "i = Suc j" "bt_position k (bt_insert k v m) = Some j"
      by (auto simp: bt_position_def)
    with Cons.IH [OF _ get this(2)] Cons.prems(1) False ne show ?thesis by simp
  qed
qed

lemma bt_remove_at:
  "bt_position k m = Some i \<Longrightarrow>
     i < length m \<and> bt_remove k m = take i m @ drop (Suc i) m"
proof (induction m arbitrary: i)
  case Nil
  then show ?case by (simp add: bt_position_def)
next
  case (Cons e m)
  then show ?case by (fastforce simp: bt_position_def split: if_splits)
qed

lemma bt_position_get: "bt_position k m = None \<longleftrightarrow> bt_get m k = None"
  by (auto simp: bt_position_def position_None bt_get_def map_of_eq_None_iff)

lemma bt_remove_absent: "bt_get m k = None \<Longrightarrow> bt_remove k m = m"
  by (induction m) (auto simp: bt_get_def split: if_splits)

lemma get_updates:
  "bt_get (bt_insert k v m) = (bt_get m)(k \<mapsto> v)"
  "bt_ok m \<Longrightarrow> bt_get (bt_remove k m) = (bt_get m)(k := None)"
  by (simp_all add: fun_eq_iff bt_get_insert bt_get_remove)

section \<open>Sums over the entries\<close>

lemma bt_sum_insert:
  "bt_ok m \<Longrightarrow> (\<Sum>e\<leftarrow>bt_insert k v m. f e) + (case bt_get m k of None \<Rightarrow> 0 | Some u \<Rightarrow> f (k, u)) =
     (\<Sum>e\<leftarrow>m. f e :: nat) + f (k, v)"
proof (induction m)
  case (Cons e m)
  have "bt_get m k = None" if "k < fst e"
    using Cons.prems that by (intro bt_get_absent) auto
  with Cons show ?case by (cases e) (auto simp: bt_get_def)
qed (simp add: bt_get_def)

lemma bt_sum_remove:
  "bt_ok m \<Longrightarrow> (\<Sum>e\<leftarrow>bt_remove k m. f e) + (case bt_get m k of None \<Rightarrow> 0 | Some u \<Rightarrow> f (k, u)) =
     (\<Sum>e\<leftarrow>m. f e :: nat)"
  by (induction m) (auto simp: bt_get_def)

end
