(* ===== verification/Crypto.thy ===== *)
theory Crypto
  imports Prelude
begin

text \<open>
  The cryptography the program calls but does not implement, as one record that every
  definition using it takes as its argument: SHA-256 and the Merkle hash of the
  \<open>ethereum_hashing\<close> crate, and the key and signature types of \<open>commonware_cryptography\<close>.
  A public key or signature is the byte array it encodes to; \<open>ed_key_ok\<close> and \<open>bls_key_ok\<close>
  tell which arrays decode. Nothing is assumed of these functions except, where a theorem
  names it, \<open>zero_hashes_ok\<close>: the documented table of hashes of all-zero subtrees.
\<close>

type_synonym bytes32 = "256 word"
type_synonym bytes48 = "384 word"
type_synonym bytes64 = "512 word"
type_synonym bytes96 = "768 word"
type_synonym address = "160 word"

type_synonym digest = bytes32
type_synonym node_key = bytes32
type_synonym bls_key = bytes48

record crypto =
  hash32_concat :: "bytes32 \<Rightarrow> bytes32 \<Rightarrow> bytes32"
  ZERO_HASHES :: "nat \<Rightarrow> bytes32"
  sha256 :: "u8 list \<Rightarrow> digest"
  ed_key_ok :: "node_key \<Rightarrow> bool"
  bls_key_ok :: "bls_key \<Rightarrow> bool"
  ed_sig_ok :: "bytes64 \<Rightarrow> bool"
  bls_sig_ok :: "bytes96 \<Rightarrow> bool"
  ed_verify :: "node_key \<Rightarrow> digest \<Rightarrow> bytes64 \<Rightarrow> bool"
  bls_verify :: "bls_key \<Rightarrow> digest \<Rightarrow> bytes96 \<Rightarrow> bool"

definition zero_hashes_ok :: "crypto \<Rightarrow> bool" where
  "zero_hashes_ok c \<longleftrightarrow>
     ZERO_HASHES c 0 = 0 \<and>
     (\<forall>d. ZERO_HASHES c (Suc d) = hash32_concat c (ZERO_HASHES c d) (ZERO_HASHES c d))"

lemma zero_hashes_0: "zero_hashes_ok c \<Longrightarrow> ZERO_HASHES c 0 = 0"
  and zero_hashes_Suc:
    "zero_hashes_ok c \<Longrightarrow>
       ZERO_HASHES c (Suc d) = hash32_concat c (ZERO_HASHES c d) (ZERO_HASHES c d)"
  by (simp_all add: zero_hashes_ok_def)

text \<open>A small instance for evaluating closed terms: the hash is linear, every key decodes, and
  the signature 1 is the one that verifies.\<close>

definition demo_crypto :: crypto where
  "demo_crypto = \<lparr>
     hash32_concat = (\<lambda>a b. 3 * a + b), ZERO_HASHES = (\<lambda>d. 0),
     sha256 = (\<lambda>bs. word_of_nat (length bs)),
     ed_key_ok = (\<lambda>k. True), bls_key_ok = (\<lambda>k. True),
     ed_sig_ok = (\<lambda>s. True), bls_sig_ok = (\<lambda>s. True),
     ed_verify = (\<lambda>k d s. s = 1), bls_verify = (\<lambda>k d s. s = 1) \<rparr>"

lemma demo_crypto_simps [simp]:
  "hash32_concat demo_crypto a b = 3 * a + b"
  "ZERO_HASHES demo_crypto d = 0"
  "sha256 demo_crypto bs = word_of_nat (length bs)"
  "ed_key_ok demo_crypto k" "bls_key_ok demo_crypto bk"
  "ed_sig_ok demo_crypto es" "bls_sig_ok demo_crypto bs'"
  "ed_verify demo_crypto k dg es \<longleftrightarrow> es = 1"
  "bls_verify demo_crypto bk dg bs' \<longleftrightarrow> bs' = 1"
  by (simp_all add: demo_crypto_def)

lemma demo_zero_hashes [simp]: "zero_hashes_ok demo_crypto"
  by (simp add: zero_hashes_ok_def)

end
