(* ===== verification/Ssz_Tree.thy ===== *)
theory Ssz_Tree
  imports Crypto
begin

text \<open>
  \<open>types/src/ssz_tree.rs\<close>: the array-based binary Merkle tree. Node 1 is the root, node
  \<open>i\<close> has children \<open>2 * i\<close> and \<open>2 * i + 1\<close>, the leaves are the nodes from \<open>capacity\<close> on.

  The definitions follow the source; the reference is \<open>merkle_root\<close>, the textbook root of a
  list of \<open>2 ^ k\<close> leaves. Shown: a tree whose internal nodes are the hashes of their children
  (\<open>hashed\<close>) is determined by its leaves and its root is the reference root; the incremental
  \<open>set_leaf\<close>, \<open>grow\<close> and \<open>shrink\<close> keep that and change the leaves as they say;
  \<open>merkleize\<close> computes the reference root of the padded chunks; a generated proof verifies,
  and a proof that verifies for another leaf value exhibits a hash collision.
  Indices are \<open>usize\<close> values far below the machine limit and are natural numbers here.
\<close>

unbundle bit_operations_syntax

section \<open>Powers of two\<close>

fun next_power_of_two :: "nat \<Rightarrow> nat" where
  "next_power_of_two n = (if n \<le> 1 then 1 else 2 * next_power_of_two ((n + 1) div 2))"

fun ilog2 :: "nat \<Rightarrow> nat" where
  "ilog2 n = (if n \<le> 1 then 0 else Suc (ilog2 (n div 2)))"

declare next_power_of_two.simps [simp del] ilog2.simps [simp del]

lemma next_power_of_two_ge: "n \<le> next_power_of_two n"
proof (induction n rule: next_power_of_two.induct)
  case (1 n)
  then show ?case by (subst next_power_of_two.simps) auto
qed

lemma next_power_of_two_pow: "\<exists>k. next_power_of_two n = 2 ^ k"
proof (induction n rule: next_power_of_two.induct)
  case (1 n)
  show ?case
  proof (cases "n \<le> 1")
    case True
    then show ?thesis by (subst next_power_of_two.simps) (auto intro: exI [of _ 0])
  next
    case False
    with 1 obtain k where "next_power_of_two ((n + 1) div 2) = 2 ^ k" by blast
    with False show ?thesis by (subst next_power_of_two.simps) (auto intro: exI [of _ "Suc k"])
  qed
qed

lemma next_power_of_two_least: "n \<le> 2 ^ k \<Longrightarrow> next_power_of_two n \<le> 2 ^ k"
proof (induction k arbitrary: n)
  case 0
  then show ?case by (simp add: next_power_of_two.simps)
next
  case (Suc k)
  show ?case
  proof (cases "n \<le> 1")
    case True
    then show ?thesis by (simp add: next_power_of_two.simps)
  next
    case False
    from Suc.prems have "(n + 1) div 2 \<le> 2 ^ k" by simp
    with Suc.IH False show ?thesis by (subst next_power_of_two.simps) simp
  qed
qed

lemma next_power_of_two_exact [simp]: "next_power_of_two (2 ^ k) = 2 ^ k"
  using next_power_of_two_ge [of "2 ^ k"] next_power_of_two_least [of "2 ^ k" k] by simp

lemma next_power_of_two_pos [simp]: "0 < next_power_of_two n"
  using next_power_of_two_pow [of n] by auto

lemma ilog2_pow [simp]: "ilog2 (2 ^ k) = k"
proof (induction k)
  case 0
  then show ?case by (simp add: ilog2.simps)
next
  case (Suc k)
  have "(1 :: nat) \<le> 2 ^ k" by simp
  then have "\<not> (2 :: nat) ^ Suc k \<le> 1" unfolding power_Suc by linarith
  with Suc show ?case by (subst ilog2.simps) simp
qed

section \<open>The tree\<close>

record ssz_tree =
  nodes :: "bytes32 list"
  capacity :: nat
  depth :: nat

text \<open>\<open>*node = hash32_concat(left, right)\<close> at node \<open>i\<close>.\<close>

definition rehash_node :: "crypto \<Rightarrow> nat \<Rightarrow> bytes32 list \<Rightarrow> bytes32 list" where
  "rehash_node c i ns = ns[i := hash32_concat c (ns ! (2 * i)) (ns ! (2 * i + 1))]"

definition ssz_new :: "crypto \<Rightarrow> nat \<Rightarrow> ssz_tree" where
  "ssz_new c num_leaves =
     (let cap = max (next_power_of_two num_leaves) 1;
          dep = ilog2 cap;
          ns = replicate (2 * cap) 0;
          ns' = fold (\<lambda>d xs. fold (\<lambda>i ys. ys[i := ZERO_HASHES c d])
                       [cap div 2 ^ d ..< cap div 2 ^ (d - 1)] xs)
                  [1 ..< Suc dep] ns
      in \<lparr>nodes = ns', capacity = cap, depth = dep\<rparr>)"

definition ssz_root :: "ssz_tree \<Rightarrow> bytes32" where
  "ssz_root t = (if capacity t = 0 then 0 else nodes t ! 1)"

definition get_leaf :: "ssz_tree \<Rightarrow> nat \<Rightarrow> bytes32" where
  "get_leaf t leaf_index = nodes t ! (capacity t + leaf_index)"

definition get_node :: "ssz_tree \<Rightarrow> nat \<Rightarrow> bytes32" where
  "get_node t node_index = nodes t ! node_index"

text \<open>The loop of \<open>set_leaf\<close>: rehash every ancestor of node \<open>i\<close> up to the root.\<close>

fun rehash_path :: "crypto \<Rightarrow> nat \<Rightarrow> bytes32 list \<Rightarrow> bytes32 list" where
  "rehash_path c i ns = (if 1 < i then rehash_path c (i div 2) (rehash_node c (i div 2) ns) else ns)"

declare rehash_path.simps [simp del]

definition set_leaf :: "crypto \<Rightarrow> nat \<Rightarrow> bytes32 \<Rightarrow> ssz_tree \<Rightarrow> ssz_tree" where
  "set_leaf c leaf_index v t =
     (let i = capacity t + leaf_index
      in t\<lparr>nodes := rehash_path c i ((nodes t)[i := v])\<rparr>)"

definition set_leaf_no_rehash :: "nat \<Rightarrow> bytes32 \<Rightarrow> ssz_tree \<Rightarrow> ssz_tree" where
  "set_leaf_no_rehash leaf_index v t = t\<lparr>nodes := (nodes t)[capacity t + leaf_index := v]\<rparr>"

text \<open>One level of a bottom-up pass: nodes \<open>from ..< to\<close>, skipping indices whose children
  are outside the array.\<close>

definition rehash_span :: "crypto \<Rightarrow> nat \<Rightarrow> nat \<Rightarrow> bytes32 list \<Rightarrow> bytes32 list" where
  "rehash_span c from to ns =
     fold (\<lambda>i xs. if i * 2 + 1 < length xs then rehash_node c i xs else xs) [from ..< to] ns"

fun rehash_levels :: "crypto \<Rightarrow> nat \<Rightarrow> bytes32 list \<Rightarrow> bytes32 list" where
  "rehash_levels c level_start ns =
     (if 1 \<le> level_start then
        let ns' = rehash_span c level_start (level_start * 2) ns
        in if level_start = 1 then ns' else rehash_levels c (level_start div 2) ns'
      else ns)"

declare rehash_levels.simps [simp del]

definition rehash_from :: "crypto \<Rightarrow> nat \<Rightarrow> ssz_tree \<Rightarrow> ssz_tree" where
  "rehash_from c start_index t = t\<lparr>nodes := rehash_levels c start_index (nodes t)\<rparr>"

definition rehash_block :: "crypto \<Rightarrow> nat \<Rightarrow> nat \<Rightarrow> ssz_tree \<Rightarrow> ssz_tree" where
  "rehash_block c slot block_size t =
     t\<lparr>nodes := fold (\<lambda>level xs.
          let stride = block_size div 2 ^ level;
              start = capacity t div 2 ^ level + slot * stride
          in fold (rehash_node c) [start ..< start + stride] xs)
        [1 ..< Suc (ilog2 block_size)] (nodes t)\<rparr>"

fun rehash_suffix :: "crypto \<Rightarrow> nat \<Rightarrow> nat \<Rightarrow> bytes32 list \<Rightarrow> bytes32 list" where
  "rehash_suffix c ls from ns =
     (let ns' = rehash_span c from (ls * 2) ns
      in if ls \<le> 1 then ns' else rehash_suffix c (ls div 2) (from div 2) ns')"

declare rehash_suffix.simps [simp del]

definition rehash_from_position :: "crypto \<Rightarrow> nat \<Rightarrow> nat \<Rightarrow> ssz_tree \<Rightarrow> ssz_tree" where
  "rehash_from_position c level_start from_node t =
     (if level_start = 0 then t
      else t\<lparr>nodes := rehash_suffix c level_start from_node (nodes t)\<rparr>)"

text \<open>\<open>slice.copy_within(src .. src + n, dst)\<close>: the source is read before it is written.\<close>

definition copy_within :: "nat \<Rightarrow> nat \<Rightarrow> nat \<Rightarrow> 'a list \<Rightarrow> 'a list" where
  "copy_within src n dst xs = take dst xs @ take n (drop src xs) @ drop (dst + n) xs"

definition fill :: "nat \<Rightarrow> nat \<Rightarrow> 'a \<Rightarrow> 'a list \<Rightarrow> 'a list" where
  "fill from n v xs = fold (\<lambda>i ys. ys[i := v]) [from ..< from + n] xs"

definition shift_right_level :: "nat \<Rightarrow> nat \<Rightarrow> nat \<Rightarrow> nat \<Rightarrow> nat \<Rightarrow> bytes32 list \<Rightarrow> bytes32 list" where
  "shift_right_level cap from_slot count block_size level xs =
     (let stride = block_size div 2 ^ level;
          src_start = cap div 2 ^ level + from_slot * stride
      in fill src_start stride 0 (copy_within src_start (count * stride) (src_start + stride) xs))"

definition shift_blocks_right :: "nat \<Rightarrow> nat \<Rightarrow> nat \<Rightarrow> ssz_tree \<Rightarrow> ssz_tree" where
  "shift_blocks_right from_slot count block_size t =
     (if count = 0 then t
      else t\<lparr>nodes := fold (shift_right_level (capacity t) from_slot count block_size)
               [0 ..< Suc (ilog2 block_size)] (nodes t)\<rparr>)"

definition shift_left_level :: "nat \<Rightarrow> nat \<Rightarrow> nat \<Rightarrow> nat \<Rightarrow> nat \<Rightarrow> bytes32 list \<Rightarrow> bytes32 list" where
  "shift_left_level cap from_slot count block_size level xs =
     (let stride = block_size div 2 ^ level;
          base = cap div 2 ^ level;
          src_start = base + (from_slot + 1) * stride;
          dst_start = base + from_slot * stride
      in fill (dst_start + count * stride) stride 0
           (copy_within src_start (count * stride) dst_start xs))"

definition shift_blocks_left :: "nat \<Rightarrow> nat \<Rightarrow> nat \<Rightarrow> ssz_tree \<Rightarrow> ssz_tree" where
  "shift_blocks_left from_slot count block_size t =
     (if count = 0 then t
      else t\<lparr>nodes := fold (shift_left_level (capacity t) from_slot count block_size)
               [0 ..< Suc (ilog2 block_size)] (nodes t)\<rparr>)"

definition grow :: "crypto \<Rightarrow> nat \<Rightarrow> ssz_tree \<Rightarrow> ssz_tree" where
  "grow c min_leaves t =
     (if min_leaves \<le> capacity t then t
      else let cap = next_power_of_two min_leaves;
               ns = replicate cap 0 @ drop (capacity t) (take (2 * capacity t) (nodes t))
                      @ replicate (cap - capacity t) 0
           in rehash_from c (cap div 2) \<lparr>nodes = ns, capacity = cap, depth = ilog2 cap\<rparr>)"

definition shrink :: "crypto \<Rightarrow> nat \<Rightarrow> ssz_tree \<Rightarrow> ssz_tree" where
  "shrink c min_leaves t =
     (let cap = next_power_of_two (max min_leaves 1)
      in if capacity t \<le> cap then t
         else rehash_from c (cap div 2)
                \<lparr>nodes = replicate cap 0 @ take cap (drop (capacity t) (nodes t)),
                 capacity = cap, depth = ilog2 cap\<rparr>)"


section \<open>Proofs and roots\<close>

fun node_siblings :: "bytes32 list \<Rightarrow> nat \<Rightarrow> bytes32 list" where
  "node_siblings ns idx =
     (if 1 < idx then ns ! (idx XOR 1) # node_siblings ns (idx div 2) else [])"

declare node_siblings.simps [simp del]

definition generate_proof_from_node :: "ssz_tree \<Rightarrow> nat \<Rightarrow> bytes32 list" where
  "generate_proof_from_node t node_index = node_siblings (nodes t) node_index"

primrec siblings :: "nat \<Rightarrow> bytes32 list \<Rightarrow> nat \<Rightarrow> bytes32 list" where
  "siblings 0 ns idx = []"
| "siblings (Suc k) ns idx = ns ! (idx XOR 1) # siblings k ns (idx div 2)"

definition generate_proof :: "ssz_tree \<Rightarrow> nat \<Rightarrow> bytes32 list" where
  "generate_proof t leaf_index = siblings (depth t) (nodes t) (capacity t + leaf_index)"

text \<open>The loop shared by the two verifiers: the hash and the index after the siblings.\<close>

fun climb :: "crypto \<Rightarrow> bytes32 \<Rightarrow> nat \<Rightarrow> bytes32 list \<Rightarrow> bytes32 \<times> nat" where
  "climb c hash idx [] = (hash, idx)"
| "climb c hash idx (s # proof) =
     climb c (if even idx then hash32_concat c hash s else hash32_concat c s hash) (idx div 2) proof"

definition verify_proof ::
  "crypto \<Rightarrow> bytes32 \<Rightarrow> nat \<Rightarrow> bytes32 \<Rightarrow> bytes32 list \<Rightarrow> nat \<Rightarrow> bool" where
  "verify_proof c root leaf_index leaf_value proof dep =
     (if length proof \<noteq> dep then False
      else fst (climb c leaf_value (2 ^ dep + leaf_index) proof) = root)"

definition leading_zeros :: "u64 \<Rightarrow> nat" where
  "leading_zeros g = (if g = 0 then 64 else 63 - ilog2 (unat g))"

definition verify_proof_gindex ::
  "crypto \<Rightarrow> bytes32 \<Rightarrow> u64 \<Rightarrow> bytes32 \<Rightarrow> bytes32 list \<Rightarrow> bool" where
  "verify_proof_gindex c root gindex leaf_value proof =
     (if gindex = 0 then False
      else if length proof \<noteq> 63 - leading_zeros gindex then False
      else let (hash, idx) = climb c leaf_value (unat gindex) proof in idx = 1 \<and> hash = root)"

definition mix_in_length :: "crypto \<Rightarrow> bytes32 \<Rightarrow> nat \<Rightarrow> bytes32" where
  "mix_in_length c root len =
     hash32_concat c root
       (from_be_bytes (to_le_bytes (word_of_nat len :: u64) @ replicate 24 0))"

fun hash_pairs :: "crypto \<Rightarrow> bytes32 list \<Rightarrow> bytes32 list" where
  "hash_pairs c (a # b # layer) = hash32_concat c a b # hash_pairs c layer"
| "hash_pairs c layer = []"

lemma length_hash_pairs [simp]: "length (hash_pairs c layer) = length layer div 2"
  by (induction c layer rule: hash_pairs.induct) simp_all

function merkle_layers :: "crypto \<Rightarrow> bytes32 list \<Rightarrow> bytes32" where
  "merkle_layers c layer =
     (if 1 < length layer then merkle_layers c (hash_pairs c layer) else layer ! 0)"
  by auto
termination by (relation "measure (\<lambda>(c, layer). length layer)") auto

declare merkle_layers.simps [simp del]

definition merkleize :: "crypto \<Rightarrow> bytes32 list \<Rightarrow> bytes32" where
  "merkleize c chunks =
     (if chunks = [] then ZERO_HASHES c 0
      else merkle_layers c
             (chunks @ replicate (next_power_of_two (length chunks) - length chunks) 0))"

section \<open>Well-formed, hashed trees\<close>

definition wf_tree :: "ssz_tree \<Rightarrow> bool" where
  "wf_tree t \<longleftrightarrow> capacity t = 2 ^ depth t \<and> length (nodes t) = 2 * capacity t \<and> nodes t ! 0 = 0"

definition leaves :: "ssz_tree \<Rightarrow> bytes32 list" where
  "leaves t = drop (capacity t) (nodes t)"

definition node_ok :: "crypto \<Rightarrow> bytes32 list \<Rightarrow> nat \<Rightarrow> bool" where
  "node_ok c ns i \<longleftrightarrow> ns ! i = hash32_concat c (ns ! (2 * i)) (ns ! (2 * i + 1))"

definition hashed :: "crypto \<Rightarrow> ssz_tree \<Rightarrow> bool" where
  "hashed c t \<longleftrightarrow> wf_tree t \<and> (\<forall>i. 0 < i \<longrightarrow> i < capacity t \<longrightarrow> node_ok c (nodes t) i)"

text \<open>The reference: the Merkle root of \<open>2 ^ k\<close> leaves.\<close>

primrec merkle_root :: "crypto \<Rightarrow> nat \<Rightarrow> bytes32 list \<Rightarrow> bytes32" where
  "merkle_root c 0 ls = ls ! 0"
| "merkle_root c (Suc k) ls =
     hash32_concat c (merkle_root c k (take (2 ^ k) ls)) (merkle_root c k (drop (2 ^ k) ls))"

lemma wf_tree_simps:
  assumes "wf_tree t"
  shows "capacity t = 2 ^ depth t" "length (nodes t) = 2 * capacity t" "nodes t ! 0 = 0"
    "0 < capacity t" "length (leaves t) = capacity t"
  using assms by (simp_all add: wf_tree_def leaves_def)

lemma hashed_wf: "hashed c t \<Longrightarrow> wf_tree t"
  by (simp add: hashed_def)

lemma hashed_node: "hashed c t \<Longrightarrow> 0 < i \<Longrightarrow> i < capacity t \<Longrightarrow> node_ok c (nodes t) i"
  by (simp add: hashed_def)

lemma nth_leaves: "wf_tree t \<Longrightarrow> i < capacity t \<Longrightarrow> leaves t ! i = nodes t ! (capacity t + i)"
  by (simp add: leaves_def wf_tree_def)

lemma get_leaf_leaves: "wf_tree t \<Longrightarrow> i < capacity t \<Longrightarrow> get_leaf t i = leaves t ! i"
  by (simp add: get_leaf_def nth_leaves)

text \<open>A hashed tree is determined by its leaves.\<close>

lemma hashed_nodes_eq:
  assumes t: "hashed c t" and u: "hashed c u" and ls: "leaves t = leaves u"
    and i: "i < 2 * capacity t"
  shows "nodes t ! i = nodes u ! i"
  using i
proof (induction "2 * capacity t - i" arbitrary: i rule: less_induct)
  case less
  note wt = wf_tree_simps [OF hashed_wf [OF t]] and wu = wf_tree_simps [OF hashed_wf [OF u]]
  from ls wt wu have cap: "capacity u = capacity t" by metis
  consider "i = 0" | "0 < i" "i < capacity t" | "capacity t \<le> i" by linarith
  then show ?case
  proof cases
    case 1
    then show ?thesis by (simp add: wt wu)
  next
    case 2
    then have "nodes t ! (2 * i) = nodes u ! (2 * i)" "nodes t ! (2 * i + 1) = nodes u ! (2 * i + 1)"
      by (auto intro!: less.hyps)
    with hashed_node [OF t 2] hashed_node [OF u, of i] 2 cap show ?thesis by (simp add: node_ok_def)
  next
    case 3
    with less.prems ls nth_leaves [OF hashed_wf [OF t], of "i - capacity t"]
      nth_leaves [OF hashed_wf [OF u], of "i - capacity t"] cap
    show ?thesis by simp
  qed
qed

lemma hashed_unique:
  assumes "hashed c t" "hashed c u" "leaves t = leaves u"
  shows "t = u"
proof -
  note wt = wf_tree_simps [OF hashed_wf [OF assms(1)]]
    and wu = wf_tree_simps [OF hashed_wf [OF assms(2)]]
  have cap: "capacity t = capacity u" using assms(3) wt(5) wu(5) by metis
  then have "depth t = depth u" using wt(1) wu(1) by (simp add: power_inject_exp)
  moreover have "nodes t = nodes u"
    by (rule nth_equalityI) (use wt wu cap hashed_nodes_eq [OF assms] in auto)
  ultimately show ?thesis using cap by (cases t; cases u) simp
qed

section \<open>Rehashing\<close>

lemma length_rehash_node [simp]: "length (rehash_node c i ns) = length ns"
  by (simp add: rehash_node_def)

lemma nth_rehash_node:
  "i < length ns \<Longrightarrow> rehash_node c i ns ! j =
     (if j = i then hash32_concat c (ns ! (2 * i)) (ns ! (2 * i + 1)) else ns ! j)"
  by (simp add: rehash_node_def nth_list_update)

lemma length_rehash_path [simp]: "length (rehash_path c i ns) = length ns"
proof (induction c i ns rule: rehash_path.induct)
  case (1 c i ns)
  then show ?case by (subst rehash_path.simps) simp
qed

text \<open>\<open>above i k\<close>: node \<open>k\<close> is a proper ancestor of node \<open>i\<close>.\<close>

definition above :: "nat \<Rightarrow> nat \<Rightarrow> bool" where
  "above i k \<longleftrightarrow> (\<exists>n. k = i div 2 ^ Suc n)"

lemma div_pow_Suc: "(i :: nat) div 2 ^ Suc n = i div 2 div 2 ^ n"
  by (simp only: power_Suc div_mult2_eq)

lemma above_half: "above i k \<longleftrightarrow> k = i div 2 \<or> above (i div 2) k"
proof
  assume "above i k"
  then obtain n where k: "k = i div 2 div 2 ^ n" unfolding above_def div_pow_Suc by blast
  show "k = i div 2 \<or> above (i div 2) k"
  proof (cases n)
    case 0
    then show ?thesis using k by simp
  next
    case (Suc m)
    then show ?thesis using k unfolding above_def by blast
  qed
next
  assume "k = i div 2 \<or> above (i div 2) k"
  then show "above i k"
  proof
    assume "k = i div 2"
    then have "k = i div 2 ^ Suc 0" by simp
    then show ?thesis unfolding above_def by blast
  next
    assume "above (i div 2) k"
    then obtain n where "k = i div 2 ^ Suc (Suc n)"
      unfolding above_def div_pow_Suc [of i "Suc _"] by blast
    then show ?thesis unfolding above_def by blast
  qed
qed

lemma above_le: "above i k \<Longrightarrow> k \<le> i div 2"
  unfolding above_def div_pow_Suc using div_le_dividend by blast

lemma above_child: "2 * k = i \<or> 2 * k + 1 = i \<Longrightarrow> above i k"
  by (subst above_half) auto

text \<open>Rehashing the path above \<open>i\<close> repairs every node that only its ancestors could break.\<close>

lemma rehash_path_below: "i div 2 < j \<Longrightarrow> rehash_path c i ns ! j = ns ! j"
proof (induction c i ns rule: rehash_path.induct)
  case (1 c i ns)
  show ?case
  proof (cases "1 < i")
    case True
    have "i div 2 div 2 < j" using 1(2) by (metis div_le_dividend le_less_trans)
    with 1(1) True have "rehash_path c i ns ! j = rehash_node c (i div 2) ns ! j"
      by (subst rehash_path.simps) simp
    also have "\<dots> = ns ! j" using 1(2) by (simp add: rehash_node_def)
    finally show ?thesis .
  next
    case False
    then show ?thesis by (simp add: rehash_path.simps)
  qed
qed

lemma rehash_path_ok:
  assumes "0 < i" "i < length ns" "length ns = 2 * cap"
    and "\<And>k. 0 < k \<Longrightarrow> k < cap \<Longrightarrow> \<not> above i k \<Longrightarrow> node_ok c ns k"
    and "0 < k" "k < cap"
  shows "node_ok c (rehash_path c i ns) k"
  using assms
proof (induction c i ns rule: rehash_path.induct)
  case (1 c i ns)
  show ?case
  proof (cases "1 < i")
    case True
    let ?j = "i div 2" and ?ns = "rehash_node c (i div 2) ns"
    have j: "0 < ?j" "?j < cap" "?j < length ns" using True 1(3,4) by auto
    have ok: "node_ok c ?ns k" if k: "0 < k" "k < cap" "\<not> above ?j k" for k
    proof (cases "k = ?j")
      case True
      then show ?thesis using j by (simp add: node_ok_def nth_rehash_node)
    next
      case False
      then have "node_ok c ns k" using 1(5) k above_half by blast
      moreover have "2 * k \<noteq> ?j" "2 * k + 1 \<noteq> ?j" using above_child k(3) by blast+
      ultimately show ?thesis using False j by (simp add: node_ok_def nth_rehash_node)
    qed
    have "node_ok c (rehash_path c ?j ?ns) k"
      by (rule 1(1)) (use True j ok 1(4,6,7) in \<open>simp_all (no_asm_simp)\<close>)
    then show ?thesis using True by (subst rehash_path.simps) simp
  next
    case False
    then have "i = 1" using 1(2) by simp
    then have "\<not> above i k" using 1(6) above_le by fastforce
    with 1(5,6,7) False show ?thesis by (subst rehash_path.simps) simp
  qed
qed

lemma rehash_path_0: "0 < i \<Longrightarrow> rehash_path c i ns ! 0 = ns ! 0"
proof (induction c i ns rule: rehash_path.induct)
  case (1 c i ns)
  then show ?case by (subst rehash_path.simps) (simp add: rehash_node_def)
qed

theorem set_leaf_hashed:
  assumes t: "hashed c t" and i: "i < capacity t"
  shows "hashed c (set_leaf c i v t)" "leaves (set_leaf c i v t) = (leaves t)[i := v]"
    "capacity (set_leaf c i v t) = capacity t" "depth (set_leaf c i v t) = depth t"
proof -
  note w = wf_tree_simps [OF hashed_wf [OF t]]
  let ?i = "capacity t + i" and ?ns = "(nodes t)[capacity t + i := v]"
  show cap: "capacity (set_leaf c i v t) = capacity t" "depth (set_leaf c i v t) = depth t"
    by (simp_all add: set_leaf_def Let_def)
  have ns: "nodes (set_leaf c i v t) = rehash_path c ?i ?ns"
    by (simp add: set_leaf_def Let_def)
  have base: "node_ok c ?ns k" if "0 < k" "k < capacity t" "\<not> above ?i k" for k
  proof -
    have "2 * k \<noteq> ?i" "2 * k + 1 \<noteq> ?i" using above_child that(3) by blast+
    then show ?thesis using hashed_node [OF t that(1,2)] that(2) by (simp add: node_ok_def)
  qed
  have "node_ok c (rehash_path c ?i ?ns) k" if "0 < k" "k < capacity t" for k
    by (rule rehash_path_ok [where cap = "capacity t"]) (use base i w(2,4) that in auto)
  moreover have "rehash_path c ?i ?ns ! 0 = 0" using w by (simp add: rehash_path_0)
  ultimately show "hashed c (set_leaf c i v t)"
    using w(1,2) by (simp add: hashed_def wf_tree_def cap ns)
  have "rehash_path c ?i ?ns ! (capacity t + k) = (leaves t)[i := v] ! k" if "k < capacity t" for k
  proof -
    have "rehash_path c ?i ?ns ! (capacity t + k) = ?ns ! (capacity t + k)"
      by (rule rehash_path_below) (use i that in linarith)
    then show ?thesis
      using w(2,5) i that by (simp add: nth_list_update nth_leaves hashed_wf [OF t])
  qed
  then show "leaves (set_leaf c i v t) = (leaves t)[i := v]"
    using w(2,5) by (intro nth_equalityI) (simp_all add: leaves_def cap ns)
qed

text \<open>One level pass, in closed form: the nodes of the span become the hashes of children
  that the pass itself does not touch.\<close>

lemma rehash_span_Suc:
  "from \<le> to \<Longrightarrow> rehash_span c from (Suc to) ns =
     (let xs = rehash_span c from to ns in if to * 2 + 1 < length xs then rehash_node c to xs else xs)"
  by (simp add: rehash_span_def Let_def)

lemma length_rehash_span [simp]: "length (rehash_span c from to ns) = length ns"
proof (induction to)
  case 0
  then show ?case by (simp add: rehash_span_def)
next
  case (Suc to)
  then show ?case
    by (cases "from \<le> to") (simp_all add: rehash_span_Suc Let_def, simp add: rehash_span_def)
qed

lemma nth_rehash_span:
  assumes "0 < from" "to \<le> 2 * from"
  shows "rehash_span c from to ns ! i =
    (if from \<le> i \<and> i < to \<and> 2 * i + 1 < length ns
     then hash32_concat c (ns ! (2 * i)) (ns ! (2 * i + 1)) else ns ! i)"
  using assms
proof (induction to arbitrary: i)
  case 0
  then show ?case by (simp add: rehash_span_def)
next
  case (Suc to)
  show ?case
  proof (cases "from \<le> to \<and> to * 2 + 1 < length ns")
    case True
    have "rehash_span c from to ns ! (2 * to) = ns ! (2 * to)"
      "rehash_span c from to ns ! (2 * to + 1) = ns ! (2 * to + 1)"
      using Suc True by simp_all
    with True Suc show ?thesis
      by (simp add: rehash_span_Suc Let_def nth_rehash_node mult.commute less_Suc_eq)
  next
    case False
    then have "rehash_span c from (Suc to) ns = rehash_span c from to ns"
      by (cases "from \<le> to") (simp_all add: rehash_span_Suc Let_def, simp add: rehash_span_def)
    with False Suc show ?thesis by (auto simp: less_Suc_eq mult.commute)
  qed
qed

lemma length_rehash_levels [simp]: "length (rehash_levels c ls ns) = length ns"
proof (induction c ls ns rule: rehash_levels.induct)
  case (1 c ls ns)
  show ?case
  proof (cases "1 < ls")
    case True
    with 1 show ?thesis by (subst rehash_levels.simps) (simp add: Let_def)
  next
    case False
    then show ?thesis by (subst rehash_levels.simps) (simp add: Let_def)
  qed
qed

text \<open>The pass from level \<open>2 ^ l\<close> to the root hashes every node from the root down to that
  level and leaves the nodes below as they are.\<close>

lemma rehash_span_level_ok:
  assumes len: "length ns = 2 * cap" and ls: "0 < ls"
    and below: "\<And>i. 2 * ls \<le> i \<Longrightarrow> i < cap \<Longrightarrow> node_ok c ns i"
    and i: "ls \<le> i" "i < cap"
  shows "node_ok c (rehash_span c ls (ls * 2) ns) i"
proof (cases "i < 2 * ls")
  case True
  then show ?thesis using assms by (simp add: node_ok_def nth_rehash_span)
next
  case False
  then show ?thesis using assms by (simp add: node_ok_def nth_rehash_span)
qed

lemma rehash_levels_ok:
  assumes "length ns = 2 * cap"
    and "\<And>i. 2 * 2 ^ l \<le> i \<Longrightarrow> i < cap \<Longrightarrow> node_ok c ns i" and "0 < i" "i < cap"
  shows "node_ok c (rehash_levels c (2 ^ l) ns) i"
  using assms
proof (induction l arbitrary: ns)
  case 0
  then show ?case using rehash_span_level_ok [of ns cap 1 c i] by (subst rehash_levels.simps) simp
next
  case (Suc l)
  let ?ns = "rehash_span c (2 ^ Suc l) (2 ^ Suc l * 2) ns"
  have ok: "node_ok c ?ns j" if "2 * 2 ^ l \<le> j" "j < cap" for j
    by (rule rehash_span_level_ok [where cap = cap]) (use Suc.prems that in auto)
  have "node_ok c (rehash_levels c (2 ^ l) ?ns) i"
    by (rule Suc.IH) (use Suc.prems ok in auto)
  then show ?case by (subst rehash_levels.simps) (simp add: Let_def)
qed

lemma rehash_levels_below: "2 * ls \<le> j \<or> j = 0 \<Longrightarrow> rehash_levels c ls ns ! j = ns ! j"
proof (induction c ls ns rule: rehash_levels.induct)
  case (1 c ls ns)
  let ?ns = "rehash_span c ls (ls * 2) ns"
  have span: "1 \<le> ls \<Longrightarrow> ?ns ! j = ns ! j" using 1(2) by (auto simp: nth_rehash_span)
  have "2 * (ls div 2) \<le> j \<or> j = 0" using 1(2) by linarith
  then have "1 \<le> ls \<Longrightarrow> ls \<noteq> 1 \<Longrightarrow> rehash_levels c (ls div 2) ?ns ! j = ?ns ! j"
    using 1(1) [of ?ns] by simp
  with span show ?case by (subst rehash_levels.simps) (auto simp: Let_def)
qed

text \<open>A full bottom-up pass from the leaf parents, as \<open>grow\<close> and \<open>shrink\<close> end with.\<close>

lemma rehash_all_hashed:
  assumes "wf_tree t"
  shows "hashed c (rehash_from c (capacity t div 2) t)"
    "leaves (rehash_from c (capacity t div 2) t) = leaves t"
proof -
  note w = wf_tree_simps [OF assms]
  let ?ns = "rehash_levels c (capacity t div 2) (nodes t)"
  have ok: "node_ok c ?ns i" if i: "0 < i" "i < capacity t" for i
  proof -
    from i obtain d where d: "depth t = Suc d" using w(1) by (cases "depth t") auto
    have "node_ok c (rehash_levels c (2 ^ d) (nodes t)) i"
      by (rule rehash_levels_ok [where cap = "capacity t"]) (use w(1,2) d i in auto)
    then show ?thesis using w(1) d by simp
  qed
  have keep: "?ns ! j = nodes t ! j" if "capacity t \<le> j \<or> j = 0" for j
    using that by (intro rehash_levels_below) auto
  show "hashed c (rehash_from c (capacity t div 2) t)"
    using w(1,2,3) ok keep [of 0] by (simp add: hashed_def wf_tree_def rehash_from_def)
  show "leaves (rehash_from c (capacity t div 2) t) = leaves t"
    by (rule nth_equalityI) (use w(2) keep in \<open>simp_all add: leaves_def rehash_from_def\<close>)
qed

lemma next_power_of_two_ilog2 [simp]: "2 ^ ilog2 (next_power_of_two n) = next_power_of_two n"
  using next_power_of_two_pow [of n] by auto

lemma grow_hashed:
  assumes t: "hashed c t"
  shows "hashed c (grow c n t)"
    "leaves (grow c n t) = leaves t @ replicate (capacity (grow c n t) - capacity t) 0"
    "capacity (grow c n t) = (if n \<le> capacity t then capacity t else next_power_of_two n)"
proof -
  note w = wf_tree_simps [OF hashed_wf [OF t]]
  let ?cap = "next_power_of_two n"
  let ?u = "\<lparr>nodes = replicate ?cap 0 @ drop (capacity t) (take (2 * capacity t) (nodes t))
                @ replicate (?cap - capacity t) 0, capacity = ?cap, depth = ilog2 ?cap\<rparr>"
  have g: "grow c n t = rehash_from c (capacity ?u div 2) ?u" if "\<not> n \<le> capacity t"
    using that by (simp add: grow_def Let_def)
  have wf: "wf_tree ?u" if "\<not> n \<le> capacity t"
    using that w(2) next_power_of_two_ge [of n] by (simp add: wf_tree_def nth_append)
  show "hashed c (grow c n t)"
  proof (cases "n \<le> capacity t")
    case True
    then show ?thesis using t by (simp add: grow_def)
  next
    case False
    show ?thesis unfolding g [OF False] by (rule rehash_all_hashed(1) [OF wf [OF False]])
  qed
  show cap: "capacity (grow c n t) = (if n \<le> capacity t then capacity t else ?cap)"
    by (simp add: grow_def Let_def rehash_from_def)
  show "leaves (grow c n t) = leaves t @ replicate (capacity (grow c n t) - capacity t) 0"
  proof (cases "n \<le> capacity t")
    case True
    then show ?thesis by (simp add: grow_def)
  next
    case False
    have "leaves (grow c n t) = leaves ?u"
      unfolding g [OF False] by (rule rehash_all_hashed(2) [OF wf [OF False]])
    then show ?thesis using False cap w(2) by (simp add: leaves_def)
  qed
qed

lemma shrink_hashed:
  assumes t: "wf_tree t"
  shows "hashed c t \<or> next_power_of_two (max n 1) < capacity t \<Longrightarrow> hashed c (shrink c n t)"
    "leaves (shrink c n t) = take (capacity (shrink c n t)) (leaves t)"
    "capacity (shrink c n t) = min (capacity t) (next_power_of_two (max n 1))"
proof -
  note w = wf_tree_simps [OF t]
  let ?cap = "next_power_of_two (max n 1)"
  let ?u = "\<lparr>nodes = replicate ?cap 0 @ take ?cap (drop (capacity t) (nodes t)),
              capacity = ?cap, depth = ilog2 ?cap\<rparr>"
  have g: "shrink c n t = rehash_from c (capacity ?u div 2) ?u" if "\<not> capacity t \<le> ?cap"
    using that by (simp add: shrink_def Let_def)
  have wf: "wf_tree ?u" if "\<not> capacity t \<le> ?cap"
    using that w(2) by (simp add: wf_tree_def nth_append)
  show "hashed c (shrink c n t)" if "hashed c t \<or> ?cap < capacity t"
  proof (cases "capacity t \<le> ?cap")
    case True
    then show ?thesis using that by (simp add: shrink_def)
  next
    case False
    show ?thesis unfolding g [OF False] by (rule rehash_all_hashed(1) [OF wf [OF False]])
  qed
  show cap: "capacity (shrink c n t) = min (capacity t) ?cap"
    by (simp add: shrink_def Let_def rehash_from_def)
  show "leaves (shrink c n t) = take (capacity (shrink c n t)) (leaves t)"
  proof (cases "capacity t \<le> ?cap")
    case True
    then show ?thesis using w(5) by (simp add: shrink_def)
  next
    case False
    have "leaves (shrink c n t) = leaves ?u"
      unfolding g [OF False] by (rule rehash_all_hashed(2) [OF wf [OF False]])
    then show ?thesis using False cap w(2) by (simp add: leaves_def)
  qed
qed

section \<open>The empty tree\<close>

lemma length_update_fold [simp]: "length (fold (\<lambda>i ys. ys[i := v]) is xs) = length xs"
  by (induction "is" arbitrary: xs) simp_all

lemma nth_update_fold:
  "fold (\<lambda>i ys. ys[i := v]) [a ..< b] xs ! j = (if a \<le> j \<and> j < b \<and> j < length xs then v else xs ! j)"
proof (induction b)
  case 0
  then show ?case by simp
next
  case (Suc b)
  then show ?case
    by (cases "a \<le> b"; cases "j = b"; cases "b < length xs")
      (auto simp: less_Suc_eq list_update_beyond)
qed

text \<open>The nodes of \<open>ssz_new\<close> after the levels \<open>1 .. e\<close>.\<close>

definition zero_levels :: "crypto \<Rightarrow> nat \<Rightarrow> nat \<Rightarrow> bytes32 list" where
  "zero_levels c dep e =
     fold (\<lambda>d xs. fold (\<lambda>i ys. ys[i := ZERO_HASHES c d]) [2 ^ dep div 2 ^ d ..< 2 ^ dep div 2 ^ (d - 1)] xs)
       [1 ..< Suc e] (replicate (2 * 2 ^ dep) 0)"

lemma zero_levels_Suc:
  "zero_levels c dep (Suc e) =
     fold (\<lambda>i ys. ys[i := ZERO_HASHES c (Suc e)]) [2 ^ dep div 2 ^ Suc e ..< 2 ^ dep div 2 ^ e]
       (zero_levels c dep e)"
  by (simp add: zero_levels_def)

lemma length_zero_levels [simp]: "length (zero_levels c dep e) = 2 * 2 ^ dep"
  by (induction e) (simp add: zero_levels_def, simp add: zero_levels_Suc)

lemma nth_zero_levels:
  assumes z: "zero_hashes_ok c" and "e \<le> dep" "d \<le> e" "2 ^ (dep - d) \<le> j" "j < 2 * 2 ^ (dep - d)"
  shows "zero_levels c dep e ! j = ZERO_HASHES c d"
  using assms(2-)
proof (induction e)
  case 0
  then show ?case using zero_hashes_0 [OF z] by (simp add: zero_levels_def)
next
  case (Suc e)
  have lev: "2 ^ dep div 2 ^ Suc e = (2 :: nat) ^ (dep - Suc e)" "2 ^ dep div 2 ^ e = (2 :: nat) ^ (dep - e)"
    using Suc.prems by (simp_all only: power_diff [symmetric] Suc_leD numeral_neq_zero not_False_eq_True)
  have half: "(2 :: nat) ^ (dep - e) = 2 * 2 ^ (dep - Suc e)"
    using Suc.prems by (simp flip: power_Suc add: Suc_diff_le)
  have "(2 :: nat) ^ (dep - d) \<le> 2 ^ dep" by (simp add: power_increasing)
  then have bound: "j < 2 * 2 ^ dep" using Suc.prems(4) by linarith
  show ?case
  proof (cases "d = Suc e")
    case True
    then show ?thesis using Suc.prems bound
      unfolding zero_levels_Suc lev nth_update_fold half by simp
  next
    case False
    then have d: "d \<le> e" using Suc.prems by simp
    then have "(2 :: nat) ^ (dep - e) \<le> 2 ^ (dep - d)" by (simp add: power_increasing)
    then have "\<not> j < 2 ^ (dep - e)" using Suc.prems(3) by linarith
    with d Suc show ?thesis unfolding zero_levels_Suc lev nth_update_fold by simp
  qed
qed

lemma nth_0_zero_levels: "e \<le> dep \<Longrightarrow> zero_levels c dep e ! 0 = 0"
proof (induction e)
  case 0
  then show ?case by (simp add: zero_levels_def)
next
  case (Suc e)
  then have "(0 :: nat) < 2 ^ dep div 2 ^ Suc e"
    by (simp add: div_greater_zero_iff power_increasing del: power_Suc)
  with Suc show ?case by (simp add: zero_levels_Suc nth_update_fold del: power_Suc)
qed

lemma ssz_new_levels:
  "ssz_new c n = \<lparr>nodes = zero_levels c (ilog2 (next_power_of_two n)) (ilog2 (next_power_of_two n)),
     capacity = next_power_of_two n, depth = ilog2 (next_power_of_two n)\<rparr>"
proof -
  have "max (next_power_of_two n) 1 = next_power_of_two n"
    using next_power_of_two_pos [of n] by linarith
  then show ?thesis by (simp add: ssz_new_def zero_levels_def Let_def)
qed

lemma node_level:
  "0 < i \<Longrightarrow> i < 2 ^ dep \<Longrightarrow>
     \<exists>d. d < dep \<and> 2 ^ (dep - Suc d) \<le> i \<and> i < 2 * 2 ^ (dep - Suc d)" for i :: nat
proof (induction dep)
  case 0
  then show ?case by simp
next
  case (Suc dep)
  show ?case
  proof (cases "i < 2 ^ dep")
    case True
    with Suc obtain d where "d < dep" "2 ^ (dep - Suc d) \<le> i" "i < 2 * 2 ^ (dep - Suc d)" by blast
    then show ?thesis by (intro exI [of _ "Suc d"]) simp
  next
    case False
    with Suc.prems show ?thesis by (intro exI [of _ 0]) simp
  qed
qed

lemma ssz_new_hashed:
  assumes z: "zero_hashes_ok c"
  shows "hashed c (ssz_new c n)" "leaves (ssz_new c n) = replicate (capacity (ssz_new c n)) 0"
proof -
  define dep where "dep = ilog2 (next_power_of_two n)"
  let ?ns = "zero_levels c dep dep"
  have cap: "next_power_of_two n = 2 ^ dep" by (simp add: dep_def)
  have new: "ssz_new c n = \<lparr>nodes = ?ns, capacity = 2 ^ dep, depth = dep\<rparr>"
    unfolding ssz_new_levels by (simp add: cap)
  have "node_ok c ?ns i" if i: "0 < i" "i < 2 ^ dep" for i
  proof -
    obtain d where d: "d < dep" "2 ^ (dep - Suc d) \<le> i" "i < 2 * 2 ^ (dep - Suc d)"
      using node_level [OF i] by blast
    have "(2 :: nat) ^ (dep - d) = 2 * 2 ^ (dep - Suc d)"
      using d(1) by (simp flip: power_Suc add: Suc_diff_Suc)
    with d z show ?thesis
      by (simp add: node_ok_def nth_zero_levels [of c dep dep d]
        nth_zero_levels [of c dep dep "Suc d"] zero_hashes_Suc)
  qed
  then show "hashed c (ssz_new c n)"
    by (simp add: new hashed_def wf_tree_def nth_0_zero_levels)
  show "leaves (ssz_new c n) = replicate (capacity (ssz_new c n)) 0"
    by (rule nth_equalityI)
      (simp_all add: new leaves_def nth_zero_levels [OF z, of dep dep 0] zero_hashes_0 [OF z])
qed

section \<open>The root\<close>

lemma node_merkle_root:
  assumes t: "hashed c t" and "l + k = depth t" "2 ^ l \<le> i" "i < 2 * 2 ^ l"
  shows "nodes t ! i = merkle_root c k (take (2 ^ k) (drop ((i - 2 ^ l) * 2 ^ k) (leaves t)))"
  using assms(2-)
proof (induction k arbitrary: l i)
  case 0
  note w = wf_tree_simps [OF hashed_wf [OF t]]
  from 0 w(1) have "i - 2 ^ l < capacity t" "capacity t + (i - 2 ^ l) = i" by auto
  with w(5) show ?case using nth_leaves [OF hashed_wf [OF t], of "i - 2 ^ l"] by simp
next
  case (Suc k)
  note w = wf_tree_simps [OF hashed_wf [OF t]]
  let ?o = "(i - 2 ^ l) * 2 ^ Suc k" and ?L = "leaves t"
  have pos: "(2 * i - 2 ^ Suc l) * 2 ^ k = ?o" "(2 * i + 1 - 2 ^ Suc l) * 2 ^ k = 2 ^ k + ?o"
    using Suc.prems(2) by (simp_all add: algebra_simps Suc_diff_le flip: diff_mult_distrib2)
  have "nodes t ! (2 * i) = merkle_root c k (take (2 ^ k) (drop ?o ?L))"
    "nodes t ! (2 * i + 1) = merkle_root c k (take (2 ^ k) (drop (2 ^ k + ?o) ?L))"
    using Suc.IH [of "Suc l" "2 * i"] Suc.IH [of "Suc l" "2 * i + 1"] Suc.prems
    unfolding pos by simp_all
  moreover have "2 * 2 ^ l \<le> capacity t"
    using Suc.prems(1) w(1) by (metis add_Suc_right le_add1 one_le_numeral power_Suc power_increasing
        add_Suc)
  then have "i < capacity t" using Suc.prems(3) by linarith
  then have "node_ok c (nodes t) i"
    using hashed_node [OF t] Suc.prems(2) by (metis gr0I le_zero_eq power_not_zero zero_neq_numeral)
  ultimately show ?case by (simp add: node_ok_def drop_take min_def mult_2)
qed

theorem root_merkle_root:
  assumes "hashed c t"
  shows "ssz_root t = merkle_root c (depth t) (leaves t)"
  using node_merkle_root [OF assms, of 0 "depth t" 1] wf_tree_simps [OF hashed_wf [OF assms]]
  by (simp add: ssz_root_def)

lemma nth_hash_pairs:
  "2 * i + 1 < length ls \<Longrightarrow> hash_pairs c ls ! i = hash32_concat c (ls ! (2 * i)) (ls ! (2 * i + 1))"
proof (induction c ls arbitrary: i rule: hash_pairs.induct)
  case (1 c a b ls)
  then show ?case by (cases i) simp_all
qed simp_all

lemma take_hash_pairs: "2 * n \<le> length ls \<Longrightarrow> take n (hash_pairs c ls) = hash_pairs c (take (2 * n) ls)"
  by (rule nth_equalityI) (auto simp: nth_hash_pairs)

lemma drop_hash_pairs: "2 * n \<le> length ls \<Longrightarrow> drop n (hash_pairs c ls) = hash_pairs c (drop (2 * n) ls)"
  by (rule nth_equalityI) (auto simp: nth_hash_pairs algebra_simps)

lemma merkle_root_pairs:
  "length ls = 2 ^ Suc k \<Longrightarrow> merkle_root c (Suc k) ls = merkle_root c k (hash_pairs c ls)"
proof (induction k arbitrary: ls)
  case 0
  then show ?case by (simp add: nth_hash_pairs)
next
  case (Suc k)
  have "merkle_root c (Suc k) (take (2 ^ Suc k) ls) = merkle_root c k (take (2 ^ k) (hash_pairs c ls))"
    "merkle_root c (Suc k) (drop (2 ^ Suc k) ls) = merkle_root c k (drop (2 ^ k) (hash_pairs c ls))"
    using Suc.IH [of "take (2 ^ Suc k) ls"] Suc.IH [of "drop (2 ^ Suc k) ls"] Suc.prems
    by (simp_all add: take_hash_pairs drop_hash_pairs)
  then show ?case by (subst merkle_root.simps(2)) (simp only: merkle_root.simps(2) [of c k "hash_pairs c ls"])
qed

lemma merkle_layers_root: "length ls = 2 ^ k \<Longrightarrow> merkle_layers c ls = merkle_root c k ls"
proof (induction k arbitrary: ls)
  case 0
  then show ?case by (subst merkle_layers.simps) simp
next
  case (Suc k)
  have "(1 :: nat) < 2 ^ Suc k" by (rule one_less_power) simp_all
  with Suc show ?case
    by (subst merkle_layers.simps) (simp add: merkle_root_pairs del: merkle_root.simps power_Suc,
        simp add: Suc.IH)
qed

theorem merkleize_root:
  assumes "chunks \<noteq> []"
  shows "merkleize c chunks =
    merkle_root c (ilog2 (next_power_of_two (length chunks)))
      (chunks @ replicate (next_power_of_two (length chunks) - length chunks) 0)"
  using assms next_power_of_two_ge [of "length chunks"]
  by (simp add: merkleize_def merkle_layers_root)

section \<open>Proofs\<close>

lemma sibling_index: "(i :: nat) XOR Suc 0 = (if even i then i + 1 else i - 1)"
  by (simp add: xor_Suc_0_eq)

lemma climb_siblings:
  assumes t: "hashed c t" and "i < 2 * capacity t" "0 < i div 2 ^ k"
  shows "climb c (nodes t ! i) i (siblings k (nodes t) i) = (nodes t ! (i div 2 ^ k), i div 2 ^ k)"
  using assms(2-)
proof (induction k arbitrary: i)
  case 0
  then show ?case by simp
next
  case (Suc k)
  let ?j = "i div 2"
  have pos: "0 < ?j div 2 ^ k" using Suc.prems(2) by (simp only: div_pow_Suc)
  then have "0 < ?j" by (metis div_0 gr0I)
  moreover have j: "?j < capacity t" using Suc.prems(1) by simp
  ultimately have "node_ok c (nodes t) ?j" by (rule hashed_node [OF t])
  then have step: "(if even i then hash32_concat c (nodes t ! i) (nodes t ! (i XOR 1))
              else hash32_concat c (nodes t ! (i XOR 1)) (nodes t ! i)) = nodes t ! ?j"
    by (auto simp: node_ok_def sibling_index elim!: evenE oddE)
  have "climb c (nodes t ! ?j) ?j (siblings k (nodes t) ?j) = (nodes t ! (?j div 2 ^ k), ?j div 2 ^ k)"
    using j pos by (intro Suc.IH) simp_all
  then show ?case by (simp only: siblings.simps climb.simps step div_pow_Suc)
qed

lemma length_siblings [simp]: "length (siblings k ns i) = k"
  by (induction k arbitrary: i) simp_all

theorem generated_proof_verifies:
  assumes t: "hashed c t" and i: "i < capacity t"
  shows "verify_proof c (ssz_root t) i (get_leaf t i) (generate_proof t i) (depth t)"
proof -
  note w = wf_tree_simps [OF hashed_wf [OF t]]
  have "(capacity t + i) div 2 ^ depth t = 1" using i w(1) by (simp add: div_add_self1)
  then have "climb c (get_leaf t i) (2 ^ depth t + i) (generate_proof t i) = (nodes t ! 1, 1)"
    using climb_siblings [OF t, of "capacity t + i" "depth t"] i w(1)
    by (simp add: get_leaf_def generate_proof_def)
  then show ?thesis using w(4) by (simp add: verify_proof_def ssz_root_def generate_proof_def)
qed

lemma div_ilog2: "0 < i \<Longrightarrow> i div 2 ^ ilog2 i = 1"
proof (induction i rule: ilog2.induct)
  case (1 i)
  show ?case
  proof (cases "i \<le> 1")
    case True
    then show ?thesis using 1 by (simp add: ilog2.simps)
  next
    case False
    with 1 show ?thesis by (subst ilog2.simps) (simp add: div_pow_Suc del: power_Suc)
  qed
qed

lemma node_siblings_eq: "node_siblings ns i = siblings (ilog2 i) ns i"
proof (induction ns i rule: node_siblings.induct)
  case (1 ns i)
  show ?case
  proof (cases "1 < i")
    case True
    with 1 show ?thesis by (subst node_siblings.simps, subst ilog2.simps) simp
  next
    case False
    then show ?thesis by (simp add: node_siblings.simps ilog2.simps)
  qed
qed

lemma ilog2_less: "i < 2 ^ Suc k \<Longrightarrow> ilog2 i \<le> k"
proof (induction k arbitrary: i)
  case 0
  then show ?case by (simp add: ilog2.simps)
next
  case (Suc k)
  show ?case
  proof (cases "i \<le> 1")
    case True
    then show ?thesis by (simp add: ilog2.simps)
  next
    case False
    have "i div 2 < 2 ^ Suc k" using Suc.prems by simp
    with Suc.IH False show ?thesis by (subst ilog2.simps) simp
  qed
qed

lemma bit_width: "g \<noteq> 0 \<Longrightarrow> 63 - leading_zeros g = ilog2 (unat g)"
proof -
  have "unat g < 2 ^ Suc 63" using unsigned_less [of g] by simp
  from ilog2_less [OF this] show "g \<noteq> 0 \<Longrightarrow> ?thesis" by (simp add: leading_zeros_def)
qed

theorem generated_node_proof_verifies:
  assumes t: "hashed c t" and g: "0 < unat g" "unat g < 2 * capacity t"
  shows "verify_proof_gindex c (ssz_root t) g (get_node t (unat g)) (generate_proof_from_node t (unat g))"
proof -
  have "g \<noteq> 0" using g(1) by auto
  moreover have "climb c (get_node t (unat g)) (unat g) (generate_proof_from_node t (unat g)) = (nodes t ! 1, 1)"
    using climb_siblings [OF t g(2), of "ilog2 (unat g)"] div_ilog2 [OF g(1)]
    by (simp add: get_node_def generate_proof_from_node_def node_siblings_eq)
  ultimately show ?thesis using wf_tree_simps(4) [OF hashed_wf [OF t]]
    by (simp add: verify_proof_gindex_def bit_width generate_proof_from_node_def node_siblings_eq
        ssz_root_def)
qed

text \<open>Two proofs of different values for one position and one root: the pair of inputs on which
  the hash collides, found by climbing both.\<close>

definition hash_input :: "nat \<Rightarrow> bytes32 \<Rightarrow> bytes32 \<Rightarrow> bytes32 \<times> bytes32" where
  "hash_input idx v s = (if even idx then (v, s) else (s, v))"

definition hash_pair :: "crypto \<Rightarrow> bytes32 \<times> bytes32 \<Rightarrow> bytes32" where
  "hash_pair c = (\<lambda>(a, b). hash32_concat c a b)"

fun find_collision ::
  "crypto \<Rightarrow> nat \<Rightarrow> bytes32 \<Rightarrow> bytes32 list \<Rightarrow> bytes32 \<Rightarrow> bytes32 list
     \<Rightarrow> ((bytes32 \<times> bytes32) \<times> (bytes32 \<times> bytes32)) option" where
  "find_collision c idx v (s # p) v' (s' # p') =
     (let x = hash_input idx v s; x' = hash_input idx v' s'
      in if x \<noteq> x' \<and> hash_pair c x = hash_pair c x' then Some (x, x')
         else find_collision c (idx div 2) (hash_pair c x) p (hash_pair c x') p')"
| "find_collision c idx v _ v' _ = None"

lemma climb_step: "climb c v idx (s # p) = climb c (hash_pair c (hash_input idx v s)) (idx div 2) p"
  by (simp add: hash_pair_def hash_input_def)

lemma find_collision_complete:
  assumes "length p = length p'" "v \<noteq> v'" "fst (climb c v idx p) = fst (climb c v' idx p')"
  shows "\<exists>x x'. find_collision c idx v p v' p' = Some (x, x') \<and> x \<noteq> x' \<and> hash_pair c x = hash_pair c x'"
  using assms
proof (induction p p' arbitrary: v v' idx rule: list_induct2)
  case Nil
  then show ?case by simp
next
  case (Cons s p s' p')
  let ?x = "hash_input idx v s" and ?x' = "hash_input idx v' s'"
  have "?x \<noteq> ?x'" using Cons.prems(1) by (simp add: hash_input_def)
  then show ?case
    using Cons.IH [of "hash_pair c ?x" "hash_pair c ?x'" "idx div 2"] Cons.prems(2)
    unfolding climb_step by (cases "hash_pair c ?x = hash_pair c ?x'") simp_all
qed

theorem verified_value_or_collision:
  assumes t: "hashed c t" and i: "i < capacity t"
    and v: "verify_proof c (ssz_root t) i v proof (depth t)" and neq: "v \<noteq> get_leaf t i"
  shows "\<exists>x x'. find_collision c (2 ^ depth t + i) v proof (get_leaf t i) (generate_proof t i)
      = Some (x, x') \<and> x \<noteq> x' \<and> hash_pair c x = hash_pair c x'"
  using v generated_proof_verifies [OF t i]
  by (intro find_collision_complete [OF _ neq])
    (simp_all add: verify_proof_def generate_proof_def split: if_splits)

end
