(* ===== verification/Ssz_Blocks.thy ===== *)
theory Ssz_Blocks
  imports Ssz_Tree
begin

text \<open>
  The block operations of \<open>types/src/ssz_tree.rs\<close>: shifting fixed-size blocks of leaves with
  the internal nodes above them, and the partial rehashes that follow. Shown: after a shift
  to the right and a rehash of the vacated block, or a shift to the left and a rehash of the
  last one, followed by \<open>rehash_from_position\<close>, the tree is hashed again and its leaves are the
  old ones with one block inserted or removed. Levels are counted from the leaves, so level
  \<open>l\<close> of a tree of depth \<open>dep\<close> is the nodes from \<open>2 ^ (dep - l)\<close>.
\<close>

definition on_level :: "nat \<Rightarrow> nat \<Rightarrow> nat \<Rightarrow> bool" where
  "on_level dep l j \<longleftrightarrow> 2 ^ (dep - l) \<le> j \<and> j < 2 * 2 ^ (dep - l)"

lemma level_le: "(2 :: nat) ^ (dep - l) \<le> 2 ^ dep"
  by (rule power_increasing) simp_all

lemma on_level_bound: "on_level dep l j \<Longrightarrow> j < 2 * 2 ^ dep"
  using level_le [of dep l] unfolding on_level_def by linarith

lemma level_base: "l \<le> dep \<Longrightarrow> (2 :: nat) ^ dep div 2 ^ l = 2 ^ (dep - l)"
  by (simp add: power_diff)

lemma level_Suc: "Suc l \<le> dep \<Longrightarrow> (2 :: nat) ^ (dep - l) = 2 * 2 ^ (dep - Suc l)"
  by (simp flip: power_Suc add: Suc_diff_Suc)

lemma on_level_unique:
  assumes "on_level dep l j" "on_level dep m j" "l \<le> dep" "m \<le> dep"
  shows "l = m"
proof (rule ccontr)
  assume "l \<noteq> m"
  then have "Suc l \<le> m \<or> Suc m \<le> l" by linarith
  moreover have False if "Suc a \<le> b" "on_level dep a j" "on_level dep b j" "b \<le> dep" for a b
  proof -
    have "2 * (2 :: nat) ^ (dep - b) \<le> 2 ^ (dep - a)"
      using that(1,4) power_increasing [of "Suc (dep - b)" "dep - a" "2 :: nat"] by simp
    with that(2,3) show False unfolding on_level_def by linarith
  qed
  ultimately show False using assms by blast
qed

lemma on_level_child:
  "on_level dep (Suc l) i \<Longrightarrow> Suc l \<le> dep \<Longrightarrow> on_level dep l (2 * i) \<and> on_level dep l (2 * i + 1)"
  by (auto simp: on_level_def level_Suc)

text \<open>A pass that works level by level: each step rewrites its own level from that level only,
  as long as its parameters fit the tree.\<close>

locale level_pass =
  fixes f :: "nat \<Rightarrow> 'p \<Rightarrow> nat \<Rightarrow> nat \<Rightarrow> bytes32 list \<Rightarrow> bytes32 list"
    and fits :: "nat \<Rightarrow> 'p \<Rightarrow> nat \<Rightarrow> bool"
  assumes fits_depth: "fits dep p b \<Longrightarrow> b \<le> dep"
    and step_length: "fits dep p b \<Longrightarrow> l \<le> b \<Longrightarrow> length ys = 2 * 2 ^ dep \<Longrightarrow>
      length (f (2 ^ dep) p (2 ^ b) l ys) = length ys"
    and step_other: "fits dep p b \<Longrightarrow> l \<le> b \<Longrightarrow> length ys = 2 * 2 ^ dep \<Longrightarrow> j < 2 * 2 ^ dep \<Longrightarrow>
      \<not> on_level dep l j \<Longrightarrow> f (2 ^ dep) p (2 ^ b) l ys ! j = ys ! j"
    and step_local: "fits dep p b \<Longrightarrow> l \<le> b \<Longrightarrow> length ys = 2 * 2 ^ dep \<Longrightarrow> length zs = 2 * 2 ^ dep \<Longrightarrow>
      (\<And>i. on_level dep l i \<Longrightarrow> ys ! i = zs ! i) \<Longrightarrow> on_level dep l j \<Longrightarrow>
      f (2 ^ dep) p (2 ^ b) l ys ! j = f (2 ^ dep) p (2 ^ b) l zs ! j"
begin

lemma fold_length:
  assumes "fits dep p b" "e \<le> Suc b" "length xs = 2 * 2 ^ dep"
  shows "length (fold (f (2 ^ dep) p (2 ^ b)) [0..<e] xs) = 2 * 2 ^ dep"
  using assms(2,3)
proof (induction e)
  case (Suc e)
  then show ?case using step_length [OF assms(1)] by simp
qed simp

lemma fold_upto:
  assumes fits: "fits dep p b" and "e \<le> Suc b" "length xs = 2 * 2 ^ dep" "j < 2 * 2 ^ dep"
  shows "(\<forall>l. l < e \<longrightarrow> on_level dep l j \<longrightarrow>
      fold (f (2 ^ dep) p (2 ^ b)) [0..<e] xs ! j = f (2 ^ dep) p (2 ^ b) l xs ! j) \<and>
    ((\<forall>l < e. \<not> on_level dep l j) \<longrightarrow> fold (f (2 ^ dep) p (2 ^ b)) [0..<e] xs ! j = xs ! j)"
  using assms(2-)
proof (induction e arbitrary: j)
  case 0
  then show ?case by simp
next
  case (Suc e)
  let ?f = "f (2 ^ dep) p (2 ^ b)"
  let ?ys = "fold ?f [0..<e] xs"
  have len: "length ?ys = 2 * 2 ^ dep" using Suc.prems by (intro fold_length [OF fits]) simp_all
  have eb: "e \<le> b" "e \<le> dep" using Suc.prems fits_depth [OF fits] by simp_all
  have lower: "\<forall>l < e. \<not> on_level dep l i" if "on_level dep e i" for i
  proof (intro allI impI notI)
    fix l assume "l < e" "on_level dep l i"
    with on_level_unique [of dep l i e] that eb show False by simp
  qed
  have keep: "?ys ! i = xs ! i" if i: "on_level dep e i" for i
    using Suc.IH [of i] Suc.prems lower [OF i] on_level_bound [OF i] by simp
  have new: "?f e ?ys ! j = ?f e xs ! j" if "on_level dep e j"
    using step_local [OF fits eb(1) len Suc.prems(2) keep that] by blast
  have other: "?f e ?ys ! j = ?ys ! j" if "\<not> on_level dep e j"
    using step_other [OF fits eb(1) len Suc.prems(3) that] .
  show ?case
  proof (cases "on_level dep e j")
    case True
    from lower [OF True] new [OF True] True show ?thesis by (simp add: less_Suc_eq)
  next
    case False
    with other Suc.IH [of j] Suc.prems show ?thesis by (auto simp: less_Suc_eq)
  qed
qed

lemma fold_level:
  "fits dep p b \<Longrightarrow> length xs = 2 * 2 ^ dep \<Longrightarrow> l \<le> b \<Longrightarrow> on_level dep l j \<Longrightarrow>
     fold (f (2 ^ dep) p (2 ^ b)) [0..<Suc b] xs ! j = f (2 ^ dep) p (2 ^ b) l xs ! j"
  using fold_upto [of dep p b "Suc b" xs j] on_level_bound [of dep l j] by (simp del: upt_Suc)

lemma fold_above:
  assumes "fits dep p b" "length xs = 2 * 2 ^ dep" "j < 2 ^ (dep - b)"
  shows "fold (f (2 ^ dep) p (2 ^ b)) [0..<Suc b] xs ! j = xs ! j"
proof -
  have "\<not> on_level dep l j" if "l < Suc b" for l
  proof -
    have "(2 :: nat) ^ (dep - b) \<le> 2 ^ (dep - l)" using that by (simp add: power_increasing)
    with assms(3) show ?thesis unfolding on_level_def by linarith
  qed
  moreover have "j < 2 * 2 ^ dep"
    using assms(3) level_le [of dep b] by linarith
  ultimately show ?thesis using fold_upto [of dep p b "Suc b" xs j] assms by (simp del: upt_Suc)
qed

end

section \<open>Closed forms of one level\<close>

lemma length_copy_within [simp]:
  "src + n \<le> length xs \<Longrightarrow> dst + n \<le> length xs \<Longrightarrow> length (copy_within src n dst xs) = length xs"
  by (simp add: copy_within_def)

lemma nth_copy_within:
  assumes "src + n \<le> length xs" "dst + n \<le> length xs" "j < length xs"
  shows "copy_within src n dst xs ! j = (if dst \<le> j \<and> j < dst + n then xs ! (src + (j - dst)) else xs ! j)"
  using assms by (auto simp: copy_within_def nth_append)

lemma length_fill [simp]: "length (fill from n v xs) = length xs"
  by (simp add: fill_def)

lemma nth_fill:
  "fill from n v xs ! j = (if from \<le> j \<and> j < from + n \<and> j < length xs then v else xs ! j)"
  by (simp add: fill_def nth_update_fold)

definition shift_fits :: "nat \<Rightarrow> nat \<times> nat \<Rightarrow> nat \<Rightarrow> bool" where
  "shift_fits dep p b \<longleftrightarrow> b \<le> dep \<and> (fst p + snd p + 1) * 2 ^ b \<le> 2 ^ dep"

lemma scale_level:
  assumes "n * 2 ^ b \<le> (2 :: nat) ^ dep" "l \<le> b" "b \<le> dep"
  shows "n * 2 ^ (b - l) \<le> (2 :: nat) ^ (dep - l)"
proof -
  have "(2 :: nat) ^ b = 2 ^ (b - l) * 2 ^ l" "(2 :: nat) ^ dep = 2 ^ (dep - l) * 2 ^ l"
    using assms(2,3) by (simp_all flip: power_add)
  with assms(1) have "(n * 2 ^ (b - l)) * 2 ^ l \<le> 2 ^ (dep - l) * (2 :: nat) ^ l"
    by (simp only: mult.assoc)
  then show ?thesis by simp
qed

lemma shift_fits_level:
  "shift_fits dep p b \<Longrightarrow> l \<le> b \<Longrightarrow> (fst p + snd p + 1) * 2 ^ (b - l) \<le> 2 ^ (dep - l)"
  unfolding shift_fits_def by (blast intro: scale_level)

lemma shift_fits_div:
  assumes "shift_fits dep p b" "l \<le> b"
  shows "(2 :: nat) ^ b div 2 ^ l = 2 ^ (b - l)" "(2 :: nat) ^ dep div 2 ^ l = 2 ^ (dep - l)" "l \<le> dep"
  using assms by (simp_all add: shift_fits_def power_diff)

lemma nth_shift_right_level:
  assumes fits: "shift_fits dep (from, count) b" and l: "l \<le> b" and len: "length xs = 2 * 2 ^ dep"
    and j: "j < 2 * 2 ^ dep"
  shows "shift_right_level (2 ^ dep) from count (2 ^ b) l xs ! j =
    (let stride = 2 ^ (b - l); s = 2 ^ (dep - l) + from * stride
     in if s \<le> j \<and> j < s + stride then 0
        else if s + stride \<le> j \<and> j < s + stride + count * stride then xs ! (j - stride) else xs ! j)"
    "length (shift_right_level (2 ^ dep) from count (2 ^ b) l xs) = length xs"
proof -
  define stride where "stride = (2 :: nat) ^ (b - l)"
  define s where "s = 2 ^ (dep - l) + from * stride"
  have "(from + count + 1) * stride \<le> 2 ^ (dep - l)"
    using shift_fits_level [OF fits l] by (simp add: stride_def)
  then have "s + stride + count * stride \<le> 2 * 2 ^ (dep - l)"
    by (simp add: s_def algebra_simps)
  then have bound: "s + stride + count * stride \<le> length xs"
    using level_le [of dep l] len by linarith
  have eq: "shift_right_level (2 ^ dep) from count (2 ^ b) l xs =
      fill s stride 0 (copy_within s (count * stride) (s + stride) xs)"
    unfolding shift_right_level_def Let_def shift_fits_div(1,2) [OF fits l] stride_def s_def ..
  show "length (shift_right_level (2 ^ dep) from count (2 ^ b) l xs) = length xs"
    using bound by (simp add: eq)
  have "shift_right_level (2 ^ dep) from count (2 ^ b) l xs ! j =
      (if s \<le> j \<and> j < s + stride then 0
        else if s + stride \<le> j \<and> j < s + stride + count * stride then xs ! (j - stride) else xs ! j)"
    using bound j len by (auto simp: eq nth_fill nth_copy_within)
  then show "shift_right_level (2 ^ dep) from count (2 ^ b) l xs ! j =
    (let stride = 2 ^ (b - l); s = 2 ^ (dep - l) + from * stride
     in if s \<le> j \<and> j < s + stride then 0
        else if s + stride \<le> j \<and> j < s + stride + count * stride then xs ! (j - stride) else xs ! j)"
    by (simp add: Let_def stride_def s_def)
qed

lemma nth_shift_left_level:
  assumes fits: "shift_fits dep (from, count) b" and l: "l \<le> b" and len: "length xs = 2 * 2 ^ dep"
    and j: "j < 2 * 2 ^ dep"
  shows "shift_left_level (2 ^ dep) from count (2 ^ b) l xs ! j =
    (let stride = 2 ^ (b - l); s = 2 ^ (dep - l) + from * stride
     in if s + count * stride \<le> j \<and> j < s + count * stride + stride then 0
        else if s \<le> j \<and> j < s + count * stride then xs ! (j + stride) else xs ! j)"
    "length (shift_left_level (2 ^ dep) from count (2 ^ b) l xs) = length xs"
proof -
  define stride where "stride = (2 :: nat) ^ (b - l)"
  define s where "s = 2 ^ (dep - l) + from * stride"
  have "(from + count + 1) * stride \<le> 2 ^ (dep - l)"
    using shift_fits_level [OF fits l] by (simp add: stride_def)
  then have "s + stride + count * stride \<le> 2 * 2 ^ (dep - l)"
    by (simp add: s_def algebra_simps)
  then have bound: "s + stride + count * stride \<le> length xs"
    using level_le [of dep l] len by linarith
  have eq: "shift_left_level (2 ^ dep) from count (2 ^ b) l xs =
      fill (s + count * stride) stride 0 (copy_within (s + stride) (count * stride) s xs)"
    unfolding shift_left_level_def Let_def shift_fits_div(1,2) [OF fits l] stride_def s_def
    by (simp add: algebra_simps)
  show "length (shift_left_level (2 ^ dep) from count (2 ^ b) l xs) = length xs"
    using bound by (simp add: eq)
  have "shift_left_level (2 ^ dep) from count (2 ^ b) l xs ! j =
      (if s + count * stride \<le> j \<and> j < s + count * stride + stride then 0
        else if s \<le> j \<and> j < s + count * stride then xs ! (j + stride) else xs ! j)"
    using bound j len by (auto simp: eq nth_fill nth_copy_within add.commute)
  then show "shift_left_level (2 ^ dep) from count (2 ^ b) l xs ! j =
    (let stride = 2 ^ (b - l); s = 2 ^ (dep - l) + from * stride
     in if s + count * stride \<le> j \<and> j < s + count * stride + stride then 0
        else if s \<le> j \<and> j < s + count * stride then xs ! (j + stride) else xs ! j)"
    by (simp add: Let_def stride_def s_def)
qed

interpretation shift_right: level_pass "\<lambda>cap p. shift_right_level cap (fst p) (snd p)" shift_fits
proof
  fix dep b l j :: nat and p :: "nat \<times> nat" and ys zs :: "bytes32 list"
  show "shift_fits dep p b \<Longrightarrow> b \<le> dep" by (simp add: shift_fits_def)
  assume fits: "shift_fits dep p b" and l: "l \<le> b" and ys: "length ys = 2 * 2 ^ dep"
  then have fits': "shift_fits dep (fst p, snd p) b" by simp
  define stride where "stride = (2 :: nat) ^ (b - l)"
  have lvl: "(fst p + snd p + 1) * stride \<le> 2 ^ (dep - l)"
    using shift_fits_level [OF fits l] by (simp add: stride_def)
  show "length (shift_right_level (2 ^ dep) (fst p) (snd p) (2 ^ b) l ys) = length ys"
    using nth_shift_right_level(2) [OF fits' l ys, of 0] by simp
  show "shift_right_level (2 ^ dep) (fst p) (snd p) (2 ^ b) l ys ! j = ys ! j"
    if "j < 2 * 2 ^ dep" "\<not> on_level dep l j"
    using nth_shift_right_level(1) [OF fits' l ys that(1)] lvl that(2)
    by (auto simp: Let_def on_level_def algebra_simps simp flip: stride_def)
  assume zs: "length zs = 2 * 2 ^ dep" and same: "\<And>i. on_level dep l i \<Longrightarrow> ys ! i = zs ! i"
    and j: "on_level dep l j"
  note jb = on_level_bound [OF j]
  have "ys ! (j - stride) = zs ! (j - stride)" if "2 ^ (dep - l) + fst p * stride + stride \<le> j"
    using that j by (intro same) (unfold on_level_def, linarith)
  then show "shift_right_level (2 ^ dep) (fst p) (snd p) (2 ^ b) l ys ! j =
      shift_right_level (2 ^ dep) (fst p) (snd p) (2 ^ b) l zs ! j"
    using same [OF j]
    by (simp add: nth_shift_right_level(1) [OF fits' l ys jb] nth_shift_right_level(1) [OF fits' l zs jb]
        Let_def flip: stride_def)
qed

interpretation shift_left: level_pass "\<lambda>cap p. shift_left_level cap (fst p) (snd p)" shift_fits
proof
  fix dep b l j :: nat and p :: "nat \<times> nat" and ys zs :: "bytes32 list"
  show "shift_fits dep p b \<Longrightarrow> b \<le> dep" by (simp add: shift_fits_def)
  assume fits: "shift_fits dep p b" and l: "l \<le> b" and ys: "length ys = 2 * 2 ^ dep"
  then have fits': "shift_fits dep (fst p, snd p) b" by simp
  define stride where "stride = (2 :: nat) ^ (b - l)"
  have lvl: "(fst p + snd p + 1) * stride \<le> 2 ^ (dep - l)"
    using shift_fits_level [OF fits l] by (simp add: stride_def)
  show "length (shift_left_level (2 ^ dep) (fst p) (snd p) (2 ^ b) l ys) = length ys"
    using nth_shift_left_level(2) [OF fits' l ys, of 0] by simp
  show "shift_left_level (2 ^ dep) (fst p) (snd p) (2 ^ b) l ys ! j = ys ! j"
    if "j < 2 * 2 ^ dep" "\<not> on_level dep l j"
    using nth_shift_left_level(1) [OF fits' l ys that(1)] lvl that(2)
    by (auto simp: Let_def on_level_def algebra_simps simp flip: stride_def)
  assume zs: "length zs = 2 * 2 ^ dep" and same: "\<And>i. on_level dep l i \<Longrightarrow> ys ! i = zs ! i"
    and j: "on_level dep l j"
  note jb = on_level_bound [OF j]
  have "ys ! (j + stride) = zs ! (j + stride)" if "j < 2 ^ (dep - l) + fst p * stride + snd p * stride"
    using that j lvl by (intro same) (simp add: on_level_def algebra_simps)
  then show "shift_left_level (2 ^ dep) (fst p) (snd p) (2 ^ b) l ys ! j =
      shift_left_level (2 ^ dep) (fst p) (snd p) (2 ^ b) l zs ! j"
    using same [OF j]
    by (simp add: nth_shift_left_level(1) [OF fits' l ys jb] nth_shift_left_level(1) [OF fits' l zs jb]
        Let_def flip: stride_def)
qed

section \<open>Agreeing with the hashed tree\<close>

text \<open>Two hashed trees of one depth have equal nodes where the leaves below are equal.\<close>

lemma nodes_eq_slices:
  assumes t: "hashed c t" "depth t = dep" and u: "hashed c u" "depth u = dep" and l: "l \<le> dep"
    and i: "on_level dep l i" and j: "on_level dep l j"
    and same: "\<And>k. k < 2 ^ l \<Longrightarrow>
      leaves t ! ((i - 2 ^ (dep - l)) * 2 ^ l + k) = leaves u ! ((j - 2 ^ (dep - l)) * 2 ^ l + k)"
  shows "nodes t ! i = nodes u ! j"
proof -
  have len: "length (leaves t) = 2 ^ dep" "length (leaves u) = 2 ^ dep"
    using wf_tree_simps [OF hashed_wf [OF t(1)]] wf_tree_simps [OF hashed_wf [OF u(1)]] t u by simp_all
  have room: "(x - 2 ^ (dep - l)) * 2 ^ l + 2 ^ l \<le> 2 ^ dep" if "on_level dep l x" for x
  proof -
    have "(x - 2 ^ (dep - l) + 1) * 2 ^ l \<le> 2 ^ (dep - l) * 2 ^ l"
      using that by (intro mult_le_mono1) (auto simp: on_level_def)
    then show ?thesis using l by (simp add: algebra_simps flip: power_add)
  qed
  have "take (2 ^ l) (drop ((i - 2 ^ (dep - l)) * 2 ^ l) (leaves t)) =
      take (2 ^ l) (drop ((j - 2 ^ (dep - l)) * 2 ^ l) (leaves u))"
    using len room [OF i] room [OF j] by (intro nth_equalityI) (simp_all add: same)
  then show ?thesis
    using node_merkle_root [OF t(1), of "dep - l" l i] node_merkle_root [OF u(1), of "dep - l" l j]
      t(2) u(2) l i j by (simp add: on_level_def)
qed

definition agree :: "bytes32 list \<Rightarrow> ssz_tree \<Rightarrow> nat \<Rightarrow> bool" where
  "agree ns u j \<longleftrightarrow> ns ! j = nodes u ! j"

lemma rehash_span_agree:
  assumes u: "hashed c u" and len: "length ns = 2 * capacity u" and span: "0 < from" "to \<le> 2 * from" "to \<le> capacity u"
    and kids: "\<And>i. from \<le> i \<Longrightarrow> i < to \<Longrightarrow> agree ns u (2 * i) \<and> agree ns u (2 * i + 1)"
    and j: "agree ns u j \<or> from \<le> j \<and> j < to"
  shows "agree (rehash_span c from to ns) u j"
proof (cases "from \<le> j \<and> j < to")
  case True
  then have "node_ok c (nodes u) j" using span by (intro hashed_node [OF u]) simp_all
  with True kids [of j] span len show ?thesis
    by (simp add: agree_def nth_rehash_span node_ok_def)
next
  case False
  with j span show ?thesis by (auto simp: agree_def nth_rehash_span)
qed

lemma fold_rehash_node: "2 * to \<le> length ns \<Longrightarrow> fold (rehash_node c) [from..<to] ns = rehash_span c from to ns"
proof (induction to)
  case 0
  then show ?case by (simp add: rehash_span_def)
next
  case (Suc to)
  show ?case
  proof (cases "from \<le> to")
    case True
    then show ?thesis using Suc by (simp add: rehash_span_Suc Let_def)
  next
    case False
    then show ?thesis by (simp add: rehash_span_def)
  qed
qed

text \<open>The nodes of block \<open>slot\<close> on level \<open>l\<close>.\<close>

definition in_block :: "nat \<Rightarrow> nat \<Rightarrow> nat \<Rightarrow> nat \<Rightarrow> nat \<Rightarrow> bool" where
  "in_block dep b slot l j \<longleftrightarrow>
     2 ^ (dep - l) + slot * 2 ^ (b - l) \<le> j \<and> j < 2 ^ (dep - l) + (slot + 1) * 2 ^ (b - l)"

lemma in_block_child:
  assumes "in_block dep b slot (Suc l) i" "Suc l \<le> b" "b \<le> dep"
  shows "in_block dep b slot l (2 * i)" "in_block dep b slot l (2 * i + 1)"
proof -
  have "(2 :: nat) ^ (dep - l) = 2 * 2 ^ (dep - Suc l)" "(2 :: nat) ^ (b - l) = 2 * 2 ^ (b - Suc l)"
    using assms level_Suc [of l dep] level_Suc [of l b] by simp_all
  then show "in_block dep b slot l (2 * i)" "in_block dep b slot l (2 * i + 1)"
    using assms(1) by (auto simp: in_block_def)
qed

lemma rehash_block_nodes:
  assumes u: "hashed c u" "depth u = dep" and t: "capacity t = 2 ^ dep" "length (nodes t) = 2 * 2 ^ dep"
    and slot: "(slot + 1) * 2 ^ b \<le> 2 ^ dep" "b \<le> dep"
    and low: "\<And>j. in_block dep b slot 0 j \<Longrightarrow> agree (nodes t) u j"
    and j: "agree (nodes t) u j \<or> (\<exists>l \<le> b. in_block dep b slot l j)"
  shows "agree (nodes (rehash_block c slot (2 ^ b) t)) u j"
proof -
  define step where "step = (\<lambda>level xs.
          let stride = 2 ^ b div 2 ^ level;
              start = (2 :: nat) ^ dep div 2 ^ level + slot * stride
          in fold (rehash_node c) [start ..< start + stride] xs)"
  have eq: "nodes (rehash_block c slot (2 ^ b) t) = fold step [1..<Suc b] (nodes t)"
    unfolding rehash_block_def step_def t(1) by (simp del: upt_Suc)
  have cap: "capacity u = 2 ^ dep" using u wf_tree_simps(1) [OF hashed_wf [OF u(1)]] by simp
  have "length (fold step [1..<Suc e] (nodes t)) = 2 * 2 ^ dep \<and>
      (\<forall>j. agree (nodes t) u j \<or> (\<exists>l \<le> e. in_block dep b slot l j) \<longrightarrow>
        agree (fold step [1..<Suc e] (nodes t)) u j)" if "e \<le> b" for e
    using that
  proof (induction e)
    case 0
    then show ?case using low t(2) by auto
  next
    case (Suc e)
    let ?ns = "fold step [1..<Suc e] (nodes t)"
    define stride where "stride = (2 :: nat) ^ (b - Suc e)"
    define start where "start = 2 ^ (dep - Suc e) + slot * stride"
    have len: "length ?ns = 2 * 2 ^ dep"
      and IH: "\<And>j. agree (nodes t) u j \<or> (\<exists>l \<le> e. in_block dep b slot l j) \<Longrightarrow> agree ?ns u j"
      using Suc by auto
    have "(slot + 1) * stride \<le> 2 ^ (dep - Suc e)"
      unfolding stride_def by (rule scale_level [OF slot(1) Suc.prems slot(2)])
    moreover have "2 * (2 :: nat) ^ (dep - Suc e) \<le> 2 ^ dep"
      using level_Suc [of e dep] level_le [of dep e] Suc.prems slot(2) by simp
    ultimately have span: "0 < start" "start + stride \<le> 2 * start" "start + stride \<le> 2 ^ dep"
      by (auto simp: start_def)
    have region: "in_block dep b slot (Suc e) j \<longleftrightarrow> start \<le> j \<and> j < start + stride" for j
      by (auto simp: in_block_def start_def stride_def)
    have "step (Suc e) ?ns = rehash_span c start (start + stride) ?ns"
      using Suc.prems slot(2) span(3) len
      by (simp add: step_def power_diff [symmetric] Let_def start_def stride_def fold_rehash_node del: upt_Suc power_Suc)
    then have ns: "fold step [1..<Suc (Suc e)] (nodes t) = rehash_span c start (start + stride) ?ns"
      by simp
    have "agree (rehash_span c start (start + stride) ?ns) u j"
      if "agree (nodes t) u j \<or> (\<exists>l \<le> Suc e. in_block dep b slot l j)" for j
    proof (rule rehash_span_agree [OF u(1)])
      show "agree ?ns u (2 * i) \<and> agree ?ns u (2 * i + 1)" if "start \<le> i" "i < start + stride" for i
        using in_block_child [of dep b slot e i] Suc.prems slot(2) region that IH by blast
      show "agree ?ns u j \<or> start \<le> j \<and> j < start + stride"
        using that IH [of j] region [of j] unfolding le_Suc_eq by blast
    qed (use len cap span in simp_all)
    then show ?case unfolding ns using len by (simp only: length_rehash_span) blast
  qed
  from this [OF order_refl] j show ?thesis unfolding eq by blast
qed

lemma fold_same_length: "(\<And>x ys. length (f x ys) = length ys) \<Longrightarrow> length (fold f xs ys) = length ys"
  by (induction xs arbitrary: ys) simp_all

lemma rehash_block_simps [simp]:
  "capacity (rehash_block c slot bs t) = capacity t" "depth (rehash_block c slot bs t) = depth t"
  "length (nodes (rehash_block c slot bs t)) = length (nodes t)"
  by (simp_all add: rehash_block_def Let_def fold_same_length del: upt_Suc)

lemma length_rehash_suffix [simp]: "length (rehash_suffix c ls from ns) = length ns"
proof (induction c ls "from" ns rule: rehash_suffix.induct)
  case (1 c ls "from" ns)
  then show ?case
    by (cases "ls \<le> 1") (simp_all add: rehash_suffix.simps [of c ls "from" ns] Let_def)
qed

lemma rehash_suffix_Suc:
  "rehash_suffix c (2 ^ Suc m) from ns =
     rehash_suffix c (2 ^ m) (from div 2) (rehash_span c from (2 ^ Suc m * 2) ns)"
proof -
  have "(1 :: nat) \<le> 2 ^ m" by simp
  then have "\<not> (2 :: nat) ^ Suc m \<le> 1" unfolding power_Suc by linarith
  then show ?thesis by (subst rehash_suffix.simps) (simp add: Let_def)
qed

text \<open>Rehashing the suffix from a node upward completes the tree when everything below the
  level, and everything left of the node's ancestors, is already right.\<close>

lemma rehash_suffix_agree:
  assumes u: "hashed c u" and len: "length ns = 2 * capacity u" and ls: "2 * 2 ^ m \<le> capacity u"
    and "from": "2 ^ m \<le> from" "from < 2 * 2 ^ m"
    and below: "\<And>j. 2 * 2 ^ m \<le> j \<Longrightarrow> j < 2 * capacity u \<Longrightarrow> agree ns u j"
    and left: "\<And>k j. k \<le> m \<Longrightarrow> 2 ^ (m - k) \<le> j \<Longrightarrow> j < from div 2 ^ k \<Longrightarrow> agree ns u j"
    and j: "0 < j" "j < 2 * capacity u"
  shows "agree (rehash_suffix c (2 ^ m) from ns) u j"
  using assms(2-)
proof (induction m arbitrary: "from" ns)
  case 0
  have "agree (rehash_span c from (2 ^ 0 * 2) ns) u j"
  proof (rule rehash_span_agree [OF u 0(1)])
    show "agree ns u (2 * i) \<and> agree ns u (2 * i + 1)" if "from \<le> i" "i < 2 ^ 0 * 2" for i
      using that 0 by simp
    show "agree ns u j \<or> from \<le> j \<and> j < 2 ^ 0 * 2" using 0 by (cases "j < 2") auto
  qed (use 0 in simp_all)
  then show ?case by (simp add: rehash_suffix.simps)
next
  case (Suc m)
  let ?ns = "rehash_span c from (2 ^ Suc m * 2) ns"
  have step: "agree ?ns u i" if "agree ns u i \<or> from \<le> i \<and> i < 2 ^ Suc m * 2" for i
  proof (rule rehash_span_agree [OF u Suc.prems(1) _ _ _ _ that])
    show "agree ns u (2 * k) \<and> agree ns u (2 * k + 1)" if "from \<le> k" "k < 2 ^ Suc m * 2" for k
      using that Suc.prems(2-5) by simp
  qed (use Suc.prems in simp_all)
  have "agree (rehash_suffix c (2 ^ m) (from div 2) ?ns) u j"
  proof (rule Suc.IH)
    show "length ?ns = 2 * capacity u" "2 * 2 ^ m \<le> capacity u" "2 ^ m \<le> from div 2" "from div 2 < 2 * 2 ^ m"
      using Suc.prems by simp_all
    show "agree ?ns u i" if i: "2 * 2 ^ m \<le> i" "i < 2 * capacity u" for i
    proof (rule step, cases "2 * 2 ^ Suc m \<le> i")
      case True
      then show "agree ns u i \<or> from \<le> i \<and> i < 2 ^ Suc m * 2" using Suc.prems(5) i by blast
    next
      case False
      then show "agree ns u i \<or> from \<le> i \<and> i < 2 ^ Suc m * 2"
        using Suc.prems(6) [of 0 i] i by (cases "i < from") simp_all
    qed
    show "agree ?ns u i" if "k \<le> m" "2 ^ (m - k) \<le> i" "i < from div 2 div 2 ^ k" for k i
      using Suc.prems(6) [of "Suc k" i] that by (intro step) (simp add: div_pow_Suc del: power_Suc)
  qed (use j in simp_all)
  then show ?case unfolding rehash_suffix_Suc .
qed

lemma rehash_suffix_0: "2 ^ m \<le> from \<Longrightarrow> from < 2 * 2 ^ m \<Longrightarrow> rehash_suffix c (2 ^ m) from ns ! 0 = ns ! 0"
proof (induction m arbitrary: "from" ns)
  case 0
  then show ?case by (simp add: rehash_suffix.simps nth_rehash_span)
next
  case (Suc m)
  then have "rehash_suffix c (2 ^ Suc m) from ns ! 0 = rehash_span c from (2 ^ Suc m * 2) ns ! 0"
    unfolding rehash_suffix_Suc by (intro Suc.IH) simp_all
  moreover have "0 < from" using Suc.prems(1) by (rule less_le_trans [rotated]) simp
  ultimately show ?case using Suc.prems by (simp add: nth_rehash_span)
qed

section \<open>Inserting and removing a block\<close>

text \<open>The upper levels: with the blocks right and the nodes left of the slot's ancestors right,
  \<open>rehash_from_position\<close> gives the hashed tree.\<close>

lemma rehash_position_complete:
  assumes u: "hashed c u" "depth u = dep" and t: "capacity t = 2 ^ dep" "depth t = dep"
      "length (nodes t) = 2 * 2 ^ dep" "nodes t ! 0 = 0"
    and b: "b \<le> dep" "slot < 2 ^ (dep - b)"
    and blocks: "\<And>l j. l \<le> b \<Longrightarrow> on_level dep l j \<Longrightarrow> agree (nodes t) u j"
    and left: "\<And>k j. b + k \<le> dep \<Longrightarrow> on_level dep (b + k) j \<Longrightarrow> j < (2 ^ (dep - b) + slot) div 2 ^ k \<Longrightarrow>
      agree (nodes t) u j"
  shows "rehash_from_position c (2 ^ (dep - b) div 2) ((2 ^ (dep - b) + slot) div 2) t = u"
proof -
  note wu = wf_tree_simps [OF hashed_wf [OF u(1)]]
  have cap: "capacity u = 2 ^ dep" using wu(1) u(2) by simp
  have below: "agree (nodes t) u j" if "2 ^ (dep - b) \<le> j" "j < 2 * 2 ^ dep" for j
  proof (cases "j < 2 ^ dep")
    case True
    have "0 < j" using that(1) by (rule less_le_trans [rotated]) simp
    then obtain d where d: "d < dep" "2 ^ (dep - Suc d) \<le> j" "j < 2 * 2 ^ (dep - Suc d)"
      using node_level [of j dep] True by auto
    have "Suc d \<le> b"
    proof (rule ccontr)
      assume "\<not> Suc d \<le> b"
      then have "Suc (dep - Suc d) \<le> dep - b" using d(1) by simp
      then have "2 ^ Suc (dep - Suc d) \<le> (2 :: nat) ^ (dep - b)" by (rule power_increasing) simp
      with d(3) that(1) show False by simp
    qed
    then show ?thesis using blocks [of "Suc d" j] d by (simp add: on_level_def)
  next
    case False
    then show ?thesis using blocks [of 0 j] that by (simp add: on_level_def)
  qed
  have all: "agree (nodes (rehash_from_position c (2 ^ (dep - b) div 2) ((2 ^ (dep - b) + slot) div 2) t)) u j"
    if j: "0 < j" "j < 2 * 2 ^ dep" for j
  proof (cases "dep - b")
    case 0
    then show ?thesis using below [of j] j by (simp add: rehash_from_position_def)
  next
    case (Suc m)
    have "agree (rehash_suffix c (2 ^ m) ((2 ^ Suc m + slot) div 2) (nodes t)) u j"
    proof (rule rehash_suffix_agree [OF u(1)])
      show "2 * 2 ^ m \<le> capacity u"
        using level_le [of dep b] Suc cap by simp
      show "2 ^ m \<le> (2 ^ Suc m + slot) div 2" "(2 ^ Suc m + slot) div 2 < 2 * 2 ^ m"
        using b(2) Suc by simp_all
      show "agree (nodes t) u i" if "2 * 2 ^ m \<le> i" "i < 2 * capacity u" for i
        using below [of i] that cap Suc by simp
      show "agree (nodes t) u i" if "k \<le> m" "2 ^ (m - k) \<le> i" "i < (2 ^ Suc m + slot) div 2 div 2 ^ k" for k i
      proof (rule left [of "Suc k" i])
        have "(2 ^ Suc m + slot) div 2 div 2 ^ k < 2 * 2 ^ (m - k)"
        proof -
          have "2 ^ (m - k) * 2 ^ k = (2 :: nat) ^ m" using that(1) by (simp flip: power_add)
          then have "2 ^ (m - k) * 2 * 2 ^ k = 2 * (2 :: nat) ^ m" by simp
          moreover have "(2 ^ Suc m + slot) div 2 < 2 * 2 ^ m" using b(2) Suc by simp
          ultimately have "(2 ^ Suc m + slot) div 2 < 2 ^ (m - k) * 2 * 2 ^ k" by simp
          then show ?thesis by (simp add: less_mult_imp_div_less mult.commute)
        qed
        moreover have "dep - (b + Suc k) = m - k" using Suc by simp
        ultimately show "on_level dep (b + Suc k) i" using that by (simp add: on_level_def)
        show "i < (2 ^ (dep - b) + slot) div 2 ^ Suc k"
          using that(3) Suc by (simp only: div_pow_Suc)
        show "b + Suc k \<le> dep" using that(1) Suc by simp
      qed
    qed (use t cap j in simp_all)
    then show ?thesis using Suc by (simp add: rehash_from_position_def)
  qed
  let ?r = "rehash_from_position c (2 ^ (dep - b) div 2) ((2 ^ (dep - b) + slot) div 2) t"
  have "nodes ?r ! 0 = 0"
  proof (cases "dep - b")
    case 0
    then show ?thesis using t(4) by (simp add: rehash_from_position_def)
  next
    case (Suc m)
    then have "rehash_suffix c (2 ^ m) ((2 ^ Suc m + slot) div 2) (nodes t) ! 0 = 0"
      using b(2) t(4) by (subst rehash_suffix_0) simp_all
    then show ?thesis using Suc by (simp add: rehash_from_position_def)
  qed
  moreover have len: "length (nodes ?r) = 2 * 2 ^ dep"
    using t(3) by (simp add: rehash_from_position_def)
  ultimately have "nodes ?r = nodes u"
    using all wu(2,3) cap by (intro nth_equalityI) (simp, metis agree_def gr0I)
  then show ?thesis
    using t u(2) cap by (cases u) (simp add: rehash_from_position_def split: if_splits)
qed

lemma leaf_pos_less:
  assumes "p < (n :: nat) * 2 ^ (b - l)" "l \<le> b" "k < 2 ^ l"
  shows "p * 2 ^ l + k < n * 2 ^ b"
proof -
  have "p * 2 ^ l + k < (p + 1) * 2 ^ l" using assms(3) by simp
  also have "\<dots> \<le> (n * 2 ^ (b - l)) * 2 ^ l" using assms(1) by (intro mult_le_mono1) simp
  also have "\<dots> = n * 2 ^ b" using assms(2) by (simp add: mult.assoc flip: power_add)
  finally show ?thesis .
qed

lemma leaf_pos_ge:
  assumes "(n :: nat) * 2 ^ (b - l) \<le> p" "l \<le> b"
  shows "n * 2 ^ b \<le> p * 2 ^ l + k"
proof -
  have "n * 2 ^ b = (n * 2 ^ (b - l)) * 2 ^ l" using assms(2) by (simp add: mult.assoc flip: power_add)
  also have "\<dots> \<le> p * 2 ^ l" using assms(1) by (rule mult_le_mono1)
  finally show ?thesis by simp
qed

lemma stride_block: "l \<le> b \<Longrightarrow> (2 :: nat) ^ (b - l) * 2 ^ l = 2 ^ b"
  by (simp flip: power_add)

text \<open>Left of the slot nothing moved, so the old nodes are those of the new tree.\<close>

lemma left_of_slot:
  assumes t: "hashed c t" "depth t = dep" and u: "hashed c u" "depth u = dep"
    and same: "\<And>k. k < slot * 2 ^ b \<Longrightarrow> leaves t ! k = leaves u ! k"
    and k: "b + k \<le> dep" "on_level dep (b + k) j" "j < (2 ^ (dep - b) + slot) div 2 ^ k"
  shows "nodes t ! j = nodes u ! j"
proof (rule nodes_eq_slices [OF t u k(1) k(2) k(2)])
  fix x :: nat assume x: "x < 2 ^ (b + k)"
  obtain p where p: "j = 2 ^ (dep - (b + k)) + p"
    using k(2) le_Suc_ex unfolding on_level_def by blast
  have pow: "2 ^ (dep - (b + k)) * 2 ^ k = (2 :: nat) ^ (dep - b)"
    using k(1) by (simp flip: power_add)
  have "(j + 1) * 2 ^ k \<le> (2 ^ (dep - b) + slot) div 2 ^ k * 2 ^ k"
    using k(3) by (intro mult_le_mono1) simp
  also have "\<dots> \<le> 2 ^ (dep - b) + slot" by (rule div_times_less_eq_dividend)
  also have "(j + 1) * 2 ^ k = 2 ^ (dep - b) + (p + 1) * 2 ^ k"
    unfolding p pow [symmetric] by (simp add: algebra_simps)
  finally have "(p + 1) * 2 ^ k * 2 ^ b \<le> slot * 2 ^ b" by simp
  then have "p * 2 ^ (b + k) + x < slot * 2 ^ b"
    using x by (simp add: power_add algebra_simps)
  then show "leaves t ! ((j - 2 ^ (dep - (b + k))) * 2 ^ (b + k) + x) =
      leaves u ! ((j - 2 ^ (dep - (b + k))) * 2 ^ (b + k) + x)"
    unfolding p by (simp add: same)
qed

lemma block_leaf_level:
  assumes "(slot + 1) * 2 ^ b \<le> 2 ^ dep" "on_level dep l j" "l \<le> dep" "in_block dep b slot 0 j"
  shows "l = 0"
  using assms on_level_unique [of dep l j 0] by (simp add: in_block_def on_level_def)

text \<open>The leaves with one block inserted at \<open>slot\<close> among \<open>count\<close> blocks (the block itself is
  left open), and the leaves with the block at \<open>slot\<close> removed.\<close>

definition block_inserted :: "nat \<Rightarrow> nat \<Rightarrow> nat \<Rightarrow> nat \<Rightarrow> bytes32 list \<Rightarrow> bytes32 list \<Rightarrow> bool" where
  "block_inserted dep b slot count old new \<longleftrightarrow>
     b \<le> dep \<and> slot \<le> count \<and> (count + 1) * 2 ^ b \<le> 2 ^ dep \<and>
     (\<forall>k. k < slot * 2 ^ b \<longrightarrow> new ! k = old ! k) \<and>
     (\<forall>k. (slot + 1) * 2 ^ b \<le> k \<longrightarrow> k < (count + 1) * 2 ^ b \<longrightarrow> new ! k = old ! (k - 2 ^ b)) \<and>
     (\<forall>k. (count + 1) * 2 ^ b \<le> k \<longrightarrow> k < 2 ^ dep \<longrightarrow> new ! k = 0) \<and>
     (\<forall>k. count * 2 ^ b \<le> k \<longrightarrow> k < 2 ^ dep \<longrightarrow> old ! k = 0)"

definition block_removed :: "nat \<Rightarrow> nat \<Rightarrow> nat \<Rightarrow> nat \<Rightarrow> bytes32 list \<Rightarrow> bytes32 list \<Rightarrow> bool" where
  "block_removed dep b slot count old new \<longleftrightarrow>
     b \<le> dep \<and> slot \<le> count \<and> (count + 1) * 2 ^ b \<le> 2 ^ dep \<and>
     (\<forall>k. k < slot * 2 ^ b \<longrightarrow> new ! k = old ! k) \<and>
     (\<forall>k. slot * 2 ^ b \<le> k \<longrightarrow> k < count * 2 ^ b \<longrightarrow> new ! k = old ! (k + 2 ^ b)) \<and>
     (\<forall>k. count * 2 ^ b \<le> k \<longrightarrow> k < 2 ^ dep \<longrightarrow> new ! k = 0) \<and>
     (\<forall>k. (count + 1) * 2 ^ b \<le> k \<longrightarrow> k < 2 ^ dep \<longrightarrow> old ! k = 0)"

lemma slot_room:
  assumes "slot \<le> count" "(count + 1) * 2 ^ b \<le> (2 :: nat) ^ dep" "b \<le> dep"
  shows "(slot + 1) * 2 ^ b \<le> (2 :: nat) ^ dep" "slot < 2 ^ (dep - b)" "shift_fits dep (slot, count - slot) b"
proof -
  show slot: "(slot + 1) * 2 ^ b \<le> (2 :: nat) ^ dep"
    using assms(1,2) by (meson add_le_mono1 le_trans mult_le_mono1)
  show "slot < 2 ^ (dep - b)" using scale_level [OF slot, of b] assms(3) by simp
  show "shift_fits dep (slot, count - slot) b" using assms by (simp add: shift_fits_def)
qed

text \<open>Where a node at position \<open>p\<close> of level \<open>l\<close> comes from.\<close>

lemma level_position:
  assumes "on_level dep l j" "l \<le> dep"
  obtains p where "j = 2 ^ (dep - l) + p" "p < 2 ^ (dep - l)" "\<And>k. k < 2 ^ l \<Longrightarrow> p * 2 ^ l + k < 2 ^ dep"
proof -
  obtain p where p: "j = 2 ^ (dep - l) + p" using assms(1) le_Suc_ex unfolding on_level_def by blast
  moreover from this have "p < 2 ^ (dep - l)" using assms(1) by (simp add: on_level_def)
  moreover from this have "p * 2 ^ l + k < 2 ^ dep" if "k < 2 ^ l" for k
    using leaf_pos_less [of p 1 dep l k] that assms(2) by simp
  ultimately show thesis by (rule that)
qed

lemma shift_right_form:
  assumes "block_inserted dep b slot count old new" "capacity t = 2 ^ dep" "length (nodes t) = 2 * 2 ^ dep"
  defines "t1 \<equiv> shift_blocks_right slot (count - slot) (2 ^ b) t"
  shows "j < 2 ^ (dep - b) \<Longrightarrow> nodes t1 ! j = nodes t ! j"
    "l \<le> b \<Longrightarrow> on_level dep l (2 ^ (dep - l) + p) \<Longrightarrow> \<not> in_block dep b slot l (2 ^ (dep - l) + p) \<Longrightarrow>
     nodes t1 ! (2 ^ (dep - l) + p) =
      (if (slot + 1) * 2 ^ (b - l) \<le> p \<and> p < (count + 1) * 2 ^ (b - l)
       then nodes t ! (2 ^ (dep - l) + p - 2 ^ (b - l)) else nodes t ! (2 ^ (dep - l) + p))"
proof -
  have fits: "shift_fits dep (slot, count - slot) b"
    using assms(1) slot_room(3) by (simp add: block_inserted_def)
  have sc: "slot \<le> count" using assms(1) by (simp add: block_inserted_def)
  have n1: "nodes t1 ! j = (if count = slot then nodes t ! j
      else fold (shift_right_level (2 ^ dep) slot (count - slot) (2 ^ b)) [0..<Suc b] (nodes t) ! j)" for j
    using assms(2) sc by (simp add: t1_def shift_blocks_right_def del: upt_Suc)
  show "j < 2 ^ (dep - b) \<Longrightarrow> nodes t1 ! j = nodes t ! j"
    using shift_right.fold_above [OF fits assms(3)] by (simp add: n1 del: upt_Suc)
  define st where "st = (2 :: nat) ^ (b - l)"
  assume l: "l \<le> b" and j: "on_level dep l (2 ^ (dep - l) + p)" and out: "\<not> in_block dep b slot l (2 ^ (dep - l) + p)"
  have "\<not> (slot * st \<le> p \<and> p < slot * st + st)" using out by (auto simp: in_block_def st_def)
  moreover have "(count - slot) * st = count * st - slot * st" "slot * st \<le> count * st"
    using sc by (simp_all add: diff_mult_distrib)
  ultimately show "nodes t1 ! (2 ^ (dep - l) + p) =
      (if (slot + 1) * 2 ^ (b - l) \<le> p \<and> p < (count + 1) * 2 ^ (b - l)
       then nodes t ! (2 ^ (dep - l) + p - 2 ^ (b - l)) else nodes t ! (2 ^ (dep - l) + p))"
    using nth_shift_right_level(1) [OF fits l assms(3) on_level_bound [OF j]]
      shift_right.fold_level [OF fits assms(3) l j]
    by (auto simp: n1 Let_def add_mult_distrib simp flip: st_def simp del: upt_Suc)
qed

lemma shift_right_agrees:
  assumes t: "hashed c t" "depth t = dep" and u: "hashed c u" "depth u = dep"
    and ins: "block_inserted dep b slot count (leaves t) (leaves u)"
    and j: "on_level dep l j" "l \<le> b" "\<not> in_block dep b slot l j"
  shows "nodes (shift_blocks_right slot (count - slot) (2 ^ b) t) ! j = nodes u ! j"
proof -
  note wt = wf_tree_simps [OF hashed_wf [OF t(1)]]
  have cap: "capacity t = 2 ^ dep" "length (nodes t) = 2 * 2 ^ dep" using wt t(2) by simp_all
  have ld: "l \<le> dep" and sc: "slot \<le> count" using ins j(2) by (simp_all add: block_inserted_def)
  obtain p where p: "j = 2 ^ (dep - l) + p" "\<And>k. k < 2 ^ l \<Longrightarrow> p * 2 ^ l + k < 2 ^ dep"
    using level_position [OF j(1) ld] by metis
  define st where "st = (2 :: nat) ^ (b - l)"
  have form: "nodes (shift_blocks_right slot (count - slot) (2 ^ b) t) ! j =
      (if (slot + 1) * st \<le> p \<and> p < (count + 1) * st then nodes t ! (j - st) else nodes t ! j)"
    using shift_right_form(2) [OF ins cap j(2)] j(1,3) by (simp add: p st_def)
  consider "p < slot * st" | "(slot + 1) * st \<le> p" "p < (count + 1) * st" | "(count + 1) * st \<le> p"
    using j(3) unfolding in_block_def p(1) st_def by fastforce
  then show ?thesis
  proof cases
    case 1
    have "nodes t ! j = nodes u ! j"
      using ins leaf_pos_less [OF 1 [unfolded st_def] j(2)]
      by (intro nodes_eq_slices [OF t u ld j(1) j(1)]) (simp add: p(1) block_inserted_def)
    then show ?thesis using 1 by (simp add: form)
  next
    case 2
    then obtain r where r: "p = st + r" using le_Suc_ex [of st p] by auto
    have "nodes t ! (j - st) = nodes u ! j"
    proof (rule nodes_eq_slices [OF t u ld _ j(1)])
      show "on_level dep l (j - st)" using j(1) by (simp add: on_level_def p(1) r)
      fix k :: nat assume k: "k < 2 ^ l"
      have "leaves u ! (p * 2 ^ l + k) = leaves t ! (p * 2 ^ l + k - 2 ^ b)"
        using ins leaf_pos_ge [OF 2(1) [unfolded st_def] j(2)] leaf_pos_less [OF 2(2) [unfolded st_def] j(2) k]
        by (simp add: block_inserted_def)
      also have "p * 2 ^ l + k - 2 ^ b = r * 2 ^ l + k"
        using stride_block [OF j(2)] by (simp add: r st_def algebra_simps)
      finally show "leaves t ! ((j - st - 2 ^ (dep - l)) * 2 ^ l + k) = leaves u ! ((j - 2 ^ (dep - l)) * 2 ^ l + k)"
        by (simp add: p(1) r)
    qed
    then show ?thesis using 2 by (simp add: form)
  next
    case 3
    have "nodes t ! j = nodes u ! j"
    proof (rule nodes_eq_slices [OF t u ld j(1) j(1)])
      fix k :: nat assume k: "k < 2 ^ l"
      have "(count + 1) * 2 ^ b \<le> p * 2 ^ l + k" using leaf_pos_ge [OF 3 [unfolded st_def] j(2)] .
      then show "leaves t ! ((j - 2 ^ (dep - l)) * 2 ^ l + k) = leaves u ! ((j - 2 ^ (dep - l)) * 2 ^ l + k)"
        using ins p(2) [OF k] by (simp add: block_inserted_def p(1))
    qed
    then show ?thesis using 3 by (simp add: form)
  qed
qed

text \<open>The repair shared by both: with the blocks other than \<open>hole\<close> and the nodes left of the
  slot right, rehashing the hole and then upward gives the hashed tree.\<close>

lemma repair_tree:
  assumes u: "hashed c u" "depth u = dep" and t2: "capacity t2 = 2 ^ dep" "depth t2 = dep"
      "length (nodes t2) = 2 * 2 ^ dep" "nodes t2 ! 0 = 0"
    and b: "b \<le> dep" "slot < 2 ^ (dep - b)" "(hole + 1) * 2 ^ b \<le> 2 ^ dep" "slot \<le> hole"
    and leaf: "\<And>j. in_block dep b hole 0 j \<Longrightarrow> agree (nodes t2) u j"
    and blocks: "\<And>l j. l \<le> b \<Longrightarrow> on_level dep l j \<Longrightarrow> \<not> in_block dep b hole l j \<Longrightarrow> agree (nodes t2) u j"
    and left: "\<And>k j. 0 < k \<Longrightarrow> b + k \<le> dep \<Longrightarrow> on_level dep (b + k) j \<Longrightarrow>
      j < (2 ^ (dep - b) + slot) div 2 ^ k \<Longrightarrow> agree (nodes t2) u j"
  shows "rehash_from_position c (2 ^ (dep - b) div 2) ((2 ^ (dep - b) + slot) div 2)
      (rehash_block c hole (2 ^ b) t2) = u"
proof -
  let ?t3 = "rehash_block c hole (2 ^ b) t2"
  have t3: "agree (nodes ?t3) u j" if "agree (nodes t2) u j \<or> (\<exists>l \<le> b. in_block dep b hole l j)" for j
    by (rule rehash_block_nodes [OF u t2(1,3) b(3,1) leaf that])
  have "agree (nodes t2) u 0"
    using t2(4) wf_tree_simps(3) [OF hashed_wf [OF u(1)]] by (simp add: agree_def)
  then have zero: "nodes ?t3 ! 0 = 0"
    using t3 [of 0] wf_tree_simps(3) [OF hashed_wf [OF u(1)]] by (simp add: agree_def)
  show ?thesis
  proof (rule rehash_position_complete [OF u])
    show all: "agree (nodes ?t3) u j" if "l \<le> b" "on_level dep l j" for l j
      using t3 blocks that by blast
    show "agree (nodes ?t3) u j"
      if "b + k \<le> dep" "on_level dep (b + k) j" "j < (2 ^ (dep - b) + slot) div 2 ^ k" for k j
      using that left [of k j] t3 [of j] all [of b j] by (cases "k = 0") auto
  qed (use t2(1,2,3) b(1,2) zero in simp_all)
qed

lemma above_block:
  assumes "0 < k" "b + k \<le> dep" "on_level dep (b + k) j"
  shows "j < 2 ^ (dep - b)"
proof -
  have "2 * 2 ^ (dep - (b + k)) \<le> (2 :: nat) ^ (dep - b)"
    using assms(1,2) power_increasing [of "Suc (dep - (b + k))" "dep - b" "2 :: nat"] by simp
  then show ?thesis using assms(3) unfolding on_level_def by linarith
qed

lemma insert_block:
  assumes t: "hashed c t" "depth t = dep" and u: "hashed c u" "depth u = dep"
    and ins: "block_inserted dep b slot count (leaves t) (leaves u)"
    and t2: "capacity t2 = 2 ^ dep" "depth t2 = dep" "length (nodes t2) = 2 * 2 ^ dep"
      "\<And>j. j < 2 * 2 ^ dep \<Longrightarrow> \<not> in_block dep b slot 0 j \<Longrightarrow>
         nodes t2 ! j = nodes (shift_blocks_right slot (count - slot) (2 ^ b) t) ! j"
      "\<And>j. in_block dep b slot 0 j \<Longrightarrow> agree (nodes t2) u j"
  shows "rehash_from_position c (2 ^ (dep - b) div 2) ((2 ^ (dep - b) + slot) div 2)
      (rehash_block c slot (2 ^ b) t2) = u"
proof -
  note wt = wf_tree_simps [OF hashed_wf [OF t(1)]]
  have cap: "capacity t = 2 ^ dep" "length (nodes t) = 2 * 2 ^ dep" using wt t(2) by simp_all
  have b: "b \<le> dep" and room: "(slot + 1) * 2 ^ b \<le> 2 ^ dep" "slot < 2 ^ (dep - b)"
    using ins slot_room [of slot count b dep] by (simp_all add: block_inserted_def)
  have out: "\<not> in_block dep b slot 0 j" if "on_level dep l j" "l \<le> dep" "l \<noteq> 0" for l j
    using block_leaf_level [OF room(1) that(1,2)] that(3) by blast
  have low: "nodes t2 ! j = nodes t ! j" if "j < 2 ^ (dep - b)" "\<not> in_block dep b slot 0 j" for j
    using t2(4) [of j] that shift_right_form(1) [OF ins cap] level_le [of dep b] by simp
  show ?thesis
  proof (rule repair_tree [OF u t2(1-3)])
    show "nodes t2 ! 0 = 0" using low [of 0] wt(3) by (simp add: in_block_def)
    show "agree (nodes t2) u j" if "l \<le> b" "on_level dep l j" "\<not> in_block dep b slot l j" for l j
    proof -
      have "\<not> in_block dep b slot 0 j" using out [of l j] that b by (cases "l = 0") auto
      then show ?thesis
        using t2(4) [OF on_level_bound [OF that(2)]] shift_right_agrees [OF t u ins that(2,1,3)]
        by (simp add: agree_def)
    qed
    show "agree (nodes t2) u j"
      if k: "0 < k" "b + k \<le> dep" "on_level dep (b + k) j" "j < (2 ^ (dep - b) + slot) div 2 ^ k" for k j
      using low [OF above_block [OF k(1-3)] out [OF k(3,2)]] k(1)
        left_of_slot [OF t u _ k(2-4)] ins by (simp add: agree_def block_inserted_def)
  qed (use b room t2(5) in auto)
qed

lemma shift_left_form:
  assumes "block_removed dep b slot count old new" "capacity t = 2 ^ dep" "length (nodes t) = 2 * 2 ^ dep"
  defines "t1 \<equiv> shift_blocks_left slot (count - slot) (2 ^ b) t"
  shows "j < 2 ^ (dep - b) \<Longrightarrow> nodes t1 ! j = nodes t ! j"
    "l \<le> b \<Longrightarrow> on_level dep l (2 ^ (dep - l) + p) \<Longrightarrow> \<not> in_block dep b count l (2 ^ (dep - l) + p) \<Longrightarrow>
     nodes t1 ! (2 ^ (dep - l) + p) =
      (if slot * 2 ^ (b - l) \<le> p \<and> p < count * 2 ^ (b - l)
       then nodes t ! (2 ^ (dep - l) + p + 2 ^ (b - l)) else nodes t ! (2 ^ (dep - l) + p))"
    "slot < count \<Longrightarrow> in_block dep b count 0 j \<Longrightarrow> nodes t1 ! j = 0"
    "length (nodes t1) = 2 * 2 ^ dep"
proof -
  have fits: "shift_fits dep (slot, count - slot) b"
    using assms(1) slot_room(3) by (simp add: block_removed_def)
  have sc: "slot \<le> count" using assms(1) by (simp add: block_removed_def)
  have n1: "nodes t1 = (if count = slot then nodes t
      else fold (shift_left_level (2 ^ dep) slot (count - slot) (2 ^ b)) [0..<Suc b] (nodes t))"
    using assms(2) sc by (simp add: t1_def shift_blocks_left_def del: upt_Suc)
  show "j < 2 ^ (dep - b) \<Longrightarrow> nodes t1 ! j = nodes t ! j"
    using shift_left.fold_above [OF fits assms(3)] by (simp add: n1 del: upt_Suc)
  show "length (nodes t1) = 2 * 2 ^ dep"
    using shift_left.fold_length [OF fits order_refl assms(3)] assms(3) by (simp add: n1 del: upt_Suc)
  define st where "st = (2 :: nat) ^ (b - l)"
  obtain d where d: "count = slot + d" using sc le_Suc_ex by blast
  show "nodes t1 ! j = 0" if "slot < count" "in_block dep b count 0 j"
  proof -
    have "(count + 1) * 2 ^ b \<le> 2 ^ dep" using assms(1) by (simp add: block_removed_def)
    then have j: "on_level dep 0 j" using that(2) by (simp add: in_block_def on_level_def)
    show ?thesis
      using nth_shift_left_level(1) [OF fits _ assms(3) on_level_bound [OF j], of 0]
        shift_left.fold_level [OF fits assms(3) _ j] that
      by (auto simp: n1 Let_def in_block_def add_mult_distrib d simp del: upt_Suc)
  qed
  assume l: "l \<le> b" and j: "on_level dep l (2 ^ (dep - l) + p)" and out: "\<not> in_block dep b count l (2 ^ (dep - l) + p)"
  have "\<not> (count * st \<le> p \<and> p < count * st + st)" using out by (auto simp: in_block_def st_def)
  then show "nodes t1 ! (2 ^ (dep - l) + p) =
      (if slot * 2 ^ (b - l) \<le> p \<and> p < count * 2 ^ (b - l)
       then nodes t ! (2 ^ (dep - l) + p + 2 ^ (b - l)) else nodes t ! (2 ^ (dep - l) + p))"
    using nth_shift_left_level(1) [OF fits l assms(3) on_level_bound [OF j]]
      shift_left.fold_level [OF fits assms(3) l j]
    by (auto simp: n1 Let_def add_mult_distrib d simp flip: st_def simp del: upt_Suc)
qed

lemma shift_left_agrees:
  assumes t: "hashed c t" "depth t = dep" and u: "hashed c u" "depth u = dep"
    and rem: "block_removed dep b slot count (leaves t) (leaves u)"
    and j: "on_level dep l j" "l \<le> b" "\<not> in_block dep b count l j"
  shows "nodes (shift_blocks_left slot (count - slot) (2 ^ b) t) ! j = nodes u ! j"
proof -
  note wt = wf_tree_simps [OF hashed_wf [OF t(1)]]
  have cap: "capacity t = 2 ^ dep" "length (nodes t) = 2 * 2 ^ dep" using wt t(2) by simp_all
  have ld: "l \<le> dep" and sc: "slot \<le> count" and room: "(count + 1) * 2 ^ b \<le> 2 ^ dep" "b \<le> dep"
    using rem j(2) by (simp_all add: block_removed_def)
  obtain p where p: "j = 2 ^ (dep - l) + p" "\<And>k. k < 2 ^ l \<Longrightarrow> p * 2 ^ l + k < 2 ^ dep"
    using level_position [OF j(1) ld] by metis
  define st where "st = (2 :: nat) ^ (b - l)"
  have form: "nodes (shift_blocks_left slot (count - slot) (2 ^ b) t) ! j =
      (if slot * st \<le> p \<and> p < count * st then nodes t ! (j + st) else nodes t ! j)"
    using shift_left_form(2) [OF rem cap j(2)] j(1,3) by (simp add: p st_def)
  consider "p < slot * st" | "slot * st \<le> p" "p < count * st" | "(count + 1) * st \<le> p"
    using j(3) unfolding in_block_def p(1) st_def by fastforce
  then show ?thesis
  proof cases
    case 1
    have "nodes t ! j = nodes u ! j"
      using rem leaf_pos_less [OF 1 [unfolded st_def] j(2)]
      by (intro nodes_eq_slices [OF t u ld j(1) j(1)]) (simp add: p(1) block_removed_def)
    then show ?thesis using 1 by (simp add: form)
  next
    case 2
    have lv: "(count + 1) * st \<le> 2 ^ (dep - l)"
      unfolding st_def by (rule scale_level [OF room(1) j(2) room(2)])
    have "nodes t ! (j + st) = nodes u ! j"
    proof (rule nodes_eq_slices [OF t u ld _ j(1)])
      show "on_level dep l (j + st)" using 2(2) lv by (simp add: on_level_def p(1))
      fix k :: nat assume k: "k < 2 ^ l"
      have "leaves u ! (p * 2 ^ l + k) = leaves t ! (p * 2 ^ l + k + 2 ^ b)"
        using rem leaf_pos_ge [OF 2(1) [unfolded st_def] j(2)] leaf_pos_less [OF 2(2) [unfolded st_def] j(2) k]
        by (simp add: block_removed_def)
      also have "p * 2 ^ l + k + 2 ^ b = (p + st) * 2 ^ l + k"
        using stride_block [OF j(2)] by (simp add: st_def algebra_simps)
      finally show "leaves t ! ((j + st - 2 ^ (dep - l)) * 2 ^ l + k) = leaves u ! ((j - 2 ^ (dep - l)) * 2 ^ l + k)"
        by (simp add: p(1))
    qed
    then show ?thesis using 2 by (simp add: form)
  next
    case 3
    have "nodes t ! j = nodes u ! j"
    proof (rule nodes_eq_slices [OF t u ld j(1) j(1)])
      fix k :: nat assume k: "k < 2 ^ l"
      have "(count + 1) * 2 ^ b \<le> p * 2 ^ l + k" using leaf_pos_ge [OF 3 [unfolded st_def] j(2)] .
      then show "leaves t ! ((j - 2 ^ (dep - l)) * 2 ^ l + k) = leaves u ! ((j - 2 ^ (dep - l)) * 2 ^ l + k)"
        using rem p(2) [OF k] by (simp add: block_removed_def p(1))
    qed
    moreover have "\<not> p < count * st" using 3 by simp
    ultimately show ?thesis by (simp add: form)
  qed
qed

lemma remove_block:
  assumes t: "hashed c t" "depth t = dep" and u: "hashed c u" "depth u = dep"
    and rem: "block_removed dep b slot count (leaves t) (leaves u)"
    and t2: "capacity t2 = 2 ^ dep" "depth t2 = dep" "length (nodes t2) = 2 * 2 ^ dep"
      "\<And>j. j < 2 * 2 ^ dep \<Longrightarrow> \<not> in_block dep b count 0 j \<Longrightarrow>
         nodes t2 ! j = nodes (shift_blocks_left slot (count - slot) (2 ^ b) t) ! j"
      "\<And>j. in_block dep b count 0 j \<Longrightarrow> nodes t2 ! j = 0"
  shows "rehash_from_position c (2 ^ (dep - b) div 2) ((2 ^ (dep - b) + slot) div 2)
      (rehash_block c count (2 ^ b) t2) = u"
    "leaves (rehash_block c count (2 ^ b) t2) = leaves u"
    "nodes (rehash_block c count (2 ^ b) t2) ! 0 = 0"
proof -
  note wt = wf_tree_simps [OF hashed_wf [OF t(1)]] and wu = wf_tree_simps [OF hashed_wf [OF u(1)]]
  have cap: "capacity t = 2 ^ dep" "length (nodes t) = 2 * 2 ^ dep" using wt t(2) by simp_all
  have cu: "capacity u = 2 ^ dep" "length (nodes u) = 2 * 2 ^ dep" using wu u(2) by simp_all
  have b: "b \<le> dep" and room: "(count + 1) * 2 ^ b \<le> 2 ^ dep" "slot \<le> count" "slot < 2 ^ (dep - b)"
    using rem slot_room [of slot count b dep] by (simp_all add: block_removed_def)
  have out: "\<not> in_block dep b count 0 j" if "on_level dep l j" "l \<le> dep" "l \<noteq> 0" for l j
    using block_leaf_level [OF room(1) that(1,2)] that(3) by blast
  have low: "nodes t2 ! j = nodes t ! j" if "j < 2 ^ (dep - b)" "\<not> in_block dep b count 0 j" for j
    using t2(4) [of j] that shift_left_form(1) [OF rem cap] level_le [of dep b] by simp
  have zero: "nodes t2 ! 0 = 0" using low [of 0] wt(3) by (simp add: in_block_def)
  have hole: "agree (nodes t2) u j" if "in_block dep b count 0 j" for j
  proof -
    have "2 ^ dep \<le> j" using that unfolding in_block_def by simp
    then obtain k where "j = 2 ^ dep + k" using le_Suc_ex by blast
    with that have k: "j = 2 ^ dep + k" "count * 2 ^ b \<le> k" "k < (count + 1) * 2 ^ b"
      by (simp_all add: in_block_def)
    then have "leaves u ! k = 0" using rem room(1) by (auto simp: block_removed_def)
    then show ?thesis
      using t2(5) [OF that] nth_leaves [OF hashed_wf [OF u(1)], of k] k room(1) cu by (simp add: agree_def)
  qed
  have blocks: "agree (nodes t2) u j" if "l \<le> b" "on_level dep l j" "\<not> in_block dep b count l j" for l j
  proof -
    have "\<not> in_block dep b count 0 j" using out [of l j] that b by (cases "l = 0") auto
    then show ?thesis
      using t2(4) [OF on_level_bound [OF that(2)]] shift_left_agrees [OF t u rem that(2,1,3)]
      by (simp add: agree_def)
  qed
  show "rehash_from_position c (2 ^ (dep - b) div 2) ((2 ^ (dep - b) + slot) div 2)
      (rehash_block c count (2 ^ b) t2) = u"
  proof (rule repair_tree [OF u t2(1-3) zero])
    show "agree (nodes t2) u j"
      if k: "0 < k" "b + k \<le> dep" "on_level dep (b + k) j" "j < (2 ^ (dep - b) + slot) div 2 ^ k" for k j
      using low [OF above_block [OF k(1-3)] out [OF k(3,2)]] k(1)
        left_of_slot [OF t u _ k(2-4)] rem by (simp add: agree_def block_removed_def)
  qed (use b room hole blocks in auto)
  have all: "agree (nodes (rehash_block c count (2 ^ b) t2)) u j" if "j = 0 \<or> on_level dep 0 j" for j
    using rehash_block_nodes [OF u t2(1,3) room(1) b hole, of j] that zero wu(3) blocks [of 0 j] hole [of j]
    by (auto simp: agree_def)
  then show "nodes (rehash_block c count (2 ^ b) t2) ! 0 = 0" using wu(3) by (auto simp: agree_def)
  show "leaves (rehash_block c count (2 ^ b) t2) = leaves u"
    using t2(1,3) cu all by (intro nth_equalityI) (simp_all add: leaves_def agree_def on_level_def)
qed

end
