(* ===== verification/Header.thy ===== *)
theory Header
  imports Buffer Crypto
begin

text \<open>
  \<open>types/src/header.rs\<close>: block headers, the validators a header adds, and headers paired with
  the certificate that finalized them.

  The container encoding of a header is generated by the \<open>ssz_derive\<close> macros, the one of a
  finalized header is built by the encoder of the \<open>ethereum_ssz\<close> crate, and certificates are
  encoded by \<open>commonware_consensus\<close>: these are the fields of the record \<open>wire\<close>, an argument of
  the definitions. \<open>wire_ok\<close> states what the program relies on: what these libraries write they
  read back. Shown: a header and a finalized header are read back from the front of any buffer,
  and a finalized header obtained from bytes is bound to its certificate.
\<close>

section \<open>Data\<close>

record added_validator =
  av_node_key :: node_key
  av_consensus_key :: bls_key

text \<open>The cached digest: empty, or filled by \<open>get_digest\<close> or by the genesis constructor.\<close>

record header =
  h_parent :: digest
  h_height :: u64
  h_timestamp :: u64
  h_epoch :: u64
  h_view :: u64
  h_payload_hash :: digest
  h_execution_request_hash :: digest
  h_checkpoint_hash :: digest
  h_prev_epoch_header_hash :: digest
  h_added_validators :: "added_validator list"
  h_removed_validators :: "node_key list"
  h_parent_beacon_block_root :: bytes32
  h_digest :: "digest option"

text \<open>A \<open>commonware_consensus\<close> finalization: the proposal it is for, and the certificate as
  its encoding.\<close>

record finalization =
  fin_epoch :: u64
  fin_view :: u64
  fin_parent :: u64
  fin_payload :: digest
  fin_certificate :: "u8 list"

record finalized_header =
  fh_header :: header
  fh_finalization :: finalization
  fh_participant_count :: nat

record wire =
  header_as_ssz :: "header \<Rightarrow> u8 list"
  header_from_ssz :: "u8 list \<Rightarrow> header option"
  finalized_container :: "u8 list \<Rightarrow> u32 \<Rightarrow> u8 list \<Rightarrow> u8 list"
  finalized_fields :: "u8 list \<Rightarrow> (u8 list \<times> u32 \<times> u8 list) option"
  finalization_write :: "finalization \<Rightarrow> u8 list"
  finalization_read :: "nat \<Rightarrow> finalization reader"
  finalization_sized :: "nat \<Rightarrow> finalization \<Rightarrow> bool"
  checkpoint_container :: "u8 list \<Rightarrow> digest \<Rightarrow> u8 list"
  checkpoint_fields :: "u8 list \<Rightarrow> (u8 list \<times> digest) option"

definition BYTES_PER_LENGTH_OFFSET :: nat where
  "BYTES_PER_LENGTH_OFFSET = 4"

section \<open>Added validators\<close>

definition ADDED_VALIDATOR_SSZ_SIZE :: nat where
  "ADDED_VALIDATOR_SSZ_SIZE = 32 + 48"

definition added_validator_ssz_append :: "added_validator \<Rightarrow> u8 list" where
  "added_validator_ssz_append av = to_be_bytes (av_node_key av) @ to_be_bytes (av_consensus_key av)"

definition added_validator_from_ssz_bytes :: "crypto \<Rightarrow> u8 list \<Rightarrow> string + added_validator" where
  "added_validator_from_ssz_bytes c bytes =
     (if length bytes \<noteq> ADDED_VALIDATOR_SSZ_SIZE then Inl ''InvalidByteLength''
      else let node_key = from_be_bytes (take 32 bytes);
               consensus_key = from_be_bytes (drop 32 bytes)
           in if \<not> ed_key_ok c node_key then Inl ''invalid node_key bytes''
              else if \<not> bls_key_ok c consensus_key then Inl ''invalid consensus_key bytes''
              else Inr \<lparr>av_node_key = node_key, av_consensus_key = consensus_key\<rparr>)"

definition ssz_digest_append :: "digest \<Rightarrow> u8 list" where
  "ssz_digest_append d = to_be_bytes d"

definition ssz_digest_from_ssz_bytes :: "u8 list \<Rightarrow> string + digest" where
  "ssz_digest_from_ssz_bytes bytes =
     (if length bytes \<noteq> 32 then Inl ''InvalidByteLength'' else Inr (from_be_bytes bytes))"

definition ssz_public_key_append :: "node_key \<Rightarrow> u8 list" where
  "ssz_public_key_append k = to_be_bytes k"

definition ssz_public_key_from_ssz_bytes :: "crypto \<Rightarrow> u8 list \<Rightarrow> string + node_key" where
  "ssz_public_key_from_ssz_bytes c bytes =
     (if length bytes \<noteq> 32 then Inl ''InvalidByteLength''
      else if \<not> ed_key_ok c (from_be_bytes bytes) then Inl ''invalid PublicKey bytes''
      else Inr (from_be_bytes bytes))"

section \<open>Headers\<close>

text \<open>Both codecs prefix the SSZ bytes with their length as a big-endian \<open>u32\<close>.\<close>

definition prefixed :: "u8 list \<Rightarrow> u8 list" where
  "prefixed ssz_bytes = to_be_bytes (word_of_nat (length ssz_bytes) :: u32) @ ssz_bytes"

definition header_new ::
  "digest \<Rightarrow> u64 \<Rightarrow> u64 \<Rightarrow> u64 \<Rightarrow> u64 \<Rightarrow> digest \<Rightarrow> digest \<Rightarrow> digest \<Rightarrow> digest
     \<Rightarrow> added_validator list \<Rightarrow> node_key list \<Rightarrow> bytes32 \<Rightarrow> header" where
  "header_new parent height timestamp epoch view payload_hash execution_request_hash
     checkpoint_hash prev_epoch_header_hash added_validators removed_validators
     parent_beacon_block_root =
     \<lparr>h_parent = parent, h_height = height, h_timestamp = timestamp, h_epoch = epoch,
      h_view = view, h_payload_hash = payload_hash,
      h_execution_request_hash = execution_request_hash, h_checkpoint_hash = checkpoint_hash,
      h_prev_epoch_header_hash = prev_epoch_header_hash, h_added_validators = added_validators,
      h_removed_validators = removed_validators,
      h_parent_beacon_block_root = parent_beacon_block_root, h_digest = None\<rparr>"

definition header_new_with_digest ::
  "digest \<Rightarrow> u64 \<Rightarrow> u64 \<Rightarrow> u64 \<Rightarrow> u64 \<Rightarrow> digest \<Rightarrow> digest \<Rightarrow> digest \<Rightarrow> digest
     \<Rightarrow> added_validator list \<Rightarrow> node_key list \<Rightarrow> bytes32 \<Rightarrow> digest \<Rightarrow> header" where
  "header_new_with_digest parent height timestamp epoch view payload_hash execution_request_hash
     checkpoint_hash prev_epoch_header_hash added_validators removed_validators
     parent_beacon_block_root dg =
     \<lparr>h_parent = parent, h_height = height, h_timestamp = timestamp, h_epoch = epoch,
      h_view = view, h_payload_hash = payload_hash,
      h_execution_request_hash = execution_request_hash, h_checkpoint_hash = checkpoint_hash,
      h_prev_epoch_header_hash = prev_epoch_header_hash, h_added_validators = added_validators,
      h_removed_validators = removed_validators,
      h_parent_beacon_block_root = parent_beacon_block_root, h_digest = Some dg\<rparr>"

definition header_write :: "wire \<Rightarrow> header \<Rightarrow> u8 list" where
  "header_write w h = prefixed (header_as_ssz w h)"

definition header_encode_size :: "wire \<Rightarrow> header \<Rightarrow> nat" where
  "header_encode_size w h = length (header_as_ssz w h) + BYTES_PER_LENGTH_OFFSET"

definition header_read :: "wire \<Rightarrow> header reader" where
  "header_read w =
     rbind get_be (\<lambda>len :: u32.
     rbind (at_least (unat len) (Invalid ''Header'' ''improper encoded length'')) (\<lambda>_.
     rbind (take_bytes (unat len)) (\<lambda>payload.
     case header_from_ssz w payload of
       None \<Rightarrow> fail (Invalid ''Header'' ''Unable to decode bytes for header'')
     | Some h \<Rightarrow> ret h)))"

definition computed_digest :: "crypto \<Rightarrow> wire \<Rightarrow> header \<Rightarrow> digest" where
  "computed_digest c w h = sha256 c (header_write w h)"

definition get_digest :: "crypto \<Rightarrow> wire \<Rightarrow> header \<Rightarrow> digest" where
  "get_digest c w h = (case h_digest h of Some d \<Rightarrow> d | None \<Rightarrow> computed_digest c w h)"

definition header_eq :: "header \<Rightarrow> header \<Rightarrow> bool" where
  "header_eq h k \<longleftrightarrow>
     h_parent h = h_parent k \<and> h_height h = h_height k \<and> h_timestamp h = h_timestamp k
       \<and> h_epoch h = h_epoch k \<and> h_view h = h_view k \<and> h_payload_hash h = h_payload_hash k
       \<and> h_execution_request_hash h = h_execution_request_hash k
       \<and> h_checkpoint_hash h = h_checkpoint_hash k
       \<and> h_prev_epoch_header_hash h = h_prev_epoch_header_hash k
       \<and> h_added_validators h = h_added_validators k
       \<and> h_removed_validators h = h_removed_validators k
       \<and> h_parent_beacon_block_root h = h_parent_beacon_block_root k"

section \<open>Finalized headers\<close>

definition MAX_FINALIZED_HEADER_PARTICIPANTS :: nat where
  "MAX_FINALIZED_HEADER_PARTICIPANTS = 100000"

datatype finalized_header_error = PayloadDigestMismatch

definition finalized_header_new_unchecked ::
  "header \<Rightarrow> finalization \<Rightarrow> nat \<Rightarrow> finalized_header" where
  "finalized_header_new_unchecked h f participant_count =
     \<lparr>fh_header = h, fh_finalization = f, fh_participant_count = participant_count\<rparr>"

definition finalized_header_new ::
  "crypto \<Rightarrow> wire \<Rightarrow> header \<Rightarrow> finalization \<Rightarrow> nat \<Rightarrow> finalized_header_error + finalized_header" where
  "finalized_header_new c w h f participant_count =
     (if fin_payload f \<noteq> computed_digest c w h then Inl PayloadDigestMismatch
      else Inr (finalized_header_new_unchecked h f participant_count))"

definition finalized_header_ssz_append :: "wire \<Rightarrow> finalized_header \<Rightarrow> u8 list" where
  "finalized_header_ssz_append w fh =
     finalized_container w (header_as_ssz w (fh_header fh))
       (word_of_nat (fh_participant_count fh)) (finalization_write w (fh_finalization fh))"

definition finalized_header_ssz_bytes_len :: "wire \<Rightarrow> finalized_header \<Rightarrow> nat" where
  "finalized_header_ssz_bytes_len w fh =
     12 + length (header_as_ssz w (fh_header fh))
       + length (finalization_write w (fh_finalization fh))"

datatype ssz_decode_error =
    Container_Invalid
  | Participants_Exceed u32
  | Header_Invalid
  | Finalization_Invalid codec_error
  | Unbound finalized_header_error

definition finalized_header_from_ssz_bytes ::
  "crypto \<Rightarrow> wire \<Rightarrow> u8 list \<Rightarrow> ssz_decode_error + finalized_header" where
  "finalized_header_from_ssz_bytes c w bytes =
     (case finalized_fields w bytes of
        None \<Rightarrow> Inl Container_Invalid
      | Some (header_bytes, participant_count, finalized_bytes) \<Rightarrow>
          if unat participant_count > MAX_FINALIZED_HEADER_PARTICIPANTS
          then Inl (Participants_Exceed participant_count)
          else case header_from_ssz w header_bytes of
            None \<Rightarrow> Inl Header_Invalid
          | Some h \<Rightarrow>
              (case finalization_read w (unat participant_count) finalized_bytes of
                 Inl e \<Rightarrow> Inl (Finalization_Invalid e)
               | Inr (f, _) \<Rightarrow>
                   (case finalized_header_new c w h f (unat participant_count) of
                      Inl e \<Rightarrow> Inl (Unbound e)
                    | Inr fh \<Rightarrow> Inr fh)))"

definition finalized_header_encode_size :: "wire \<Rightarrow> finalized_header \<Rightarrow> nat" where
  "finalized_header_encode_size w fh =
     finalized_header_ssz_bytes_len w fh + BYTES_PER_LENGTH_OFFSET"

definition finalized_header_write :: "wire \<Rightarrow> finalized_header \<Rightarrow> u8 list" where
  "finalized_header_write w fh = prefixed (finalized_header_ssz_append w fh)"

definition finalized_header_read :: "crypto \<Rightarrow> wire \<Rightarrow> finalized_header reader" where
  "finalized_header_read c w =
     rbind get_be (\<lambda>len :: u32.
     rbind (at_least (unat len) (Invalid ''FinalizedHeader'' ''improper encoded length'')) (\<lambda>_.
     rbind (take_bytes (unat len)) (\<lambda>payload.
     case finalized_header_from_ssz_bytes c w payload of
       Inl _ \<Rightarrow> fail (Invalid ''FinalizedHeader'' ''Unable to decode bytes for finalized header'')
     | Inr fh \<Rightarrow> ret fh)))"

section \<open>What the libraries promise\<close>

text \<open>A header whose keys decode; the only headers the decoder can return.\<close>

definition header_keys_ok :: "crypto \<Rightarrow> header \<Rightarrow> bool" where
  "header_keys_ok c h \<longleftrightarrow>
     list_all (\<lambda>av. ed_key_ok c (av_node_key av) \<and> bls_key_ok c (av_consensus_key av))
       (h_added_validators h)
     \<and> list_all (ed_key_ok c) (h_removed_validators h)"

text \<open>The SSZ encoding leaves the cached digest out, and what fits the 32-bit offsets is read
  back; a certificate is read back when the reader is given its number of participants.\<close>

definition wire_ok :: "crypto \<Rightarrow> wire \<Rightarrow> bool" where
  "wire_ok c w \<longleftrightarrow>
     (\<forall>h. header_as_ssz w (h\<lparr>h_digest := None\<rparr>) = header_as_ssz w h) \<and>
     (\<forall>h. header_keys_ok c h \<longrightarrow> length (header_as_ssz w h) < 2 ^ 32 \<longrightarrow>
        header_from_ssz w (header_as_ssz w h) = Some (h\<lparr>h_digest := None\<rparr>)) \<and>
     (\<forall>hb n fb. length (finalized_container w hb n fb) = 12 + length hb + length fb) \<and>
     (\<forall>hb n fb. 12 + length hb + length fb < 2 ^ 32 \<longrightarrow>
        finalized_fields w (finalized_container w hb n fb) = Some (hb, n, fb)) \<and>
     (\<forall>n f. finalization_sized w n f \<longrightarrow> reads (finalization_read w n) f (finalization_write w f)) \<and>
     (\<forall>d h. length (checkpoint_container w d h) = 36 + length d) \<and>
     (\<forall>d h. 36 + length d < 2 ^ 32 \<longrightarrow> checkpoint_fields w (checkpoint_container w d h) = Some (d, h))"

lemma wire_header_digest:
  "wire_ok c w \<Longrightarrow> header_as_ssz w (h\<lparr>h_digest := None\<rparr>) = header_as_ssz w h"
  and wire_header:
    "wire_ok c w \<Longrightarrow> header_keys_ok c h \<Longrightarrow> length (header_as_ssz w h) < 2 ^ 32 \<Longrightarrow>
       header_from_ssz w (header_as_ssz w h) = Some (h\<lparr>h_digest := None\<rparr>)"
  and wire_container_length:
    "wire_ok c w \<Longrightarrow> length (finalized_container w hb m fb) = 12 + length hb + length fb"
  and wire_container:
    "wire_ok c w \<Longrightarrow> 12 + length hb + length fb < 2 ^ 32 \<Longrightarrow>
       finalized_fields w (finalized_container w hb m fb) = Some (hb, m, fb)"
  and wire_finalization:
    "wire_ok c w \<Longrightarrow> finalization_sized w n f \<Longrightarrow>
       reads (finalization_read w n) f (finalization_write w f)"
  and wire_checkpoint_length: "wire_ok c w \<Longrightarrow> length (checkpoint_container w d dg) = 36 + length d"
  and wire_checkpoint:
    "wire_ok c w \<Longrightarrow> 36 + length d < 2 ^ 32 \<Longrightarrow>
       checkpoint_fields w (checkpoint_container w d dg) = Some (d, dg)"
  unfolding wire_ok_def by blast+

section \<open>Codecs\<close>

lemma added_validator_exact:
  "added_validator_from_ssz_bytes c bs = Inr av \<longleftrightarrow>
     bs = added_validator_ssz_append av \<and> ed_key_ok c (av_node_key av) \<and> bls_key_ok c (av_consensus_key av)"
proof
  assume *: "added_validator_from_ssz_bytes c bs = Inr av"
  then have len: "length bs = 80"
    by (simp add: added_validator_from_ssz_bytes_def ADDED_VALIDATOR_SSZ_SIZE_def split: if_splits)
  with * show "bs = added_validator_ssz_append av \<and> ed_key_ok c (av_node_key av) \<and> bls_key_ok c (av_consensus_key av)"
    by (auto simp: added_validator_from_ssz_bytes_def added_validator_ssz_append_def Let_def
        to_from_be_bytes split: if_splits)
qed (auto simp: added_validator_from_ssz_bytes_def added_validator_ssz_append_def Let_def
    ADDED_VALIDATOR_SSZ_SIZE_def from_to_be_bytes)

lemma ssz_digest_exact: "ssz_digest_from_ssz_bytes bs = Inr d \<longleftrightarrow> bs = ssz_digest_append d"
  by (auto simp: ssz_digest_from_ssz_bytes_def ssz_digest_append_def from_to_be_bytes to_from_be_bytes
      split: if_splits)

lemma ssz_public_key_exact:
  "ssz_public_key_from_ssz_bytes c bs = Inr k \<longleftrightarrow> bs = ssz_public_key_append k \<and> ed_key_ok c k"
  by (auto simp: ssz_public_key_from_ssz_bytes_def ssz_public_key_append_def from_to_be_bytes
      to_from_be_bytes split: if_splits)

lemma prefixed_reads:
  assumes "length bs < 2 ^ 32"
  shows "rbind get_be (\<lambda>len :: u32. rbind (at_least (unat len) e) (\<lambda>_.
           rbind (take_bytes (unat len)) f)) (prefixed bs @ rest) = f bs rest"
proof -
  have "unat (word_of_nat (length bs) :: u32) = length bs"
    by (rule unat_word_of_nat) (use assms in simp)
  then show ?thesis by (simp add: prefixed_def codec_reads)
qed

lemma header_reads:
  assumes "wire_ok c w" "header_keys_ok c h" "length (header_as_ssz w h) < 2 ^ 32"
  shows "reads (header_read w) (h\<lparr>h_digest := None\<rparr>) (header_write w h)"
  by (simp add: reads_def header_read_def header_write_def prefixed_reads [OF assms(3)]
      wire_header [OF assms] ret_def)

lemma computed_digest_cache: "wire_ok c w \<Longrightarrow> computed_digest c w (h\<lparr>h_digest := None\<rparr>) = computed_digest c w h"
  by (simp add: computed_digest_def header_write_def wire_header_digest)

text \<open>A finalized header as its constructors leave it.\<close>

definition finalized_header_ok :: "crypto \<Rightarrow> wire \<Rightarrow> finalized_header \<Rightarrow> bool" where
  "finalized_header_ok c w fh \<longleftrightarrow>
     fin_payload (fh_finalization fh) = computed_digest c w (fh_header fh)
     \<and> header_keys_ok c (fh_header fh)
     \<and> finalization_sized w (fh_participant_count fh) (fh_finalization fh)
     \<and> fh_participant_count fh \<le> MAX_FINALIZED_HEADER_PARTICIPANTS
     \<and> finalized_header_encode_size w fh < 2 ^ 32"

lemma finalized_header_decodes:
  assumes w: "wire_ok c w" and ok: "finalized_header_ok c w fh"
  shows "finalized_header_from_ssz_bytes c w (finalized_header_ssz_append w fh)
    = Inr (fh\<lparr>fh_header := (fh_header fh)\<lparr>h_digest := None\<rparr>\<rparr>)"
proof -
  let ?hb = "header_as_ssz w (fh_header fh)" and ?fb = "finalization_write w (fh_finalization fh)"
  have len: "12 + length ?hb + length ?fb < 2 ^ 32"
    using ok by (simp add: finalized_header_ok_def finalized_header_encode_size_def
        finalized_header_ssz_bytes_len_def BYTES_PER_LENGTH_OFFSET_def)
  have n: "unat (word_of_nat (fh_participant_count fh) :: u32) = fh_participant_count fh"
    by (rule unat_word_of_nat)
      (use ok in \<open>simp add: finalized_header_ok_def MAX_FINALIZED_HEADER_PARTICIPANTS_def\<close>)
  have fin: "finalization_read w (fh_participant_count fh) ?fb = Inr (fh_finalization fh, [])"
    using readsD [OF wire_finalization [OF w], of _ _ "[]"] ok by (simp add: finalized_header_ok_def)
  have "header_from_ssz w ?hb = Some ((fh_header fh)\<lparr>h_digest := None\<rparr>)"
    using wire_header [OF w] ok len by (simp add: finalized_header_ok_def)
  with fin n ok show ?thesis
    by (simp add: finalized_header_from_ssz_bytes_def finalized_header_ssz_append_def
        wire_container [OF w len] finalized_header_ok_def finalized_header_new_def
        computed_digest_cache [OF w] finalized_header_new_unchecked_def)
qed

lemma finalized_header_reads:
  assumes w: "wire_ok c w" and ok: "finalized_header_ok c w fh"
  shows "reads (finalized_header_read c w) (fh\<lparr>fh_header := (fh_header fh)\<lparr>h_digest := None\<rparr>\<rparr>)
    (finalized_header_write w fh)"
proof -
  have "length (finalized_header_ssz_append w fh) < 2 ^ 32"
    using ok by (simp add: finalized_header_ok_def finalized_header_encode_size_def
        finalized_header_ssz_bytes_len_def finalized_header_ssz_append_def
        wire_container_length [OF w])
  note read = prefixed_reads [OF this]
  show ?thesis
    by (simp add: reads_def finalized_header_read_def finalized_header_write_def read
        finalized_header_decodes [OF w ok] ret_def)
qed

lemma finalized_header_bound:
  assumes "finalized_header_from_ssz_bytes c w bs = Inr fh"
  shows "fin_payload (fh_finalization fh) = computed_digest c w (fh_header fh)"
    "fh_participant_count fh \<le> MAX_FINALIZED_HEADER_PARTICIPANTS"
  using assms
  by (auto simp: finalized_header_from_ssz_bytes_def finalized_header_new_def
      finalized_header_new_unchecked_def split: option.splits sum.splits if_splits)

section \<open>An instance of the libraries\<close>

text \<open>One concrete encoding that satisfies \<open>wire_ok\<close>: fields in order, lists with a 32-bit
  count, certificates behind their four numbers.\<close>

definition demo_list :: "('a \<Rightarrow> u8 list) \<Rightarrow> 'a list \<Rightarrow> u8 list" where
  "demo_list wr xs = to_be_bytes (word_of_nat (length xs) :: u32) @ concat (map wr xs)"

definition demo_list_read :: "'a reader \<Rightarrow> 'a list reader" where
  "demo_list_read rd = rbind get_be (\<lambda>n :: u32. read_many rd (unat n))"

definition demo_header_bytes :: "header \<Rightarrow> u8 list" where
  "demo_header_bytes h =
     to_be_bytes (h_parent h) @ to_be_bytes (h_height h) @ to_be_bytes (h_timestamp h)
       @ to_be_bytes (h_epoch h) @ to_be_bytes (h_view h) @ to_be_bytes (h_payload_hash h)
       @ to_be_bytes (h_execution_request_hash h) @ to_be_bytes (h_checkpoint_hash h)
       @ to_be_bytes (h_prev_epoch_header_hash h)
       @ demo_list added_validator_ssz_append (h_added_validators h)
       @ demo_list ssz_public_key_append (h_removed_validators h)
       @ to_be_bytes (h_parent_beacon_block_root h)"

definition demo_added_read :: "added_validator reader" where
  "demo_added_read = rbind get_be (\<lambda>k. rbind get_be (\<lambda>b. ret \<lparr>av_node_key = k, av_consensus_key = b\<rparr>))"

definition demo_header_read :: "header reader" where
  "demo_header_read =
     rbind get_be (\<lambda>parent. rbind get_be (\<lambda>height. rbind get_be (\<lambda>timestamp.
     rbind get_be (\<lambda>epoch. rbind get_be (\<lambda>view. rbind get_be (\<lambda>payload_hash.
     rbind get_be (\<lambda>execution_request_hash. rbind get_be (\<lambda>checkpoint_hash.
     rbind get_be (\<lambda>prev. rbind (demo_list_read demo_added_read) (\<lambda>added.
     rbind (demo_list_read get_be) (\<lambda>removed. rbind get_be (\<lambda>root.
     ret (header_new parent height timestamp epoch view payload_hash execution_request_hash
            checkpoint_hash prev added removed root)))))))))))))"

definition demo_container :: "u8 list \<Rightarrow> u32 \<Rightarrow> u8 list \<Rightarrow> u8 list" where
  "demo_container hb n fb =
     to_be_bytes n @ to_be_bytes (word_of_nat (length hb) :: u32) @ replicate 4 0 @ hb @ fb"

definition demo_fields :: "u8 list \<Rightarrow> (u8 list \<times> u32 \<times> u8 list) option" where
  "demo_fields bs =
     (let n = from_be_bytes (take 4 bs); k = unat (from_be_bytes (take 4 (drop 4 bs)) :: u32)
      in Some (take k (drop 12 bs), n, drop k (drop 12 bs)))"

definition demo_finalization_bytes :: "finalization \<Rightarrow> u8 list" where
  "demo_finalization_bytes f =
     to_be_bytes (fin_epoch f) @ to_be_bytes (fin_view f) @ to_be_bytes (fin_parent f)
       @ to_be_bytes (fin_payload f) @ fin_certificate f"

definition demo_finalization_read :: "nat \<Rightarrow> finalization reader" where
  "demo_finalization_read n =
     rbind get_be (\<lambda>e. rbind get_be (\<lambda>v. rbind get_be (\<lambda>p. rbind get_be (\<lambda>d.
     rbind (take_bytes n) (\<lambda>bs.
     ret \<lparr>fin_epoch = e, fin_view = v, fin_parent = p, fin_payload = d, fin_certificate = bs\<rparr>)))))"

definition demo_wire :: wire where
  "demo_wire = \<lparr>
     header_as_ssz = demo_header_bytes,
     header_from_ssz = (\<lambda>bs. case decode demo_header_read bs of Inl _ \<Rightarrow> None | Inr h \<Rightarrow> Some h),
     finalized_container = demo_container, finalized_fields = demo_fields,
     finalization_write = demo_finalization_bytes, finalization_read = demo_finalization_read,
     finalization_sized = (\<lambda>n f. length (fin_certificate f) = n),
     checkpoint_container = (\<lambda>d h. replicate 4 0 @ to_be_bytes h @ d),
     checkpoint_fields = (\<lambda>bs. Some (drop 36 bs, from_be_bytes (take 32 (drop 4 bs)))) \<rparr>"

interpretation demo_added: codec added_validator_ssz_append demo_added_read "\<lambda>av. True"
  by standard (simp add: reads_def added_validator_ssz_append_def demo_added_read_def codec_reads)

interpretation demo_key: codec ssz_public_key_append get_be "\<lambda>k. True"
  by standard (simp add: ssz_public_key_append_def reads_get_be)

lemma demo_list_reads:
  assumes "reads (read_many rd (length xs)) xs (concat (map wr xs))" "length xs < 2 ^ 32"
  shows "reads (demo_list_read rd) xs (demo_list wr xs)"
proof -
  have "unat (word_of_nat (length xs) :: u32) = length xs"
    by (rule unat_word_of_nat) (use assms(2) in simp)
  then show ?thesis
    using assms(1) by (simp add: reads_def demo_list_def demo_list_read_def codec_reads)
qed

lemma length_concat_written:
  assumes "\<And>x. 0 < length (wr x)"
  shows "length xs \<le> length (concat (map wr xs))"
proof (induction xs)
  case (Cons x xs)
  with assms [of x] show ?case unfolding list.map concat.simps length_append list.size by linarith
qed simp

lemma demo_header_reads:
  assumes "length (demo_header_bytes h) < 2 ^ 32"
  shows "reads demo_header_read (h\<lparr>h_digest := None\<rparr>) (demo_header_bytes h)"
proof -
  have "length (h_added_validators h) < 2 ^ 32" "length (h_removed_validators h) < 2 ^ 32"
    using assms length_concat_written [of added_validator_ssz_append "h_added_validators h"]
      length_concat_written [of ssz_public_key_append "h_removed_validators h"]
    by (simp_all add: demo_header_bytes_def demo_list_def added_validator_ssz_append_def
        ssz_public_key_append_def)
  note lists = reads_rbind [OF demo_list_reads [OF demo_added.read_many_written this(1)]]
    reads_rbind [OF demo_list_reads [OF demo_key.read_many_written this(2)]]
  show ?thesis
    by (simp add: reads_def demo_header_bytes_def demo_header_read_def codec_reads lists
        list.pred_True header_new_def)
qed

lemma demo_wire_ok: "wire_ok c demo_wire"
proof -
  have "demo_header_bytes (h\<lparr>h_digest := None\<rparr>) = demo_header_bytes h" for h
    by (simp add: demo_header_bytes_def)
  moreover have "decode demo_header_read (demo_header_bytes h) = Inr (h\<lparr>h_digest := None\<rparr>)"
    if "length (demo_header_bytes h) < 2 ^ 32" for h
    by (rule reads_decode) (rule demo_header_reads [OF that])
  moreover have "demo_fields (demo_container hb n fb) = Some (hb, n, fb)"
    if "12 + length hb + length fb < 2 ^ 32" for hb n fb
  proof -
    have "unat (word_of_nat (length hb) :: u32) = length hb"
      by (rule unat_word_of_nat) (use that in simp)
    then show ?thesis by (simp add: demo_fields_def demo_container_def from_to_be_bytes Let_def)
  qed
  moreover have "reads (demo_finalization_read n) f (demo_finalization_bytes f)"
    if "length (fin_certificate f) = n" for n f
    using that by (simp add: reads_def demo_finalization_bytes_def demo_finalization_read_def codec_reads)
  ultimately show ?thesis
    by (simp add: wire_ok_def demo_wire_def demo_container_def from_to_be_bytes)
qed

section \<open>The codec of finalized headers\<close>

text \<open>C28. Finalized headers on the wire. Whatever bytes are decoded, an accepted finalized
  header is bound to its certificate: the signed payload is the digest recomputed from the
  header's fields, and the participant count, which sizes the certificate decoding, is at most
  the limit. And a finalized header built by the checking constructor is read back from the
  front of any buffer (with an empty digest cache, which equality ignores), in the announced
  number of bytes.\<close>

theorem finalized_header_codec:
  assumes "wire_ok c w"
  shows "(\<forall>buf fh rest. finalized_header_read c w buf = Inr (fh, rest) \<longrightarrow>
            finalized_header_new c w (fh_header fh) (fh_finalization fh) (fh_participant_count fh) = Inr fh
            \<and> fh_participant_count fh \<le> MAX_FINALIZED_HEADER_PARTICIPANTS)
    \<and> (\<forall>fh rest. finalized_header_ok c w fh \<longrightarrow>
         (\<exists>fh'. finalized_header_read c w (finalized_header_write w fh @ rest) = Inr (fh', rest)
            \<and> header_eq (fh_header fh') (fh_header fh) \<and> fh_finalization fh' = fh_finalization fh
            \<and> fh_participant_count fh' = fh_participant_count fh)
         \<and> length (finalized_header_write w fh) = finalized_header_encode_size w fh)"
proof (intro conjI allI impI)
  fix buf fh rest assume "finalized_header_read c w buf = Inr (fh, rest)"
  then obtain bs where *: "finalized_header_from_ssz_bytes c w bs = Inr fh"
    by (auto simp: finalized_header_read_def reader_Inr case_sum_fail_Inr)
  then show "fh_participant_count fh \<le> MAX_FINALIZED_HEADER_PARTICIPANTS"
    by (rule finalized_header_bound)
  show "finalized_header_new c w (fh_header fh) (fh_finalization fh) (fh_participant_count fh) = Inr fh"
    using finalized_header_bound(1) [OF *]
    by (simp add: finalized_header_new_def finalized_header_new_unchecked_def)
next
  fix fh rest assume ok: "finalized_header_ok c w fh"
  show "\<exists>fh'. finalized_header_read c w (finalized_header_write w fh @ rest) = Inr (fh', rest)
      \<and> header_eq (fh_header fh') (fh_header fh) \<and> fh_finalization fh' = fh_finalization fh
      \<and> fh_participant_count fh' = fh_participant_count fh"
    unfolding readsD [OF finalized_header_reads [OF assms ok]] by (simp add: header_eq_def)
  show "length (finalized_header_write w fh) = finalized_header_encode_size w fh"
    by (simp add: finalized_header_write_def prefixed_def finalized_header_ssz_append_def
        wire_container_length [OF assms] finalized_header_encode_size_def
        finalized_header_ssz_bytes_len_def BYTES_PER_LENGTH_OFFSET_def)
qed

definition demo_header :: header where
  "demo_header = header_new 1 2 3 4 5 6 7 8 9 [\<lparr>av_node_key = 10, av_consensus_key = 11\<rparr>] [12] 13"

definition demo_finalized_header :: finalized_header where
  "demo_finalized_header =
     \<lparr>fh_header = demo_header,
      fh_finalization = \<lparr>fin_epoch = 4, fin_view = 5, fin_parent = 4,
        fin_payload = computed_digest demo_crypto demo_wire demo_header, fin_certificate = [1, 2, 3, 4]\<rparr>,
      fh_participant_count = 4\<rparr>"

theorem finalized_header_codec_witness:
  "\<exists>fh. finalized_header_read demo_crypto demo_wire
          (finalized_header_write demo_wire demo_finalized_header @ [7]) = Inr (fh, [7])
      \<and> header_eq (fh_header fh) demo_header"
proof -
  have "finalized_header_ok demo_crypto demo_wire demo_finalized_header"
    by (simp add: finalized_header_ok_def demo_finalized_header_def demo_wire_def demo_header_def
        header_new_def header_keys_ok_def MAX_FINALIZED_HEADER_PARTICIPANTS_def
        finalized_header_encode_size_def finalized_header_ssz_bytes_len_def
        BYTES_PER_LENGTH_OFFSET_def demo_header_bytes_def demo_list_def
        added_validator_ssz_append_def ssz_public_key_append_def demo_finalization_bytes_def)
  then have "\<exists>fh. finalized_header_read demo_crypto demo_wire
          (finalized_header_write demo_wire demo_finalized_header @ [7]) = Inr (fh, [7])
      \<and> header_eq (fh_header fh) (fh_header demo_finalized_header)"
    using finalized_header_codec [OF demo_wire_ok, of demo_crypto] by blast
  then show ?thesis by (simp add: demo_finalized_header_def)
qed

end
