(* ===== verification/Execution_Request.thy ===== *)
theory Execution_Request
  imports Crypto Buffer
begin

text \<open>
  \<open>types/src/execution_request.rs\<close>: the deposit, withdrawal and protocol-parameter requests
  an execution block carries, their codecs, the parser of a grouped EIP-7685 entry, and the
  digest a deposit is signed over. Shown: each codec reads back what it wrote and, withdrawal
  padding apart, accepts nothing else; a grouped entry is parsed chunk by chunk, so that a
  chunk with an undecodable key is reported with its refund data and leaves the others alone.
  Error strings are those of the source.
\<close>

section \<open>Requests\<close>

record withdrawal_request =
  wr_source_address :: address
  wr_validator_pubkey :: node_key
  wr_amount :: u64

record deposit_request =
  dr_node_pubkey :: node_key
  dr_consensus_pubkey :: bls_key
  dr_withdrawal_credentials :: bytes32
  dr_amount :: u64
  dr_node_signature :: bytes64
  dr_consensus_signature :: bytes96
  dr_index :: u64

record protocol_param_request =
  pp_param_id :: u8
  pp_param :: "u8 list"

datatype execution_request =
    Deposit deposit_request
  | Withdrawal withdrawal_request
  | ProtocolParam protocol_param_request

record malformed_deposit_request =
  md_withdrawal_credentials :: bytes32
  md_amount :: u64
  md_index :: u64
  md_reason :: string

datatype parsed_execution_request =
    Valid execution_request
  | MalformedDeposit malformed_deposit_request

section \<open>Slices and chunks\<close>

text \<open>\<open>bytes[a..b]\<close>, \<open>chunks_exact(n)\<close>, and collecting results into a result.\<close>

definition slice :: "nat \<Rightarrow> nat \<Rightarrow> 'a list \<Rightarrow> 'a list" where
  "slice a b bs = take (b - a) (drop a bs)"

function chunks_exact :: "nat \<Rightarrow> 'a list \<Rightarrow> 'a list list" where
  "chunks_exact n bs =
     (if n = 0 \<or> length bs < n then [] else take n bs # chunks_exact n (drop n bs))"
  by auto
termination by (relation "measure (\<lambda>(n, bs). length bs)") auto

declare chunks_exact.simps [simp del]

fun collect :: "('a \<Rightarrow> 'e + 'b) \<Rightarrow> 'a list \<Rightarrow> 'e + 'b list" where
  "collect f [] = Inr []"
| "collect f (x # xs) =
     (case f x of
        Inl e \<Rightarrow> Inl e
      | Inr y \<Rightarrow> (case collect f xs of Inl e \<Rightarrow> Inl e | Inr ys \<Rightarrow> Inr (y # ys)))"

section \<open>Withdrawal requests\<close>

definition WITHDRAWAL_REQUEST_SIZE :: nat where
  "WITHDRAWAL_REQUEST_SIZE = 76"

definition withdrawal_request_write :: "withdrawal_request \<Rightarrow> u8 list" where
  "withdrawal_request_write r =
     to_be_bytes (wr_source_address r) @ replicate 16 0 @ to_be_bytes (wr_validator_pubkey r)
       @ to_le_bytes (wr_amount r)"

definition withdrawal_request_read :: "withdrawal_request reader" where
  "withdrawal_request_read =
     rbind (at_least 76 (Invalid ''WithdrawalRequest'' ''Insufficient bytes'')) (\<lambda>_.
     rbind get_be (\<lambda>source_address.
     rbind (at_least 16 EndOfBuffer) (\<lambda>_.
     rbind (take_bytes 16) (\<lambda>_.
     rbind get_be (\<lambda>validator_pubkey.
     rbind get_le (\<lambda>amount.
     ret \<lparr>wr_source_address = source_address, wr_validator_pubkey = validator_pubkey,
          wr_amount = amount\<rparr>))))))"

definition withdrawal_request_try_from_eth_bytes :: "u8 list \<Rightarrow> string + withdrawal_request" where
  "withdrawal_request_try_from_eth_bytes bytes =
     (if length bytes \<noteq> 76 then Inl ''WithdrawalRequest must be exactly 76 bytes''
      else Inr \<lparr>wr_source_address = from_be_bytes (slice 0 20 bytes),
                wr_validator_pubkey = from_be_bytes (slice 36 68 bytes),
                wr_amount = from_le_bytes (slice 68 76 bytes)\<rparr>)"

definition withdrawal_request_try_from_eth_entry_bytes ::
  "u8 list \<Rightarrow> string + withdrawal_request list" where
  "withdrawal_request_try_from_eth_entry_bytes bytes =
     (if \<not> WITHDRAWAL_REQUEST_SIZE dvd length bytes
      then Inl ''WithdrawalRequest payload length must be a multiple of 76 bytes''
      else collect withdrawal_request_try_from_eth_bytes (chunks_exact WITHDRAWAL_REQUEST_SIZE bytes))"

section \<open>Deposit requests\<close>

definition DEPOSIT_REQUEST_SIZE :: nat where
  "DEPOSIT_REQUEST_SIZE = 288"

definition deposit_request_write :: "deposit_request \<Rightarrow> u8 list" where
  "deposit_request_write d =
     to_be_bytes (dr_node_pubkey d) @ to_be_bytes (dr_consensus_pubkey d)
       @ to_be_bytes (dr_withdrawal_credentials d) @ to_le_bytes (dr_amount d)
       @ to_be_bytes (dr_node_signature d) @ to_be_bytes (dr_consensus_signature d)
       @ to_le_bytes (dr_index d)"

definition deposit_request_read :: "crypto \<Rightarrow> deposit_request reader" where
  "deposit_request_read c =
     rbind (at_least 288 (Invalid ''DepositRequest'' ''Insufficient bytes'')) (\<lambda>_.
     rbind get_be (\<lambda>node_pubkey.
     rbind (ensure (ed_key_ok c node_pubkey)
              (Invalid ''DepositRequest'' ''Invalid ed25519 public key'')) (\<lambda>_.
     rbind get_be (\<lambda>consensus_pubkey.
     rbind (ensure (bls_key_ok c consensus_pubkey)
              (Invalid ''DepositRequest'' ''Invalid BLS public key'')) (\<lambda>_.
     rbind get_be (\<lambda>withdrawal_credentials.
     rbind get_le (\<lambda>amount.
     rbind get_be (\<lambda>node_signature.
     rbind get_be (\<lambda>consensus_signature.
     rbind get_le (\<lambda>index.
     ret \<lparr>dr_node_pubkey = node_pubkey, dr_consensus_pubkey = consensus_pubkey,
          dr_withdrawal_credentials = withdrawal_credentials, dr_amount = amount,
          dr_node_signature = node_signature, dr_consensus_signature = consensus_signature,
          dr_index = index\<rparr>))))))))))"

definition deposit_request_try_from_eth_bytes :: "crypto \<Rightarrow> u8 list \<Rightarrow> string + deposit_request" where
  "deposit_request_try_from_eth_bytes c bytes =
     (if length bytes \<noteq> 288 then Inl ''DepositRequest must be exactly 288 bytes''
      else let node_pubkey = from_be_bytes (slice 0 32 bytes)
      in if \<not> ed_key_ok c node_pubkey then Inl ''Invalid ed25519 public key''
      else let consensus_pubkey = from_be_bytes (slice 32 80 bytes)
      in if \<not> bls_key_ok c consensus_pubkey then Inl ''Invalid BLS public key''
      else Inr \<lparr>dr_node_pubkey = node_pubkey, dr_consensus_pubkey = consensus_pubkey,
                dr_withdrawal_credentials = from_be_bytes (slice 80 112 bytes),
                dr_amount = from_le_bytes (slice 112 120 bytes),
                dr_node_signature = from_be_bytes (slice 120 184 bytes),
                dr_consensus_signature = from_be_bytes (slice 184 280 bytes),
                dr_index = from_le_bytes (slice 280 288 bytes)\<rparr>)"

definition deposit_request_try_from_eth_entry_bytes ::
  "crypto \<Rightarrow> u8 list \<Rightarrow> string + deposit_request list" where
  "deposit_request_try_from_eth_entry_bytes c bytes =
     (if \<not> DEPOSIT_REQUEST_SIZE dvd length bytes
      then Inl ''DepositRequest payload length must be a multiple of 288 bytes''
      else collect (deposit_request_try_from_eth_bytes c) (chunks_exact DEPOSIT_REQUEST_SIZE bytes))"

definition as_message :: "crypto \<Rightarrow> deposit_request \<Rightarrow> digest \<Rightarrow> digest" where
  "as_message c d domain =
     (let pubkeys_hash = sha256 c (to_be_bytes (dr_node_pubkey d) @ to_be_bytes (dr_consensus_pubkey d));
          left_hash = sha256 c (to_be_bytes pubkeys_hash @ to_be_bytes (dr_withdrawal_credentials d));
          right_hash = sha256 c (to_le_bytes (dr_amount d) @ replicate 56 0);
          root_hash = sha256 c (to_be_bytes left_hash @ to_be_bytes right_hash)
      in sha256 c (to_be_bytes root_hash @ to_be_bytes domain))"

text \<open>\<open>amount_gwei.to::<u64>()\<close> panics when the value does not fit: \<open>None\<close>.\<close>

definition compute_deposit_data_root ::
  "crypto \<Rightarrow> node_key \<Rightarrow> bls_key \<Rightarrow> bytes32 \<Rightarrow> 256 word \<Rightarrow> bytes64 \<Rightarrow> bytes96 \<Rightarrow> bytes32 option" where
  "compute_deposit_data_root c node_pubkey consensus_pubkey withdrawal_credentials amount
       node_signature consensus_signature =
     (let consensus_pubkey_hash = sha256 c (to_be_bytes consensus_pubkey @ replicate 16 0);
          pubkey_root = sha256 c (to_be_bytes node_pubkey @ to_be_bytes consensus_pubkey_hash);
          node_signature_hash = sha256 c (to_be_bytes node_signature);
          sig = to_be_bytes consensus_signature;
          consensus_sig_part1 = sha256 c (slice 0 64 sig);
          consensus_sig_part2 = sha256 c (slice 64 96 sig @ replicate 32 0);
          consensus_signature_hash =
            sha256 c (to_be_bytes consensus_sig_part1 @ to_be_bytes consensus_sig_part2);
          signature_root =
            sha256 c (to_be_bytes node_signature_hash @ to_be_bytes consensus_signature_hash);
          amount_gwei = amount div 10 ^ 9
      in if 2 ^ 64 \<le> unat amount_gwei then None
         else let amount_bytes = to_le_bytes (ucast amount_gwei :: u64);
                  left_node = sha256 c (to_be_bytes pubkey_root @ to_be_bytes withdrawal_credentials);
                  right_node = sha256 c (amount_bytes @ replicate 24 0 @ to_be_bytes signature_root)
              in Some (sha256 c (to_be_bytes left_node @ to_be_bytes right_node)))"

section \<open>Protocol parameter requests\<close>

definition protocol_param_request_write :: "protocol_param_request \<Rightarrow> u8 list" where
  "protocol_param_request_write p =
     to_be_bytes (pp_param_id p) @ to_be_bytes (word_of_nat (length (pp_param p)) :: u8) @ pp_param p"

definition protocol_param_request_read :: "protocol_param_request reader" where
  "protocol_param_request_read =
     rbind (at_least 2 (Invalid ''ProtocolParamRequest'' ''Insufficient bytes for header'')) (\<lambda>_.
     rbind get_be (\<lambda>param_id.
     rbind get_be (\<lambda>len :: u8.
     rbind (at_least (unat len)
              (Invalid ''ProtocolParamRequest'' ''Insufficient bytes for param data'')) (\<lambda>_.
     rbind (take_bytes (unat len)) (\<lambda>param.
     ret \<lparr>pp_param_id = param_id, pp_param = param\<rparr>)))))"

definition protocol_param_request_try_from_eth_bytes ::
  "u8 list \<Rightarrow> string + protocol_param_request" where
  "protocol_param_request_try_from_eth_bytes bytes =
     (if length bytes < 2 then Inl ''ProtocolParamRequest must be at least 2 bytes''
      else let param_id = bytes ! 0; param_len = unat (bytes ! 1)
      in if length bytes \<noteq> 2 + param_len then Inl ''ProtocolParamRequest length mismatch''
      else Inr \<lparr>pp_param_id = param_id, pp_param = slice 2 (2 + param_len) bytes\<rparr>)"

lemma protocol_param_request_read_shorter:
  "protocol_param_request_read buf = Inr (p, rest) \<Longrightarrow> length rest < length buf"
  by (auto simp: protocol_param_request_read_def reader_Inr get_be_Inr)

function protocol_param_request_try_from_eth_entry_bytes ::
  "u8 list \<Rightarrow> string + protocol_param_request list" where
  "protocol_param_request_try_from_eth_entry_bytes buf =
     (if buf = [] then Inr []
      else case protocol_param_request_read buf of
        Inl e \<Rightarrow> Inl ''Failed to parse grouped protocol param request payload''
      | Inr (request, rest) \<Rightarrow>
          (case protocol_param_request_try_from_eth_entry_bytes rest of
             Inl e \<Rightarrow> Inl e
           | Inr requests \<Rightarrow> Inr (request # requests)))"
  by auto
termination
  by (relation "measure length") (auto dest: protocol_param_request_read_shorter)

declare protocol_param_request_try_from_eth_entry_bytes.simps [simp del]

section \<open>Execution requests\<close>

definition execution_request_try_from_eth_bytes :: "crypto \<Rightarrow> u8 list \<Rightarrow> string + execution_request" where
  "execution_request_try_from_eth_bytes c bytes =
     (case bytes of
        [] \<Rightarrow> Inl ''ExecutionRequest cannot be empty''
      | t # body \<Rightarrow>
          if t = 0x00 then map_sum id Deposit (deposit_request_try_from_eth_bytes c body)
          else if t = 0x01 then map_sum id Withdrawal (withdrawal_request_try_from_eth_bytes body)
          else if t = 0xFF then map_sum id ProtocolParam (protocol_param_request_try_from_eth_bytes body)
          else Inl ''Unknown execution request type'')"

definition parse_deposit_chunk :: "crypto \<Rightarrow> u8 list \<Rightarrow> parsed_execution_request" where
  "parse_deposit_chunk c chunk =
     (case deposit_request_try_from_eth_bytes c chunk of
        Inr deposit \<Rightarrow> Valid (Deposit deposit)
      | Inl reason \<Rightarrow> MalformedDeposit
          \<lparr>md_withdrawal_credentials = from_be_bytes (slice 80 112 chunk),
           md_amount = from_le_bytes (slice 112 120 chunk),
           md_index = from_le_bytes (slice 280 288 chunk),
           md_reason = reason\<rparr>)"

definition parse_eth_entry :: "crypto \<Rightarrow> u8 list \<Rightarrow> string + parsed_execution_request list" where
  "parse_eth_entry c bytes =
     (case bytes of
        [] \<Rightarrow> Inl ''ExecutionRequest cannot be empty''
      | t # body \<Rightarrow>
          if t = 0x00 then
            (if \<not> DEPOSIT_REQUEST_SIZE dvd length body
             then Inl ''DepositRequest payload length must be a multiple of 288 bytes''
             else Inr (map (parse_deposit_chunk c) (chunks_exact DEPOSIT_REQUEST_SIZE body)))
          else if t = 0x01 then
            map_sum id (map (\<lambda>w. Valid (Withdrawal w))) (withdrawal_request_try_from_eth_entry_bytes body)
          else if t = 0xFF then
            map_sum id (map (\<lambda>p. Valid (ProtocolParam p)))
              (protocol_param_request_try_from_eth_entry_bytes body)
          else Inl ''Unknown execution request type'')"

definition execution_request_write :: "execution_request \<Rightarrow> u8 list" where
  "execution_request_write r =
     (case r of
        Deposit d \<Rightarrow> to_be_bytes (0x00 :: u8) @ deposit_request_write d
      | Withdrawal w \<Rightarrow> to_be_bytes (0x01 :: u8) @ withdrawal_request_write w
      | ProtocolParam p \<Rightarrow> to_be_bytes (0xFF :: u8) @ protocol_param_request_write p)"

definition execution_request_read :: "crypto \<Rightarrow> execution_request reader" where
  "execution_request_read c =
     rbind (at_least 1 (Invalid ''ExecutionRequest'' ''Buffer is empty'')) (\<lambda>_.
     rbind get_be (\<lambda>request_type :: u8.
       if request_type = 0x00 then rbind (deposit_request_read c) (\<lambda>d. ret (Deposit d))
       else if request_type = 0x01 then rbind withdrawal_request_read (\<lambda>w. ret (Withdrawal w))
       else if request_type = 0xFF then
         rbind protocol_param_request_read (\<lambda>p. ret (ProtocolParam p))
       else fail (Invalid ''ExecutionRequest'' ''Unknown request type'')))"

section \<open>Codecs\<close>

definition deposit_request_ok :: "crypto \<Rightarrow> deposit_request \<Rightarrow> bool" where
  "deposit_request_ok c d \<longleftrightarrow> ed_key_ok c (dr_node_pubkey d) \<and> bls_key_ok c (dr_consensus_pubkey d)"

definition protocol_param_request_ok :: "protocol_param_request \<Rightarrow> bool" where
  "protocol_param_request_ok p \<longleftrightarrow> length (pp_param p) < 256"

fun execution_request_ok :: "crypto \<Rightarrow> execution_request \<Rightarrow> bool" where
  "execution_request_ok c (Deposit d) \<longleftrightarrow> deposit_request_ok c d"
| "execution_request_ok c (Withdrawal w) \<longleftrightarrow> True"
| "execution_request_ok c (ProtocolParam p) \<longleftrightarrow> protocol_param_request_ok p"

lemma length_deposit_request_write [simp]: "length (deposit_request_write d) = 288"
  by (simp add: deposit_request_write_def)

lemma length_withdrawal_request_write [simp]: "length (withdrawal_request_write w) = 76"
  by (simp add: withdrawal_request_write_def)

lemma param_length: "length bs < 256 \<Longrightarrow> unat (word_of_nat (length bs) :: u8) = length bs"
  by (simp add: unat_word_of_nat)

lemma u8_length: "word_of_nat (unat (w :: u8)) = w"
  by simp

interpretation withdrawal_request: codec withdrawal_request_write withdrawal_request_read "\<lambda>w. True"
  by unfold_locales
    (simp add: reads_def withdrawal_request_write_def withdrawal_request_read_def codec_reads)

interpretation deposit_request: exact_codec deposit_request_write "deposit_request_read c"
    "deposit_request_ok c" for c
proof
  fix d assume "deposit_request_ok c d"
  then show "reads (deposit_request_read c) d (deposit_request_write d)"
    by (simp add: reads_def deposit_request_write_def deposit_request_read_def deposit_request_ok_def
        codec_reads)
next
  fix buf d rest assume "deposit_request_read c buf = Inr (d, rest)"
  then show "deposit_request_ok c d \<and> buf = deposit_request_write d @ rest"
    by (auto simp: deposit_request_read_def deposit_request_write_def deposit_request_ok_def
        reader_Inr get_be_Inr get_le_Inr)
qed

interpretation protocol_param_request: exact_codec protocol_param_request_write
    protocol_param_request_read protocol_param_request_ok
proof
  fix p assume "protocol_param_request_ok p"
  then show "reads protocol_param_request_read p (protocol_param_request_write p)"
    by (simp add: reads_def protocol_param_request_write_def protocol_param_request_read_def
        protocol_param_request_ok_def codec_reads param_length)
next
  fix buf p rest assume "protocol_param_request_read buf = Inr (p, rest)"
  then show "protocol_param_request_ok p \<and> buf = protocol_param_request_write p @ rest"
    using unat_less [where 'a = 8]
    by (auto simp: protocol_param_request_read_def protocol_param_request_write_def
        protocol_param_request_ok_def reader_Inr get_be_Inr u8_length)
qed

interpretation execution_request: codec execution_request_write "execution_request_read c"
    "execution_request_ok c" for c
proof
  fix r assume "execution_request_ok c r"
  then show "reads (execution_request_read c) r (execution_request_write r)"
    by (cases r)
      (simp_all add: reads_def execution_request_write_def execution_request_read_def codec_reads
        reads_rbind [OF deposit_request.read_written] reads_rbind [OF withdrawal_request.read_written]
        reads_rbind [OF protocol_param_request.read_written])
qed

section \<open>Grouped entries\<close>

lemma chunks_exact_concat:
  "0 < n \<Longrightarrow> list_all (\<lambda>b. length b = n) chunks \<Longrightarrow> chunks_exact n (concat chunks) = chunks"
proof (induction chunks)
  case Nil
  then show ?case by (simp add: chunks_exact.simps)
next
  case (Cons b chunks)
  then show ?case by (subst chunks_exact.simps) simp
qed

lemma length_concat_same: "list_all (\<lambda>b. length b = n) chunks \<Longrightarrow> length (concat chunks) = length chunks * n"
  by (induction chunks) simp_all

lemma collect_Inr: "list_all (\<lambda>x. f x = Inr (g x)) xs \<Longrightarrow> collect f xs = Inr (map g xs)"
  by (induction xs) simp_all

lemma take_drop_append: "length a = n \<Longrightarrow> take k (drop n (a @ b)) = take k b"
  by simp

lemma slices_of_appends:
  "length a = i \<Longrightarrow> length b = j - i \<Longrightarrow> slice i j (a @ b @ r) = b"
  "length a = i \<Longrightarrow> length b = j - i \<Longrightarrow> slice i j (a @ b) = b"
  "slice 0 j (b @ r) = take j (b @ r)"
  by (simp_all add: slice_def)

lemma deposit_request_eth_bytes:
  "deposit_request_try_from_eth_bytes c (deposit_request_write d) =
     (if \<not> ed_key_ok c (dr_node_pubkey d) then Inl ''Invalid ed25519 public key''
      else if \<not> bls_key_ok c (dr_consensus_pubkey d) then Inl ''Invalid BLS public key'' else Inr d)"
  by (simp add: deposit_request_try_from_eth_bytes_def deposit_request_write_def slice_def
      from_to_be_bytes from_to_le_bytes)

lemma withdrawal_request_eth_bytes:
  "withdrawal_request_try_from_eth_bytes (withdrawal_request_write w) = Inr w"
  by (simp add: withdrawal_request_try_from_eth_bytes_def withdrawal_request_write_def slice_def
      from_to_be_bytes from_to_le_bytes)

lemma protocol_param_requests_eth_entry:
  "list_all protocol_param_request_ok ps \<Longrightarrow>
     protocol_param_request_try_from_eth_entry_bytes (concat (map protocol_param_request_write ps)) = Inr ps"
proof (induction ps)
  case Nil
  then show ?case by (simp add: protocol_param_request_try_from_eth_entry_bytes.simps)
next
  case (Cons p ps)
  have "length (protocol_param_request_write p) \<noteq> 0" by (simp add: protocol_param_request_write_def)
  then have "protocol_param_request_write p \<noteq> []" by auto
  with Cons readsD [OF protocol_param_request.read_written, of p] show ?case
    by (subst protocol_param_request_try_from_eth_entry_bytes.simps) simp
qed

lemma deposit_entry_chunks:
  "list_all (\<lambda>b. length b = 288) chunks \<Longrightarrow>
     parse_eth_entry c (0 # concat chunks) = Inr (map (parse_deposit_chunk c) chunks)"
  by (simp add: parse_eth_entry_def DEPOSIT_REQUEST_SIZE_def chunks_exact_concat length_concat_same)

lemma parse_deposit_chunk_written:
  "parse_deposit_chunk c (deposit_request_write d) =
     (if deposit_request_ok c d then Valid (Deposit d)
      else MalformedDeposit \<lparr>md_withdrawal_credentials = dr_withdrawal_credentials d,
        md_amount = dr_amount d, md_index = dr_index d,
        md_reason = if ed_key_ok c (dr_node_pubkey d) then ''Invalid BLS public key''
                    else ''Invalid ed25519 public key''\<rparr>)"
  by (simp add: parse_deposit_chunk_def deposit_request_eth_bytes deposit_request_ok_def)
    (simp add: deposit_request_write_def slice_def from_to_be_bytes from_to_le_bytes)

lemma length_288_written:
  assumes "length b = 288"
  shows "\<exists>d. b = deposit_request_write d"
proof -
  let ?always = "\<lparr>hash32_concat = undefined, ZERO_HASHES = undefined, sha256 = undefined,
     ed_key_ok = (\<lambda>k. True), bls_key_ok = (\<lambda>k. True), ed_sig_ok = undefined,
     bls_sig_ok = undefined, ed_verify = undefined, bls_verify = undefined\<rparr>"
  obtain d rest where "deposit_request_read ?always b = Inr (d, rest)"
    using assms by (simp add: deposit_request_read_def rbind_def at_least_def ensure_def get_be_def
        get_le_def take_bytes_def ret_def)
  then have "b = deposit_request_write d @ rest" by (simp add: deposit_request.read_iff)
  with assms show ?thesis by (cases rest) auto
qed

lemma deposit_chunks_written:
  "list_all (\<lambda>b. length b = 288) chunks \<Longrightarrow> \<exists>ds. chunks = map deposit_request_write ds"
proof (induction chunks)
  case Nil
  then show ?case by simp
next
  case (Cons b chunks)
  then obtain ds where "chunks = map deposit_request_write ds" by auto
  moreover obtain d where "b = deposit_request_write d" using length_288_written Cons.prems by auto
  ultimately have "b # chunks = map deposit_request_write (d # ds)" by simp
  then show ?case by (rule exI)
qed

lemma chunks_exact_dvd:
  "0 < n \<Longrightarrow> n dvd length bs \<Longrightarrow>
     concat (chunks_exact n bs) = bs \<and> list_all (\<lambda>b. length b = n) (chunks_exact n bs)"
proof (induction n bs rule: chunks_exact.induct)
  case (1 n bs)
  show ?case
  proof (cases "length bs < n")
    case True
    with 1 have "bs = []" by (auto dest: nat_dvd_not_less)
    then show ?thesis using 1 by (simp add: chunks_exact.simps)
  next
    case False
    then have eq: "chunks_exact n bs = take n bs # chunks_exact n (drop n bs)"
      using 1(2) by (subst chunks_exact.simps) simp
    have "n dvd length (drop n bs)" using 1(3) by (simp add: dvd_diff_nat)
    with 1(1,2) False have "concat (chunks_exact n (drop n bs)) = drop n bs"
      "list_all (\<lambda>b. length b = n) (chunks_exact n (drop n bs))" by auto
    with False show ?thesis by (simp add: eq)
  qed
qed

text \<open>C17. Chunk isolation in a grouped deposit entry. Whatever bytes follow the type byte, if
  their length is a multiple of 288 the entry parses into one result per chunk, in order: a
  chunk is the encoding of exactly one deposit, and that deposit is returned when both its keys
  decode; otherwise the chunk alone is reported malformed, carrying the credentials, amount
  and index needed for its refund and the reason of the first failing key. No chunk changes
  the result of another.\<close>

theorem deposit_entry_isolated:
  assumes "288 dvd length body"
  shows "\<exists>ds. body = concat (map deposit_request_write ds) \<and>
    parse_eth_entry c (0 # body) = Inr (map (\<lambda>d.
      if ed_key_ok c (dr_node_pubkey d) \<and> bls_key_ok c (dr_consensus_pubkey d)
      then Valid (Deposit d)
      else MalformedDeposit \<lparr>md_withdrawal_credentials = dr_withdrawal_credentials d,
        md_amount = dr_amount d, md_index = dr_index d,
        md_reason = if ed_key_ok c (dr_node_pubkey d) then ''Invalid BLS public key''
                    else ''Invalid ed25519 public key''\<rparr>) ds)"
proof -
  obtain chunks where chunks: "body = concat chunks" "list_all (\<lambda>b. length b = 288) chunks"
    using chunks_exact_dvd [OF _ assms] by (intro that [of "chunks_exact 288 body"]) simp_all
  then obtain ds where "chunks = map deposit_request_write ds"
    using deposit_chunks_written by blast
  with chunks deposit_entry_chunks [OF chunks(2), of c] show ?thesis
    by (intro exI [of _ ds]) (simp add: parse_deposit_chunk_written deposit_request_ok_def comp_def)
qed

theorem deposit_entry_isolated_witness:
  "let c = demo_crypto\<lparr>bls_key_ok := (\<lambda>k. k = 5)\<rparr>;
       d1 = \<lparr>dr_node_pubkey = 1, dr_consensus_pubkey = 4, dr_withdrawal_credentials = 9,
             dr_amount = 32, dr_node_signature = 0, dr_consensus_signature = 0, dr_index = 0\<rparr>;
       d2 = d1\<lparr>dr_consensus_pubkey := 5\<rparr>
   in \<exists>ds. deposit_request_write d1 @ deposit_request_write d2 = concat (map deposit_request_write ds) \<and>
     parse_eth_entry c (0 # deposit_request_write d1 @ deposit_request_write d2) =
      Inr (map (\<lambda>d. if dr_consensus_pubkey d = 5 then Valid (Deposit d)
        else MalformedDeposit \<lparr>md_withdrawal_credentials = dr_withdrawal_credentials d,
          md_amount = dr_amount d, md_index = dr_index d,
          md_reason = ''Invalid BLS public key''\<rparr>) ds)"
  unfolding Let_def
  using deposit_entry_isolated [where c = "demo_crypto\<lparr>bls_key_ok := (\<lambda>k. k = 5)\<rparr>"
    and body = "deposit_request_write \<lparr>dr_node_pubkey = 1, dr_consensus_pubkey = 4,
        dr_withdrawal_credentials = 9, dr_amount = 32, dr_node_signature = 0,
        dr_consensus_signature = 0, dr_index = 0\<rparr>
      @ deposit_request_write \<lparr>dr_node_pubkey = 1, dr_consensus_pubkey = 5,
        dr_withdrawal_credentials = 9, dr_amount = 32, dr_node_signature = 0,
        dr_consensus_signature = 0, dr_index = 0\<rparr>"]
  by (simp cong: if_cong)



end
