(* ===== verification/Account.thy ===== *)
theory Account
  imports Execution_Request
begin

text \<open>
  \<open>types/src/account.rs\<close>, the validator account with its lifecycle status and codec, and
  \<open>types/src/utils.rs\<close>: the withdrawal-credential parser, the split of an invalid deposit
  into refund and tax, and the block-of-epoch predicates over the \<open>Epocher\<close> interface.
  Shown: the account codec is exact, the credential parser accepts exactly the
  execution-address form, and the refund split loses nothing.
\<close>

section \<open>Accounts\<close>

datatype validator_status = Active | Inactive | SubmittedExitRequest | Joining | FullPayoutPending

fun status_to_u8 :: "validator_status \<Rightarrow> u8" where
  "status_to_u8 Active = 0"
| "status_to_u8 Inactive = 1"
| "status_to_u8 SubmittedExitRequest = 2"
| "status_to_u8 Joining = 3"
| "status_to_u8 FullPayoutPending = 4"

definition status_from_u8 :: "u8 \<Rightarrow> string + validator_status" where
  "status_from_u8 v =
     (if v = 0 then Inr Active else if v = 1 then Inr Inactive
      else if v = 2 then Inr SubmittedExitRequest else if v = 3 then Inr Joining
      else if v = 4 then Inr FullPayoutPending else Inl ''Invalid ValidatorStatus value'')"

definition is_current_epoch_signer :: "validator_status \<Rightarrow> bool" where
  "is_current_epoch_signer s \<longleftrightarrow> s = Active \<or> s = SubmittedExitRequest"

definition has_minimum_stake_floor :: "validator_status \<Rightarrow> bool" where
  "has_minimum_stake_floor s \<longleftrightarrow> s = Active \<or> s = SubmittedExitRequest \<or> s = FullPayoutPending"

definition is_out_of_committee :: "validator_status \<Rightarrow> bool" where
  "is_out_of_committee s \<longleftrightarrow> s = Inactive \<or> s = FullPayoutPending"

record validator_account =
  va_consensus_public_key :: bls_key
  va_withdrawal_credentials :: address
  va_balance :: u64
  va_status :: validator_status
  va_joining_epoch :: u64
  va_last_deposit_index :: u64

definition validator_account_try_from :: "crypto \<Rightarrow> u8 list \<Rightarrow> string + validator_account" where
  "validator_account_try_from c bytes =
     (if length bytes \<noteq> 93 then Inl ''ValidatorAccount must be exactly 93 bytes''
      else let consensus_public_key = from_be_bytes (slice 0 48 bytes)
      in if \<not> bls_key_ok c consensus_public_key then Inl ''Failed to decode consensus_public_key''
      else case status_from_u8 (bytes ! 76) of
        Inl e \<Rightarrow> Inl e
      | Inr status \<Rightarrow> Inr
          \<lparr>va_consensus_public_key = consensus_public_key,
           va_withdrawal_credentials = from_be_bytes (slice 48 68 bytes),
           va_balance = from_le_bytes (slice 68 76 bytes),
           va_status = status,
           va_joining_epoch = from_le_bytes (slice 77 85 bytes),
           va_last_deposit_index = from_le_bytes (slice 85 93 bytes)\<rparr>)"

definition validator_account_write :: "validator_account \<Rightarrow> u8 list" where
  "validator_account_write a =
     to_be_bytes (va_consensus_public_key a) @ to_be_bytes (va_withdrawal_credentials a)
       @ to_le_bytes (va_balance a) @ to_be_bytes (status_to_u8 (va_status a))
       @ to_le_bytes (va_joining_epoch a) @ to_le_bytes (va_last_deposit_index a)"

definition validator_account_read :: "crypto \<Rightarrow> validator_account reader" where
  "validator_account_read c =
     rbind (at_least 93 (Invalid ''ValidatorAccount'' ''Insufficient bytes'')) (\<lambda>_.
     rbind get_be (\<lambda>consensus_public_key.
     rbind (ensure (bls_key_ok c consensus_public_key)
              (Invalid ''ValidatorAccount'' ''Invalid consensus public key'')) (\<lambda>_.
     rbind get_be (\<lambda>withdrawal_credentials.
     rbind get_le (\<lambda>balance.
     rbind get_be (\<lambda>status_byte.
     case status_from_u8 status_byte of
       Inl _ \<Rightarrow> fail (Invalid ''ValidatorAccount'' ''Invalid status value'')
     | Inr status \<Rightarrow>
     rbind get_le (\<lambda>joining_epoch.
     rbind get_le (\<lambda>last_deposit_index.
     ret \<lparr>va_consensus_public_key = consensus_public_key,
          va_withdrawal_credentials = withdrawal_credentials, va_balance = balance,
          va_status = status, va_joining_epoch = joining_epoch,
          va_last_deposit_index = last_deposit_index\<rparr>))))))))"

section \<open>Credentials and refunds\<close>

text \<open>The length check of the source is on a fixed 32-byte array and cannot fail; the two
  formatted errors are constructors.\<close>

datatype credential_error = InvalidPrefix u8 | NonZeroPadding

definition parse_withdrawal_credentials :: "bytes32 \<Rightarrow> credential_error + address" where
  "parse_withdrawal_credentials withdrawal_credentials =
     (let bs = to_be_bytes withdrawal_credentials
      in if bs ! 0 \<noteq> 0x01 then Inl (InvalidPrefix (bs ! 0))
         else if \<not> list_all (\<lambda>b. b = 0) (slice 1 12 bs) then Inl NonZeroPadding
         else Inr (from_be_bytes (slice 12 32 bs)))"

definition invalid_deposit_refund_split :: "u64 \<Rightarrow> u64 \<Rightarrow> u64 \<times> u64" where
  "invalid_deposit_refund_split amount invalid_deposit_tax =
     (let tax = (ucast amount * ucast invalid_deposit_tax :: u128) div 100;
          tax = (ucast tax :: u64)
      in (saturating_sub amount tax, tax))"

section \<open>The Epocher interface\<close>

record epoch_info =
  ei_epoch :: u64
  ei_height :: u64
  ei_first :: u64
  ei_last :: u64

text \<open>The three predicates take the \<open>containing\<close> operation of \<open>impl Epocher\<close>.\<close>

definition is_first_block_of_epoch :: "(u64 \<Rightarrow> epoch_info option) \<Rightarrow> u64 \<Rightarrow> bool" where
  "is_first_block_of_epoch containing height =
     (case containing height of None \<Rightarrow> False | Some info \<Rightarrow> ei_first info = ei_height info)"

definition is_last_block_of_epoch :: "(u64 \<Rightarrow> epoch_info option) \<Rightarrow> u64 \<Rightarrow> bool" where
  "is_last_block_of_epoch containing height =
     (case containing height of None \<Rightarrow> False | Some info \<Rightarrow> ei_last info = ei_height info)"

definition is_penultimate_block_of_epoch :: "(u64 \<Rightarrow> epoch_info option) \<Rightarrow> u64 \<Rightarrow> bool" where
  "is_penultimate_block_of_epoch containing height =
     (case containing height of None \<Rightarrow> False | Some info \<Rightarrow> ei_last info = height + 1)"

text \<open>What an epocher promises its clients while its schedule is well formed: a height lies in
  at most one epoch, between its bounds, and the heights of an epoch's span lie in it.\<close>

locale epocher =
  fixes containing :: "'d \<Rightarrow> u64 \<Rightarrow> epoch_info option"
    and bounds :: "'d \<Rightarrow> u64 \<Rightarrow> (u64 \<times> u64) option"
    and ok :: "'d \<Rightarrow> bool"
  assumes containing_bounds:
    "ok d \<Longrightarrow> containing d h = Some i \<Longrightarrow>
       ei_height i = h \<and> bounds d (ei_epoch i) = Some (ei_first i, ei_last i) \<and>
       ei_first i \<le> h \<and> h \<le> ei_last i"
    and bounds_containing:
    "ok d \<Longrightarrow> bounds d e = Some (f, l) \<Longrightarrow> f \<le> h \<Longrightarrow> h \<le> l \<Longrightarrow>
       containing d h = Some \<lparr>ei_epoch = e, ei_height = h, ei_first = f, ei_last = l\<rparr>"
begin

lemma containing_iff:
  assumes "ok d"
  shows "containing d h = Some i \<longleftrightarrow>
    (\<exists>e f l. bounds d e = Some (f, l) \<and> f \<le> h \<and> h \<le> l \<and>
       i = \<lparr>ei_epoch = e, ei_height = h, ei_first = f, ei_last = l\<rparr>)"
proof
  assume i: "containing d h = Some i"
  obtain e h' f l where eq: "i = \<lparr>ei_epoch = e, ei_height = h', ei_first = f, ei_last = l\<rparr>"
    by (cases i)
  from containing_bounds [OF assms i] have "h' = h" "bounds d e = Some (f, l)" "f \<le> h" "h \<le> l"
    by (simp_all add: eq)
  then show "\<exists>e f l. bounds d e = Some (f, l) \<and> f \<le> h \<and> h \<le> l \<and>
       i = \<lparr>ei_epoch = e, ei_height = h, ei_first = f, ei_last = l\<rparr>"
    unfolding eq by blast
next
  assume "\<exists>e f l. bounds d e = Some (f, l) \<and> f \<le> h \<and> h \<le> l \<and>
       i = \<lparr>ei_epoch = e, ei_height = h, ei_first = f, ei_last = l\<rparr>"
  then show "containing d h = Some i" by (elim exE conjE) (simp add: bounds_containing [OF assms])
qed

text \<open>The bounds determine everything a client can ask.\<close>

lemma containing_determined:
  assumes "ok d" "ok d'" "\<And>e. bounds d e = bounds d' e"
  shows "containing d h = containing d' h"
  by (rule option_eqI) (simp only: containing_iff [OF assms(1)] containing_iff [OF assms(2)] assms(3))

lemma first_block_iff:
  assumes "ok d"
  shows "is_first_block_of_epoch (containing d) h \<longleftrightarrow> (\<exists>e l. bounds d e = Some (h, l) \<and> h \<le> l)"
proof
  assume "is_first_block_of_epoch (containing d) h"
  then obtain i where "containing d h = Some i" "ei_first i = ei_height i"
    by (auto simp: is_first_block_of_epoch_def split: option.splits)
  with containing_bounds [OF assms, of h i]
  have "bounds d (ei_epoch i) = Some (h, ei_last i) \<and> h \<le> ei_last i" by simp
  then show "\<exists>e l. bounds d e = Some (h, l) \<and> h \<le> l" by blast
next
  assume "\<exists>e l. bounds d e = Some (h, l) \<and> h \<le> l"
  then obtain e l where "bounds d e = Some (h, l)" "h \<le> l" by blast
  from bounds_containing [OF assms this(1) order_refl this(2)]
  show "is_first_block_of_epoch (containing d) h" by (simp add: is_first_block_of_epoch_def)
qed

lemma last_block_iff:
  assumes "ok d"
  shows "is_last_block_of_epoch (containing d) h \<longleftrightarrow> (\<exists>e f. bounds d e = Some (f, h) \<and> f \<le> h)"
proof
  assume "is_last_block_of_epoch (containing d) h"
  then obtain i where "containing d h = Some i" "ei_last i = ei_height i"
    by (auto simp: is_last_block_of_epoch_def split: option.splits)
  with containing_bounds [OF assms, of h i]
  have "bounds d (ei_epoch i) = Some (ei_first i, h) \<and> ei_first i \<le> h" by simp
  then show "\<exists>e f. bounds d e = Some (f, h) \<and> f \<le> h" by blast
next
  assume "\<exists>e f. bounds d e = Some (f, h) \<and> f \<le> h"
  then obtain e f where "bounds d e = Some (f, h)" "f \<le> h" by blast
  from bounds_containing [OF assms this order_refl]
  show "is_last_block_of_epoch (containing d) h" by (simp add: is_last_block_of_epoch_def)
qed

text \<open>The block after a penultimate block is the last block of the same epoch.\<close>

lemma penultimate_next_last:
  assumes ok: "ok d" and pen: "is_penultimate_block_of_epoch (containing d) h" and h: "h \<noteq> -1"
  shows "is_last_block_of_epoch (containing d) (h + 1) \<and>
    map_option ei_epoch (containing d (h + 1)) = map_option ei_epoch (containing d h)"
proof -
  obtain i where i: "containing d h = Some i" "ei_last i = h + 1"
    using pen by (auto simp: is_penultimate_block_of_epoch_def split: option.splits)
  note b = containing_bounds [OF ok i(1)]
  have "ei_first i \<le> h + 1"
    using b h by (simp add: word_le_nat_alt unat_plus_one)
  then have "containing d (h + 1) =
      Some \<lparr>ei_epoch = ei_epoch i, ei_height = h + 1, ei_first = ei_first i, ei_last = h + 1\<rparr>"
    using bounds_containing [OF ok, of "ei_epoch i" "ei_first i" "ei_last i" "h + 1"] b i(2) by simp
  then show ?thesis using i(1) by (simp add: is_last_block_of_epoch_def)
qed

end

section \<open>Codec\<close>

lemma status_round [simp]: "status_from_u8 (status_to_u8 s) = Inr s"
  by (cases s) (simp_all add: status_from_u8_def)

lemma status_read: "status_from_u8 b = Inr s \<longleftrightarrow> b = status_to_u8 s"
  by (cases s) (auto simp: status_from_u8_def split: if_splits)

definition validator_account_ok :: "crypto \<Rightarrow> validator_account \<Rightarrow> bool" where
  "validator_account_ok c a \<longleftrightarrow> bls_key_ok c (va_consensus_public_key a)"

lemma length_validator_account_write [simp]: "length (validator_account_write a) = 93"
  by (simp add: validator_account_write_def)

interpretation validator_account: exact_codec validator_account_write "validator_account_read c"
    "validator_account_ok c" for c
proof
  fix a assume "validator_account_ok c a"
  then show "reads (validator_account_read c) a (validator_account_write a)"
    by (simp add: reads_def validator_account_write_def validator_account_read_def
        validator_account_ok_def codec_reads)
next
  fix buf a rest assume "validator_account_read c buf = Inr (a, rest)"
  then show "validator_account_ok c a \<and> buf = validator_account_write a @ rest"
    by (auto simp: validator_account_read_def validator_account_write_def validator_account_ok_def
        reader_Inr get_be_Inr get_le_Inr case_sum_fail_Inr status_read)
qed

section \<open>Credentials and refunds: what they compute\<close>

lemma parse_credentials_bytes:
  "parse_withdrawal_credentials wc = Inr a \<longleftrightarrow> to_be_bytes wc = 1 # replicate 11 0 @ to_be_bytes a"
proof -
  let ?bs = "to_be_bytes wc"
  have len: "length ?bs = 32" by simp
  then have cut: "?bs = [?bs ! 0] @ slice 1 12 ?bs @ slice 12 32 ?bs"
    unfolding slice_def by (cases ?bs) (simp_all flip: append_take_drop_id [of 11])
  have pad: "list_all (\<lambda>b. b = 0) (slice 1 12 ?bs) \<longleftrightarrow> slice 1 12 ?bs = replicate 11 0"
    using len by (auto simp: slice_def list_all_iff intro: replicate_eqI)
  have addr: "(from_be_bytes (slice 12 32 ?bs) :: address) = a \<longleftrightarrow> slice 12 32 ?bs = to_be_bytes a"
    using len by (auto simp: slice_def to_from_be_bytes from_to_be_bytes)
  show ?thesis
  proof
    assume "parse_withdrawal_credentials wc = Inr a"
    then show "?bs = 1 # replicate 11 0 @ to_be_bytes a"
      using cut pad addr by (auto simp: parse_withdrawal_credentials_def Let_def split: if_splits)
  next
    assume bs: "?bs = 1 # replicate 11 0 @ to_be_bytes a"
    then show "parse_withdrawal_credentials wc = Inr a"
      unfolding parse_withdrawal_credentials_def Let_def bs
      by (simp add: slice_def from_to_be_bytes list_all_iff)
  qed
qed

lemma refund_split_exact:
  assumes "pct \<le> 100"
  shows "unat (snd (invalid_deposit_refund_split amount pct)) = unat amount * unat pct div 100"
    "unat (fst (invalid_deposit_refund_split amount pct)) = unat amount - unat amount * unat pct div 100"
proof -
  let ?t = "unat amount * unat pct div 100"
  have pct: "unat pct \<le> 100" using assms by (simp add: word_le_nat_alt)
  have le: "?t \<le> unat amount"
    using div_le_mono [OF mult_le_mono2 [OF pct, of "unat amount"], of 100] by simp
  have amt: "unat amount < 2 ^ 64" using unat_less [of amount] by simp
  have "unat amount * unat pct < 2 ^ 128"
    using mult_le_mono [OF less_imp_le [OF amt] pct] by simp
  then have "unat (ucast amount * ucast pct :: u128) = unat amount * unat pct"
    by (subst unat_mult_exact) (simp_all add: unat_ucast_wider)
  then have "unat ((ucast amount * ucast pct :: u128) div 100) = ?t"
    by (simp add: unat_div)
  then have tax: "unat (ucast ((ucast amount * ucast pct :: u128) div 100) :: u64) = ?t"
    using le amt by (simp add: unsigned_ucast_eq take_bit_nat_eq_self)
  then show "unat (snd (invalid_deposit_refund_split amount pct)) = ?t"
    "unat (fst (invalid_deposit_refund_split amount pct)) = unat amount - ?t"
    by (simp_all add: invalid_deposit_refund_split_def Let_def unat_saturating_sub)
qed

section \<open>Properties\<close>

text \<open>C22. Refunding an invalid deposit loses nothing. For every deposit amount and every tax
  percentage up to 100, refund and tax together are exactly the amount, the tax is the
  rounded-down percentage, and no intermediate product or conversion overflows; for a tax of
  zero the whole amount is refunded.\<close>

theorem refund_split_conserves:
  assumes "pct \<le> 100"
  shows "unat (fst (invalid_deposit_refund_split amount pct))
       + unat (snd (invalid_deposit_refund_split amount pct)) = unat amount \<and>
     unat (snd (invalid_deposit_refund_split amount pct)) = unat amount * unat pct div 100 \<and>
     fst (invalid_deposit_refund_split amount 0) = amount"
proof -
  have "unat amount * unat pct div 100 \<le> unat amount"
    using div_le_mono [OF mult_le_mono2 [of "unat pct" 100 "unat amount"], of 100] assms
    by (simp add: word_le_nat_alt)
  then show ?thesis using refund_split_exact [OF assms, of amount]
    by (simp add: invalid_deposit_refund_split_def Let_def)
qed

theorem refund_split_conserves_witness:
  "unat (fst (invalid_deposit_refund_split 18446744073709551615 7))
     + unat (snd (invalid_deposit_refund_split 18446744073709551615 7)) = 18446744073709551615"
  using refund_split_conserves [of 7 18446744073709551615] by simp

text \<open>C23. Withdrawal credentials are accepted exactly when they are the byte \<open>0x01\<close>, eleven zero
  bytes and an address, and then give that address: the parser is the inverse of the one
  encoding and rejects every other 32-byte value.\<close>

theorem withdrawal_credentials_exact:
  "parse_withdrawal_credentials wc = Inr a \<longleftrightarrow> to_be_bytes wc = [1] @ replicate 11 0 @ to_be_bytes a"
  by (simp add: parse_credentials_bytes)

end
