(* ===== verification/Protocol_Params.thy ===== *)
theory Protocol_Params
  imports Execution_Request
begin

text \<open>
  \<open>types/src/protocol_params.rs\<close>: the on-chain protocol parameters, their bounds, the
  conversion from an execution request and the codec. Shown: the codec is exact on the
  parameters within bounds, and a request that converts gives a parameter the codec accepts,
  so a queued change always survives a checkpoint. The formatted \<open>anyhow\<close> errors are
  constructors of \<open>param_error\<close>.
\<close>

section \<open>Bounds\<close>

definition MIN_EPOCH_LENGTH :: u64 where
  "MIN_EPOCH_LENGTH = 10"

definition MAX_EPOCH_LENGTH :: u64 where
  "MAX_EPOCH_LENGTH = 1814400"

definition MIN_ALLOWED_TIMESTAMP_FUTURE_MS :: u64 where
  "MIN_ALLOWED_TIMESTAMP_FUTURE_MS = 1000"

definition MAX_ALLOWED_TIMESTAMP_FUTURE_MS :: u64 where
  "MAX_ALLOWED_TIMESTAMP_FUTURE_MS = 600000"

definition MAX_MAX_DEPOSITS_PER_EPOCH :: u64 where
  "MAX_MAX_DEPOSITS_PER_EPOCH = 256"

definition MAX_WITHDRAWALS_PER_EPOCH_MIN :: u64 where
  "MAX_WITHDRAWALS_PER_EPOCH_MIN = 1"

definition MAX_WITHDRAWALS_PER_EPOCH_MAX :: u64 where
  "MAX_WITHDRAWALS_PER_EPOCH_MAX = 256"

definition MAX_OBSERVERS_PER_VALIDATOR :: u64 where
  "MAX_OBSERVERS_PER_VALIDATOR = 256"

definition MIN_MINIMUM_VALIDATOR_COUNT :: u64 where
  "MIN_MINIMUM_VALIDATOR_COUNT = 1"

definition MIN_INVALID_DEPOSIT_TAX :: u64 where
  "MIN_INVALID_DEPOSIT_TAX = 0"

definition MAX_INVALID_DEPOSIT_TAX :: u64 where
  "MAX_INVALID_DEPOSIT_TAX = 100"

definition MAX_PENDING_WITHDRAWALS_PER_VALIDATOR_MIN :: u64 where
  "MAX_PENDING_WITHDRAWALS_PER_VALIDATOR_MIN = 1"

definition MAX_PENDING_WITHDRAWALS_PER_VALIDATOR_MAX :: u64 where
  "MAX_PENDING_WITHDRAWALS_PER_VALIDATOR_MAX = 256"

definition MIN_MAX_VALIDATOR_COUNT :: u64 where
  "MIN_MAX_VALIDATOR_COUNT = 1"

definition MAX_MAX_VALIDATOR_COUNT :: u64 where
  "MAX_MAX_VALIDATOR_COUNT = 4096"

lemmas param_limits =
  MIN_EPOCH_LENGTH_def
  MAX_EPOCH_LENGTH_def
  MIN_ALLOWED_TIMESTAMP_FUTURE_MS_def
  MAX_ALLOWED_TIMESTAMP_FUTURE_MS_def
  MAX_MAX_DEPOSITS_PER_EPOCH_def
  MAX_WITHDRAWALS_PER_EPOCH_MIN_def
  MAX_WITHDRAWALS_PER_EPOCH_MAX_def
  MAX_OBSERVERS_PER_VALIDATOR_def
  MIN_MINIMUM_VALIDATOR_COUNT_def
  MIN_INVALID_DEPOSIT_TAX_def
  MAX_INVALID_DEPOSIT_TAX_def
  MAX_PENDING_WITHDRAWALS_PER_VALIDATOR_MIN_def
  MAX_PENDING_WITHDRAWALS_PER_VALIDATOR_MAX_def
  MIN_MAX_VALIDATOR_COUNT_def
  MAX_MAX_VALIDATOR_COUNT_def

section \<open>Parameters\<close>

datatype protocol_param =
    MinimumStake u64
  | EpochLength u64
  | AllowedTimestampFuture u64
  | TreasuryAddress address
  | MaxDepositsPerEpoch u64
  | MaxWithdrawalsPerEpoch u64
  | ObserversPerValidator u64
  | MinimumValidatorCount u64
  | InvalidDepositTax u64
  | MaxPendingWithdrawalsPerValidator u64
  | MaxValidatorCount u64

datatype param_bounds_error =
    EpochLengthError u64
  | AllowedTimestampFutureError u64
  | MaxDepositsPerEpochError u64
  | MaxWithdrawalsPerEpochError u64
  | ObserversPerValidatorError u64
  | MaxPendingWithdrawalsPerValidatorError u64
  | MaxValidatorCountError u64

fun reason :: "param_bounds_error \<Rightarrow> string" where
  "reason (EpochLengthError _) = ''epoch length out of bounds''"
| "reason (AllowedTimestampFutureError _) = ''allowed timestamp future out of bounds''"
| "reason (MaxDepositsPerEpochError _) = ''max deposits per epoch out of bounds''"
| "reason (MaxWithdrawalsPerEpochError _) = ''max withdrawals per epoch out of bounds''"
| "reason (ObserversPerValidatorError _) = ''observers per validator out of bounds''"
| "reason (MaxPendingWithdrawalsPerValidatorError _) =
     ''max pending withdrawals per validator out of bounds''"
| "reason (MaxValidatorCountError _) = ''max validator count out of bounds''"

definition within :: "u64 \<Rightarrow> u64 \<Rightarrow> u64 \<Rightarrow> bool" where
  "within lo hi v \<longleftrightarrow> lo \<le> v \<and> v \<le> hi"

text \<open>\<open>validate\<close>: \<open>None\<close> is \<open>Ok(())\<close>.\<close>

fun validate :: "protocol_param \<Rightarrow> param_bounds_error option" where
  "validate (EpochLength v) =
     (if \<not> within MIN_EPOCH_LENGTH MAX_EPOCH_LENGTH v then Some (EpochLengthError v) else None)"
| "validate (AllowedTimestampFuture v) =
     (if \<not> within MIN_ALLOWED_TIMESTAMP_FUTURE_MS MAX_ALLOWED_TIMESTAMP_FUTURE_MS v
      then Some (AllowedTimestampFutureError v) else None)"
| "validate (MaxDepositsPerEpoch v) =
     (if MAX_MAX_DEPOSITS_PER_EPOCH < v then Some (MaxDepositsPerEpochError v) else None)"
| "validate (MaxWithdrawalsPerEpoch v) =
     (if \<not> within MAX_WITHDRAWALS_PER_EPOCH_MIN MAX_WITHDRAWALS_PER_EPOCH_MAX v
      then Some (MaxWithdrawalsPerEpochError v) else None)"
| "validate (ObserversPerValidator v) =
     (if MAX_OBSERVERS_PER_VALIDATOR < v then Some (ObserversPerValidatorError v) else None)"
| "validate (MaxPendingWithdrawalsPerValidator v) =
     (if \<not> within MAX_PENDING_WITHDRAWALS_PER_VALIDATOR_MIN MAX_PENDING_WITHDRAWALS_PER_VALIDATOR_MAX v
      then Some (MaxPendingWithdrawalsPerValidatorError v) else None)"
| "validate (MaxValidatorCount v) =
     (if \<not> within MIN_MAX_VALIDATOR_COUNT MAX_MAX_VALIDATOR_COUNT v
      then Some (MaxValidatorCountError v) else None)"
| "validate _ = None"

section \<open>Conversion from a request\<close>

datatype param_error =
    InvalidLength string nat
  | OutOfBounds param_bounds_error
  | BelowMinimumValidatorCount u64
  | TaxExceedsMaximum u64
  | UnknownParamId protocol_param_request

text \<open>The shape shared by the cases: a length check, then the bytes.\<close>

definition with_length ::
  "string \<Rightarrow> nat \<Rightarrow> protocol_param_request \<Rightarrow> (u8 list \<Rightarrow> param_error + protocol_param)
     \<Rightarrow> param_error + protocol_param" where
  "with_length what n request f =
     (if length (pp_param request) \<noteq> n then Inl (InvalidLength what (length (pp_param request)))
      else f (pp_param request))"

definition validated :: "protocol_param \<Rightarrow> param_error + protocol_param" where
  "validated p = (case validate p of Some e \<Rightarrow> Inl (OutOfBounds e) | None \<Rightarrow> Inr p)"

definition protocol_param_try_from :: "protocol_param_request \<Rightarrow> param_error + protocol_param" where
  "protocol_param_try_from request =
     (if pp_param_id request = 0x00 then
        with_length ''minimum stake'' 8 request (\<lambda>bytes. Inr (MinimumStake (from_le_bytes bytes)))
      else if pp_param_id request = 0x01 then
        with_length ''epoch length'' 8 request (\<lambda>bytes. validated (EpochLength (from_le_bytes bytes)))
      else if pp_param_id request = 0x02 then
        with_length ''allowed timestamp future'' 8 request
          (\<lambda>bytes. validated (AllowedTimestampFuture (from_le_bytes bytes)))
      else if pp_param_id request = 0x03 then
        with_length ''treasury address'' 20 request (\<lambda>bytes. Inr (TreasuryAddress (from_be_bytes bytes)))
      else if pp_param_id request = 0x04 then
        with_length ''max deposits per epoch'' 8 request
          (\<lambda>bytes. validated (MaxDepositsPerEpoch (from_le_bytes bytes)))
      else if pp_param_id request = 0x05 then
        with_length ''max withdrawals per epoch'' 8 request
          (\<lambda>bytes. validated (MaxWithdrawalsPerEpoch (from_le_bytes bytes)))
      else if pp_param_id request = 0x06 then
        with_length ''observers per validator'' 8 request
          (\<lambda>bytes. validated (ObserversPerValidator (from_le_bytes bytes)))
      else if pp_param_id request = 0x07 then
        with_length ''minimum validator count'' 8 request (\<lambda>bytes.
          let minimum_validator_count = from_le_bytes bytes
          in if minimum_validator_count < MIN_MINIMUM_VALIDATOR_COUNT
             then Inl (BelowMinimumValidatorCount minimum_validator_count)
             else Inr (MinimumValidatorCount minimum_validator_count))
      else if pp_param_id request = 0x08 then
        with_length ''invalid deposit tax'' 8 request (\<lambda>bytes.
          let invalid_deposit_tax = from_le_bytes bytes
          in if MAX_INVALID_DEPOSIT_TAX < invalid_deposit_tax
             then Inl (TaxExceedsMaximum invalid_deposit_tax)
             else Inr (InvalidDepositTax invalid_deposit_tax))
      else if pp_param_id request = 0x09 then
        with_length ''max pending withdrawals per validator'' 8 request
          (\<lambda>bytes. validated (MaxPendingWithdrawalsPerValidator (from_le_bytes bytes)))
      else if pp_param_id request = 0x0A then
        with_length ''max validator count'' 8 request
          (\<lambda>bytes. validated (MaxValidatorCount (from_le_bytes bytes)))
      else Inl (UnknownParamId request))"

section \<open>Codec\<close>

fun protocol_param_encode_size :: "protocol_param \<Rightarrow> nat" where
  "protocol_param_encode_size (TreasuryAddress _) = 1 + 20"
| "protocol_param_encode_size _ = 1 + 8"

fun protocol_param_write :: "protocol_param \<Rightarrow> u8 list" where
  "protocol_param_write (MinimumStake v) = to_be_bytes (0x00 :: u8) @ to_be_bytes v"
| "protocol_param_write (EpochLength v) = to_be_bytes (0x01 :: u8) @ to_be_bytes v"
| "protocol_param_write (AllowedTimestampFuture v) = to_be_bytes (0x02 :: u8) @ to_be_bytes v"
| "protocol_param_write (TreasuryAddress v) = to_be_bytes (0x03 :: u8) @ to_be_bytes v"
| "protocol_param_write (MaxDepositsPerEpoch v) = to_be_bytes (0x04 :: u8) @ to_be_bytes v"
| "protocol_param_write (MaxWithdrawalsPerEpoch v) = to_be_bytes (0x05 :: u8) @ to_be_bytes v"
| "protocol_param_write (ObserversPerValidator v) = to_be_bytes (0x06 :: u8) @ to_be_bytes v"
| "protocol_param_write (MinimumValidatorCount v) = to_be_bytes (0x07 :: u8) @ to_be_bytes v"
| "protocol_param_write (InvalidDepositTax v) = to_be_bytes (0x08 :: u8) @ to_be_bytes v"
| "protocol_param_write (MaxPendingWithdrawalsPerValidator v) = to_be_bytes (0x09 :: u8) @ to_be_bytes v"
| "protocol_param_write (MaxValidatorCount v) = to_be_bytes (0x0A :: u8) @ to_be_bytes v"

definition read_validated :: "(u64 \<Rightarrow> protocol_param) \<Rightarrow> protocol_param reader" where
  "read_validated mk =
     rbind get_be (\<lambda>v.
       case validate (mk v) of
         Some e \<Rightarrow> fail (Invalid ''ProtocolParam'' (reason e))
       | None \<Rightarrow> ret (mk v))"

definition protocol_param_read_tagged :: "u8 \<Rightarrow> protocol_param reader" where
  "protocol_param_read_tagged tag =
      (if tag = 0x00 then rbind get_be (\<lambda>v. ret (MinimumStake v))
       else if tag = 0x01 then read_validated EpochLength
       else if tag = 0x02 then read_validated AllowedTimestampFuture
       else if tag = 0x03 then rbind get_be (\<lambda>a. ret (TreasuryAddress a))
       else if tag = 0x04 then read_validated MaxDepositsPerEpoch
       else if tag = 0x05 then read_validated MaxWithdrawalsPerEpoch
       else if tag = 0x06 then read_validated ObserversPerValidator
       else if tag = 0x07 then
         rbind get_be (\<lambda>v.
         rbind (ensure (MIN_MINIMUM_VALIDATOR_COUNT \<le> v)
                  (Invalid ''ProtocolParam'' ''minimum validator count out of bounds'')) (\<lambda>_.
         ret (MinimumValidatorCount v)))
       else if tag = 0x08 then
         rbind get_be (\<lambda>v.
         rbind (ensure (within MIN_INVALID_DEPOSIT_TAX MAX_INVALID_DEPOSIT_TAX v)
                  (Invalid ''ProtocolParam'' ''invalid deposit tax out of bounds'')) (\<lambda>_.
         ret (InvalidDepositTax v)))
       else if tag = 0x09 then read_validated MaxPendingWithdrawalsPerValidator
       else if tag = 0x0A then read_validated MaxValidatorCount
       else fail (Invalid ''ProtocolParam'' ''unknown tag''))"

definition protocol_param_read :: "protocol_param reader" where
  "protocol_param_read = rbind get_be protocol_param_read_tagged"

section \<open>Parameters within bounds\<close>

fun protocol_param_ok :: "protocol_param \<Rightarrow> bool" where
  "protocol_param_ok (MinimumValidatorCount v) \<longleftrightarrow> 1 \<le> v"
| "protocol_param_ok (InvalidDepositTax v) \<longleftrightarrow> v \<le> 100"
| "protocol_param_ok p \<longleftrightarrow> validate p = None"

lemma read_validated_Inr:
  "read_validated mk buf = Inr (p, rest) \<longleftrightarrow>
     (\<exists>v. p = mk v \<and> validate (mk v) = None \<and> buf = to_be_bytes v @ rest)"
  by (auto simp: read_validated_def rbind_Inr get_be_Inr ret_Inr split: option.splits)

lemma reads_validated:
  "validate (mk v) = None \<Longrightarrow> read_validated mk (to_be_bytes v @ rest) = Inr (mk v, rest)"
  by (auto simp: read_validated_Inr)

lemma unbounded: "validate (MinimumStake v) = None" "validate (TreasuryAddress a) = None"
  by simp_all

interpretation protocol_param: exact_codec protocol_param_write protocol_param_read protocol_param_ok
proof
  fix p assume "protocol_param_ok p"
  then show "reads protocol_param_read p (protocol_param_write p)"
    by (cases p)
      (simp_all add: reads_def protocol_param_read_def protocol_param_read_tagged_def codec_reads
        reads_validated within_def
        param_limits del: validate.simps)
next
  fix buf p rest assume "protocol_param_read buf = Inr (p, rest)"
  then obtain tag mid where buf: "buf = to_be_bytes tag @ mid"
    and tag: "protocol_param_read_tagged tag mid = Inr (p, rest)"
    by (auto simp: protocol_param_read_def rbind_Inr get_be_Inr)
  from tag show "protocol_param_ok p \<and> buf = protocol_param_write p @ rest"
    unfolding buf protocol_param_read_tagged_def
    by (auto simp: read_validated_Inr reader_Inr get_be_Inr within_def param_limits
        simp del: validate.simps split: if_splits intro: unbounded)
qed

lemma validated_Inr: "validated p = Inr p' \<longleftrightarrow> p' = p \<and> validate p = None"
  by (auto simp: validated_def split: option.splits)

lemma with_length_Inr:
  "with_length what n request f = Inr p \<longleftrightarrow> length (pp_param request) = n \<and> f (pp_param request) = Inr p"
  by (auto simp: with_length_def)

text \<open>The request that asks for a parameter.\<close>

fun request_of :: "protocol_param \<Rightarrow> protocol_param_request" where
  "request_of (MinimumStake v) = \<lparr>pp_param_id = 0x00, pp_param = to_le_bytes v\<rparr>"
| "request_of (EpochLength v) = \<lparr>pp_param_id = 0x01, pp_param = to_le_bytes v\<rparr>"
| "request_of (AllowedTimestampFuture v) = \<lparr>pp_param_id = 0x02, pp_param = to_le_bytes v\<rparr>"
| "request_of (TreasuryAddress v) = \<lparr>pp_param_id = 0x03, pp_param = to_be_bytes v\<rparr>"
| "request_of (MaxDepositsPerEpoch v) = \<lparr>pp_param_id = 0x04, pp_param = to_le_bytes v\<rparr>"
| "request_of (MaxWithdrawalsPerEpoch v) = \<lparr>pp_param_id = 0x05, pp_param = to_le_bytes v\<rparr>"
| "request_of (ObserversPerValidator v) = \<lparr>pp_param_id = 0x06, pp_param = to_le_bytes v\<rparr>"
| "request_of (MinimumValidatorCount v) = \<lparr>pp_param_id = 0x07, pp_param = to_le_bytes v\<rparr>"
| "request_of (InvalidDepositTax v) = \<lparr>pp_param_id = 0x08, pp_param = to_le_bytes v\<rparr>"
| "request_of (MaxPendingWithdrawalsPerValidator v) = \<lparr>pp_param_id = 0x09, pp_param = to_le_bytes v\<rparr>"
| "request_of (MaxValidatorCount v) = \<lparr>pp_param_id = 0x0A, pp_param = to_le_bytes v\<rparr>"

lemma from_le_bytes_eq: "length bs = 8 \<Longrightarrow> (from_le_bytes bs :: u64) = v \<longleftrightarrow> bs = to_le_bytes v"
  by (auto simp: to_from_le_bytes from_to_le_bytes)

lemma from_be_bytes_eq: "length bs = 20 \<Longrightarrow> (from_be_bytes bs :: address) = v \<longleftrightarrow> bs = to_be_bytes v"
  by (auto simp: to_from_be_bytes from_to_be_bytes)

lemma request_eq:
  "r = \<lparr>pp_param_id = i, pp_param = bs\<rparr> \<longleftrightarrow> pp_param_id r = i \<and> pp_param r = bs"
  by (cases r) auto

lemma try_from_request_of: "protocol_param_ok p \<Longrightarrow> protocol_param_try_from (request_of p) = Inr p"
  by (cases p)
    (auto simp: protocol_param_try_from_def with_length_def validated_def from_to_le_bytes
      from_to_be_bytes param_limits within_def Let_def split: if_splits)

lemma try_from_ok:
  "protocol_param_try_from r = Inr p \<Longrightarrow> protocol_param_ok p \<and> r = request_of p"
  unfolding protocol_param_try_from_def
  by (auto simp: with_length_Inr validated_Inr request_eq Let_def to_from_le_bytes word_one_le
      to_from_be_bytes param_limits simp del: validate.simps split: if_splits intro: unbounded)

section \<open>Properties\<close>

text \<open>C24. Protocol parameters enter and are stored only within their bounds. A request converts
  to a parameter exactly when it is that parameter's request and the value is in bounds, and
  the codec decodes a buffer to a parameter exactly when the buffer is its encoding and the
  value is in bounds; so every parameter change a block can queue is read back from a
  checkpoint, and no encoded change can carry a value the request parser refuses.\<close>

theorem protocol_param_exact:
  "(protocol_param_try_from r = Inr p \<longleftrightarrow> protocol_param_ok p \<and> r = request_of p) \<and>
   (decode protocol_param_read buf = Inr p \<longleftrightarrow> protocol_param_ok p \<and> buf = protocol_param_write p) \<and>
   length (protocol_param_write p) = protocol_param_encode_size p"
proof -
  have "length (protocol_param_write p) = protocol_param_encode_size p" by (cases p) simp_all
  then show ?thesis
    using try_from_request_of [of p] try_from_ok [of r p] protocol_param.decode_iff [of buf p] by blast
qed


end
