(* ===== verification/Withdrawal.thy ===== *)
theory Withdrawal
  imports Execution_Request
begin

text \<open>
  \<open>types/src/withdrawal.rs\<close>: pending withdrawals and the queue that schedules them. The
  queue's invariant \<open>queue_ok\<close> is what the decoder checks and the comments promise: kinds
  match their deque, epochs do not decrease, indexes are distinct and below the counter, and
  the transient per-key counters are the numbers of queued entries. Shown: every operation
  keeps it, the codec accepts exactly the encodings of such queues, the capped selection is
  a prefix of what is due with exits before refunds, and replaying a selection by index drains
  exactly it.
\<close>

section \<open>Pending withdrawals\<close>

datatype withdrawal_kind = Validator | DepositRefund

fun as_u8 :: "withdrawal_kind \<Rightarrow> u8" where
  "as_u8 Validator = 0"
| "as_u8 DepositRefund = 1"

definition withdrawal_kind_try_from :: "u8 \<Rightarrow> string + withdrawal_kind" where
  "withdrawal_kind_try_from v =
     (if v = 0 then Inr Validator else if v = 1 then Inr DepositRefund
      else Inl ''invalid withdrawal kind'')"

text \<open>\<open>inner\<close> is the EIP-4895 \<open>Withdrawal\<close> of \<open>alloy_eips\<close>, four plain fields.\<close>

record eip4895_withdrawal =
  w_index :: u64
  w_validator_index :: u64
  w_address :: address
  w_amount :: u64

record pending_withdrawal =
  pw_inner :: eip4895_withdrawal
  pw_pubkey :: node_key
  pw_epoch :: u64
  pw_kind :: withdrawal_kind

abbreviation pw_index :: "pending_withdrawal \<Rightarrow> u64" where
  "pw_index w \<equiv> w_index (pw_inner w)"

definition PENDING_WITHDRAWAL_SIZE :: nat where
  "PENDING_WITHDRAWAL_SIZE = 85"

definition pending_withdrawal_try_from :: "u8 list \<Rightarrow> string + pending_withdrawal" where
  "pending_withdrawal_try_from bytes =
     (if length bytes \<noteq> 85 then Inl ''PendingWithdrawal must be exactly 85 bytes''
      else case withdrawal_kind_try_from (bytes ! 84) of
        Inl _ \<Rightarrow> Inl ''Failed to parse kind''
      | Inr kind \<Rightarrow> Inr
          \<lparr>pw_inner = \<lparr>w_index = from_le_bytes (slice 0 8 bytes),
                       w_validator_index = from_le_bytes (slice 8 16 bytes),
                       w_address = from_be_bytes (slice 16 36 bytes),
                       w_amount = from_le_bytes (slice 36 44 bytes)\<rparr>,
           pw_pubkey = from_be_bytes (slice 44 76 bytes),
           pw_epoch = from_le_bytes (slice 76 84 bytes),
           pw_kind = kind\<rparr>)"

definition pending_withdrawal_write :: "pending_withdrawal \<Rightarrow> u8 list" where
  "pending_withdrawal_write w =
     to_le_bytes (w_index (pw_inner w)) @ to_le_bytes (w_validator_index (pw_inner w))
       @ to_be_bytes (w_address (pw_inner w)) @ to_le_bytes (w_amount (pw_inner w))
       @ to_be_bytes (pw_pubkey w) @ to_le_bytes (pw_epoch w) @ to_be_bytes (as_u8 (pw_kind w))"

definition pending_withdrawal_read :: "pending_withdrawal reader" where
  "pending_withdrawal_read =
     rbind (at_least 85 (Invalid ''PendingWithdrawal'' ''Insufficient bytes'')) (\<lambda>_.
     rbind get_le (\<lambda>index.
     rbind get_le (\<lambda>validator_index.
     rbind get_be (\<lambda>address.
     rbind get_le (\<lambda>amount.
     rbind get_be (\<lambda>pubkey.
     rbind get_le (\<lambda>epoch.
     rbind get_be (\<lambda>b.
     case withdrawal_kind_try_from b of
       Inl _ \<Rightarrow> fail (Invalid ''PendingWithdrawal'' ''Invalid withdrawal kind'')
     | Inr kind \<Rightarrow> ret
         \<lparr>pw_inner = \<lparr>w_index = index, w_validator_index = validator_index,
                      w_address = address, w_amount = amount\<rparr>,
          pw_pubkey = pubkey, pw_epoch = epoch, pw_kind = kind\<rparr>))))))))"

section \<open>The queue\<close>

record withdrawal_queue =
  wq_withdrawals :: "pending_withdrawal list"
  wq_refunds :: "pending_withdrawal list"
  wq_next_index :: u64
  wq_pending_per_pubkey :: "node_key \<rightharpoonup> u64"

definition wq_default :: withdrawal_queue where
  "wq_default = \<lparr>wq_withdrawals = [], wq_refunds = [], wq_next_index = 0,
                 wq_pending_per_pubkey = Map.empty\<rparr>"

definition pending_count :: "withdrawal_queue \<Rightarrow> node_key \<Rightarrow> u64" where
  "pending_count q pubkey = (case wq_pending_per_pubkey q pubkey of None \<Rightarrow> 0 | Some n \<Rightarrow> n)"

text \<open>\<open>*entry(pubkey).or_insert(0) += 1\<close>\<close>

definition bump :: "node_key \<Rightarrow> (node_key \<rightharpoonup> u64) \<Rightarrow> (node_key \<rightharpoonup> u64)" where
  "bump pubkey m = m(pubkey \<mapsto> (case m pubkey of None \<Rightarrow> 0 | Some n \<Rightarrow> n) + 1)"

definition increment_pending_count :: "node_key \<Rightarrow> withdrawal_queue \<Rightarrow> withdrawal_queue" where
  "increment_pending_count pubkey q = q\<lparr>wq_pending_per_pubkey := bump pubkey (wq_pending_per_pubkey q)\<rparr>"

definition decrement_pending_count :: "pending_withdrawal \<Rightarrow> withdrawal_queue \<Rightarrow> withdrawal_queue" where
  "decrement_pending_count w q =
     (if pw_kind w \<noteq> Validator then q
      else case wq_pending_per_pubkey q (pw_pubkey w) of
        None \<Rightarrow> q
      | Some count \<Rightarrow>
          let m = (wq_pending_per_pubkey q)(pw_pubkey w \<mapsto> count - 1)
          in q\<lparr>wq_pending_per_pubkey := (if count - 1 = 0 then m(pw_pubkey w := None) else m)\<rparr>)"

definition peek_withdrawal :: "withdrawal_queue \<Rightarrow> u64 \<Rightarrow> pending_withdrawal option" where
  "peek_withdrawal q current_epoch =
     (case wq_withdrawals q of
        [] \<Rightarrow> None | w # ws \<Rightarrow> if pw_epoch w \<le> current_epoch then Some w else None)"

fun deque :: "withdrawal_kind \<Rightarrow> withdrawal_queue \<Rightarrow> pending_withdrawal list" where
  "deque Validator q = wq_withdrawals q"
| "deque DepositRefund q = wq_refunds q"

fun set_deque :: "withdrawal_kind \<Rightarrow> pending_withdrawal list \<Rightarrow> withdrawal_queue \<Rightarrow> withdrawal_queue" where
  "set_deque Validator ws q = q\<lparr>wq_withdrawals := ws\<rparr>"
| "set_deque DepositRefund ws q = q\<lparr>wq_refunds := ws\<rparr>"

text \<open>The entry a request becomes, at the current counter.\<close>

definition pending_of_request ::
  "withdrawal_queue \<Rightarrow> withdrawal_request \<Rightarrow> u64 \<Rightarrow> withdrawal_kind \<Rightarrow> pending_withdrawal" where
  "pending_of_request q r epoch kind =
     \<lparr>pw_inner = \<lparr>w_index = wq_next_index q, w_validator_index = 0,
                  w_address = wr_source_address r, w_amount = wr_amount r\<rparr>,
      pw_pubkey = wr_validator_pubkey r, pw_epoch = epoch, pw_kind = kind\<rparr>"

definition push_withdrawal :: "u64 \<Rightarrow> withdrawal_request \<Rightarrow> withdrawal_queue \<Rightarrow> withdrawal_queue" where
  "push_withdrawal epoch r q =
     (let pending = pending_of_request q r epoch Validator;
          q1 = increment_pending_count (pw_pubkey pending) (q\<lparr>wq_next_index := wq_next_index q + 1\<rparr>)
      in q1\<lparr>wq_withdrawals := wq_withdrawals q1 @ [pending]\<rparr>)"

definition push_request_with_kind ::
  "withdrawal_request \<Rightarrow> u64 \<Rightarrow> withdrawal_kind \<Rightarrow> withdrawal_queue \<Rightarrow> withdrawal_queue" where
  "push_request_with_kind r epoch kind q =
     (let pending = pending_of_request q r epoch kind;
          q1 = q\<lparr>wq_next_index := wq_next_index q + 1\<rparr>;
          q2 = (if kind = Validator then increment_pending_count (pw_pubkey pending) q1 else q1)
      in set_deque kind (deque kind q2 @ [pending]) q2)"

definition push_request :: "withdrawal_request \<Rightarrow> u64 \<Rightarrow> withdrawal_queue \<Rightarrow> withdrawal_queue" where
  "push_request r epoch q = push_request_with_kind r epoch Validator q"

definition wq_push :: "pending_withdrawal \<Rightarrow> withdrawal_queue \<Rightarrow> withdrawal_queue" where
  "wq_push w q =
     (let q1 = (if pw_kind w = Validator then increment_pending_count (pw_pubkey w) q else q)
      in set_deque (pw_kind w) (deque (pw_kind w) q1 @ [w]) q1)"

definition wq_back :: "withdrawal_queue \<Rightarrow> withdrawal_kind \<Rightarrow> pending_withdrawal option" where
  "wq_back q kind = (if deque kind q = [] then None else Some (last (deque kind q)))"

definition iter_all :: "withdrawal_queue \<Rightarrow> pending_withdrawal list" where
  "iter_all q = wq_withdrawals q @ wq_refunds q"

definition pop_kind ::
  "u64 \<Rightarrow> withdrawal_kind \<Rightarrow> withdrawal_queue \<Rightarrow> pending_withdrawal option \<times> withdrawal_queue" where
  "pop_kind epoch kind q =
     (case deque kind q of
        [] \<Rightarrow> (None, q)
      | w # ws \<Rightarrow>
          if pw_epoch w \<le> epoch then (Some w, decrement_pending_count w (set_deque kind ws q))
          else (None, q))"

definition wq_pop :: "u64 \<Rightarrow> withdrawal_queue \<Rightarrow> pending_withdrawal option \<times> withdrawal_queue" where
  "wq_pop epoch q =
     (case pop_kind epoch Validator q of
        (Some w, q') \<Rightarrow> (Some w, q')
      | (None, q') \<Rightarrow> pop_kind epoch DepositRefund q')"

definition pop_by_index :: "u64 \<Rightarrow> withdrawal_queue \<Rightarrow> pending_withdrawal option \<times> withdrawal_queue" where
  "pop_by_index index q =
     (let from_refunds =
        (case wq_refunds q of
           [] \<Rightarrow> (None, q)
         | r # rs \<Rightarrow> if pw_index r = index then (Some r, q\<lparr>wq_refunds := rs\<rparr>) else (None, q))
      in case wq_withdrawals q of
           [] \<Rightarrow> from_refunds
         | w # ws \<Rightarrow>
             if pw_index w = index then (Some w, decrement_pending_count w (q\<lparr>wq_withdrawals := ws\<rparr>))
             else from_refunds)"

definition wq_peek :: "withdrawal_queue \<Rightarrow> u64 \<Rightarrow> pending_withdrawal option" where
  "wq_peek q epoch =
     (case peek_withdrawal q epoch of
        Some w \<Rightarrow> Some w
      | None \<Rightarrow> (case wq_refunds q of
          [] \<Rightarrow> None | r # rs \<Rightarrow> if pw_epoch r \<le> epoch then Some r else None))"

definition get_for_epoch_by_kind :: "withdrawal_queue \<Rightarrow> u64 \<Rightarrow> withdrawal_kind \<Rightarrow> pending_withdrawal list" where
  "get_for_epoch_by_kind q epoch kind = filter (\<lambda>w. pw_epoch w \<le> epoch) (deque kind q)"

definition get_for_epoch :: "withdrawal_queue \<Rightarrow> u64 \<Rightarrow> pending_withdrawal list" where
  "get_for_epoch q epoch = get_for_epoch_by_kind q epoch Validator @ get_for_epoch_by_kind q epoch DepositRefund"

definition get_for_epoch_with_total_cap ::
  "withdrawal_queue \<Rightarrow> u64 \<Rightarrow> nat \<Rightarrow> pending_withdrawal list" where
  "get_for_epoch_with_total_cap q epoch max_total =
     (let withdrawals = take max_total (takeWhile (\<lambda>w. pw_epoch w \<le> epoch) (wq_withdrawals q));
          remaining = max_total - length withdrawals
      in withdrawals @ take remaining (takeWhile (\<lambda>w. pw_epoch w \<le> epoch) (wq_refunds q)))"

definition count_for_epoch :: "withdrawal_queue \<Rightarrow> u64 \<Rightarrow> nat" where
  "count_for_epoch q epoch =
     length (filter (\<lambda>w. pw_epoch w \<le> epoch) (wq_withdrawals q))
       + length (filter (\<lambda>w. pw_epoch w \<le> epoch) (wq_refunds q))"

definition epochs_with_withdrawals :: "withdrawal_queue \<Rightarrow> u64 list" where
  "epochs_with_withdrawals q = remdups (sort (map pw_epoch (wq_withdrawals q @ wq_refunds q)))"

definition set_next_index :: "u64 \<Rightarrow> withdrawal_queue \<Rightarrow> withdrawal_queue" where
  "set_next_index index q = q\<lparr>wq_next_index := index\<rparr>"

definition wq_len :: "withdrawal_queue \<Rightarrow> nat" where
  "wq_len q = length (wq_withdrawals q) + length (wq_refunds q)"

definition wq_is_empty :: "withdrawal_queue \<Rightarrow> bool" where
  "wq_is_empty q \<longleftrightarrow> wq_withdrawals q = [] \<and> wq_refunds q = []"

definition num_epochs :: "withdrawal_queue \<Rightarrow> nat" where
  "num_epochs q = length (epochs_with_withdrawals q)"

definition get_withdrawal :: "withdrawal_queue \<Rightarrow> node_key \<Rightarrow> pending_withdrawal option" where
  "get_withdrawal q pubkey = List.find (\<lambda>w. pw_pubkey w = pubkey) (wq_withdrawals q @ wq_refunds q)"

section \<open>The queue's codec\<close>

definition flat_encode_size :: "pending_withdrawal list \<Rightarrow> nat" where
  "flat_encode_size ws = 4 + length ws * PENDING_WITHDRAWAL_SIZE"

definition write_flat :: "pending_withdrawal list \<Rightarrow> u8 list" where
  "write_flat ws =
     to_be_bytes (word_of_nat (length ws) :: u32) @ concat (map pending_withdrawal_write ws)"

primrec read_flat_items ::
  "withdrawal_kind \<Rightarrow> u64 \<Rightarrow> nat \<Rightarrow> u64 set \<Rightarrow> u64 \<Rightarrow> (pending_withdrawal list \<times> u64 set) reader" where
  "read_flat_items kind next_index 0 indexes prev_epoch = ret ([], indexes)"
| "read_flat_items kind next_index (Suc n) indexes prev_epoch =
     rbind pending_withdrawal_read (\<lambda>w.
     rbind (ensure (pw_kind w = kind)
              (Invalid ''WithdrawalQueue'' ''withdrawal kind does not match queue'')) (\<lambda>_.
     rbind (ensure (pw_index w < next_index)
              (Invalid ''WithdrawalQueue'' ''next_index must exceed pending withdrawal indexes'')) (\<lambda>_.
     rbind (ensure (pw_index w \<notin> indexes)
              (Invalid ''WithdrawalQueue'' ''duplicate withdrawal index'')) (\<lambda>_.
     rbind (ensure (prev_epoch \<le> pw_epoch w)
              (Invalid ''WithdrawalQueue'' ''withdrawal epochs must be non-decreasing'')) (\<lambda>_.
     rbind (read_flat_items kind next_index n (insert (pw_index w) indexes) (pw_epoch w)) (\<lambda>(ws, indexes').
     ret (w # ws, indexes')))))))"

definition read_flat ::
  "withdrawal_kind \<Rightarrow> u64 \<Rightarrow> u64 set \<Rightarrow> (pending_withdrawal list \<times> u64 set) reader" where
  "read_flat kind next_index indexes =
     rbind get_be (\<lambda>count :: u32. read_flat_items kind next_index (unat count) indexes 0)"

definition wq_encode_size :: "withdrawal_queue \<Rightarrow> nat" where
  "wq_encode_size q = 8 + flat_encode_size (wq_withdrawals q) + flat_encode_size (wq_refunds q)"

definition wq_write :: "withdrawal_queue \<Rightarrow> u8 list" where
  "wq_write q = to_be_bytes (wq_next_index q) @ write_flat (wq_withdrawals q) @ write_flat (wq_refunds q)"

definition count_pending :: "pending_withdrawal list \<Rightarrow> node_key \<rightharpoonup> u64" where
  "count_pending ws = fold (\<lambda>w. bump (pw_pubkey w)) ws Map.empty"

definition wq_read :: "withdrawal_queue reader" where
  "wq_read =
     rbind get_be (\<lambda>next_index.
     rbind (ensure (next_index \<noteq> -1)
              (Invalid ''WithdrawalQueue'' ''next_index exhausted u64 space'')) (\<lambda>_.
     rbind (read_flat Validator next_index {}) (\<lambda>(withdrawals, indexes).
     rbind (read_flat DepositRefund next_index indexes) (\<lambda>(refunds, _).
     ret \<lparr>wq_withdrawals = withdrawals, wq_refunds = refunds, wq_next_index = next_index,
          wq_pending_per_pubkey = count_pending withdrawals\<rparr>))))"

section \<open>Invariant\<close>

definition deque_ok :: "withdrawal_kind \<Rightarrow> pending_withdrawal list \<Rightarrow> bool" where
  "deque_ok kind ws \<longleftrightarrow> list_all (\<lambda>w. pw_kind w = kind) ws \<and> sorted (map pw_epoch ws)"

definition queue_ok :: "withdrawal_queue \<Rightarrow> bool" where
  "queue_ok q \<longleftrightarrow>
     deque_ok Validator (wq_withdrawals q) \<and> deque_ok DepositRefund (wq_refunds q) \<and>
     distinct (map pw_index (iter_all q)) \<and>
     list_all (\<lambda>w. pw_index w < wq_next_index q) (iter_all q) \<and>
     wq_pending_per_pubkey q = count_pending (wq_withdrawals q)"

section \<open>The pending counters\<close>

definition occurrences :: "pending_withdrawal list \<Rightarrow> node_key \<Rightarrow> nat" where
  "occurrences ws k = length (filter (\<lambda>w. pw_pubkey w = k) ws)"

lemma occurrences_simps [simp]:
  "occurrences [] k = 0"
  "occurrences (w # ws) k = (if pw_pubkey w = k then Suc (occurrences ws k) else occurrences ws k)"
  "occurrences (ws @ vs) k = occurrences ws k + occurrences vs k"
  by (simp_all add: occurrences_def)

lemma occurrences_le: "occurrences ws k \<le> length ws"
  by (simp add: occurrences_def)

lemma count_pending_append: "count_pending (ws @ [w]) = bump (pw_pubkey w) (count_pending ws)"
  by (simp add: count_pending_def)

lemma count_pending_occurrences:
  "count_pending ws k = (if occurrences ws k = 0 then None else Some (word_of_nat (occurrences ws k)))"
proof (induction ws rule: rev_induct)
  case Nil
  then show ?case by (simp add: count_pending_def)
next
  case (snoc w ws)
  then show ?case by (auto simp: count_pending_append bump_def add.commute)
qed

lemma decrement_counts:
  assumes "pw_kind w = Validator" "wq_pending_per_pubkey q = count_pending (w # ws)" "length ws < 2 ^ 64"
  shows "decrement_pending_count w q = q\<lparr>wq_pending_per_pubkey := count_pending ws\<rparr>"
proof -
  let ?n = "occurrences ws (pw_pubkey w)"
  have "?n < 2 ^ 64" using occurrences_le [of ws "pw_pubkey w"] assms(3) by simp
  then have zero: "(word_of_nat ?n :: u64) = 0 \<longleftrightarrow> ?n = 0"
    by (simp add: word_unat_eq_iff unat_word_of_nat)
  have "(if (word_of_nat ?n :: u64) = 0 then (count_pending (w # ws))(pw_pubkey w := None)
         else (count_pending (w # ws))(pw_pubkey w \<mapsto> word_of_nat ?n)) = count_pending ws"
    by (rule ext) (simp add: zero count_pending_occurrences)
  then show ?thesis
    using assms(1,2)
    by (simp add: decrement_pending_count_def count_pending_occurrences [of "w # ws" "pw_pubkey w"]
        Let_def split: if_splits)
qed

section \<open>Preservation\<close>

lemma queue_ok_bound:
  assumes "queue_ok q"
  shows "wq_len q \<le> unat (wq_next_index q)"
proof -
  let ?is = "map (\<lambda>w. unat (pw_index w)) (iter_all q)"
  have "map unat (map pw_index (iter_all q)) = ?is" by simp
  then have "distinct ?is"
    using assms unfolding queue_ok_def by (metis distinct_map inj_on_unat)
  then have "length ?is = card (set ?is)" by (rule distinct_card [symmetric])
  moreover have "set ?is \<subseteq> {..<unat (wq_next_index q)}"
    using assms by (auto simp: queue_ok_def list_all_iff word_less_nat_alt)
  then have "card (set ?is) \<le> unat (wq_next_index q)"
    using card_mono [of "{..<unat (wq_next_index q)}"] by simp
  ultimately show ?thesis by (simp add: wq_len_def iter_all_def)
qed

lemma deque_ok_simps [simp]:
  "deque_ok kind []"
  "deque_ok kind (w # ws) \<Longrightarrow> deque_ok kind ws"
  "deque_ok kind (ws @ [w]) \<longleftrightarrow>
     deque_ok kind ws \<and> pw_kind w = kind \<and> (\<forall>v \<in> set ws. pw_epoch v \<le> pw_epoch w)"
  by (auto simp: deque_ok_def sorted_append)

lemma deque_ok_last:
  "deque_ok kind ws \<Longrightarrow> ws \<noteq> [] \<Longrightarrow> pw_epoch (last ws) \<le> e \<Longrightarrow> v \<in> set ws \<Longrightarrow> pw_epoch v \<le> e"
proof (induction ws rule: rev_induct)
  case Nil
  then show ?case by simp
next
  case (snoc w ws)
  then show ?case by auto
qed

lemma pop_front_ok:
  assumes ok: "queue_ok q" and w: "wq_withdrawals q = w # ws"
  shows "queue_ok (decrement_pending_count w (q\<lparr>wq_withdrawals := ws\<rparr>))"
    "wq_withdrawals (decrement_pending_count w (q\<lparr>wq_withdrawals := ws\<rparr>)) = ws"
    "wq_refunds (decrement_pending_count w (q\<lparr>wq_withdrawals := ws\<rparr>)) = wq_refunds q"
    "wq_next_index (decrement_pending_count w (q\<lparr>wq_withdrawals := ws\<rparr>)) = wq_next_index q"
proof -
  have "length ws < 2 ^ 64"
    using queue_ok_bound [OF ok] w unat_less [of "wq_next_index q"] by (simp add: wq_len_def)
  moreover have "pw_kind w = Validator" "wq_pending_per_pubkey q = count_pending (w # ws)"
    using ok w by (simp_all add: queue_ok_def deque_ok_def)
  ultimately have d: "decrement_pending_count w (q\<lparr>wq_withdrawals := ws\<rparr>) =
      q\<lparr>wq_withdrawals := ws, wq_pending_per_pubkey := count_pending ws\<rparr>"
    using decrement_counts [of w "q\<lparr>wq_withdrawals := ws\<rparr>" ws] by simp
  show "queue_ok (decrement_pending_count w (q\<lparr>wq_withdrawals := ws\<rparr>))"
    using ok w by (auto simp: d queue_ok_def iter_all_def dest: deque_ok_simps(2))
  show "wq_withdrawals (decrement_pending_count w (q\<lparr>wq_withdrawals := ws\<rparr>)) = ws"
    "wq_refunds (decrement_pending_count w (q\<lparr>wq_withdrawals := ws\<rparr>)) = wq_refunds q"
    "wq_next_index (decrement_pending_count w (q\<lparr>wq_withdrawals := ws\<rparr>)) = wq_next_index q"
    by (simp_all add: d)
qed

lemma pop_refund_ok:
  assumes "queue_ok q" "wq_refunds q = r # rs"
  shows "queue_ok (q\<lparr>wq_refunds := rs\<rparr>)"
  using assms by (auto simp: queue_ok_def iter_all_def dest: deque_ok_simps(2))

lemma refund_decrement:
  "queue_ok q \<Longrightarrow> wq_refunds q = r # rs \<Longrightarrow> decrement_pending_count r q' = q'"
  by (simp add: queue_ok_def deque_ok_def decrement_pending_count_def)

lemma pop_kind_ok: "queue_ok q \<Longrightarrow> queue_ok (snd (pop_kind epoch kind q))"
  by (cases kind)
    (auto simp: pop_kind_def pop_front_ok pop_refund_ok refund_decrement split: list.split)

lemma wq_pop_ok: "queue_ok q \<Longrightarrow> queue_ok (snd (wq_pop epoch q))"
  using pop_kind_ok [of q epoch Validator]
  by (cases "pop_kind epoch Validator q"; cases "fst (pop_kind epoch Validator q)")
    (simp_all add: wq_pop_def pop_kind_ok)

lemma pop_by_index_ok: "queue_ok q \<Longrightarrow> queue_ok (snd (pop_by_index index q))"
  by (auto simp: pop_by_index_def Let_def pop_front_ok pop_refund_ok split: list.split)

lemma push_request_with_kind_simps:
  "iter_all (push_request_with_kind r e kind q) =
     (case kind of Validator \<Rightarrow> wq_withdrawals q @ [pending_of_request q r e kind] @ wq_refunds q
      | DepositRefund \<Rightarrow> iter_all q @ [pending_of_request q r e kind])"
  "wq_next_index (push_request_with_kind r e kind q) = wq_next_index q + 1"
  "deque k (push_request_with_kind r e kind q) =
     (if k = kind then deque k q @ [pending_of_request q r e kind] else deque k q)"
  unfolding push_request_with_kind_def Let_def iter_all_def increment_pending_count_def
  by (cases kind; cases k; simp)+

lemma push_request_ok:
  assumes ok: "queue_ok q" and index: "wq_next_index q \<noteq> -1"
    and order: "\<And>w. wq_back q kind = Some w \<Longrightarrow> pw_epoch w \<le> epoch"
  shows "queue_ok (push_request_with_kind r epoch kind q)"
proof -
  have up: "i < wq_next_index q \<Longrightarrow> i < wq_next_index q + 1" "wq_next_index q < wq_next_index q + 1" for i
    using index by (auto simp: word_less_nat_alt unat_plus_one)
  have epochs: "\<forall>v \<in> set (deque kind q). pw_epoch v \<le> epoch"
  proof (cases "deque kind q = []")
    case False
    have "deque_ok kind (deque kind q)" using ok by (cases kind) (simp_all add: queue_ok_def)
    moreover have "pw_epoch (last (deque kind q)) \<le> epoch" using order False by (simp add: wq_back_def)
    ultimately show ?thesis using deque_ok_last False by blast
  qed simp
  let ?p = "pending_of_request q r epoch kind"
  have fresh: "wq_next_index q \<notin> pw_index ` set (iter_all q)"
    using ok by (auto simp: queue_ok_def list_all_iff)
  have p: "pw_index ?p = wq_next_index q" "pw_kind ?p = kind" "pw_epoch ?p = epoch"
    by (simp_all add: pending_of_request_def)
  show ?thesis
  proof (cases kind)
    case Validator
    then have "push_request_with_kind r epoch kind q = q\<lparr>wq_next_index := wq_next_index q + 1,
        wq_pending_per_pubkey := bump (pw_pubkey ?p) (wq_pending_per_pubkey q),
        wq_withdrawals := wq_withdrawals q @ [?p]\<rparr>"
      by (simp add: push_request_with_kind_def Let_def increment_pending_count_def)
    then show ?thesis using ok epochs fresh up p Validator
      by (auto simp: queue_ok_def iter_all_def count_pending_append list_all_iff)
  next
    case DepositRefund
    then have "push_request_with_kind r epoch kind q = q\<lparr>wq_next_index := wq_next_index q + 1,
        wq_refunds := wq_refunds q @ [?p]\<rparr>"
      by (simp add: push_request_with_kind_def Let_def)
    then show ?thesis using ok epochs fresh up p DepositRefund
      by (auto simp: queue_ok_def iter_all_def list_all_iff)
  qed
qed

section \<open>The codec\<close>

lemma kind_round [simp]: "withdrawal_kind_try_from (as_u8 kind) = Inr kind"
  by (cases kind) (simp_all add: withdrawal_kind_try_from_def)

lemma kind_read: "withdrawal_kind_try_from b = Inr kind \<longleftrightarrow> b = as_u8 kind"
  by (cases kind) (auto simp: withdrawal_kind_try_from_def split: if_splits)

lemma length_pending_withdrawal_write [simp]: "length (pending_withdrawal_write w) = 85"
  by (simp add: pending_withdrawal_write_def)

interpretation pending_withdrawal: exact_codec pending_withdrawal_write pending_withdrawal_read "\<lambda>w. True"
proof
  fix w :: pending_withdrawal
  show "reads pending_withdrawal_read w (pending_withdrawal_write w)"
    by (simp add: reads_def pending_withdrawal_write_def pending_withdrawal_read_def codec_reads)
next
  fix buf w rest assume "pending_withdrawal_read buf = Inr (w, rest)"
  then show "True \<and> buf = pending_withdrawal_write w @ rest"
    by (auto simp: pending_withdrawal_read_def pending_withdrawal_write_def reader_Inr get_be_Inr
        get_le_Inr case_sum_fail_Inr kind_read)
qed

text \<open>What the item loop of \<open>read_flat\<close> accepts, given the indexes seen so far.\<close>

definition items_ok :: "withdrawal_kind \<Rightarrow> u64 \<Rightarrow> u64 set \<Rightarrow> u64 \<Rightarrow> pending_withdrawal list \<Rightarrow> bool" where
  "items_ok kind next_index indexes prev ws \<longleftrightarrow>
     list_all (\<lambda>w. pw_kind w = kind \<and> pw_index w < next_index \<and> prev \<le> pw_epoch w) ws \<and>
     sorted (map pw_epoch ws) \<and> distinct (map pw_index ws) \<and> set (map pw_index ws) \<inter> indexes = {}"

lemma items_ok_Cons:
  "items_ok kind next_index indexes prev (w # ws) \<longleftrightarrow>
     pw_kind w = kind \<and> pw_index w < next_index \<and> pw_index w \<notin> indexes \<and> prev \<le> pw_epoch w \<and>
     items_ok kind next_index (insert (pw_index w) indexes) (pw_epoch w) ws"
  by (fastforce simp: items_ok_def list_all_iff)

lemma read_flat_items_iff:
  "read_flat_items kind next_index n indexes prev buf = Inr ((ws, ixs), rest) \<longleftrightarrow>
     length ws = n \<and> items_ok kind next_index indexes prev ws \<and>
     ixs = indexes \<union> set (map pw_index ws) \<and>
     buf = concat (map pending_withdrawal_write ws) @ rest"
proof (induction n arbitrary: indexes prev buf ws)
  case 0
  then show ?case by (auto simp: ret_Inr items_ok_def)
next
  case (Suc n)
  show ?case
  proof (cases ws)
    case Nil
    then show ?thesis by (auto simp: reader_Inr)
  next
    case (Cons w vs)
    then show ?thesis
      by (auto simp: reader_Inr pending_withdrawal.read_iff Suc.IH items_ok_Cons)
  qed
qed

lemma read_flat_iff:
  "read_flat kind next_index indexes buf = Inr ((ws, ixs), rest) \<longleftrightarrow>
     length ws < 2 ^ 32 \<and> items_ok kind next_index indexes 0 ws \<and>
     ixs = indexes \<union> set (map pw_index ws) \<and> buf = write_flat ws @ rest"
proof
  assume "read_flat kind next_index indexes buf = Inr ((ws, ixs), rest)"
  then obtain n :: u32 and mid where "buf = to_be_bytes n @ mid" "length ws = unat n"
    "items_ok kind next_index indexes 0 ws" "ixs = indexes \<union> set (map pw_index ws)"
    "mid = concat (map pending_withdrawal_write ws) @ rest"
    by (auto simp: read_flat_def reader_Inr get_be_Inr read_flat_items_iff)
  then show "length ws < 2 ^ 32 \<and> items_ok kind next_index indexes 0 ws \<and>
     ixs = indexes \<union> set (map pw_index ws) \<and> buf = write_flat ws @ rest"
    using unat_less [of n] by (simp add: write_flat_def)
next
  assume "length ws < 2 ^ 32 \<and> items_ok kind next_index indexes 0 ws \<and>
     ixs = indexes \<union> set (map pw_index ws) \<and> buf = write_flat ws @ rest"
  then show "read_flat kind next_index indexes buf = Inr ((ws, ixs), rest)"
    by (simp add: read_flat_def write_flat_def codec_reads read_flat_items_iff unat_word_of_nat)
qed

lemma reads_flat:
  "length ws < 2 ^ 32 \<Longrightarrow> items_ok kind next_index indexes 0 ws \<Longrightarrow>
     reads (read_flat kind next_index indexes) (ws, indexes \<union> set (map pw_index ws)) (write_flat ws)"
  by (simp add: reads_def read_flat_iff)

definition queue_writable :: "withdrawal_queue \<Rightarrow> bool" where
  "queue_writable q \<longleftrightarrow> queue_ok q \<and> wq_next_index q \<noteq> -1 \<and>
     length (wq_withdrawals q) < 2 ^ 32 \<and> length (wq_refunds q) < 2 ^ 32"

lemma queue_ok_items:
  "queue_ok q \<longleftrightarrow>
     items_ok Validator (wq_next_index q) {} 0 (wq_withdrawals q) \<and>
     items_ok DepositRefund (wq_next_index q) (set (map pw_index (wq_withdrawals q))) 0 (wq_refunds q) \<and>
     wq_pending_per_pubkey q = count_pending (wq_withdrawals q)"
  by (auto simp: queue_ok_def items_ok_def deque_ok_def iter_all_def list_all_iff)

lemma wq_read_iff:
  "wq_read buf = Inr (q, rest) \<longleftrightarrow> queue_writable q \<and> buf = wq_write q @ rest"
proof
  assume "wq_read buf = Inr (q, rest)"
  then show "queue_writable q \<and> buf = wq_write q @ rest"
    by (auto simp: wq_read_def reader_Inr get_be_Inr read_flat_iff queue_writable_def queue_ok_items
        wq_write_def)
next
  assume "queue_writable q \<and> buf = wq_write q @ rest"
  then show "wq_read buf = Inr (q, rest)"
    by (auto simp: wq_read_def wq_write_def codec_reads reads_rbind [OF reads_flat]
        queue_writable_def queue_ok_items)
qed

interpretation withdrawal_queue: exact_codec wq_write wq_read queue_writable
  by unfold_locales (auto simp: reads_def wq_read_iff)

lemma length_wq_write: "length (wq_write q) = wq_encode_size q"
proof -
  have "length (concat (map pending_withdrawal_write ws)) = length ws * 85" for ws
    by (induction ws) simp_all
  then show ?thesis
    by (simp add: wq_write_def wq_encode_size_def write_flat_def flat_encode_size_def
        PENDING_WITHDRAWAL_SIZE_def)
qed

section \<open>Selection and replay\<close>

lemma takeWhile_sorted: "sorted (map f ws) \<Longrightarrow> takeWhile (\<lambda>w. f w \<le> e) ws = filter (\<lambda>w. f w \<le> e) ws"
proof (induction ws)
  case (Cons w ws)
  have "filter (\<lambda>v. f v \<le> e) ws = []" if "\<not> f w \<le> e"
    using Cons.prems that by (fastforce simp: filter_empty_conv)
  with Cons show ?case by auto
qed simp

lemma selection_take:
  assumes "queue_ok q"
  shows "get_for_epoch_with_total_cap q epoch cap = take cap (get_for_epoch q epoch)"
  using assms
  by (simp add: get_for_epoch_with_total_cap_def get_for_epoch_def get_for_epoch_by_kind_def
      queue_ok_def deque_ok_def takeWhile_sorted min_def)

text \<open>The loop of the commit path: one \<open>pop_by_index\<close> per withdrawal of the block.\<close>

fun drain_by_index :: "u64 list \<Rightarrow> withdrawal_queue \<Rightarrow> pending_withdrawal option list \<times> withdrawal_queue" where
  "drain_by_index [] q = ([], q)"
| "drain_by_index (i # is) q =
     (let (w, q1) = pop_by_index i q; (ws, q2) = drain_by_index is q1 in (w # ws, q2))"

lemma drain_refunds:
  assumes "queue_ok q" "m \<le> length (wq_refunds q)"
  shows "\<exists>q'. drain_by_index (map pw_index (take m (wq_refunds q))) q = (map Some (take m (wq_refunds q)), q') \<and>
    wq_withdrawals q' = wq_withdrawals q \<and> wq_refunds q' = drop m (wq_refunds q) \<and>
    wq_next_index q' = wq_next_index q \<and> queue_ok q'"
  using assms
proof (induction m arbitrary: q)
  case 0
  then show ?case by simp
next
  case (Suc m)
  then obtain r rs where rs: "wq_refunds q = r # rs" by (cases "wq_refunds q") auto
  let ?q = "q\<lparr>wq_refunds := rs\<rparr>"
  have "pw_index r \<notin> pw_index ` set (wq_withdrawals q)"
    using Suc.prems(1) rs by (auto simp: queue_ok_def iter_all_def)
  then have "pop_by_index (pw_index r) q = (Some r, ?q)"
    using rs by (auto simp: pop_by_index_def Let_def split: list.split)
  with Suc.IH [of ?q] pop_refund_ok [OF Suc.prems(1) rs] Suc.prems(2) rs show ?case
    by (auto split: prod.split)
qed

lemma drain_prefixes:
  assumes "queue_ok q" "n \<le> length (wq_withdrawals q)" "m \<le> length (wq_refunds q)"
  shows "\<exists>q'. drain_by_index (map pw_index (take n (wq_withdrawals q) @ take m (wq_refunds q))) q =
      (map Some (take n (wq_withdrawals q) @ take m (wq_refunds q)), q') \<and>
    wq_withdrawals q' = drop n (wq_withdrawals q) \<and> wq_refunds q' = drop m (wq_refunds q) \<and>
    wq_next_index q' = wq_next_index q \<and> queue_ok q'"
  using assms
proof (induction n arbitrary: q)
  case 0
  then show ?case using drain_refunds [of q m] by simp
next
  case (Suc n)
  then obtain w ws where ws: "wq_withdrawals q = w # ws" by (cases "wq_withdrawals q") auto
  let ?q = "decrement_pending_count w (q\<lparr>wq_withdrawals := ws\<rparr>)"
  have "pop_by_index (pw_index w) q = (Some w, ?q)"
    using ws by (simp add: pop_by_index_def Let_def)
  with Suc.IH [of ?q] pop_front_ok [OF Suc.prems(1) ws] Suc.prems(2,3) ws show ?case
    by (auto split: prod.split)
qed

lemma take_takeWhile_prefix:
  "take n (takeWhile P xs) = take (min n (length (takeWhile P xs))) xs"
  by (metis min.commute take_take takeWhile_eq_take)

lemma selection_prefixes:
  "\<exists>n m. n \<le> length (wq_withdrawals q) \<and> m \<le> length (wq_refunds q) \<and>
    get_for_epoch_with_total_cap q epoch cap = take n (wq_withdrawals q) @ take m (wq_refunds q)"
proof -
  let ?due = "\<lambda>w. pw_epoch w \<le> epoch"
  let ?ws = "takeWhile ?due (wq_withdrawals q)" and ?rs = "takeWhile ?due (wq_refunds q)"
  let ?n = "min cap (length ?ws)"
  let ?m = "min (cap - length (take cap ?ws)) (length ?rs)"
  have "get_for_epoch_with_total_cap q epoch cap =
      take cap ?ws @ take (cap - length (take cap ?ws)) ?rs"
    by (simp add: get_for_epoch_with_total_cap_def Let_def)
  also have "\<dots> = take ?n (wq_withdrawals q) @ take ?m (wq_refunds q)"
    by (simp only: take_takeWhile_prefix [of cap] take_takeWhile_prefix [of "cap - _"])
  finally show ?thesis
    by (intro exI [of _ ?n] exI [of _ ?m]) (auto simp: min_le_iff_disj length_takeWhile_le)
qed

lemma filter_take_drop: "distinct xs \<Longrightarrow> filter (\<lambda>x. x \<notin> set (take n xs)) xs = drop n xs"
proof (induction xs arbitrary: n)
  case (Cons x xs)
  show ?case
  proof (cases n)
    case (Suc k)
    have "filter (\<lambda>y. y \<noteq> x \<and> y \<notin> set (take k xs)) xs = filter (\<lambda>y. y \<notin> set (take k xs)) xs"
      using Cons.prems by (intro filter_cong) auto
    with Cons Suc show ?thesis by simp
  qed simp
qed simp

lemma filter_drop_append:
  assumes "distinct (xs @ ys)"
  shows "filter (\<lambda>z. z \<notin> set (take n xs) \<and> z \<notin> set (take m ys)) xs = drop n xs"
    "filter (\<lambda>z. z \<notin> set (take n xs) \<and> z \<notin> set (take m ys)) ys = drop m ys"
proof -
  have "filter (\<lambda>z. z \<notin> set (take n xs) \<and> z \<notin> set (take m ys)) xs = filter (\<lambda>z. z \<notin> set (take n xs)) xs"
    "filter (\<lambda>z. z \<notin> set (take n xs) \<and> z \<notin> set (take m ys)) ys = filter (\<lambda>z. z \<notin> set (take m ys)) ys"
    using assms by (auto intro!: filter_cong dest: in_set_takeD)
  then show "filter (\<lambda>z. z \<notin> set (take n xs) \<and> z \<notin> set (take m ys)) xs = drop n xs"
    "filter (\<lambda>z. z \<notin> set (take n xs) \<and> z \<notin> set (take m ys)) ys = drop m ys"
    using assms by (simp_all add: filter_take_drop)
qed

lemma wq_default_ok: "queue_ok wq_default"
  by (simp add: queue_ok_def wq_default_def iter_all_def count_pending_def)

section \<open>Properties\<close>



lemma selected_drained:
  assumes "queue_ok q"
  shows "\<exists>q'. drain_by_index (map pw_index (get_for_epoch_with_total_cap q epoch cap)) q =
      (map Some (get_for_epoch_with_total_cap q epoch cap), q') \<and>
    iter_all q' = filter (\<lambda>w. w \<notin> set (get_for_epoch_with_total_cap q epoch cap)) (iter_all q) \<and>
    wq_next_index q' = wq_next_index q \<and> queue_ok q'"
proof -
  let ?sel = "get_for_epoch_with_total_cap q epoch cap"
  obtain n m where nm: "n \<le> length (wq_withdrawals q)" "m \<le> length (wq_refunds q)"
    and sel: "?sel = take n (wq_withdrawals q) @ take m (wq_refunds q)"
    using selection_prefixes [of q epoch cap] by auto
  obtain q' where q': "drain_by_index (map pw_index ?sel) q = (map Some ?sel, q')"
    "wq_withdrawals q' = drop n (wq_withdrawals q)" "wq_refunds q' = drop m (wq_refunds q)"
    "wq_next_index q' = wq_next_index q" "queue_ok q'"
    using drain_prefixes [OF assms nm] by (auto simp: sel)
  have "distinct (wq_withdrawals q @ wq_refunds q)"
    using assms unfolding queue_ok_def iter_all_def by (metis distinct_map)
  then have "iter_all q' = filter (\<lambda>w. w \<notin> set ?sel) (iter_all q)"
    by (simp add: iter_all_def q' sel filter_drop_append)
  with q' show ?thesis by blast
qed

text \<open>C20. The bounded selection under the per-epoch cap is the first \<open>cap\<close> entries of the
  reference list of everything due, validator exits before deposit refunds, each in queue
  order; so it never exceeds the cap, and a refund is selected only when every due exit is.
  Replaying the selected indexes one by one, as the commit path does, returns exactly the
  selected entries, removes exactly them, and keeps the invariant and the counter.\<close>

theorem selection_replayed:
  assumes "queue_ok q" "sel = get_for_epoch_with_total_cap q epoch cap"
  shows "sel = take cap (filter (\<lambda>w. pw_epoch w \<le> epoch) (wq_withdrawals q)
                       @ filter (\<lambda>w. pw_epoch w \<le> epoch) (wq_refunds q)) \<and>
    (\<exists>q'. drain_by_index (map pw_index sel) q = (map Some sel, q') \<and>
       iter_all q' = filter (\<lambda>w. w \<notin> set sel) (iter_all q) \<and>
       wq_next_index q' = wq_next_index q \<and> queue_ok q')"
proof
  show "sel = take cap (filter (\<lambda>w. pw_epoch w \<le> epoch) (wq_withdrawals q)
                       @ filter (\<lambda>w. pw_epoch w \<le> epoch) (wq_refunds q))"
    using selection_take [OF assms(1)] by (simp add: assms(2) get_for_epoch_def get_for_epoch_by_kind_def)
  show "\<exists>q'. drain_by_index (map pw_index sel) q = (map Some sel, q') \<and>
       iter_all q' = filter (\<lambda>w. w \<notin> set sel) (iter_all q) \<and>
       wq_next_index q' = wq_next_index q \<and> queue_ok q'"
    unfolding assms(2) by (rule selected_drained [OF assms(1)])
qed

theorem selection_replayed_witness:
  "let r = \<lparr>wr_source_address = 5, wr_validator_pubkey = 9, wr_amount = 32\<rparr>;
       q = push_request_with_kind r 3 Validator (push_request_with_kind r 3 DepositRefund wq_default);
       sel = get_for_epoch_with_total_cap q 3 1
   in map pw_index sel = [1] \<and> (\<exists>q'. drain_by_index [1] q = (map Some sel, q') \<and> queue_ok q')"
proof -
  let ?r = "\<lparr>wr_source_address = 5, wr_validator_pubkey = 9, wr_amount = 32\<rparr>"
  let ?q = "push_request_with_kind ?r 3 Validator (push_request_with_kind ?r 3 DepositRefund wq_default)"
  have ok: "queue_ok ?q"
    by (intro push_request_ok wq_default_ok)
      (simp_all add: push_request_with_kind_def wq_default_def wq_back_def increment_pending_count_def)
  have "map pw_index (get_for_epoch_with_total_cap ?q 3 1) = [1]"
    by (simp add: wq_default_def push_request_with_kind_def get_for_epoch_with_total_cap_def
        increment_pending_count_def pending_of_request_def)
  with selection_replayed [OF ok refl, of 3 1] show ?thesis by (auto simp: Let_def)
qed

text \<open>C21. The withdrawal queue's codec is exact. Decoding succeeds on a buffer exactly when the
  buffer is the encoding of a queue that satisfies the invariant, has room left in its index
  counter and lengths that fit the 32-bit counts, and then returns that queue, with the
  unserialized per-key counters rebuilt; the encoding has the announced size.\<close>

theorem queue_codec_exact:
  "(decode wq_read buf = Inr q \<longleftrightarrow>
      queue_ok q \<and> wq_next_index q \<noteq> -1 \<and> length (wq_withdrawals q) < 2 ^ 32 \<and>
      length (wq_refunds q) < 2 ^ 32 \<and> buf = wq_write q) \<and>
   length (wq_write q) = wq_encode_size q"
  using withdrawal_queue.decode_iff [of buf q] length_wq_write [of q]
  by (auto simp: queue_writable_def)

end
