(* ===== verification/Ssz_State_Tree.thy ===== *)
theory Ssz_State_Tree
  imports Ssz_Blocks Ssz_Hash Ordered_Map
begin

text \<open>
  \<open>types/src/ssz_state_tree.rs\<close>: the two-level state tree. A top tree of 32 leaves holds the
  scalar fields and one root per collection; every collection has a subtree of its own, with a
  fixed number of leaves per item, whose root is mixed with the item count.

  The arguments of \<open>rebuild\<close> are the fields of the record \<open>contents\<close>; the reference is the
  predicate \<open>in_sync\<close>, which fixes the leaves of all eight trees as functions of the contents.
  Only one state tree is in sync with given contents.
\<close>

section \<open>Layout\<close>

definition EPOCH :: nat where "EPOCH = 0"
definition VIEW :: nat where "VIEW = 1"
definition LATEST_HEIGHT :: nat where "LATEST_HEIGHT = 2"
definition HEAD_DIGEST :: nat where "HEAD_DIGEST = 3"
definition EPOCH_GENESIS_HASH :: nat where "EPOCH_GENESIS_HASH = 4"
definition VALIDATOR_MINIMUM_STAKE :: nat where "VALIDATOR_MINIMUM_STAKE = 5"
definition NEXT_WITHDRAWAL_INDEX :: nat where "NEXT_WITHDRAWAL_INDEX = 6"
definition FORKCHOICE_HEAD_BLOCK_HASH :: nat where "FORKCHOICE_HEAD_BLOCK_HASH = 7"
definition FORKCHOICE_SAFE_BLOCK_HASH :: nat where "FORKCHOICE_SAFE_BLOCK_HASH = 8"
definition FORKCHOICE_FINALIZED_BLOCK_HASH :: nat where "FORKCHOICE_FINALIZED_BLOCK_HASH = 9"
definition ALLOWED_TIMESTAMP_FUTURE_MS :: nat where "ALLOWED_TIMESTAMP_FUTURE_MS = 10"
definition VALIDATOR_ACCOUNTS_ROOT :: nat where "VALIDATOR_ACCOUNTS_ROOT = 11"
definition DEPOSIT_QUEUE_ROOT :: nat where "DEPOSIT_QUEUE_ROOT = 12"
definition WITHDRAWAL_QUEUE_ROOT :: nat where "WITHDRAWAL_QUEUE_ROOT = 13"
definition PROTOCOL_PARAM_CHANGES_ROOT :: nat where "PROTOCOL_PARAM_CHANGES_ROOT = 14"
definition ADDED_VALIDATORS_ROOT :: nat where "ADDED_VALIDATORS_ROOT = 15"
definition REMOVED_VALIDATORS_ROOT :: nat where "REMOVED_VALIDATORS_ROOT = 16"
definition TREASURY_ADDRESS :: nat where "TREASURY_ADDRESS = 17"
definition MAX_DEPOSITS_PER_EPOCH :: nat where "MAX_DEPOSITS_PER_EPOCH = 18"
definition MAX_WITHDRAWALS_PER_EPOCH :: nat where "MAX_WITHDRAWALS_PER_EPOCH = 19"
definition OBSERVERS_PER_VALIDATOR :: nat where "OBSERVERS_PER_VALIDATOR = 20"
definition PENDING_EXECUTION_REQUESTS_ROOT :: nat where "PENDING_EXECUTION_REQUESTS_ROOT = 21"
definition PENDING_CHECKPOINT :: nat where "PENDING_CHECKPOINT = 22"
definition DYNAMIC_EPOCH_SCHEDULE :: nat where "DYNAMIC_EPOCH_SCHEDULE = 23"
definition MINIMUM_VALIDATOR_COUNT :: nat where "MINIMUM_VALIDATOR_COUNT = 24"
definition PENDING_ACTIVE_VALIDATOR_EXITS :: nat where "PENDING_ACTIVE_VALIDATOR_EXITS = 25"
definition INVALID_DEPOSIT_TAX :: nat where "INVALID_DEPOSIT_TAX = 26"
definition MAX_PENDING_WITHDRAWALS_PER_VALIDATOR :: nat where
  "MAX_PENDING_WITHDRAWALS_PER_VALIDATOR = 27"
definition MAX_VALIDATOR_COUNT :: nat where "MAX_VALIDATOR_COUNT = 28"
definition NUM_TOP_LEAVES :: nat where "NUM_TOP_LEAVES = 29"

lemmas top_index_defs =
  EPOCH_def VIEW_def LATEST_HEIGHT_def HEAD_DIGEST_def EPOCH_GENESIS_HASH_def
  VALIDATOR_MINIMUM_STAKE_def NEXT_WITHDRAWAL_INDEX_def FORKCHOICE_HEAD_BLOCK_HASH_def
  FORKCHOICE_SAFE_BLOCK_HASH_def FORKCHOICE_FINALIZED_BLOCK_HASH_def
  ALLOWED_TIMESTAMP_FUTURE_MS_def VALIDATOR_ACCOUNTS_ROOT_def DEPOSIT_QUEUE_ROOT_def
  WITHDRAWAL_QUEUE_ROOT_def PROTOCOL_PARAM_CHANGES_ROOT_def ADDED_VALIDATORS_ROOT_def
  REMOVED_VALIDATORS_ROOT_def TREASURY_ADDRESS_def MAX_DEPOSITS_PER_EPOCH_def
  MAX_WITHDRAWALS_PER_EPOCH_def OBSERVERS_PER_VALIDATOR_def
  PENDING_EXECUTION_REQUESTS_ROOT_def PENDING_CHECKPOINT_def DYNAMIC_EPOCH_SCHEDULE_def
  MINIMUM_VALIDATOR_COUNT_def PENDING_ACTIVE_VALIDATOR_EXITS_def INVALID_DEPOSIT_TAX_def
  MAX_PENDING_WITHDRAWALS_PER_VALIDATOR_def MAX_VALIDATOR_COUNT_def

definition VALIDATOR_FIELDS_PER_ACCOUNT :: nat where "VALIDATOR_FIELDS_PER_ACCOUNT = 8"
definition VALIDATOR_FIELD_NODE_PUBKEY :: nat where "VALIDATOR_FIELD_NODE_PUBKEY = 6"
definition DEPOSIT_FIELDS_PER_ITEM :: nat where "DEPOSIT_FIELDS_PER_ITEM = 8"
definition WITHDRAWAL_FIELDS_PER_ITEM :: nat where "WITHDRAWAL_FIELDS_PER_ITEM = 8"
definition WITHDRAWAL_FIELD_PUBKEY :: nat where "WITHDRAWAL_FIELD_PUBKEY = 4"
definition PROTOCOL_PARAM_FIELDS_PER_ITEM :: nat where "PROTOCOL_PARAM_FIELDS_PER_ITEM = 2"
definition ADDED_VALIDATOR_FIELDS_PER_ITEM :: nat where "ADDED_VALIDATOR_FIELDS_PER_ITEM = 4"

lemmas per_item_defs =
  VALIDATOR_FIELDS_PER_ACCOUNT_def DEPOSIT_FIELDS_PER_ITEM_def WITHDRAWAL_FIELDS_PER_ITEM_def
  PROTOCOL_PARAM_FIELDS_PER_ITEM_def ADDED_VALIDATOR_FIELDS_PER_ITEM_def

record state_tree =
  st_top :: ssz_tree
  validator_tree :: ssz_tree
  validator_count :: nat
  deposit_tree :: ssz_tree
  deposit_count :: nat
  withdrawal_tree :: ssz_tree
  withdrawal_count :: nat
  withdrawal_pubkey_index :: "node_key \<rightharpoonup> nat"
  protocol_param_tree :: ssz_tree
  protocol_param_count :: nat
  added_validator_tree :: ssz_tree
  added_validator_count :: nat
  removed_validator_tree :: ssz_tree
  removed_validator_count :: nat
  pending_execution_request_tree :: ssz_tree
  pending_execution_request_count :: nat

definition state_tree_new :: "crypto \<Rightarrow> state_tree" where
  "state_tree_new c =
     \<lparr>st_top = ssz_new c NUM_TOP_LEAVES,
      validator_tree = ssz_new c 1, validator_count = 0,
      deposit_tree = ssz_new c 1, deposit_count = 0,
      withdrawal_tree = ssz_new c 1, withdrawal_count = 0, withdrawal_pubkey_index = Map.empty,
      protocol_param_tree = ssz_new c 1, protocol_param_count = 0,
      added_validator_tree = ssz_new c 1, added_validator_count = 0,
      removed_validator_tree = ssz_new c 1, removed_validator_count = 0,
      pending_execution_request_tree = ssz_new c 1, pending_execution_request_count = 0\<rparr>"

definition state_root :: "state_tree \<Rightarrow> bytes32" where
  "state_root t = ssz_root (st_top t)"

section \<open>Scalar fields\<close>

definition set_top :: "crypto \<Rightarrow> nat \<Rightarrow> bytes32 \<Rightarrow> state_tree \<Rightarrow> state_tree" where
  "set_top c i v t = t\<lparr>st_top := set_leaf c i v (st_top t)\<rparr>"

definition tree_set_epoch :: "crypto \<Rightarrow> u64 \<Rightarrow> state_tree \<Rightarrow> state_tree" where
  "tree_set_epoch c epoch = set_top c EPOCH (u64_root epoch)"

definition tree_set_view :: "crypto \<Rightarrow> u64 \<Rightarrow> state_tree \<Rightarrow> state_tree" where
  "tree_set_view c view = set_top c VIEW (u64_root view)"

definition tree_set_latest_height :: "crypto \<Rightarrow> u64 \<Rightarrow> state_tree \<Rightarrow> state_tree" where
  "tree_set_latest_height c height = set_top c LATEST_HEIGHT (u64_root height)"

definition tree_set_head_digest :: "crypto \<Rightarrow> bytes32 \<Rightarrow> state_tree \<Rightarrow> state_tree" where
  "tree_set_head_digest c dg = set_top c HEAD_DIGEST dg"

definition tree_set_epoch_genesis_hash :: "crypto \<Rightarrow> bytes32 \<Rightarrow> state_tree \<Rightarrow> state_tree" where
  "tree_set_epoch_genesis_hash c hash = set_top c EPOCH_GENESIS_HASH hash"

definition tree_set_validator_minimum_stake :: "crypto \<Rightarrow> u64 \<Rightarrow> state_tree \<Rightarrow> state_tree" where
  "tree_set_validator_minimum_stake c stake = set_top c VALIDATOR_MINIMUM_STAKE (u64_root stake)"

definition tree_set_allowed_timestamp_future_ms :: "crypto \<Rightarrow> u64 \<Rightarrow> state_tree \<Rightarrow> state_tree" where
  "tree_set_allowed_timestamp_future_ms c ms = set_top c ALLOWED_TIMESTAMP_FUTURE_MS (u64_root ms)"

definition tree_set_max_deposits_per_epoch :: "crypto \<Rightarrow> u64 \<Rightarrow> state_tree \<Rightarrow> state_tree" where
  "tree_set_max_deposits_per_epoch c v = set_top c MAX_DEPOSITS_PER_EPOCH (u64_root v)"

definition tree_set_max_withdrawals_per_epoch :: "crypto \<Rightarrow> u64 \<Rightarrow> state_tree \<Rightarrow> state_tree" where
  "tree_set_max_withdrawals_per_epoch c v = set_top c MAX_WITHDRAWALS_PER_EPOCH (u64_root v)"

definition tree_set_observers_per_validator :: "crypto \<Rightarrow> u32 \<Rightarrow> state_tree \<Rightarrow> state_tree" where
  "tree_set_observers_per_validator c v = set_top c OBSERVERS_PER_VALIDATOR (u32_root v)"

definition tree_set_pending_checkpoint_digest :: "crypto \<Rightarrow> bytes32 option \<Rightarrow> state_tree \<Rightarrow> state_tree" where
  "tree_set_pending_checkpoint_digest c dg =
     set_top c PENDING_CHECKPOINT (case dg of None \<Rightarrow> 0 | Some d \<Rightarrow> d)"

definition tree_set_dynamic_epoch_schedule :: "crypto \<Rightarrow> u8 list \<Rightarrow> state_tree \<Rightarrow> state_tree" where
  "tree_set_dynamic_epoch_schedule c encoded_schedule =
     set_top c DYNAMIC_EPOCH_SCHEDULE (hash_byte_list c encoded_schedule)"

definition tree_set_minimum_validator_count :: "crypto \<Rightarrow> u64 \<Rightarrow> state_tree \<Rightarrow> state_tree" where
  "tree_set_minimum_validator_count c v = set_top c MINIMUM_VALIDATOR_COUNT (u64_root v)"

definition tree_set_pending_active_validator_exits :: "crypto \<Rightarrow> u64 \<Rightarrow> state_tree \<Rightarrow> state_tree" where
  "tree_set_pending_active_validator_exits c v = set_top c PENDING_ACTIVE_VALIDATOR_EXITS (u64_root v)"

definition tree_set_invalid_deposit_tax :: "crypto \<Rightarrow> u64 \<Rightarrow> state_tree \<Rightarrow> state_tree" where
  "tree_set_invalid_deposit_tax c v = set_top c INVALID_DEPOSIT_TAX (u64_root v)"

definition tree_set_max_pending_withdrawals_per_validator :: "crypto \<Rightarrow> u64 \<Rightarrow> state_tree \<Rightarrow> state_tree" where
  "tree_set_max_pending_withdrawals_per_validator c v =
     set_top c MAX_PENDING_WITHDRAWALS_PER_VALIDATOR (u64_root v)"

definition tree_set_max_validator_count :: "crypto \<Rightarrow> u64 \<Rightarrow> state_tree \<Rightarrow> state_tree" where
  "tree_set_max_validator_count c v = set_top c MAX_VALIDATOR_COUNT (u64_root v)"

definition tree_set_treasury_address :: "crypto \<Rightarrow> address \<Rightarrow> state_tree \<Rightarrow> state_tree" where
  "tree_set_treasury_address c a = set_top c TREASURY_ADDRESS (address_root a)"

definition tree_set_next_withdrawal_index :: "crypto \<Rightarrow> u64 \<Rightarrow> state_tree \<Rightarrow> state_tree" where
  "tree_set_next_withdrawal_index c index = set_top c NEXT_WITHDRAWAL_INDEX (u64_root index)"

definition tree_set_forkchoice_head_block_hash :: "crypto \<Rightarrow> bytes32 \<Rightarrow> state_tree \<Rightarrow> state_tree" where
  "tree_set_forkchoice_head_block_hash c hash = set_top c FORKCHOICE_HEAD_BLOCK_HASH hash"

definition tree_set_forkchoice_safe_block_hash :: "crypto \<Rightarrow> bytes32 \<Rightarrow> state_tree \<Rightarrow> state_tree" where
  "tree_set_forkchoice_safe_block_hash c hash = set_top c FORKCHOICE_SAFE_BLOCK_HASH hash"

definition tree_set_forkchoice_finalized_block_hash :: "crypto \<Rightarrow> bytes32 \<Rightarrow> state_tree \<Rightarrow> state_tree" where
  "tree_set_forkchoice_finalized_block_hash c hash = set_top c FORKCHOICE_FINALIZED_BLOCK_HASH hash"

lemmas scalar_setter_defs =
  tree_set_epoch_def tree_set_view_def tree_set_latest_height_def tree_set_head_digest_def
  tree_set_epoch_genesis_hash_def tree_set_validator_minimum_stake_def
  tree_set_allowed_timestamp_future_ms_def tree_set_max_deposits_per_epoch_def
  tree_set_max_withdrawals_per_epoch_def tree_set_observers_per_validator_def
  tree_set_pending_checkpoint_digest_def tree_set_dynamic_epoch_schedule_def
  tree_set_minimum_validator_count_def tree_set_pending_active_validator_exits_def
  tree_set_invalid_deposit_tax_def tree_set_max_pending_withdrawals_per_validator_def
  tree_set_max_validator_count_def tree_set_treasury_address_def
  tree_set_next_withdrawal_index_def tree_set_forkchoice_head_block_hash_def
  tree_set_forkchoice_safe_block_hash_def tree_set_forkchoice_finalized_block_hash_def

section \<open>Collections\<close>

text \<open>\<open>tree.set_leaf(base + field, value)\<close> for each of an item's fields in turn; and the loop
  \<open>for (i, item) in items.iter().enumerate()\<close> of the rebuild functions, over a fresh tree.\<close>

definition set_fields :: "crypto \<Rightarrow> nat \<Rightarrow> (nat \<times> bytes32) list \<Rightarrow> ssz_tree \<Rightarrow> ssz_tree" where
  "set_fields c base fs t = fold (\<lambda>(field, v). set_leaf c (base + field) v) fs t"

definition set_fields_no_rehash :: "nat \<Rightarrow> (nat \<times> bytes32) list \<Rightarrow> ssz_tree \<Rightarrow> ssz_tree" where
  "set_fields_no_rehash base fs t = fold (\<lambda>(field, v). set_leaf_no_rehash (base + field) v) fs t"

definition build_items :: "crypto \<Rightarrow> nat \<Rightarrow> (nat \<Rightarrow> 'a \<Rightarrow> ssz_tree \<Rightarrow> ssz_tree) \<Rightarrow> 'a list \<Rightarrow> ssz_tree" where
  "build_items c per_item set_item items =
     fold (\<lambda>(i, x). set_item i x) (enumerate 0 items) (ssz_new c (max (length items * per_item) 1))"

subsection \<open>Validators\<close>

definition validator_fields :: "crypto \<Rightarrow> node_key \<Rightarrow> validator_account \<Rightarrow> (nat \<times> bytes32) list" where
  "validator_fields c node_pubkey account =
     [(6, node_pubkey),
      (0, bls_key_root c (va_consensus_public_key account)),
      (1, address_root (va_withdrawal_credentials account)),
      (2, u64_root (va_balance account)),
      (3, status_root (va_status account)),
      (4, u64_root (va_joining_epoch account)),
      (5, u64_root (va_last_deposit_index account))]"

definition set_validator_fields ::
  "crypto \<Rightarrow> nat \<Rightarrow> node_key \<times> validator_account \<Rightarrow> ssz_tree \<Rightarrow> ssz_tree" where
  "set_validator_fields c slot e =
     set_fields c (slot * VALIDATOR_FIELDS_PER_ACCOUNT) (validator_fields c (fst e) (snd e))"

definition set_validator_fields_no_rehash ::
  "crypto \<Rightarrow> nat \<Rightarrow> node_key \<times> validator_account \<Rightarrow> ssz_tree \<Rightarrow> ssz_tree" where
  "set_validator_fields_no_rehash c slot e =
     set_fields_no_rehash (slot * VALIDATOR_FIELDS_PER_ACCOUNT) (validator_fields c (fst e) (snd e))"

definition update_validator_collection_root :: "crypto \<Rightarrow> state_tree \<Rightarrow> state_tree" where
  "update_validator_collection_root c t =
     set_top c VALIDATOR_ACCOUNTS_ROOT
       (mix_in_length c (ssz_root (validator_tree t)) (validator_count t)) t"

definition rebuild_validators ::
  "crypto \<Rightarrow> (node_key, validator_account) btree \<Rightarrow> state_tree \<Rightarrow> state_tree" where
  "rebuild_validators c accounts t =
     update_validator_collection_root c
       (t\<lparr>validator_tree := build_items c VALIDATOR_FIELDS_PER_ACCOUNT (set_validator_fields c) accounts,
          validator_count := length accounts\<rparr>)"

definition update_validator_at_slot ::
  "crypto \<Rightarrow> nat \<Rightarrow> node_key \<Rightarrow> validator_account \<Rightarrow> state_tree \<Rightarrow> state_tree" where
  "update_validator_at_slot c slot node_pubkey account t =
     update_validator_collection_root c
       (t\<lparr>validator_tree := set_validator_fields c slot (node_pubkey, account) (validator_tree t)\<rparr>)"

text \<open>The levels above the per-item subtrees, from the parent of the given slot on.\<close>

definition rehash_above :: "crypto \<Rightarrow> nat \<Rightarrow> nat \<Rightarrow> ssz_tree \<Rightarrow> ssz_tree" where
  "rehash_above c per_item slot t =
     (let subtree_root_level = capacity t div per_item;
          affected_node = subtree_root_level + slot
      in rehash_from_position c (subtree_root_level div 2) (affected_node div 2) t)"

definition insert_validator_at_slot ::
  "crypto \<Rightarrow> nat \<Rightarrow> node_key \<Rightarrow> validator_account \<Rightarrow> state_tree \<Rightarrow> state_tree" where
  "insert_validator_at_slot c slot node_pubkey account t =
     (let new_count = validator_count t + 1;
          needed = new_count * VALIDATOR_FIELDS_PER_ACCOUNT;
          to_shift = validator_count t - slot;
          t1 = grow c needed (validator_tree t);
          t2 = shift_blocks_right slot to_shift VALIDATOR_FIELDS_PER_ACCOUNT t1;
          t3 = set_validator_fields_no_rehash c slot (node_pubkey, account) t2;
          t4 = rehash_block c slot VALIDATOR_FIELDS_PER_ACCOUNT t3;
          t5 = rehash_above c VALIDATOR_FIELDS_PER_ACCOUNT slot t4
      in update_validator_collection_root c
           (t\<lparr>validator_tree := t5, validator_count := new_count\<rparr>))"

text \<open>\<open>None\<close> is the failed assertion on the slot.\<close>

definition remove_validator_at_slot :: "crypto \<Rightarrow> nat \<Rightarrow> state_tree \<Rightarrow> state_tree option" where
  "remove_validator_at_slot c slot t =
     (if \<not> slot < validator_count t then None
      else Some (
        let to_shift = validator_count t - slot - 1;
            t1 = shift_blocks_left slot to_shift VALIDATOR_FIELDS_PER_ACCOUNT (validator_tree t);
            t2 = (if to_shift = 0
                  then rehash_block c slot VALIDATOR_FIELDS_PER_ACCOUNT
                         (fold (\<lambda>i. set_leaf_no_rehash (slot * VALIDATOR_FIELDS_PER_ACCOUNT + i) 0)
                            [0 ..< VALIDATOR_FIELDS_PER_ACCOUNT] t1)
                  else rehash_block c (validator_count t - 1) VALIDATOR_FIELDS_PER_ACCOUNT t1);
            count = validator_count t - 1;
            needed = max (count * VALIDATOR_FIELDS_PER_ACCOUNT) 1;
            t3 = (if next_power_of_two needed < capacity t2 then shrink c needed t2
                  else rehash_above c VALIDATOR_FIELDS_PER_ACCOUNT slot t2)
        in update_validator_collection_root c
             (t\<lparr>validator_tree := t3, validator_count := count\<rparr>)))"

definition get_validator_index :: "node_key list \<Rightarrow> node_key \<Rightarrow> nat option" where
  "get_validator_index keys pubkey = position (\<lambda>k. k = pubkey) keys"

subsection \<open>Deposits\<close>

definition deposit_fields :: "crypto \<Rightarrow> deposit_request \<Rightarrow> (nat \<times> bytes32) list" where
  "deposit_fields c d =
     [(0, node_key_root (dr_node_pubkey d)),
      (1, bls_key_root c (dr_consensus_pubkey d)),
      (2, dr_withdrawal_credentials d),
      (3, u64_root (dr_amount d)),
      (4, hash_fixed_bytes_64 c (dr_node_signature d)),
      (5, hash_fixed_bytes_96 c (dr_consensus_signature d)),
      (6, u64_root (dr_index d))]"

definition set_deposit_fields :: "crypto \<Rightarrow> nat \<Rightarrow> deposit_request \<Rightarrow> ssz_tree \<Rightarrow> ssz_tree" where
  "set_deposit_fields c slot d = set_fields c (slot * DEPOSIT_FIELDS_PER_ITEM) (deposit_fields c d)"

definition update_deposit_collection_root :: "crypto \<Rightarrow> state_tree \<Rightarrow> state_tree" where
  "update_deposit_collection_root c t =
     set_top c DEPOSIT_QUEUE_ROOT (mix_in_length c (ssz_root (deposit_tree t)) (deposit_count t)) t"

definition rebuild_deposits :: "crypto \<Rightarrow> deposit_request list \<Rightarrow> state_tree \<Rightarrow> state_tree" where
  "rebuild_deposits c deposits t =
     update_deposit_collection_root c
       (t\<lparr>deposit_tree := build_items c DEPOSIT_FIELDS_PER_ITEM (set_deposit_fields c) deposits,
          deposit_count := length deposits\<rparr>)"

definition tree_push_deposit :: "crypto \<Rightarrow> deposit_request \<Rightarrow> state_tree \<Rightarrow> state_tree" where
  "tree_push_deposit c d t =
     (let slot = deposit_count t;
          needed = (slot + 1) * DEPOSIT_FIELDS_PER_ITEM
      in update_deposit_collection_root c
           (t\<lparr>deposit_tree := set_deposit_fields c slot d (grow c needed (deposit_tree t)),
              deposit_count := deposit_count t + 1\<rparr>))"

definition tree_pop_deposit :: "crypto \<Rightarrow> deposit_request list \<Rightarrow> state_tree \<Rightarrow> state_tree" where
  "tree_pop_deposit c deposits = rebuild_deposits c deposits"

subsection \<open>Withdrawals\<close>

definition withdrawal_fields :: "pending_withdrawal \<Rightarrow> (nat \<times> bytes32) list" where
  "withdrawal_fields w =
     [(0, u64_root (w_index (pw_inner w))),
      (1, u64_root (w_validator_index (pw_inner w))),
      (2, address_root (w_address (pw_inner w))),
      (3, u64_root (w_amount (pw_inner w))),
      (4, pw_pubkey w),
      (5, u64_root (pw_epoch w)),
      (6, kind_root (pw_kind w))]"

definition set_withdrawal_fields :: "crypto \<Rightarrow> nat \<Rightarrow> pending_withdrawal \<Rightarrow> ssz_tree \<Rightarrow> ssz_tree" where
  "set_withdrawal_fields c slot w = set_fields c (slot * WITHDRAWAL_FIELDS_PER_ITEM) (withdrawal_fields w)"

definition update_withdrawal_collection_root :: "crypto \<Rightarrow> state_tree \<Rightarrow> state_tree" where
  "update_withdrawal_collection_root c t =
     set_top c WITHDRAWAL_QUEUE_ROOT
       (mix_in_length c (ssz_root (withdrawal_tree t)) (withdrawal_count t)) t"

text \<open>\<open>entry(pubkey).or_insert(slot)\<close>: the first slot of a key stays.\<close>

definition or_insert :: "'k \<Rightarrow> 'v \<Rightarrow> ('k \<rightharpoonup> 'v) \<Rightarrow> ('k \<rightharpoonup> 'v)" where
  "or_insert k v m = (if m k = None then m(k \<mapsto> v) else m)"

definition pubkey_slots :: "pending_withdrawal list \<Rightarrow> (node_key \<rightharpoonup> nat)" where
  "pubkey_slots ws = fold (\<lambda>(slot, w). or_insert (pw_pubkey w) slot) (enumerate 0 ws) Map.empty"

definition rebuild_withdrawals :: "crypto \<Rightarrow> withdrawal_queue \<Rightarrow> state_tree \<Rightarrow> state_tree" where
  "rebuild_withdrawals c queue t =
     update_withdrawal_collection_root c
       (t\<lparr>withdrawal_tree :=
            build_items c WITHDRAWAL_FIELDS_PER_ITEM (set_withdrawal_fields c) (iter_all queue),
          withdrawal_count := wq_len queue,
          withdrawal_pubkey_index := pubkey_slots (iter_all queue)\<rparr>)"

definition tree_push_withdrawal :: "crypto \<Rightarrow> pending_withdrawal \<Rightarrow> state_tree \<Rightarrow> state_tree" where
  "tree_push_withdrawal c w t =
     (let slot = withdrawal_count t;
          needed = (slot + 1) * WITHDRAWAL_FIELDS_PER_ITEM
      in update_withdrawal_collection_root c
           (t\<lparr>withdrawal_tree := set_withdrawal_fields c slot w (grow c needed (withdrawal_tree t)),
              withdrawal_count := withdrawal_count t + 1,
              withdrawal_pubkey_index := or_insert (pw_pubkey w) slot (withdrawal_pubkey_index t)\<rparr>))"

subsection \<open>Parameters, added and removed validators, deferred requests\<close>

definition protocol_param_leaves :: "protocol_param \<Rightarrow> (nat \<times> bytes32) list" where
  "protocol_param_leaves p = (let (tag, value_hash) = param_fields p in [(0, u64_root tag), (1, value_hash)])"

definition set_protocol_param_fields :: "crypto \<Rightarrow> nat \<Rightarrow> protocol_param \<Rightarrow> ssz_tree \<Rightarrow> ssz_tree" where
  "set_protocol_param_fields c slot p =
     set_fields c (slot * PROTOCOL_PARAM_FIELDS_PER_ITEM) (protocol_param_leaves p)"

definition update_protocol_param_collection_root :: "crypto \<Rightarrow> state_tree \<Rightarrow> state_tree" where
  "update_protocol_param_collection_root c t =
     set_top c PROTOCOL_PARAM_CHANGES_ROOT
       (mix_in_length c (ssz_root (protocol_param_tree t)) (protocol_param_count t)) t"

definition rebuild_protocol_params :: "crypto \<Rightarrow> protocol_param list \<Rightarrow> state_tree \<Rightarrow> state_tree" where
  "rebuild_protocol_params c params t =
     update_protocol_param_collection_root c
       (t\<lparr>protocol_param_tree :=
            build_items c PROTOCOL_PARAM_FIELDS_PER_ITEM (set_protocol_param_fields c) params,
          protocol_param_count := length params\<rparr>)"

definition added_validator_fields :: "crypto \<Rightarrow> u64 \<times> added_validator \<Rightarrow> (nat \<times> bytes32) list" where
  "added_validator_fields c e =
     [(0, node_key_root (av_node_key (snd e))),
      (1, bls_key_root c (av_consensus_key (snd e))),
      (2, u64_root (fst e))]"

definition set_added_validator_fields ::
  "crypto \<Rightarrow> nat \<Rightarrow> u64 \<times> added_validator \<Rightarrow> ssz_tree \<Rightarrow> ssz_tree" where
  "set_added_validator_fields c slot e =
     set_fields c (slot * ADDED_VALIDATOR_FIELDS_PER_ITEM) (added_validator_fields c e)"

definition update_added_validator_collection_root :: "crypto \<Rightarrow> state_tree \<Rightarrow> state_tree" where
  "update_added_validator_collection_root c t =
     set_top c ADDED_VALIDATORS_ROOT
       (mix_in_length c (ssz_root (added_validator_tree t)) (added_validator_count t)) t"

definition flatten_added :: "(u64, added_validator list) btree \<Rightarrow> (u64 \<times> added_validator) list" where
  "flatten_added m = concat (map (\<lambda>(epoch, avs). map (\<lambda>av. (epoch, av)) avs) m)"

definition rebuild_added_validators ::
  "crypto \<Rightarrow> (u64, added_validator list) btree \<Rightarrow> state_tree \<Rightarrow> state_tree" where
  "rebuild_added_validators c validators t =
     (let items = flatten_added validators
      in update_added_validator_collection_root c
           (t\<lparr>added_validator_tree :=
                build_items c ADDED_VALIDATOR_FIELDS_PER_ITEM (set_added_validator_fields c) items,
              added_validator_count := length items\<rparr>))"

definition update_removed_validator_collection_root :: "crypto \<Rightarrow> state_tree \<Rightarrow> state_tree" where
  "update_removed_validator_collection_root c t =
     set_top c REMOVED_VALIDATORS_ROOT
       (mix_in_length c (ssz_root (removed_validator_tree t)) (removed_validator_count t)) t"

definition rebuild_removed_validators :: "crypto \<Rightarrow> node_key list \<Rightarrow> state_tree \<Rightarrow> state_tree" where
  "rebuild_removed_validators c validators t =
     update_removed_validator_collection_root c
       (t\<lparr>removed_validator_tree := build_items c 1 (\<lambda>i v. set_leaf c i (node_key_root v)) validators,
          removed_validator_count := length validators\<rparr>)"

definition update_pending_execution_request_collection_root :: "crypto \<Rightarrow> state_tree \<Rightarrow> state_tree" where
  "update_pending_execution_request_collection_root c t =
     set_top c PENDING_EXECUTION_REQUESTS_ROOT
       (mix_in_length c (ssz_root (pending_execution_request_tree t))
          (pending_execution_request_count t)) t"

definition rebuild_pending_execution_requests :: "crypto \<Rightarrow> u8 list list \<Rightarrow> state_tree \<Rightarrow> state_tree" where
  "rebuild_pending_execution_requests c requests t =
     update_pending_execution_request_collection_root c
       (t\<lparr>pending_execution_request_tree :=
            build_items c 1 (\<lambda>i req. set_leaf c i (hash_byte_list c req)) requests,
          pending_execution_request_count := length requests\<rparr>)"

section \<open>Rebuilding from scratch\<close>

text \<open>The arguments of \<open>rebuild\<close>.\<close>

record contents =
  ct_epoch :: u64
  ct_view :: u64
  ct_latest_height :: u64
  ct_head_digest :: bytes32
  ct_epoch_genesis_hash :: bytes32
  ct_validator_minimum_stake :: u64
  ct_allowed_timestamp_future_ms :: u64
  ct_next_withdrawal_index :: u64
  ct_forkchoice_head :: bytes32
  ct_forkchoice_safe :: bytes32
  ct_forkchoice_finalized :: bytes32
  ct_validator_accounts :: "(node_key, validator_account) btree"
  ct_deposit_queue :: "deposit_request list"
  ct_withdrawal_queue :: withdrawal_queue
  ct_protocol_param_changes :: "protocol_param list"
  ct_added_validators :: "(u64, added_validator list) btree"
  ct_removed_validators :: "node_key list"
  ct_treasury_address :: address
  ct_max_deposits_per_epoch :: u64
  ct_max_withdrawals_per_epoch :: u64
  ct_observers_per_validator :: u32
  ct_max_validator_count :: u64
  ct_pending_execution_requests :: "u8 list list"
  ct_pending_checkpoint_digest :: "bytes32 option"
  ct_dynamic_epoch_schedule :: "u8 list"
  ct_minimum_validator_count :: u64
  ct_pending_active_validator_exits :: u64
  ct_invalid_deposit_tax :: u64
  ct_max_pending_withdrawals_per_validator :: u64

definition rebuild :: "crypto \<Rightarrow> contents \<Rightarrow> state_tree" where
  "rebuild c v =
     fold (\<lambda>f t. f t)
       [tree_set_epoch c (ct_epoch v),
        tree_set_view c (ct_view v),
        tree_set_latest_height c (ct_latest_height v),
        tree_set_head_digest c (ct_head_digest v),
        tree_set_epoch_genesis_hash c (ct_epoch_genesis_hash v),
        tree_set_validator_minimum_stake c (ct_validator_minimum_stake v),
        tree_set_allowed_timestamp_future_ms c (ct_allowed_timestamp_future_ms v),
        tree_set_next_withdrawal_index c (ct_next_withdrawal_index v),
        tree_set_forkchoice_head_block_hash c (ct_forkchoice_head v),
        tree_set_forkchoice_safe_block_hash c (ct_forkchoice_safe v),
        tree_set_forkchoice_finalized_block_hash c (ct_forkchoice_finalized v),
        tree_set_treasury_address c (ct_treasury_address v),
        tree_set_max_deposits_per_epoch c (ct_max_deposits_per_epoch v),
        tree_set_max_withdrawals_per_epoch c (ct_max_withdrawals_per_epoch v),
        tree_set_observers_per_validator c (ct_observers_per_validator v),
        tree_set_max_validator_count c (ct_max_validator_count v),
        tree_set_minimum_validator_count c (ct_minimum_validator_count v),
        tree_set_pending_active_validator_exits c (ct_pending_active_validator_exits v),
        tree_set_invalid_deposit_tax c (ct_invalid_deposit_tax v),
        tree_set_max_pending_withdrawals_per_validator c (ct_max_pending_withdrawals_per_validator v),
        rebuild_validators c (ct_validator_accounts v),
        rebuild_deposits c (ct_deposit_queue v),
        rebuild_withdrawals c (ct_withdrawal_queue v),
        rebuild_protocol_params c (ct_protocol_param_changes v),
        rebuild_added_validators c (ct_added_validators v),
        rebuild_removed_validators c (ct_removed_validators v),
        rebuild_pending_execution_requests c (ct_pending_execution_requests v),
        tree_set_pending_checkpoint_digest c (ct_pending_checkpoint_digest v),
        tree_set_dynamic_epoch_schedule c (ct_dynamic_epoch_schedule v)]
       (state_tree_new c)"

section \<open>Proofs\<close>

record ssz_proof =
  sp_gindex :: u64
  sp_leaf :: bytes32
  sp_branch :: "bytes32 list"

definition ssz_proof_verify :: "crypto \<Rightarrow> ssz_proof \<Rightarrow> bytes32 \<Rightarrow> bool" where
  "ssz_proof_verify c p root = verify_proof_gindex c root (sp_gindex p) (sp_leaf p) (sp_branch p)"

text \<open>\<open>x << n\<close> on \<open>u64\<close>: the shift amount is taken modulo the width.\<close>

definition shl64 :: "u64 \<Rightarrow> nat \<Rightarrow> u64" where
  "shl64 x n = push_bit (n mod 64) x"

definition top_gindex :: "state_tree \<Rightarrow> nat \<Rightarrow> u64" where
  "top_gindex t top_leaf_index = shl64 1 (depth (st_top t)) + word_of_nat top_leaf_index"

definition compose_collection_gindex :: "state_tree \<Rightarrow> nat \<Rightarrow> ssz_tree \<Rightarrow> nat \<Rightarrow> u64" where
  "compose_collection_gindex t top_leaf_index subtree item_index =
     shl64 (top_gindex t top_leaf_index) (depth subtree + 1) OR word_of_nat item_index"

definition length_chunk :: "nat \<Rightarrow> bytes32" where
  "length_chunk n = from_be_bytes (to_le_bytes (word_of_nat n :: u64) @ replicate 24 0)"

definition build_collection_branch :: "state_tree \<Rightarrow> nat \<Rightarrow> ssz_tree \<Rightarrow> nat \<Rightarrow> nat \<Rightarrow> bytes32 list" where
  "build_collection_branch t top_leaf_index subtree item_index collection_length =
     generate_proof subtree item_index @ [length_chunk collection_length]
       @ generate_proof (st_top t) top_leaf_index"

definition generate_scalar_proof :: "state_tree \<Rightarrow> nat \<Rightarrow> ssz_proof" where
  "generate_scalar_proof t leaf_index =
     \<lparr>sp_gindex = top_gindex t leaf_index, sp_leaf = get_leaf (st_top t) leaf_index,
      sp_branch = generate_proof (st_top t) leaf_index\<rparr>"

text \<open>A proof of one leaf of a collection, and the proof of a whole item, whose leaf is the root
  of the item's subtree. The five item proofs of the source differ in the collection, in the
  number of leaves per item, and in whether the shift is written with the number of leaves per
  item (\<open>sd - log_block + 1\<close>) or with its value (\<open>sd - 2\<close> for 8 leaves, \<open>sd\<close> for 2).\<close>

definition leaf_proof :: "state_tree \<Rightarrow> nat \<Rightarrow> ssz_tree \<Rightarrow> nat \<Rightarrow> nat \<Rightarrow> ssz_proof" where
  "leaf_proof t top_leaf_index subtree leaf_index collection_length =
     \<lparr>sp_gindex = compose_collection_gindex t top_leaf_index subtree leaf_index,
      sp_leaf = get_leaf subtree leaf_index,
      sp_branch = build_collection_branch t top_leaf_index subtree leaf_index collection_length\<rparr>"

definition item_proof :: "state_tree \<Rightarrow> nat \<Rightarrow> ssz_tree \<Rightarrow> nat \<Rightarrow> nat \<Rightarrow> nat \<Rightarrow> nat \<Rightarrow> ssz_proof" where
  "item_proof t top_leaf_index subtree per_item shift slot collection_length =
     (let node_index = capacity subtree div per_item + slot
      in \<lparr>sp_gindex = shl64 (top_gindex t top_leaf_index) shift OR word_of_nat slot,
          sp_leaf = get_node subtree node_index,
          sp_branch = generate_proof_from_node subtree node_index @ [length_chunk collection_length]
            @ generate_proof (st_top t) top_leaf_index\<rparr>)"

definition validator_account_proof :: "state_tree \<Rightarrow> nat \<Rightarrow> ssz_proof" where
  "validator_account_proof t slot =
     item_proof t VALIDATOR_ACCOUNTS_ROOT (validator_tree t) VALIDATOR_FIELDS_PER_ACCOUNT
       (depth (validator_tree t) - ilog2 VALIDATOR_FIELDS_PER_ACCOUNT + 1) slot (validator_count t)"

definition generate_validator_proof :: "state_tree \<Rightarrow> node_key \<Rightarrow> node_key list \<Rightarrow> ssz_proof option" where
  "generate_validator_proof t pubkey keys =
     map_option (validator_account_proof t) (get_validator_index keys pubkey)"

text \<open>The outer \<open>None\<close> is the failed assertion on the field index.\<close>

definition generate_validator_field_proof ::
  "state_tree \<Rightarrow> node_key \<Rightarrow> nat \<Rightarrow> node_key list \<Rightarrow> ssz_proof option option" where
  "generate_validator_field_proof t pubkey field_index keys =
     (if \<not> field_index < VALIDATOR_FIELDS_PER_ACCOUNT then None
      else Some (map_option
        (\<lambda>slot. leaf_proof t VALIDATOR_ACCOUNTS_ROOT (validator_tree t)
                  (slot * VALIDATOR_FIELDS_PER_ACCOUNT + field_index) (validator_count t))
        (get_validator_index keys pubkey)))"

record keyed_field_proof =
  kf_field :: ssz_proof
  kf_key :: ssz_proof

definition generate_validator_keyed_field_proof ::
  "state_tree \<Rightarrow> node_key \<Rightarrow> nat \<Rightarrow> node_key list \<Rightarrow> keyed_field_proof option option" where
  "generate_validator_keyed_field_proof t pubkey field_index keys =
     (case generate_validator_field_proof t pubkey field_index keys of
        None \<Rightarrow> None
      | Some None \<Rightarrow> Some None
      | Some (Some field) \<Rightarrow>
          (case generate_validator_field_proof t pubkey VALIDATOR_FIELD_NODE_PUBKEY keys of
             None \<Rightarrow> None
           | Some None \<Rightarrow> Some None
           | Some (Some key) \<Rightarrow> Some (Some \<lparr>kf_field = field, kf_key = key\<rparr>)))"

definition deposit_item_proof :: "state_tree \<Rightarrow> nat \<Rightarrow> ssz_proof" where
  "deposit_item_proof t slot =
     item_proof t DEPOSIT_QUEUE_ROOT (deposit_tree t) DEPOSIT_FIELDS_PER_ITEM
       (depth (deposit_tree t) - 2) slot (deposit_count t)"

definition generate_deposit_proof :: "state_tree \<Rightarrow> nat \<Rightarrow> ssz_proof option" where
  "generate_deposit_proof t index =
     (if deposit_count t \<le> index then None else Some (deposit_item_proof t index))"

definition generate_deposit_field_proof :: "state_tree \<Rightarrow> nat \<Rightarrow> nat \<Rightarrow> ssz_proof option" where
  "generate_deposit_field_proof t index field_index =
     (if deposit_count t \<le> index \<or> DEPOSIT_FIELDS_PER_ITEM \<le> field_index then None
      else Some (leaf_proof t DEPOSIT_QUEUE_ROOT (deposit_tree t)
                   (index * DEPOSIT_FIELDS_PER_ITEM + field_index) (deposit_count t)))"

definition withdrawal_item_proof :: "state_tree \<Rightarrow> nat \<Rightarrow> ssz_proof" where
  "withdrawal_item_proof t slot =
     item_proof t WITHDRAWAL_QUEUE_ROOT (withdrawal_tree t) WITHDRAWAL_FIELDS_PER_ITEM
       (depth (withdrawal_tree t) - 2) slot (withdrawal_count t)"

definition generate_withdrawal_proof :: "state_tree \<Rightarrow> nat \<Rightarrow> ssz_proof option" where
  "generate_withdrawal_proof t index =
     (if withdrawal_count t \<le> index then None else Some (withdrawal_item_proof t index))"

definition generate_withdrawal_field_proof :: "state_tree \<Rightarrow> nat \<Rightarrow> nat \<Rightarrow> ssz_proof option" where
  "generate_withdrawal_field_proof t index field_index =
     (if withdrawal_count t \<le> index \<or> WITHDRAWAL_FIELDS_PER_ITEM \<le> field_index then None
      else Some (leaf_proof t WITHDRAWAL_QUEUE_ROOT (withdrawal_tree t)
                   (index * WITHDRAWAL_FIELDS_PER_ITEM + field_index) (withdrawal_count t)))"

definition generate_withdrawal_proof_by_key :: "state_tree \<Rightarrow> node_key \<Rightarrow> ssz_proof option" where
  "generate_withdrawal_proof_by_key t pubkey =
     Option.bind (withdrawal_pubkey_index t pubkey) (generate_withdrawal_proof t)"

definition generate_withdrawal_field_proof_by_key :: "state_tree \<Rightarrow> node_key \<Rightarrow> nat \<Rightarrow> ssz_proof option" where
  "generate_withdrawal_field_proof_by_key t pubkey field_index =
     Option.bind (withdrawal_pubkey_index t pubkey)
       (\<lambda>slot. generate_withdrawal_field_proof t slot field_index)"

definition generate_withdrawal_keyed_field_proof_by_key ::
  "state_tree \<Rightarrow> node_key \<Rightarrow> nat \<Rightarrow> keyed_field_proof option" where
  "generate_withdrawal_keyed_field_proof_by_key t pubkey field_index =
     Option.bind (withdrawal_pubkey_index t pubkey) (\<lambda>slot.
     Option.bind (generate_withdrawal_field_proof t slot field_index) (\<lambda>field.
     Option.bind (generate_withdrawal_field_proof t slot WITHDRAWAL_FIELD_PUBKEY) (\<lambda>key.
     Some \<lparr>kf_field = field, kf_key = key\<rparr>)))"

definition protocol_param_item_proof :: "state_tree \<Rightarrow> nat \<Rightarrow> ssz_proof" where
  "protocol_param_item_proof t slot =
     item_proof t PROTOCOL_PARAM_CHANGES_ROOT (protocol_param_tree t) PROTOCOL_PARAM_FIELDS_PER_ITEM
       (depth (protocol_param_tree t)) slot (protocol_param_count t)"

definition generate_protocol_param_proof :: "state_tree \<Rightarrow> nat \<Rightarrow> ssz_proof option" where
  "generate_protocol_param_proof t index =
     (if protocol_param_count t \<le> index then None else Some (protocol_param_item_proof t index))"

definition generate_protocol_param_field_proof :: "state_tree \<Rightarrow> nat \<Rightarrow> nat \<Rightarrow> ssz_proof option" where
  "generate_protocol_param_field_proof t index field_index =
     (if protocol_param_count t \<le> index \<or> PROTOCOL_PARAM_FIELDS_PER_ITEM \<le> field_index then None
      else Some (leaf_proof t PROTOCOL_PARAM_CHANGES_ROOT (protocol_param_tree t)
                   (index * PROTOCOL_PARAM_FIELDS_PER_ITEM + field_index) (protocol_param_count t)))"

definition added_validator_item_proof :: "state_tree \<Rightarrow> nat \<Rightarrow> ssz_proof" where
  "added_validator_item_proof t slot =
     item_proof t ADDED_VALIDATORS_ROOT (added_validator_tree t) ADDED_VALIDATOR_FIELDS_PER_ITEM
       (depth (added_validator_tree t) - ilog2 ADDED_VALIDATOR_FIELDS_PER_ITEM + 1) slot
       (added_validator_count t)"

definition generate_added_validator_proof :: "state_tree \<Rightarrow> nat \<Rightarrow> ssz_proof option" where
  "generate_added_validator_proof t index =
     (if added_validator_count t \<le> index then None else Some (added_validator_item_proof t index))"

definition generate_added_validator_field_proof :: "state_tree \<Rightarrow> nat \<Rightarrow> nat \<Rightarrow> ssz_proof option" where
  "generate_added_validator_field_proof t index field_index =
     (if added_validator_count t \<le> index \<or> ADDED_VALIDATOR_FIELDS_PER_ITEM \<le> field_index then None
      else Some (leaf_proof t ADDED_VALIDATORS_ROOT (added_validator_tree t)
                   (index * ADDED_VALIDATOR_FIELDS_PER_ITEM + field_index) (added_validator_count t)))"

definition generate_removed_validator_proof :: "state_tree \<Rightarrow> nat \<Rightarrow> ssz_proof option" where
  "generate_removed_validator_proof t index =
     (if removed_validator_count t \<le> index then None
      else Some (leaf_proof t REMOVED_VALIDATORS_ROOT (removed_validator_tree t) index
                   (removed_validator_count t)))"

definition generate_added_validator_proof_by_key ::
  "state_tree \<Rightarrow> node_key \<Rightarrow> (u64, added_validator list) btree \<Rightarrow> ssz_proof option" where
  "generate_added_validator_proof_by_key t node_key added_validators =
     Option.bind (position (\<lambda>av. av_node_key av = node_key) (concat (map snd added_validators)))
       (generate_added_validator_proof t)"

definition generate_removed_validator_proof_by_key ::
  "state_tree \<Rightarrow> node_key \<Rightarrow> node_key list \<Rightarrow> ssz_proof option" where
  "generate_removed_validator_proof_by_key t node_key removed_validators =
     Option.bind (position (\<lambda>k. k = node_key) removed_validators) (generate_removed_validator_proof t)"

text \<open>\<open>n.is_power_of_two()\<close>.\<close>

definition is_power_of_two :: "nat \<Rightarrow> bool" where
  "is_power_of_two n \<longleftrightarrow> 0 < n \<and> next_power_of_two n = n"

definition keyed_field_proof_verify ::
  "crypto \<Rightarrow> keyed_field_proof \<Rightarrow> bytes32 \<Rightarrow> node_key \<Rightarrow> nat \<Rightarrow> nat \<Rightarrow> bool" where
  "keyed_field_proof_verify c p root expected_key fields_per_item key_field_index =
     (if \<not> is_power_of_two fields_per_item then False
      else if \<not> ssz_proof_verify c (kf_field p) root \<or> \<not> ssz_proof_verify c (kf_key p) root then False
      else if sp_leaf (kf_key p) \<noteq> expected_key then False
      else if sp_gindex (kf_key p) AND (word_of_nat fields_per_item - 1) \<noteq> word_of_nat key_field_index
           then False
      else drop_bit (ilog2 fields_per_item) (sp_gindex (kf_field p))
             = drop_bit (ilog2 fields_per_item) (sp_gindex (kf_key p)))"

end
