(* ===== verification/Ssz_Collections.thy ===== *)
theory Ssz_Collections
  imports Ssz_State_Tree
begin

text \<open>
  The subtrees of the state tree as collections of items with \<open>2 ^ b\<close> leaves each.

  \<open>collection c b fs t xs\<close> says that \<open>t\<close> is hashed, has the smallest sufficient capacity, and
  that its leaves are those of the items \<open>xs\<close>, in order, followed by zeros; it determines \<open>t\<close>.
  The locale \<open>items\<close> asks of an item's field list only that it writes fixed, distinct offsets
  within the block, and gives for every kind of item: building from scratch, appending,
  overwriting one item, inserting one by shifting the later blocks, and removing one, including
  the shrinking branch, all end in the collection of the changed list.
\<close>

section \<open>Leaves of a list of items\<close>

definition block_leaf :: "('a \<Rightarrow> (nat \<times> bytes32) list) \<Rightarrow> 'a \<Rightarrow> nat \<Rightarrow> bytes32" where
  "block_leaf fs x j = (case map_of (fs x) j of None \<Rightarrow> 0 | Some v \<Rightarrow> v)"

definition leaf_at :: "nat \<Rightarrow> ('a \<Rightarrow> (nat \<times> bytes32) list) \<Rightarrow> 'a list \<Rightarrow> nat \<Rightarrow> bytes32" where
  "leaf_at b fs xs k = (if k div 2 ^ b < length xs then block_leaf fs (xs ! (k div 2 ^ b)) (k mod 2 ^ b) else 0)"

definition filled :: "crypto \<Rightarrow> nat \<Rightarrow> ('a \<Rightarrow> (nat \<times> bytes32) list) \<Rightarrow> ssz_tree \<Rightarrow> 'a list \<Rightarrow> bool" where
  "filled c b fs t xs \<longleftrightarrow>
     hashed c t \<and> length xs * 2 ^ b \<le> capacity t \<and> (\<forall>k < capacity t. leaves t ! k = leaf_at b fs xs k)"

definition collection :: "crypto \<Rightarrow> nat \<Rightarrow> ('a \<Rightarrow> (nat \<times> bytes32) list) \<Rightarrow> ssz_tree \<Rightarrow> 'a list \<Rightarrow> bool" where
  "collection c b fs t xs \<longleftrightarrow>
     filled c b fs t xs \<and> capacity t = next_power_of_two (max (length xs * 2 ^ b) 1)"

lemma collection_unique:
  assumes "collection c b fs t xs" "collection c b fs u xs"
  shows "t = u"
proof (rule hashed_unique)
  show t: "hashed c t" and u: "hashed c u" using assms by (simp_all add: collection_def filled_def)
  show "leaves t = leaves u"
    using assms wf_tree_simps(5) [OF hashed_wf [OF t]] wf_tree_simps(5) [OF hashed_wf [OF u]]
    by (intro nth_equalityI) (simp_all add: collection_def filled_def)
qed

lemma next_power_of_two_mono: "m \<le> n \<Longrightarrow> next_power_of_two m \<le> next_power_of_two n"
  using next_power_of_two_pow [of n] next_power_of_two_ge [of n] next_power_of_two_least [of m]
  by (metis le_trans)

text \<open>Growing on demand keeps the capacity the smallest sufficient one.\<close>

lemma grown_capacity:
  assumes "m \<le> n" "1 \<le> n"
  shows "(if n \<le> next_power_of_two (max m 1) then next_power_of_two (max m 1) else next_power_of_two n)
    = next_power_of_two n"
proof -
  obtain k where k: "next_power_of_two (max m 1) = 2 ^ k" using next_power_of_two_pow by blast
  have "next_power_of_two (max m 1) \<le> next_power_of_two n"
    using assms by (intro next_power_of_two_mono) simp
  with k next_power_of_two_least [of n k] show ?thesis by auto
qed

section \<open>Writing fields\<close>

lemma nth_fold_update:
  assumes "distinct (map fst ups)" "k < length ls"
  shows "fold (\<lambda>(j, v) ls. ls[base + j := v]) ups ls ! k
    = (if base \<le> k then case map_of ups (k - base) of None \<Rightarrow> ls ! k | Some v \<Rightarrow> v else ls ! k)"
  using assms
proof (induction ups arbitrary: ls)
  case (Cons u ups)
  obtain j v where u: "u = (j, v)" by (cases u)
  have "map_of ups j = None" using Cons.prems(1) u by (simp add: map_of_eq_None_iff)
  moreover have "base + j = k \<longleftrightarrow> base \<le> k \<and> k - base = j" by auto
  ultimately show ?case using Cons.IH [of "ls[base + j := v]"] Cons.prems
    by (auto simp: u nth_list_update split: option.split)
qed simp

lemma set_fields_hashed:
  assumes "hashed c t" "\<And>j. j \<in> fst ` set fs \<Longrightarrow> base + j < capacity t"
  shows "hashed c (set_fields c base fs t)"
    "leaves (set_fields c base fs t) = fold (\<lambda>(j, v) ls. ls[base + j := v]) fs (leaves t)"
    "capacity (set_fields c base fs t) = capacity t" "depth (set_fields c base fs t) = depth t"
  using assms unfolding set_fields_def
proof (induction fs arbitrary: t)
  case (Cons f fs)
  obtain j v where f: "f = (j, v)" by (cases f)
  { case 1 then show ?case using Cons.IH(1) set_leaf_hashed [of c t "base + j" v] by (simp add: f) }
  { case 2 then show ?case using Cons.IH(2) set_leaf_hashed [of c t "base + j" v] by (simp add: f) }
  { case 3 then show ?case using Cons.IH(3) set_leaf_hashed [of c t "base + j" v] by (simp add: f) }
  { case 4 then show ?case using Cons.IH(4) set_leaf_hashed [of c t "base + j" v] by (simp add: f) }
qed simp_all

lemma set_fields_raw:
  "nodes (set_fields_no_rehash base fs t) = fold (\<lambda>(j, v) ns. ns[capacity t + base + j := v]) fs (nodes t)"
  "capacity (set_fields_no_rehash base fs t) = capacity t"
  "depth (set_fields_no_rehash base fs t) = depth t"
  unfolding set_fields_no_rehash_def
  by (induction fs arbitrary: t) (auto simp: set_leaf_no_rehash_def add.assoc split: prod.split)

text \<open>A hashed tree exists for every list of leaves.\<close>

lemma hashed_exists:
  assumes "length ls = 2 ^ d"
  shows "\<exists>u. hashed c u \<and> depth u = d \<and> capacity u = 2 ^ d \<and> leaves u = ls"
proof -
  let ?t = "\<lparr>nodes = replicate (2 ^ d) 0 @ ls, capacity = 2 ^ d, depth = d\<rparr>"
  have wf: "wf_tree ?t" using assms by (simp add: wf_tree_def nth_append)
  have "leaves ?t = ls" by (simp add: leaves_def)
  then show ?thesis
    using rehash_all_hashed [OF wf, of c] by (intro exI [of _ "rehash_from c (2 ^ d div 2) ?t"])
      (simp add: rehash_from_def)
qed

text \<open>After the shift the leaves of the vacated slot are zero.\<close>

lemma shift_right_hole:
  assumes ins: "block_inserted dep b slot count (leaves t) new" and cap: "capacity t = 2 ^ dep"
    and len: "length (nodes t) = 2 * 2 ^ dep"
  defines "t1 \<equiv> shift_blocks_right slot (count - slot) (2 ^ b) t"
  shows "in_block dep b slot 0 j \<Longrightarrow> nodes t1 ! j = 0" "length (nodes t1) = 2 * 2 ^ dep"
    "capacity t1 = 2 ^ dep" "depth t1 = depth t"
proof -
  have fits: "shift_fits dep (slot, count - slot) b" and sc: "slot \<le> count"
    and room: "(slot + 1) * 2 ^ b \<le> 2 ^ dep"
    using ins slot_room [of slot count b dep] by (simp_all add: block_inserted_def)
  show "capacity t1 = 2 ^ dep" "depth t1 = depth t"
    using cap by (simp_all add: t1_def shift_blocks_right_def)
  have n1: "nodes t1 = (if count = slot then nodes t
      else fold (shift_right_level (2 ^ dep) slot (count - slot) (2 ^ b)) [0..<Suc b] (nodes t))"
    using cap sc by (simp add: t1_def shift_blocks_right_def del: upt_Suc)
  show "length (nodes t1) = 2 * 2 ^ dep"
    using shift_right.fold_length [OF fits order_refl len] len by (simp add: n1 del: upt_Suc)
  assume j: "in_block dep b slot 0 j"
  then have lv: "on_level dep 0 j" using room by (simp add: in_block_def on_level_def)
  have "2 ^ dep \<le> j" using j unfolding in_block_def by simp
  then obtain k where k: "j = 2 ^ dep + k" using le_Suc_ex by blast
  have old: "nodes t ! j = 0" if "count = slot"
    using ins j room that by (auto simp: block_inserted_def in_block_def leaves_def k cap len)
  show "nodes t1 ! j = 0"
    using nth_shift_right_level(1) [OF fits _ len on_level_bound [OF lv], of 0]
      shift_right.fold_level [OF fits len _ lv] j old
    by (auto simp: n1 Let_def in_block_def add_mult_distrib simp del: upt_Suc)
qed

section \<open>Items of fixed layout\<close>

locale items =
  fixes c :: crypto and b :: nat and offs :: "nat list" and fs :: "'a \<Rightarrow> (nat \<times> bytes32) list"
  assumes offsets: "map fst (fs x) = offs" and distinct_offs: "distinct offs"
    and offs_bound: "j \<in> set offs \<Longrightarrow> j < 2 ^ b"
begin

lemma field_offset: "map_of (fs x) j = None \<longleftrightarrow> j \<notin> set offs"
  using offsets [of x] by (metis map_of_eq_None_iff set_map)

lemma leaf_at_split:
  assumes "j < 2 ^ b"
  shows "leaf_at b fs xs (s * 2 ^ b + j) = (if s < length xs then block_leaf fs (xs ! s) j else 0)"
  using assms by (simp add: leaf_at_def)

lemma written_leaf:
  assumes t: "hashed c t" and room: "(s + 1) * 2 ^ b \<le> capacity t"
  shows "hashed c (set_fields c (s * 2 ^ b) (fs x) t)"
    "capacity (set_fields c (s * 2 ^ b) (fs x) t) = capacity t"
    "k < capacity t \<Longrightarrow> leaves (set_fields c (s * 2 ^ b) (fs x) t) ! k
       = (if k div 2 ^ b = s \<and> k mod 2 ^ b \<in> set offs then block_leaf fs x (k mod 2 ^ b) else leaves t ! k)"
proof -
  have bound: "s * 2 ^ b + j < capacity t" if "j \<in> fst ` set (fs x)" for j
    using offs_bound [of j] that room offsets [of x] by (metis add.commute add_mult_distrib
        add_less_cancel_left less_le_trans mult_1 set_map)
  note w = set_fields_hashed [OF t, of "fs x" "s * 2 ^ b", OF bound]
  show "hashed c (set_fields c (s * 2 ^ b) (fs x) t)"
    "capacity (set_fields c (s * 2 ^ b) (fs x) t) = capacity t" using w by simp_all
  assume k: "k < capacity t"
  have dist: "distinct (map fst (fs x))" using offsets distinct_offs by simp
  have len: "k < length (leaves t)" using wf_tree_simps(5) [OF hashed_wf [OF t]] k by simp
  have eq: "leaves (set_fields c (s * 2 ^ b) (fs x) t) ! k =
      (if s * 2 ^ b \<le> k then case map_of (fs x) (k - s * 2 ^ b) of None \<Rightarrow> leaves t ! k | Some v \<Rightarrow> v
       else leaves t ! k)"
    using nth_fold_update [OF dist len, of "s * 2 ^ b"] by (simp add: w(2))
  show "leaves (set_fields c (s * 2 ^ b) (fs x) t) ! k
       = (if k div 2 ^ b = s \<and> k mod 2 ^ b \<in> set offs then block_leaf fs x (k mod 2 ^ b) else leaves t ! k)"
  proof (cases "s * 2 ^ b \<le> k")
    case True
    then obtain r where r: "k = s * 2 ^ b + r" using le_Suc_ex by blast
    have "map_of (fs x) r = None" if "\<not> r < 2 ^ b" using that offs_bound [of r] field_offset [of x r] by blast
    then show ?thesis
      using field_offset [of x r] unfolding eq
      by (cases "r < 2 ^ b") (auto simp: r div_eq_0_iff block_leaf_def split: option.split)
  next
    case False
    then have "k div 2 ^ b \<noteq> s" by (auto simp: div_times_less_eq_dividend)
    with False show ?thesis by (simp add: eq)
  qed
qed

lemma filled_write:
  assumes t: "filled c b fs t xs" and room: "(s + 1) * 2 ^ b \<le> capacity t" and ys: "length ys * 2 ^ b \<le> capacity t"
    and same: "\<And>i. i \<noteq> s \<Longrightarrow> i < length xs \<longleftrightarrow> i < length ys" "\<And>i. i \<noteq> s \<Longrightarrow> i < length xs \<Longrightarrow> ys ! i = xs ! i"
    and item: "s < length ys" "ys ! s = x"
  shows "filled c b fs (set_fields c (s * 2 ^ b) (fs x) t) ys"
    "capacity (set_fields c (s * 2 ^ b) (fs x) t) = capacity t"
proof -
  have h: "hashed c t" and l: "\<And>k. k < capacity t \<Longrightarrow> leaves t ! k = leaf_at b fs xs k"
    using t by (simp_all add: filled_def)
  note w = written_leaf [OF h room, where x = x]
  show "capacity (set_fields c (s * 2 ^ b) (fs x) t) = capacity t" by (rule w(2))
  have "leaves (set_fields c (s * 2 ^ b) (fs x) t) ! k = leaf_at b fs ys k" if k: "k < capacity t" for k
  proof (cases "k div 2 ^ b = s")
    case True
    have "block_leaf fs z (k mod 2 ^ b) = 0" if "k mod 2 ^ b \<notin> set offs" for z
      using that field_offset [of z "k mod 2 ^ b"] by (simp add: block_leaf_def)
    with True show ?thesis by (simp add: w(3) [OF k] l [OF k] leaf_at_def item)
  next
    case False
    then show ?thesis using same [OF False] by (simp add: w(3) [OF k] l [OF k] leaf_at_def)
  qed
  then show "filled c b fs (set_fields c (s * 2 ^ b) (fs x) t) ys"
    using w(1,2) ys by (simp add: filled_def)
qed

lemma filled_append:
  assumes "filled c b fs t xs" "(length xs + 1) * 2 ^ b \<le> capacity t"
  shows "filled c b fs (set_fields c (length xs * 2 ^ b) (fs x) t) (xs @ [x])"
    "capacity (set_fields c (length xs * 2 ^ b) (fs x) t) = capacity t"
  using filled_write [OF assms, of "xs @ [x]" x] assms(2) by (simp_all add: nth_append less_Suc_eq)

lemma filled_update:
  assumes t: "filled c b fs t xs" and s: "s < length xs"
  shows "filled c b fs (set_fields c (s * 2 ^ b) (fs x) t) (xs[s := x])"
    "capacity (set_fields c (s * 2 ^ b) (fs x) t) = capacity t"
proof -
  have room: "(s + 1) * 2 ^ b \<le> capacity t"
    using t s mult_le_mono1 [of "s + 1" "length xs" "2 ^ b"] by (simp add: filled_def)
  show "filled c b fs (set_fields c (s * 2 ^ b) (fs x) t) (xs[s := x])"
    "capacity (set_fields c (s * 2 ^ b) (fs x) t) = capacity t"
    using filled_write [OF t room, of "xs[s := x]" x] t s by (simp_all add: filled_def)
qed

lemma collection_update:
  "collection c b fs t xs \<Longrightarrow> s < length xs \<Longrightarrow>
     collection c b fs (set_fields c (s * 2 ^ b) (fs x) t) (xs[s := x])"
  using filled_update [of t xs s x] by (simp add: collection_def)

lemma filled_new:
  assumes "zero_hashes_ok c" "xs = []"
  shows "filled c b fs (ssz_new c n) xs"
  using ssz_new_hashed [OF assms(1), of n] assms(2) by (simp add: filled_def leaf_at_def)

lemma build_filled:
  assumes z: "zero_hashes_ok c" and n: "length ys * 2 ^ b \<le> capacity (ssz_new c n)" and ys: "ys = xs @ zs"
  shows "filled c b fs (fold (\<lambda>(i, x). set_fields c (i * 2 ^ b) (fs x)) (enumerate 0 xs) (ssz_new c n)) xs
    \<and> capacity (fold (\<lambda>(i, x). set_fields c (i * 2 ^ b) (fs x)) (enumerate 0 xs) (ssz_new c n))
        = capacity (ssz_new c n)"
  using ys
proof (induction xs arbitrary: zs rule: rev_induct)
  case Nil
  then show ?case by (simp add: filled_new [OF z])
next
  case (snoc x xs)
  let ?t = "fold (\<lambda>(i, x). set_fields c (i * 2 ^ b) (fs x)) (enumerate 0 xs) (ssz_new c n)"
  have t: "filled c b fs ?t xs" "capacity ?t = capacity (ssz_new c n)"
    using snoc.IH [of "x # zs"] snoc.prems by simp_all
  have "(length xs + 1) * 2 ^ b \<le> capacity ?t"
    using le_trans [OF mult_le_mono1 n, of "length xs + 1"] snoc.prems t(2) by simp
  from filled_append [OF t(1) this, of x] t(2) show ?case
    by (simp add: enumerate_append_eq)
qed

lemma capacity_new: "capacity (ssz_new c n) = next_power_of_two n"
  using next_power_of_two_pos [of n] by (simp add: ssz_new_def Let_def del: next_power_of_two_pos)

lemma collection_build:
  assumes "zero_hashes_ok c"
  shows "collection c b fs (build_items c (2 ^ b) (\<lambda>i x. set_fields c (i * 2 ^ b) (fs x)) xs) xs"
proof -
  let ?n = "max (length xs * 2 ^ b) 1"
  have "length xs * 2 ^ b \<le> capacity (ssz_new c ?n)"
    using next_power_of_two_ge [of ?n] by (simp add: capacity_new)
  from build_filled [OF assms this, of xs "[]"] show ?thesis
    by (simp add: collection_def build_items_def capacity_new)
qed

lemma filled_grow:
  assumes "filled c b fs t xs"
  shows "filled c b fs (grow c n t) xs"
proof -
  have t: "hashed c t" "length xs * 2 ^ b \<le> capacity t" "\<And>k. k < capacity t \<Longrightarrow> leaves t ! k = leaf_at b fs xs k"
    using assms by (simp_all add: filled_def)
  note g = grow_hashed [OF t(1), of n]
  have len: "length (leaves t) = capacity t" by (rule wf_tree_simps(5) [OF hashed_wf [OF t(1)]])
  have le: "capacity t \<le> capacity (grow c n t)"
    unfolding g(3) using next_power_of_two_ge [of n] by simp
  have "leaf_at b fs xs k = 0" if "capacity t \<le> k" for k
    using that t(2) by (simp add: leaf_at_def div_less_iff_less_mult)
  then have "leaves (grow c n t) ! k = leaf_at b fs xs k" if "k < capacity (grow c n t)" for k
    using that t(3) len by (cases "k < capacity t") (simp_all add: g(2) nth_append)
  then show ?thesis using g(1) t(2) le by (simp add: filled_def)
qed

lemma grow_capacity:
  assumes "collection c b fs t xs"
  shows "capacity (grow c ((length xs + 1) * 2 ^ b) t) = next_power_of_two ((length xs + 1) * 2 ^ b)"
proof -
  have "hashed c t" and cap: "capacity t = next_power_of_two (max (length xs * 2 ^ b) 1)"
    using assms by (simp_all add: collection_def filled_def)
  then show ?thesis
    unfolding grow_hashed(3) [OF \<open>hashed c t\<close>] cap by (intro grown_capacity) (simp_all add: Suc_le_eq)
qed

lemma collection_push:
  assumes "collection c b fs t xs"
  shows "collection c b fs
    (set_fields c (length xs * 2 ^ b) (fs x) (grow c ((length xs + 1) * 2 ^ b) t)) (xs @ [x])"
proof -
  let ?n = "(length xs + 1) * 2 ^ b"
  have f: "filled c b fs (grow c ?n t) xs"
    using assms by (intro filled_grow) (simp add: collection_def)
  have cap: "capacity (grow c ?n t) = next_power_of_two ?n" by (rule grow_capacity [OF assms])
  then have "?n \<le> capacity (grow c ?n t)" using next_power_of_two_ge [of ?n] by simp
  note a = filled_append [OF f this, of x]
  have "max (length (xs @ [x]) * 2 ^ b) 1 = ?n" by (simp add: max_absorb1 Suc_le_eq)
  then show ?thesis using a cap by (simp add: collection_def)
qed

text \<open>The hashed tree that holds a given list, as the target of the in-place edits.\<close>

lemma target:
  assumes "length ys * 2 ^ b \<le> 2 ^ d"
  shows "\<exists>u. filled c b fs u ys \<and> hashed c u \<and> depth u = d \<and> capacity u = 2 ^ d
    \<and> (\<forall>k < 2 ^ d. leaves u ! k = leaf_at b fs ys k)"
proof -
  obtain u where "hashed c u" "depth u = d" "capacity u = 2 ^ d"
    "leaves u = map (leaf_at b fs ys) [0 ..< 2 ^ d]"
    using hashed_exists [of "map (leaf_at b fs ys) [0 ..< 2 ^ d]" d c] by auto
  with assms show ?thesis by (intro exI [of _ u]) (simp add: filled_def)
qed

lemma leaf_at_shift:
  assumes "2 ^ b \<le> k"
  shows "leaf_at b fs (y # ys) k = leaf_at b fs ys (k - 2 ^ b)"
proof -
  obtain r where "k = 2 ^ b + r" using assms le_Suc_ex by blast
  then show ?thesis by (simp add: leaf_at_def div_add_self1)
qed

lemma leaf_at_append:
  "leaf_at b fs (xs @ ys) k =
     (if k < length xs * 2 ^ b then leaf_at b fs xs k else leaf_at b fs ys (k - length xs * 2 ^ b))"
proof (cases "k < length xs * 2 ^ b")
  case True
  then have "k div 2 ^ b < length xs" by (simp add: div_less_iff_less_mult)
  with True show ?thesis by (simp add: leaf_at_def nth_append)
next
  case False
  then obtain r where "k = length xs * 2 ^ b + r" using le_Suc_ex not_less by blast
  then show ?thesis by (simp add: leaf_at_def nth_append)
qed

lemma leaf_at_end: "length xs * 2 ^ b \<le> k \<Longrightarrow> leaf_at b fs xs k = 0"
  using leaf_at_append [of xs "[]" k] by (simp add: leaf_at_def)

lemma inserted_leaves:
  assumes "slot \<le> length xs" "(length xs + 1) * 2 ^ b \<le> 2 ^ d"
    and old: "\<And>k. k < 2 ^ d \<Longrightarrow> old ! k = leaf_at b fs xs k"
    and new: "\<And>k. k < 2 ^ d \<Longrightarrow> new ! k = leaf_at b fs (take slot xs @ x # drop slot xs) k"
  shows "block_inserted d b slot (length xs) old new"
proof -
  have ys: "take slot xs @ drop slot xs = xs" "length (take slot xs) = slot" using assms(1) by simp_all
  have "(2 :: nat) ^ b \<le> 2 ^ d" using assms(2) unfolding add_mult_distrib by linarith
  then have b: "b \<le> d" by (simp add: power_increasing_iff)
  have split: "leaf_at b fs xs k = (if k < slot * 2 ^ b then leaf_at b fs (take slot xs) k
      else leaf_at b fs (drop slot xs) (k - slot * 2 ^ b))" for k
    using leaf_at_append [of "take slot xs" "drop slot xs" k] ys by simp
  have bound: "k < 2 ^ d" if "k < (length xs + 1) * 2 ^ b" for k using that assms(2) by simp
  have "new ! k = old ! k" if "k < slot * 2 ^ b" for k
  proof -
    have "k < (length xs + 1) * 2 ^ b"
      using that mult_le_mono1 [OF assms(1), of "2 ^ b"] unfolding add_mult_distrib by linarith
    then show ?thesis
      using that bound [of k] leaf_at_append [of "take slot xs" "x # drop slot xs" k] ys(2) split [of k]
      by (simp add: old new)
  qed
  moreover have "new ! k = old ! (k - 2 ^ b)" if lo: "(slot + 1) * 2 ^ b \<le> k" and hi: "k < (length xs + 1) * 2 ^ b" for k
  proof -
    obtain r where r: "k = slot * 2 ^ b + 2 ^ b + r" 
      using lo le_Suc_ex [of "(slot + 1) * 2 ^ b" k] by (auto simp: add.commute)
    have "new ! k = leaf_at b fs (drop slot xs) r"
      using bound [OF hi] leaf_at_append [of "take slot xs" "x # drop slot xs" k] ys(2)
        leaf_at_shift [of "2 ^ b + r" x "drop slot xs"] by (simp add: new r)
    moreover have "old ! (k - 2 ^ b) = leaf_at b fs (drop slot xs) r"
      using bound [OF hi] split [of "k - 2 ^ b"] by (simp add: old r)
    ultimately show ?thesis by simp
  qed
  moreover have "new ! k = 0" if "(length xs + 1) * 2 ^ b \<le> k" "k < 2 ^ d" for k
    using that leaf_at_end [of "take slot xs @ x # drop slot xs" k] assms(1) by (simp add: new)
  moreover have "old ! k = 0" if "length xs * 2 ^ b \<le> k" "k < 2 ^ d" for k
    using that leaf_at_end [of xs k] by (simp add: old)
  ultimately show ?thesis using b assms(1,2) by (simp add: block_inserted_def)
qed

lemma collection_insert:
  fixes x :: 'a
  assumes col: "collection c b fs t xs" and slot: "slot \<le> length xs"
  defines "t1 \<equiv> grow c ((length xs + 1) * 2 ^ b) t"
  defines "t2 \<equiv> shift_blocks_right slot (length xs - slot) (2 ^ b) t1"
  defines "t3 \<equiv> set_fields_no_rehash (slot * 2 ^ b) (fs x) t2"
  shows "collection c b fs (rehash_above c (2 ^ b) slot (rehash_block c slot (2 ^ b) t3))
    (take slot xs @ x # drop slot xs)"
proof -
  let ?n = "(length xs + 1) * 2 ^ b" and ?ys = "take slot xs @ x # drop slot xs"
  define d where "d = depth t1"
  have f1: "filled c b fs t1 xs" unfolding t1_def using col by (intro filled_grow) (simp add: collection_def)
  have cap1: "capacity t1 = next_power_of_two ?n" unfolding t1_def by (rule grow_capacity [OF col])
  have h1: "hashed c t1" and l1: "\<And>k. k < capacity t1 \<Longrightarrow> leaves t1 ! k = leaf_at b fs xs k"
    using f1 by (simp_all add: filled_def)
  have d: "capacity t1 = 2 ^ d" "length (nodes t1) = 2 * 2 ^ d"
    using wf_tree_simps(1,2) [OF hashed_wf [OF h1]] by (simp_all add: d_def)
  have room: "?n \<le> 2 ^ d" using cap1 d next_power_of_two_ge [of ?n] by simp
  have "length ?ys * 2 ^ b \<le> 2 ^ d" using room slot by simp
  then obtain u where u: "filled c b fs u ?ys" "hashed c u" "depth u = d" "capacity u = 2 ^ d"
    "\<And>k. k < 2 ^ d \<Longrightarrow> leaves u ! k = leaf_at b fs ?ys k" using target by metis
  have ins: "block_inserted d b slot (length xs) (leaves t1) (leaves u)"
    using inserted_leaves [OF slot room] l1 d(1) u(5) by simp
  then have bd: "b \<le> d" by (simp add: block_inserted_def)
  note hole = shift_right_hole [OF ins d, folded t2_def]
  have n3: "nodes t3 ! j = (if 2 ^ d + slot * 2 ^ b \<le> j
      then case map_of (fs x) (j - (2 ^ d + slot * 2 ^ b)) of None \<Rightarrow> nodes t2 ! j | Some v \<Rightarrow> v
      else nodes t2 ! j)" if "j < 2 * 2 ^ d" for j
    using nth_fold_update [of "fs x" j "nodes t2" "2 ^ d + slot * 2 ^ b"] offsets distinct_offs hole(2,3) that
    by (simp add: t3_def set_fields_raw)
  have "length (fold (\<lambda>(j, v) ns. ns[i + j := v]) ups ns) = length ns" for i ups and ns :: "bytes32 list"
    by (induction ups arbitrary: ns) auto
  then have t3: "capacity t3 = 2 ^ d" "depth t3 = d" "length (nodes t3) = 2 * 2 ^ d"
    using hole(2,3,4) by (simp_all add: t3_def set_fields_raw d_def)
  have block: "j < 2 ^ d + (slot + 1) * 2 ^ b" "j < 2 * 2 ^ d" if "in_block d b slot 0 j" for j
    using that slot_room(1) [of slot "length xs" b d] ins by (simp_all add: in_block_def block_inserted_def)
  have "rehash_above c (2 ^ b) slot (rehash_block c slot (2 ^ b) t3) = u"
  proof -
    have "rehash_from_position c (2 ^ (d - b) div 2) ((2 ^ (d - b) + slot) div 2)
        (rehash_block c slot (2 ^ b) t3) = u"
    proof (rule insert_block [OF h1 d_def [symmetric] u(2,3) ins t3])
      fix j assume j: "j < 2 * 2 ^ d" "\<not> in_block d b slot 0 j"
      then have "map_of (fs x) (j - (2 ^ d + slot * 2 ^ b)) = None" if "2 ^ d + slot * 2 ^ b \<le> j"
        using that offs_bound [of "j - (2 ^ d + slot * 2 ^ b)"] field_offset [of x] by (auto simp: in_block_def)
      then show "nodes t3 ! j = nodes (shift_blocks_right slot (length xs - slot) (2 ^ b) t1) ! j"
        using n3 [OF j(1)] by (simp add: t2_def)
    next
      fix j assume j: "in_block d b slot 0 j"
      then obtain r where r: "j = 2 ^ d + slot * 2 ^ b + r" "r < 2 ^ b"
        using le_Suc_ex [of "2 ^ d + slot * 2 ^ b" j] by (auto simp: in_block_def)
      have "nodes u ! j = leaf_at b fs ?ys (slot * 2 ^ b + r)"
        using block(2) [OF j] u(4,5) nth_leaves [OF hashed_wf [OF u(2)], of "slot * 2 ^ b + r"]
        by (simp add: r(1) add.assoc)
      also have "\<dots> = block_leaf fs x r" using leaf_at_split [OF r(2)] slot by (simp add: nth_append)
      finally show "agree (nodes t3) u j"
        using n3 [OF block(2) [OF j]] hole(1) [OF j] unfolding agree_def block_leaf_def r(1)
        by (simp split: option.split)
    qed
    then show ?thesis
      using t3(1) bd by (simp add: rehash_above_def rehash_block_def power_diff Let_def)
  qed
  moreover have "max (length ?ys * 2 ^ b) 1 = ?n" using slot by (simp add: max_absorb1 Suc_le_eq)
  ultimately show ?thesis using u(1,4) cap1 d(1) by (simp add: collection_def)
qed

lemma removed_leaves:
  assumes "slot < length xs" "length xs * 2 ^ b \<le> 2 ^ d"
    and old: "\<And>k. k < 2 ^ d \<Longrightarrow> old ! k = leaf_at b fs xs k"
    and new: "\<And>k. k < 2 ^ d \<Longrightarrow> new ! k = leaf_at b fs (take slot xs @ drop (Suc slot) xs) k"
  shows "block_removed d b slot (length xs - 1) old new"
proof -
  define m where "m = length xs - 1"
  have m: "length xs = m + 1" "slot \<le> m" using assms(1) by (simp_all add: m_def)
  have xs: "take slot xs @ xs ! slot # drop (Suc slot) xs = xs" "length (take slot xs) = slot"
    using assms(1) by (simp_all add: id_take_nth_drop [symmetric])
  have room: "(m + 1) * 2 ^ b \<le> 2 ^ d" using assms(2) m(1) by simp
  then have "(2 :: nat) ^ b \<le> 2 ^ d" unfolding add_mult_distrib by linarith
  then have b: "b \<le> d" by (simp add: power_increasing_iff)
  have split: "leaf_at b fs xs k = (if k < slot * 2 ^ b then leaf_at b fs (take slot xs) k
      else leaf_at b fs (xs ! slot # drop (Suc slot) xs) (k - slot * 2 ^ b))" for k
    using leaf_at_append [of "take slot xs" "xs ! slot # drop (Suc slot) xs" k] xs by simp
  have bound: "k < 2 ^ d" if "k < (m + 1) * 2 ^ b" for k using that room by simp
  have le: "slot * 2 ^ b \<le> m * 2 ^ b" using m(2) by (rule mult_le_mono1)
  have "new ! k = old ! k" if "k < slot * 2 ^ b" for k
  proof -
    have "k < (m + 1) * 2 ^ b" using that le unfolding add_mult_distrib by linarith
    then show ?thesis
      using that bound [of k] leaf_at_append [of "take slot xs" "drop (Suc slot) xs" k] xs(2) split [of k]
      by (simp add: old new)
  qed
  moreover have "new ! k = old ! (k + 2 ^ b)" if lo: "slot * 2 ^ b \<le> k" and hi: "k < m * 2 ^ b" for k
  proof -
    obtain r where r: "k = slot * 2 ^ b + r" using lo le_Suc_ex [of "slot * 2 ^ b" k] by auto
    have kb: "k + 2 ^ b < (m + 1) * 2 ^ b" "k < (m + 1) * 2 ^ b" using hi by simp_all
    have "new ! k = leaf_at b fs (drop (Suc slot) xs) r"
      using bound [OF kb(2)] leaf_at_append [of "take slot xs" "drop (Suc slot) xs" k] xs(2)
      by (simp add: new r)
    moreover have "old ! (k + 2 ^ b) = leaf_at b fs (drop (Suc slot) xs) r"
      using bound [OF kb(1)] split [of "k + 2 ^ b"] leaf_at_shift [of "2 ^ b + r" "xs ! slot" "drop (Suc slot) xs"]
      by (simp add: old r add.commute add.left_commute)
    ultimately show ?thesis by simp
  qed
  moreover have "new ! k = 0" if "m * 2 ^ b \<le> k" "k < 2 ^ d" for k
    using that leaf_at_end [of "take slot xs @ drop (Suc slot) xs" k] m by (simp add: new min_def)
  moreover have "old ! k = 0" if "(m + 1) * 2 ^ b \<le> k" "k < 2 ^ d" for k
    using that leaf_at_end [of xs k] m(1) by (simp add: old)
  ultimately show ?thesis using b m(2) room unfolding block_removed_def m_def [symmetric] by simp
qed

lemma zero_block:
  fixes t :: ssz_tree and base n :: nat
  assumes "length (nodes t) = 2 * 2 ^ d" "capacity t = 2 ^ d"
  defines "t' \<equiv> fold (\<lambda>i. set_leaf_no_rehash (base + i) 0) [0 ..< n] t"
  shows "capacity t' = 2 ^ d" "depth t' = depth t" "length (nodes t') = 2 * 2 ^ d"
    "j < 2 * 2 ^ d \<Longrightarrow> nodes t' ! j = (if 2 ^ d + base \<le> j \<and> j < 2 ^ d + base + n then 0 else nodes t ! j)"
  using assms(1,2) unfolding t'_def
proof (induction n)
  case (Suc n)
  { case 4
    with Suc show ?case
      by (cases "j = 2 ^ d + (base + n)") (auto simp: set_leaf_no_rehash_def nth_list_update)
  }
qed (auto simp: set_leaf_no_rehash_def)

lemma collection_remove:
  assumes col: "collection c b fs t xs" and slot: "slot < length xs"
  defines "t1 \<equiv> shift_blocks_left slot (length xs - slot - 1) (2 ^ b) t"
  defines "t2 \<equiv> (if length xs - slot - 1 = 0
      then rehash_block c slot (2 ^ b) (fold (\<lambda>i. set_leaf_no_rehash (slot * 2 ^ b + i) 0) [0 ..< 2 ^ b] t1)
      else rehash_block c (length xs - 1) (2 ^ b) t1)"
  defines "n \<equiv> max ((length xs - 1) * 2 ^ b) 1"
  shows "collection c b fs
    (if next_power_of_two n < capacity t2 then shrink c n t2 else rehash_above c (2 ^ b) slot t2)
    (take slot xs @ drop (Suc slot) xs)"
proof -
  let ?ys = "take slot xs @ drop (Suc slot) xs"
  define m where "m = length xs - 1"
  define d where "d = depth t"
  have m: "length xs = m + 1" "slot \<le> m" "length xs - slot - 1 = m - slot" "length ?ys = m"
    using slot by (simp_all add: m_def)
  have h: "hashed c t" and l: "\<And>k. k < capacity t \<Longrightarrow> leaves t ! k = leaf_at b fs xs k"
    and cap: "capacity t = next_power_of_two (max (length xs * 2 ^ b) 1)"
    and fit: "length xs * 2 ^ b \<le> capacity t"
    using col by (simp_all add: collection_def filled_def)
  have d: "capacity t = 2 ^ d" "length (nodes t) = 2 * 2 ^ d"
    using wf_tree_simps(1,2) [OF hashed_wf [OF h]] by (simp_all add: d_def)
  have fit': "m * 2 ^ b \<le> 2 ^ d" 
    using le_trans [OF mult_le_mono1 fit, of m] m(1) d(1) by simp
  then have "length ?ys * 2 ^ b \<le> 2 ^ d" unfolding m(4) .
  then obtain u where u: "filled c b fs u ?ys" "hashed c u" "depth u = d" "capacity u = 2 ^ d"
    "\<And>k. k < 2 ^ d \<Longrightarrow> leaves u ! k = leaf_at b fs ?ys k" using target by metis
  have rem: "block_removed d b slot m (leaves t) (leaves u)"
    unfolding m_def using removed_leaves [OF slot] fit l d(1) u(5) by simp
  then have bd: "b \<le> d" by (simp add: block_removed_def)
  define t' where "t' = (if slot = m then fold (\<lambda>i. set_leaf_no_rehash (slot * 2 ^ b + i) 0) [0 ..< 2 ^ b] t1 else t1)"
  have t2: "t2 = rehash_block c m (2 ^ b) t'"
    using m by (auto simp: t2_def t'_def)
  have t1: "t1 = shift_blocks_left slot (m - slot) (2 ^ b) t" by (simp only: t1_def m(3))
  note form = shift_left_form [OF rem d, folded t1]
  have c1: "capacity t1 = 2 ^ d" "depth t1 = d" using d(1) by (simp_all add: t1 shift_blocks_left_def d_def)
  note z = zero_block [OF form(4) c1(1), where base = "slot * 2 ^ b" and n = "2 ^ b"]
  have t': "capacity t' = 2 ^ d" "depth t' = d" "length (nodes t') = 2 * 2 ^ d"
    using z(1-3) form(4) c1 by (auto simp: t'_def)
  have same: "nodes t' ! j = nodes (shift_blocks_left slot (m - slot) (2 ^ b) t) ! j"
    if "j < 2 * 2 ^ d" "\<not> in_block d b m 0 j" for j
    using z(4) [OF that(1)] that(2) by (auto simp: t'_def t1 in_block_def)
  have zero: "nodes t' ! j = 0" if "in_block d b m 0 j" for j
  proof -
    have "j < 2 * 2 ^ d" using that rem by (simp add: in_block_def block_removed_def)
    from z(4) [OF this] form(3) [of j] that m(2) show ?thesis by (auto simp: t'_def in_block_def)
  qed
  note fin = remove_block [OF h d_def [symmetric] u(2,3) rem t' same zero, folded t2]
  have t2c: "capacity t2 = 2 ^ d" "depth t2 = d" "length (nodes t2) = 2 * 2 ^ d"
    using t' by (simp_all add: t2)
  have nn: "n = max (length ?ys * 2 ^ b) 1" unfolding m(4) n_def m_def ..
  show ?thesis
  proof (cases "next_power_of_two n < capacity t2")
    case True
    have wf: "wf_tree t2" using t2c fin(3) by (simp add: wf_tree_def)
    have n: "max n 1 = n" by (simp add: n_def)
    note s = shrink_hashed [OF wf, of c n, unfolded n]
    have "length ?ys * 2 ^ b \<le> next_power_of_two n"
      unfolding m(4) using next_power_of_two_ge [of n] by (simp add: n_def m_def)
    moreover have "leaves (shrink c n t2) ! k = leaf_at b fs ?ys k" if "k < next_power_of_two n" for k
      using that s(2,3) fin(2) u(5) True t2c(1) by simp
    ultimately have "filled c b fs (shrink c n t2) ?ys" using s True by (simp add: filled_def)
    with s(3) True show ?thesis unfolding collection_def nn [symmetric] by simp
  next
    case False
    have "rehash_above c (2 ^ b) slot t2 = u"
      using fin(1) t2c(1) bd by (simp add: rehash_above_def power_diff Let_def)
    moreover have "next_power_of_two n \<le> capacity t"
      unfolding cap n_def by (rule next_power_of_two_mono) (simp add: m)
    ultimately show ?thesis
      using u(1,4) False t2c(1) d(1) unfolding collection_def nn [symmetric] by simp
  qed
qed

end

end
