(* ===== verification/Ssz_Sync.thy ===== *)
theory Ssz_Sync
  imports Ssz_Collections
begin

text \<open>
  The state tree as a function of the state. \<open>in_sync c v t\<close> says that every subtree of \<open>t\<close> is
  the collection of the corresponding contents of \<open>v\<close>, that counts and the withdrawal key index
  agree, and that the top tree is hashed with the fixed 32 leaves. It determines \<open>t\<close>; rebuilding
  from scratch establishes it, and every incremental operation of \<open>ssz_state_tree.rs\<close> moves it
  to the changed contents. So an incrementally maintained tree is the rebuilt one.
\<close>

section \<open>The collections\<close>

abbreviation entry_fields :: "crypto \<Rightarrow> node_key \<times> validator_account \<Rightarrow> (nat \<times> bytes32) list" where
  "entry_fields c e \<equiv> validator_fields c (fst e) (snd e)"

definition key_leaf :: "node_key \<Rightarrow> (nat \<times> bytes32) list" where
  "key_leaf k = [(0, node_key_root k)]"

definition request_leaf :: "crypto \<Rightarrow> u8 list \<Rightarrow> (nat \<times> bytes32) list" where
  "request_leaf c req = [(0, hash_byte_list c req)]"

interpretation validators: items c 3 "[6, 0, 1, 2, 3, 4, 5]" "entry_fields c" for c
  by standard (auto simp: validator_fields_def)

interpretation deposits: items c 3 "[0, 1, 2, 3, 4, 5, 6]" "deposit_fields c" for c
  by standard (auto simp: deposit_fields_def)

interpretation withdrawals: items c 3 "[0, 1, 2, 3, 4, 5, 6]" withdrawal_fields for c
  by standard (auto simp: withdrawal_fields_def)

interpretation params: items c 1 "[0, 1]" protocol_param_leaves for c
  by standard (auto simp: protocol_param_leaves_def split: prod.split)

interpretation added: items c 2 "[0, 1, 2]" "added_validator_fields c" for c
  by standard (auto simp: added_validator_fields_def)

interpretation removed: items c 0 "[0]" key_leaf for c
  by standard (auto simp: key_leaf_def)

interpretation requests: items c 0 "[0]" "request_leaf c" for c
  by standard (auto simp: request_leaf_def)

text \<open>The field writers of the source, in the form the locale speaks of.\<close>

lemma writers:
  "set_validator_fields c = (\<lambda>i e. set_fields c (i * 2 ^ 3) (entry_fields c e))"
  "set_deposit_fields c = (\<lambda>i d. set_fields c (i * 2 ^ 3) (deposit_fields c d))"
  "set_withdrawal_fields c = (\<lambda>i w. set_fields c (i * 2 ^ 3) (withdrawal_fields w))"
  "set_protocol_param_fields c = (\<lambda>i p. set_fields c (i * 2 ^ 1) (protocol_param_leaves p))"
  "set_added_validator_fields c = (\<lambda>i e. set_fields c (i * 2 ^ 2) (added_validator_fields c e))"
  "(\<lambda>i v. set_leaf c i (node_key_root v)) = (\<lambda>i v. set_fields c (i * 2 ^ 0) (key_leaf v))"
  "(\<lambda>i req. set_leaf c i (hash_byte_list c req)) = (\<lambda>i req. set_fields c (i * 2 ^ 0) (request_leaf c req))"
  by (intro ext; simp add: set_validator_fields_def set_deposit_fields_def set_withdrawal_fields_def
      set_protocol_param_fields_def set_added_validator_fields_def per_item_defs key_leaf_def
      request_leaf_def set_fields_def)+

section \<open>The state tree of given contents\<close>

definition trees_in_sync :: "crypto \<Rightarrow> contents \<Rightarrow> state_tree \<Rightarrow> bool" where
  "trees_in_sync c v t \<longleftrightarrow>
     collection c 3 (entry_fields c) (validator_tree t) (ct_validator_accounts v)
   \<and> validator_count t = length (ct_validator_accounts v)
   \<and> collection c 3 (deposit_fields c) (deposit_tree t) (ct_deposit_queue v)
   \<and> deposit_count t = length (ct_deposit_queue v)
   \<and> collection c 3 withdrawal_fields (withdrawal_tree t) (iter_all (ct_withdrawal_queue v))
   \<and> withdrawal_count t = length (iter_all (ct_withdrawal_queue v))
   \<and> withdrawal_pubkey_index t = pubkey_slots (iter_all (ct_withdrawal_queue v))
   \<and> collection c 1 protocol_param_leaves (protocol_param_tree t) (ct_protocol_param_changes v)
   \<and> protocol_param_count t = length (ct_protocol_param_changes v)
   \<and> collection c 2 (added_validator_fields c) (added_validator_tree t) (flatten_added (ct_added_validators v))
   \<and> added_validator_count t = length (flatten_added (ct_added_validators v))
   \<and> collection c 0 key_leaf (removed_validator_tree t) (ct_removed_validators v)
   \<and> removed_validator_count t = length (ct_removed_validators v)
   \<and> collection c 0 (request_leaf c) (pending_execution_request_tree t) (ct_pending_execution_requests v)
   \<and> pending_execution_request_count t = length (ct_pending_execution_requests v)"

definition top_leaves :: "crypto \<Rightarrow> contents \<Rightarrow> state_tree \<Rightarrow> bytes32 list" where
  "top_leaves c v t =
     [u64_root (ct_epoch v), u64_root (ct_view v), u64_root (ct_latest_height v), ct_head_digest v,
      ct_epoch_genesis_hash v, u64_root (ct_validator_minimum_stake v),
      u64_root (ct_next_withdrawal_index v), ct_forkchoice_head v, ct_forkchoice_safe v,
      ct_forkchoice_finalized v, u64_root (ct_allowed_timestamp_future_ms v),
      mix_in_length c (ssz_root (validator_tree t)) (validator_count t),
      mix_in_length c (ssz_root (deposit_tree t)) (deposit_count t),
      mix_in_length c (ssz_root (withdrawal_tree t)) (withdrawal_count t),
      mix_in_length c (ssz_root (protocol_param_tree t)) (protocol_param_count t),
      mix_in_length c (ssz_root (added_validator_tree t)) (added_validator_count t),
      mix_in_length c (ssz_root (removed_validator_tree t)) (removed_validator_count t),
      address_root (ct_treasury_address v), u64_root (ct_max_deposits_per_epoch v),
      u64_root (ct_max_withdrawals_per_epoch v), u32_root (ct_observers_per_validator v),
      mix_in_length c (ssz_root (pending_execution_request_tree t)) (pending_execution_request_count t),
      (case ct_pending_checkpoint_digest v of None \<Rightarrow> 0 | Some d \<Rightarrow> d),
      hash_byte_list c (ct_dynamic_epoch_schedule v), u64_root (ct_minimum_validator_count v),
      u64_root (ct_pending_active_validator_exits v), u64_root (ct_invalid_deposit_tax v),
      u64_root (ct_max_pending_withdrawals_per_validator v), u64_root (ct_max_validator_count v),
      0, 0, 0]"

definition in_sync :: "crypto \<Rightarrow> contents \<Rightarrow> state_tree \<Rightarrow> bool" where
  "in_sync c v t \<longleftrightarrow> trees_in_sync c v t \<and> hashed c (st_top t) \<and> leaves (st_top t) = top_leaves c v t"

lemma in_sync_unique:
  assumes "in_sync c v t" "in_sync c v u"
  shows "t = u"
proof -
  have t: "trees_in_sync c v t" and u: "trees_in_sync c v u" using assms by (simp_all add: in_sync_def)
  note eqs = t [unfolded trees_in_sync_def] u [unfolded trees_in_sync_def]
  have sub: "validator_tree t = validator_tree u" "deposit_tree t = deposit_tree u"
    "withdrawal_tree t = withdrawal_tree u" "protocol_param_tree t = protocol_param_tree u"
    "added_validator_tree t = added_validator_tree u"
    "removed_validator_tree t = removed_validator_tree u"
    "pending_execution_request_tree t = pending_execution_request_tree u"
    using eqs by (blast intro: collection_unique)+
  have "top_leaves c v t = top_leaves c v u" using sub eqs by (simp add: top_leaves_def)
  then have "st_top t = st_top u"
    using assms by (intro hashed_unique [of c]) (simp_all add: in_sync_def)
  with sub eqs show ?thesis by (cases t; cases u) simp
qed

lemma list_update_numeral [simp]:
  "(x # xs)[numeral n := v] = x # xs[pred_numeral n := v]"
  by (simp add: numeral_eq_Suc)

lemma set_top_in_sync:
  assumes "in_sync c v t" "st_top t' = st_top t" "trees_in_sync c v' t'"
    "top_leaves c v' t' = (top_leaves c v t)[i := x]" "i < 32"
  shows "in_sync c v' (set_top c i x t')"
proof -
  have top: "hashed c (st_top t)" "leaves (st_top t) = top_leaves c v t"
    using assms(1) by (simp_all add: in_sync_def)
  have "length (top_leaves c v t) = 32" by (simp add: top_leaves_def)
  then have "i < capacity (st_top t)"
    using wf_tree_simps(5) [OF hashed_wf [OF top(1)]] top(2) assms(5) by simp
  note s = set_leaf_hashed [OF top(1) this, of x]
  have "trees_in_sync c v' (set_top c i x t')" using assms(3) by (simp add: trees_in_sync_def set_top_def)
  moreover have "top_leaves c v' (set_top c i x t') = top_leaves c v' t'"
    by (simp add: top_leaves_def set_top_def)
  ultimately show ?thesis using s assms(2,4) top(2) by (simp add: in_sync_def set_top_def)
qed

section \<open>Scalar fields\<close>

lemma scalar_in_sync:
  assumes "in_sync c v t"
    "\<And>t. trees_in_sync c (f v) t = trees_in_sync c v t"
    "top_leaves c (f v) t = (top_leaves c v t)[i := x]" "i < 32"
  shows "in_sync c (f v) (set_top c i x t)"
  using assms by (intro set_top_in_sync [OF assms(1)]) (simp_all add: in_sync_def)

lemma scalar_setters_in_sync:
  assumes "in_sync c v t"
  shows "in_sync c (v\<lparr>ct_epoch := e\<rparr>) (tree_set_epoch c e t)"
    "in_sync c (v\<lparr>ct_view := e\<rparr>) (tree_set_view c e t)"
    "in_sync c (v\<lparr>ct_latest_height := e\<rparr>) (tree_set_latest_height c e t)"
    "in_sync c (v\<lparr>ct_head_digest := d\<rparr>) (tree_set_head_digest c d t)"
    "in_sync c (v\<lparr>ct_epoch_genesis_hash := d\<rparr>) (tree_set_epoch_genesis_hash c d t)"
    "in_sync c (v\<lparr>ct_validator_minimum_stake := e\<rparr>) (tree_set_validator_minimum_stake c e t)"
    "in_sync c (v\<lparr>ct_allowed_timestamp_future_ms := e\<rparr>) (tree_set_allowed_timestamp_future_ms c e t)"
    "in_sync c (v\<lparr>ct_next_withdrawal_index := e\<rparr>) (tree_set_next_withdrawal_index c e t)"
    "in_sync c (v\<lparr>ct_forkchoice_head := d\<rparr>) (tree_set_forkchoice_head_block_hash c d t)"
    "in_sync c (v\<lparr>ct_forkchoice_safe := d\<rparr>) (tree_set_forkchoice_safe_block_hash c d t)"
    "in_sync c (v\<lparr>ct_forkchoice_finalized := d\<rparr>) (tree_set_forkchoice_finalized_block_hash c d t)"
    "in_sync c (v\<lparr>ct_treasury_address := a\<rparr>) (tree_set_treasury_address c a t)"
    "in_sync c (v\<lparr>ct_max_deposits_per_epoch := e\<rparr>) (tree_set_max_deposits_per_epoch c e t)"
    "in_sync c (v\<lparr>ct_max_withdrawals_per_epoch := e\<rparr>) (tree_set_max_withdrawals_per_epoch c e t)"
    "in_sync c (v\<lparr>ct_observers_per_validator := n\<rparr>) (tree_set_observers_per_validator c n t)"
    "in_sync c (v\<lparr>ct_max_validator_count := e\<rparr>) (tree_set_max_validator_count c e t)"
    "in_sync c (v\<lparr>ct_pending_checkpoint_digest := od\<rparr>) (tree_set_pending_checkpoint_digest c od t)"
    "in_sync c (v\<lparr>ct_dynamic_epoch_schedule := bs\<rparr>) (tree_set_dynamic_epoch_schedule c bs t)"
    "in_sync c (v\<lparr>ct_minimum_validator_count := e\<rparr>) (tree_set_minimum_validator_count c e t)"
    "in_sync c (v\<lparr>ct_pending_active_validator_exits := e\<rparr>) (tree_set_pending_active_validator_exits c e t)"
    "in_sync c (v\<lparr>ct_invalid_deposit_tax := e\<rparr>) (tree_set_invalid_deposit_tax c e t)"
    "in_sync c (v\<lparr>ct_max_pending_withdrawals_per_validator := e\<rparr>)
       (tree_set_max_pending_withdrawals_per_validator c e t)"
  unfolding scalar_setter_defs top_index_defs
  by (rule scalar_in_sync [OF assms]; simp add: trees_in_sync_def top_leaves_def)+

section \<open>Collections rebuilt from scratch\<close>

lemma rebuilt_trees:
  assumes "zero_hashes_ok c"
  shows "collection c 3 (entry_fields c)
      (build_items c VALIDATOR_FIELDS_PER_ACCOUNT (set_validator_fields c) accounts) accounts"
    "collection c 3 (deposit_fields c) (build_items c DEPOSIT_FIELDS_PER_ITEM (set_deposit_fields c) ds) ds"
    "collection c 3 withdrawal_fields
      (build_items c WITHDRAWAL_FIELDS_PER_ITEM (set_withdrawal_fields c) ws) ws"
    "collection c 1 protocol_param_leaves
      (build_items c PROTOCOL_PARAM_FIELDS_PER_ITEM (set_protocol_param_fields c) ps) ps"
    "collection c 2 (added_validator_fields c)
      (build_items c ADDED_VALIDATOR_FIELDS_PER_ITEM (set_added_validator_fields c) avs) avs"
    "collection c 0 key_leaf (build_items c 1 (\<lambda>i v. set_leaf c i (node_key_root v)) ks) ks"
    "collection c 0 (request_leaf c)
      (build_items c 1 (\<lambda>i req. set_leaf c i (hash_byte_list c req)) reqs) reqs"
  unfolding writers per_item_defs
  using validators.collection_build [OF assms, of accounts] deposits.collection_build [OF assms, of ds]
    withdrawals.collection_build [OF assms, of ws] params.collection_build [OF assms, of ps]
    added.collection_build [OF assms, of avs] removed.collection_build [OF assms, of ks]
    requests.collection_build [OF assms, of reqs]
  by simp_all

lemmas rebuild_defs =
  rebuild_validators_def update_validator_collection_root_def
  rebuild_deposits_def update_deposit_collection_root_def
  rebuild_withdrawals_def update_withdrawal_collection_root_def
  rebuild_protocol_params_def update_protocol_param_collection_root_def
  rebuild_added_validators_def update_added_validator_collection_root_def
  rebuild_removed_validators_def update_removed_validator_collection_root_def
  rebuild_pending_execution_requests_def update_pending_execution_request_collection_root_def

lemma rebuilds_in_sync:
  assumes z: "zero_hashes_ok c" and t: "in_sync c v t"
  shows "in_sync c (v\<lparr>ct_validator_accounts := accounts\<rparr>) (rebuild_validators c accounts t)"
    "in_sync c (v\<lparr>ct_deposit_queue := ds\<rparr>) (rebuild_deposits c ds t)"
    "in_sync c (v\<lparr>ct_withdrawal_queue := q\<rparr>) (rebuild_withdrawals c q t)"
    "in_sync c (v\<lparr>ct_protocol_param_changes := ps\<rparr>) (rebuild_protocol_params c ps t)"
    "in_sync c (v\<lparr>ct_added_validators := avs\<rparr>) (rebuild_added_validators c avs t)"
    "in_sync c (v\<lparr>ct_removed_validators := ks\<rparr>) (rebuild_removed_validators c ks t)"
    "in_sync c (v\<lparr>ct_pending_execution_requests := reqs\<rparr>) (rebuild_pending_execution_requests c reqs t)"
proof -
  have s: "trees_in_sync c v t" using t by (simp add: in_sync_def)
  note built = rebuilt_trees [OF z]
  show "in_sync c (v\<lparr>ct_validator_accounts := accounts\<rparr>) (rebuild_validators c accounts t)"
    "in_sync c (v\<lparr>ct_deposit_queue := ds\<rparr>) (rebuild_deposits c ds t)"
    "in_sync c (v\<lparr>ct_withdrawal_queue := q\<rparr>) (rebuild_withdrawals c q t)"
    "in_sync c (v\<lparr>ct_protocol_param_changes := ps\<rparr>) (rebuild_protocol_params c ps t)"
    "in_sync c (v\<lparr>ct_added_validators := avs\<rparr>) (rebuild_added_validators c avs t)"
    "in_sync c (v\<lparr>ct_removed_validators := ks\<rparr>) (rebuild_removed_validators c ks t)"
    "in_sync c (v\<lparr>ct_pending_execution_requests := reqs\<rparr>) (rebuild_pending_execution_requests c reqs t)"
    unfolding rebuild_defs Let_def top_index_defs
    by (rule set_top_in_sync [OF t]; use s in \<open>simp add: trees_in_sync_def top_leaves_def built
        built [unfolded One_nat_def] wq_len_def iter_all_def\<close>)+
qed

section \<open>Incremental changes\<close>

lemma pushes_in_sync:
  assumes t: "in_sync c v t"
  shows "in_sync c (v\<lparr>ct_deposit_queue := ct_deposit_queue v @ [d]\<rparr>) (tree_push_deposit c d t)"
    "iter_all q = iter_all (ct_withdrawal_queue v) @ [w] \<Longrightarrow>
       in_sync c (v\<lparr>ct_withdrawal_queue := q\<rparr>) (tree_push_withdrawal c w t)"
proof -
  have s: "trees_in_sync c v t" using t by (simp add: in_sync_def)
  have "collection c 3 (deposit_fields c) (deposit_tree t) (ct_deposit_queue v)"
    "collection c 3 withdrawal_fields (withdrawal_tree t) (iter_all (ct_withdrawal_queue v))"
    using s by (simp_all add: trees_in_sync_def)
  note push = deposits.collection_push [OF this(1), of d] withdrawals.collection_push [OF this(2), of w]
  show "in_sync c (v\<lparr>ct_deposit_queue := ct_deposit_queue v @ [d]\<rparr>) (tree_push_deposit c d t)"
    unfolding tree_push_deposit_def update_deposit_collection_root_def Let_def top_index_defs
    by (rule set_top_in_sync [OF t]; use s push(1) in \<open>simp add: trees_in_sync_def top_leaves_def
        writers per_item_defs\<close>)
  assume q: "iter_all q = iter_all (ct_withdrawal_queue v) @ [w]"
  have slots: "pubkey_slots (ws @ [w]) = or_insert (pw_pubkey w) (length ws) (pubkey_slots ws)" for ws
    by (simp add: pubkey_slots_def enumerate_append_eq)
  show "in_sync c (v\<lparr>ct_withdrawal_queue := q\<rparr>) (tree_push_withdrawal c w t)"
    unfolding tree_push_withdrawal_def update_withdrawal_collection_root_def Let_def top_index_defs
    by (rule set_top_in_sync [OF t]; use s push(2) in \<open>simp add: trees_in_sync_def top_leaves_def
        writers per_item_defs q slots\<close>)
qed

text \<open>Slots are positions in the ordered map, as \<open>set_account\<close> and \<open>remove_account\<close> compute them.\<close>

lemma update_validator_in_sync:
  assumes t: "in_sync c v t" and slot: "slot < length (ct_validator_accounts v)"
  shows "in_sync c (v\<lparr>ct_validator_accounts := (ct_validator_accounts v)[slot := (k, a)]\<rparr>)
    (update_validator_at_slot c slot k a t)"
proof -
  have s: "trees_in_sync c v t" using t by (simp add: in_sync_def)
  then have "collection c 3 (entry_fields c) (validator_tree t) (ct_validator_accounts v)"
    by (simp add: trees_in_sync_def)
  note upd = validators.collection_update [OF this slot, of "(k, a)"]
  show ?thesis
    unfolding update_validator_at_slot_def update_validator_collection_root_def top_index_defs
    by (rule set_top_in_sync [OF t]; use s upd in \<open>simp add: trees_in_sync_def top_leaves_def writers\<close>)
qed

lemma insert_validator_in_sync:
  assumes t: "in_sync c v t" and slot: "slot \<le> length (ct_validator_accounts v)"
  shows "in_sync c (v\<lparr>ct_validator_accounts :=
      take slot (ct_validator_accounts v) @ (k, a) # drop slot (ct_validator_accounts v)\<rparr>)
    (insert_validator_at_slot c slot k a t)"
proof -
  have s: "trees_in_sync c v t" using t by (simp add: in_sync_def)
  then have "collection c 3 (entry_fields c) (validator_tree t) (ct_validator_accounts v)"
    and n: "validator_count t = length (ct_validator_accounts v)"
    by (simp_all add: trees_in_sync_def)
  note ins = validators.collection_insert [OF this(1) slot, of "(k, a)"]
  have p: "VALIDATOR_FIELDS_PER_ACCOUNT = 2 ^ 3" by (simp add: per_item_defs)
  show ?thesis
    unfolding insert_validator_at_slot_def update_validator_collection_root_def Let_def top_index_defs
      set_validator_fields_no_rehash_def p n fst_conv snd_conv
    by (rule set_top_in_sync [OF t]; use s ins slot in \<open>simp add: trees_in_sync_def top_leaves_def n\<close>)
qed

lemma remove_validator_in_sync:
  assumes t: "in_sync c v t" and slot: "slot < length (ct_validator_accounts v)"
  shows "\<exists>t'. remove_validator_at_slot c slot t = Some t' \<and>
    in_sync c (v\<lparr>ct_validator_accounts :=
      take slot (ct_validator_accounts v) @ drop (Suc slot) (ct_validator_accounts v)\<rparr>) t'"
proof -
  have s: "trees_in_sync c v t" using t by (simp add: in_sync_def)
  then have "collection c 3 (entry_fields c) (validator_tree t) (ct_validator_accounts v)"
    and n: "validator_count t = length (ct_validator_accounts v)"
    by (simp_all add: trees_in_sync_def)
  note rem = validators.collection_remove [OF this(1) slot]
  have p: "VALIDATOR_FIELDS_PER_ACCOUNT = 2 ^ 3" by (simp add: per_item_defs)
  have ok: "(\<not> slot < length (ct_validator_accounts v)) = False" using slot by simp
  have "in_sync c (v\<lparr>ct_validator_accounts :=
      take slot (ct_validator_accounts v) @ drop (Suc slot) (ct_validator_accounts v)\<rparr>)
    (the (remove_validator_at_slot c slot t))"
    unfolding remove_validator_at_slot_def update_validator_collection_root_def Let_def top_index_defs
      p n ok if_False option.sel
    by (rule set_top_in_sync [OF t]; use s rem slot in \<open>simp add: trees_in_sync_def top_leaves_def n\<close>)
  moreover have "remove_validator_at_slot c slot t \<noteq> None"
    by (simp add: remove_validator_at_slot_def n slot)
  ultimately show ?thesis by auto
qed

section \<open>The whole tree\<close>

lemma rebuild_top:
  "st_top (rebuild c v) = set_fields c 0
     [(0, u64_root (ct_epoch v)), (1, u64_root (ct_view v)), (2, u64_root (ct_latest_height v)),
      (3, ct_head_digest v), (4, ct_epoch_genesis_hash v), (5, u64_root (ct_validator_minimum_stake v)),
      (10, u64_root (ct_allowed_timestamp_future_ms v)), (6, u64_root (ct_next_withdrawal_index v)),
      (7, ct_forkchoice_head v), (8, ct_forkchoice_safe v), (9, ct_forkchoice_finalized v),
      (17, address_root (ct_treasury_address v)), (18, u64_root (ct_max_deposits_per_epoch v)),
      (19, u64_root (ct_max_withdrawals_per_epoch v)), (20, u32_root (ct_observers_per_validator v)),
      (28, u64_root (ct_max_validator_count v)), (24, u64_root (ct_minimum_validator_count v)),
      (25, u64_root (ct_pending_active_validator_exits v)), (26, u64_root (ct_invalid_deposit_tax v)),
      (27, u64_root (ct_max_pending_withdrawals_per_validator v)),
      (11, mix_in_length c (ssz_root (validator_tree (rebuild c v))) (validator_count (rebuild c v))),
      (12, mix_in_length c (ssz_root (deposit_tree (rebuild c v))) (deposit_count (rebuild c v))),
      (13, mix_in_length c (ssz_root (withdrawal_tree (rebuild c v))) (withdrawal_count (rebuild c v))),
      (14, mix_in_length c (ssz_root (protocol_param_tree (rebuild c v))) (protocol_param_count (rebuild c v))),
      (15, mix_in_length c (ssz_root (added_validator_tree (rebuild c v))) (added_validator_count (rebuild c v))),
      (16, mix_in_length c (ssz_root (removed_validator_tree (rebuild c v))) (removed_validator_count (rebuild c v))),
      (21, mix_in_length c (ssz_root (pending_execution_request_tree (rebuild c v)))
             (pending_execution_request_count (rebuild c v))),
      (22, case ct_pending_checkpoint_digest v of None \<Rightarrow> 0 | Some d \<Rightarrow> d),
      (23, hash_byte_list c (ct_dynamic_epoch_schedule v))] (ssz_new c NUM_TOP_LEAVES)"
  unfolding set_fields_def
  by (simp add: rebuild_def scalar_setter_defs rebuild_defs set_top_def top_index_defs
      state_tree_new_def Let_def)

lemma capacity_top: "capacity (ssz_new c NUM_TOP_LEAVES) = 32"
proof -
  have "next_power_of_two 29 = 32" by (simp add: next_power_of_two.simps)
  then show ?thesis by (simp add: NUM_TOP_LEAVES_def validators.capacity_new)
qed

lemma rebuild_in_sync:
  assumes z: "zero_hashes_ok c"
  shows "in_sync c v (rebuild c v)"
proof -
  note built = rebuilt_trees [OF z]
  have trees: "trees_in_sync c v (rebuild c v)"
    by (simp add: trees_in_sync_def rebuild_def scalar_setter_defs rebuild_defs set_top_def
        state_tree_new_def Let_def built built [unfolded One_nat_def] wq_len_def iter_all_def)
  note new = ssz_new_hashed [OF z, of NUM_TOP_LEAVES]
  have zeros: "replicate 32 (0 :: bytes32) = [0, 0, 0, 0, 0, 0, 0, 0, 0, 0, 0, 0, 0, 0, 0, 0,
      0, 0, 0, 0, 0, 0, 0, 0, 0, 0, 0, 0, 0, 0, 0, 0]" by (simp add: eval_nat_numeral)
  have "hashed c (st_top (rebuild c v))"
    unfolding rebuild_top by (rule set_fields_hashed(1) [OF new(1)]) (auto simp: capacity_top)
  moreover have "leaves (st_top (rebuild c v)) = top_leaves c v (rebuild c v)"
    unfolding rebuild_top
    by (subst set_fields_hashed(2) [OF new(1)]) (auto simp: capacity_top new(2) zeros top_leaves_def)
  ultimately show ?thesis using trees by (simp add: in_sync_def)
qed

text \<open>A small state for closed instances.\<close>

definition demo_account :: validator_account where
  "demo_account = \<lparr>va_consensus_public_key = 7, va_withdrawal_credentials = 8, va_balance = 32,
     va_status = Active, va_joining_epoch = 0, va_last_deposit_index = 1\<rparr>"

definition demo_contents :: contents where
  "demo_contents =
     \<lparr>ct_epoch = 1, ct_view = 2, ct_latest_height = 3, ct_head_digest = 4, ct_epoch_genesis_hash = 5,
      ct_validator_minimum_stake = 32, ct_allowed_timestamp_future_ms = 1000,
      ct_next_withdrawal_index = 2, ct_forkchoice_head = 6, ct_forkchoice_safe = 7,
      ct_forkchoice_finalized = 8, ct_validator_accounts = [(5, demo_account), (9, demo_account)],
      ct_deposit_queue =
        [\<lparr>dr_node_pubkey = 5, dr_consensus_pubkey = 7, dr_withdrawal_credentials = 8, dr_amount = 3,
          dr_node_signature = 1, dr_consensus_signature = 1, dr_index = 2\<rparr>],
      ct_withdrawal_queue =
        \<lparr>wq_withdrawals =
           [\<lparr>pw_inner = \<lparr>w_index = 0, w_validator_index = 0, w_address = 3, w_amount = 4\<rparr>,
             pw_pubkey = 5, pw_epoch = 2, pw_kind = Validator\<rparr>],
         wq_refunds = [], wq_next_index = 1, wq_pending_per_pubkey = [5 \<mapsto> 1]\<rparr>,
      ct_protocol_param_changes = [MinimumStake 40], ct_added_validators = [],
      ct_removed_validators = [11], ct_treasury_address = 1, ct_max_deposits_per_epoch = 4,
      ct_max_withdrawals_per_epoch = 4, ct_observers_per_validator = 2, ct_max_validator_count = 10,
      ct_pending_execution_requests = [[1, 2]], ct_pending_checkpoint_digest = None,
      ct_dynamic_epoch_schedule = [], ct_minimum_validator_count = 1,
      ct_pending_active_validator_exits = 0, ct_invalid_deposit_tax = 0,
      ct_max_pending_withdrawals_per_validator = 3\<rparr>"

text \<open>C1. The incremental updates of the state tree agree with rebuilding it from scratch. Starting
  from the tree built for some state, inserting a validator at a slot (which moves the later
  blocks and rehashes only what changed), overwriting one, removing one (moving blocks back,
  possibly shrinking the tree), appending a deposit and appending a withdrawal each give exactly
  the tree, node for node, that a rebuild of the changed state gives.\<close>

theorem incremental_equals_rebuilt:
  assumes z: "zero_hashes_ok c" and i: "i \<le> length (ct_validator_accounts v)"
    and j: "j < length (ct_validator_accounts v)" and q: "iter_all q = iter_all (ct_withdrawal_queue v) @ [w]"
  shows "insert_validator_at_slot c i k a (rebuild c v) =
      rebuild c (v\<lparr>ct_validator_accounts :=
        take i (ct_validator_accounts v) @ (k, a) # drop i (ct_validator_accounts v)\<rparr>)
    \<and> update_validator_at_slot c j k a (rebuild c v) =
      rebuild c (v\<lparr>ct_validator_accounts := (ct_validator_accounts v)[j := (k, a)]\<rparr>)
    \<and> remove_validator_at_slot c j (rebuild c v) =
      Some (rebuild c (v\<lparr>ct_validator_accounts :=
        take j (ct_validator_accounts v) @ drop (Suc j) (ct_validator_accounts v)\<rparr>))
    \<and> tree_push_deposit c d (rebuild c v) =
      rebuild c (v\<lparr>ct_deposit_queue := ct_deposit_queue v @ [d]\<rparr>)
    \<and> tree_push_withdrawal c w (rebuild c v) = rebuild c (v\<lparr>ct_withdrawal_queue := q\<rparr>)"
proof -
  note s = rebuild_in_sync [OF z] and u = in_sync_unique
  obtain t where t: "remove_validator_at_slot c j (rebuild c v) = Some t"
    "in_sync c (v\<lparr>ct_validator_accounts :=
        take j (ct_validator_accounts v) @ drop (Suc j) (ct_validator_accounts v)\<rparr>) t"
    using remove_validator_in_sync [OF s j] by blast
  show ?thesis
    using u [OF insert_validator_in_sync [OF s i] s] u [OF update_validator_in_sync [OF s j] s]
      u [OF t(2) s] t(1) u [OF pushes_in_sync(1) [OF s] s] u [OF pushes_in_sync(2) [OF s q] s]
    by simp
qed

theorem incremental_equals_rebuilt_witness:
  "remove_validator_at_slot demo_crypto 0 (rebuild demo_crypto demo_contents)
     = Some (rebuild demo_crypto (demo_contents\<lparr>ct_validator_accounts := [(9, demo_account)]\<rparr>))"
proof -
  have "iter_all ((ct_withdrawal_queue demo_contents)\<lparr>wq_withdrawals := wq_withdrawals (ct_withdrawal_queue demo_contents) @ [w]\<rparr>)
      = iter_all (ct_withdrawal_queue demo_contents) @ [w]" for w
    by (simp add: demo_contents_def iter_all_def)
  from incremental_equals_rebuilt [OF demo_zero_hashes _ _ this, of 0 0]
  show ?thesis by (simp add: demo_contents_def)
qed

end
