(* ===== verification/Ssz_Proofs.thy ===== *)
theory Ssz_Proofs
  imports Ssz_Sync
begin

text \<open>
  Merkle proofs against the state root. Every proof the state tree generates, for a scalar, for
  a field of an item or for a whole item of any collection, verifies against its root, and its
  leaf is the value of the state. A proof that verifies at the same generalized index with
  another leaf gives a hash collision, which \<open>find_collision\<close> computes from the two branches;
  the keyed proofs inherit both facts. The indices fit the 64-bit generalized index as long as
  a collection has at most \<open>2 ^ 57\<close> leaves.
\<close>

section \<open>Climbing through two trees\<close>

lemma climb_append:
  "climb c v i (p @ q) = climb c (fst (climb c v i p)) (snd (climb c v i p)) q"
  by (induction c v i p rule: climb.induct) simp_all

lemma climb_low_bits:
  assumes "i mod 2 ^ length p = j mod 2 ^ length p"
  shows "climb c v i p = (fst (climb c v j p), i div 2 ^ length p)"
  using assms
proof (induction p arbitrary: v i j)
  case (Cons s p)
  have "2 * (i div 2 mod 2 ^ length p) + i mod 2 = 2 * (j div 2 mod 2 ^ length p) + j mod 2"
    using Cons.prems by (simp flip: mod_mult2_eq)
  moreover have "a = b \<and> (even i \<longleftrightarrow> even j)" if "2 * a + i mod 2 = 2 * b + j mod 2" for a b i j :: nat
    using that by presburger
  ultimately have "i div 2 mod 2 ^ length p = j div 2 mod 2 ^ length p" "even i \<longleftrightarrow> even j" by blast+
  with Cons.IH [of "i div 2" "j div 2"] show ?case by (simp add: div_mult2_eq)
qed simp

lemma shifted_index:
  assumes "k < 2 ^ s" "(unat g + 1) * 2 ^ s \<le> 2 ^ 64" "s < 64"
  shows "unat (shl64 g s OR word_of_nat k) = unat g * 2 ^ s + k"
proof -
  have bound: "unat g * 2 ^ s + 2 ^ s \<le> 2 ^ 64" using assms(2) by simp
  then have small: "unat g * 2 ^ s < 2 ^ 64" using assms(1) by linarith
  have sh: "unat (shl64 g s) = unat g * 2 ^ s"
  proof -
    have "unat (push_bit s g) = take_bit 64 (push_bit s (unat g))" by (simp add: unsigned_push_bit_eq)
    then show ?thesis using assms(3) small
      by (simp add: shl64_def push_bit_eq_mult [of s "unat g"] take_bit_nat_eq_self)
  qed
  have k: "unat (word_of_nat k :: u64) = k"
    using bound assms(1) by (intro unat_word_of_nat) simp
  have "\<not> bit (unat g * 2 ^ s) n \<or> \<not> bit k n" for n
    using assms(1) by (metis bit_push_bit_iff_nat bit_take_bit_iff push_bit_eq_mult take_bit_nat_eq_self not_less)
  then have "unat g * 2 ^ s + k = (unat g * 2 ^ s) OR k" by (rule disjunctive_add)
  then show ?thesis by (simp add: unsigned_or_eq sh k)
qed

section \<open>Proofs below a leaf of the top tree\<close>

text \<open>\<open>sub\<close> hangs below leaf \<open>i\<close> of the top tree with \<open>n\<close> items.\<close>

definition hangs :: "crypto \<Rightarrow> state_tree \<Rightarrow> nat \<Rightarrow> ssz_tree \<Rightarrow> nat \<Rightarrow> bool" where
  "hangs c t i sub n \<longleftrightarrow>
     hashed c (st_top t) \<and> depth (st_top t) = 5 \<and> i < 32 \<and> hashed c sub
     \<and> leaves (st_top t) ! i = mix_in_length c (ssz_root sub) n"

lemma hangs_depth: "hashed c t \<Longrightarrow> capacity t = 2 ^ depth t"
  by (rule wf_tree_simps(1) [OF hashed_wf])

lemma top_gindex_eq: "depth (st_top t) = 5 \<Longrightarrow> i < 32 \<Longrightarrow> unat (top_gindex t i) = 32 + i"
proof -
  assume *: "depth (st_top t) = 5" "i < 32"
  have "unat (shl64 1 5) = 32" by (simp add: shl64_def)
  moreover have "unat (word_of_nat i :: u64) = i" using *(2) by (intro unat_word_of_nat) simp
  ultimately show ?thesis using * by (simp add: top_gindex_def unat_word_ariths(1))
qed

lemma ilog2_range: "2 ^ e \<le> n \<Longrightarrow> n < 2 ^ Suc e \<Longrightarrow> ilog2 n = e"
proof -
  assume n: "2 ^ e \<le> n" "n < 2 ^ Suc e"
  then have "0 < n" by (metis less_le_trans zero_less_numeral zero_less_power)
  then have "n div 2 ^ ilog2 n = 1" by (rule div_ilog2)
  then have "2 ^ ilog2 n \<le> n" by (metis div_less less_numeral_extra(1) not_le zero_neq_one)
  then have "(2 :: nat) ^ ilog2 n < 2 ^ Suc e" using n(2) by linarith
  then have "ilog2 n \<le> e" by (simp add: less_Suc_eq_le power_strict_increasing_iff del: power_Suc)
  moreover have "e \<le> ilog2 n"
  proof (rule ccontr)
    assume "\<not> e \<le> ilog2 n"
    then have "(2 :: nat) ^ Suc (ilog2 n) \<le> 2 ^ e" by (intro power_increasing) simp_all
    then have "2 * 2 ^ ilog2 n \<le> n" using n(1) by simp
    then have "2 \<le> n div 2 ^ ilog2 n" by (simp add: less_eq_div_iff_mult_less_eq)
    then show False using \<open>n div 2 ^ ilog2 n = 1\<close> by simp
  qed
  ultimately show ?thesis by simp
qed

lemma hanging_proof_verifies:
  assumes h: "hangs c t i sub n" and e: "e \<le> depth sub" "e \<le> 57" and k: "k < 2 ^ e"
    and p: "unat (sp_gindex p) = (32 + i) * 2 ^ (e + 1) + k" "sp_leaf p = nodes sub ! (2 ^ e + k)"
      "sp_branch p = siblings e (nodes sub) (2 ^ e + k) @ [length_chunk n] @ generate_proof (st_top t) i"
  shows "ssz_proof_verify c p (state_root t)"
proof -
  let ?g = "unat (sp_gindex p)" and ?top = "st_top t"
  have top: "hashed c ?top" "depth ?top = 5" "i < 32" and sub: "hashed c sub"
    and leaf: "leaves ?top ! i = mix_in_length c (ssz_root sub) n" using h by (simp_all add: hangs_def)
  have cap: "capacity ?top = 32" "capacity sub = 2 ^ depth sub"
    using hangs_depth [OF top(1)] hangs_depth [OF sub] top(2) by simp_all
  have "(2 :: nat) ^ e \<le> 2 ^ depth sub" using e(1) by (intro power_increasing) simp_all
  then have node: "2 ^ e + k < 2 * capacity sub" using k cap(2) by linarith
  have one: "(2 ^ e + k) div 2 ^ e = 1" using k by (simp add: div_add_self1)
  have "climb c (sp_leaf p) (2 ^ e + k) (siblings e (nodes sub) (2 ^ e + k)) = (nodes sub ! 1, 1)"
    using climb_siblings [OF sub node, of e] one p(2) by simp
  moreover have "?g mod 2 ^ e = (2 ^ e + k) mod 2 ^ e" "?g div 2 ^ e = (32 + i) * 2"
    using k by (simp_all add: p(1) mult.assoc [symmetric])
  ultimately have low: "climb c (sp_leaf p) ?g (siblings e (nodes sub) (2 ^ e + k)) = (ssz_root sub, (32 + i) * 2)"
    using climb_low_bits [of ?g "siblings e (nodes sub) (2 ^ e + k)" "2 ^ e + k" c "sp_leaf p"]
      wf_tree_simps(4) [OF hashed_wf [OF sub]] by (simp add: ssz_root_def)
  have "hash32_concat c (ssz_root sub) (length_chunk n) = nodes ?top ! (32 + i)"
    using leaf nth_leaves [OF hashed_wf [OF top(1)], of i] top(3) cap(1)
    by (simp add: length_chunk_def mix_in_length_def)
  moreover have "climb c (nodes ?top ! (32 + i)) (32 + i) (generate_proof ?top i) = (nodes ?top ! 1, 1)"
    using climb_siblings [OF top(1), of "32 + i" 5] top(2,3) cap(1)
    by (simp add: generate_proof_def div_add_self1)
  ultimately have "climb c (sp_leaf p) ?g (sp_branch p) = (state_root t, 1)"
    using cap(1) by (simp add: p(3) climb_append low state_root_def ssz_root_def)
  moreover have "ilog2 ?g = e + 6"
  proof (rule ilog2_range)
    show "2 ^ (e + 6) \<le> ?g" by (simp add: p(1) power_add add_mult_distrib)
    have "(32 + i) * 2 ^ (e + 1) + k < (33 + i) * 2 ^ (e + 1)"
      using k by (simp add: add_mult_distrib)
    also have "\<dots> \<le> 64 * 2 ^ (e + 1)" using top(3) by (intro mult_le_mono1) simp
    finally show "?g < 2 ^ Suc (e + 6)" by (simp add: p(1) power_add)
  qed
  moreover have "sp_gindex p \<noteq> 0" using p(1) by auto
  ultimately show ?thesis
    by (simp add: ssz_proof_verify_def verify_proof_gindex_def bit_width p(3) generate_proof_def top(2))
qed

lemma compose_index:
  assumes h: "hangs c t i sub n" and d: "depth sub \<le> 57" and k: "k < capacity sub"
  shows "unat (compose_collection_gindex t i sub k) = (32 + i) * 2 ^ (depth sub + 1) + k"
proof -
  have sub: "hashed c sub" and top: "depth (st_top t) = 5" "i < 32" using h by (simp_all add: hangs_def)
  have cap: "capacity sub = 2 ^ depth sub" by (rule hangs_depth [OF sub])
  have g: "unat (top_gindex t i) = 32 + i" by (rule top_gindex_eq [OF top])
  have "(32 + i + 1) * 2 ^ (depth sub + 1) \<le> 64 * 2 ^ (57 + 1)"
    using top(2) d by (intro mult_le_mono power_increasing) simp_all
  then show ?thesis
    unfolding compose_collection_gindex_def using k cap d
    by (subst shifted_index) (simp_all add: g)
qed

lemma leaf_proof_verifies:
  assumes h: "hangs c t i sub n" and d: "depth sub \<le> 57" and k: "k < capacity sub"
  shows "ssz_proof_verify c (leaf_proof t i sub k n) (state_root t)"
    "sp_leaf (leaf_proof t i sub k n) = leaves sub ! k"
proof -
  have sub: "hashed c sub" using h by (simp add: hangs_def)
  have cap: "capacity sub = 2 ^ depth sub" by (rule hangs_depth [OF sub])
  note idx = compose_index [OF h d k]
  show "ssz_proof_verify c (leaf_proof t i sub k n) (state_root t)"
    by (rule hanging_proof_verifies [OF h order_refl d])
      (use k cap idx in \<open>simp_all add: leaf_proof_def get_leaf_def build_collection_branch_def generate_proof_def\<close>)
  show "sp_leaf (leaf_proof t i sub k n) = leaves sub ! k"
    by (simp add: leaf_proof_def get_leaf_leaves [OF hashed_wf [OF sub] k])
qed

lemma item_proof_verifies:
  assumes h: "hangs c t i sub n" and d: "depth sub \<le> 57" and b: "b \<le> depth sub"
    and slot: "(slot + 1) * 2 ^ b \<le> capacity sub"
  shows "ssz_proof_verify c (item_proof t i sub (2 ^ b) (depth sub - b + 1) slot n) (state_root t)"
    "sp_leaf (item_proof t i sub (2 ^ b) (depth sub - b + 1) slot n)
       = merkle_root c b (take (2 ^ b) (drop (slot * 2 ^ b) (leaves sub)))"
proof -
  let ?e = "depth sub - b"
  have sub: "hashed c sub" and top: "depth (st_top t) = 5" "i < 32" using h by (simp_all add: hangs_def)
  have cap: "capacity sub = 2 ^ depth sub" by (rule hangs_depth [OF sub])
  have div: "capacity sub div 2 ^ b = 2 ^ ?e" using cap b by (simp add: power_diff)
  have "(0 :: nat) < 2 ^ b" by simp
  then have "slot * 2 ^ b < capacity sub" using slot unfolding add_mult_distrib mult_1 by linarith
  then have "slot * 2 ^ b < 2 ^ ?e * 2 ^ b" using cap b by (simp flip: power_add)
  then have k: "slot < 2 ^ ?e" by simp
  have g: "unat (top_gindex t i) = 32 + i" by (rule top_gindex_eq [OF top])
  have "(32 + i + 1) * 2 ^ (?e + 1) \<le> 64 * 2 ^ (57 + 1)"
    using top(2) d by (intro mult_le_mono power_increasing) simp_all
  then have idx: "unat (shl64 (top_gindex t i) (?e + 1) OR word_of_nat slot) = (32 + i) * 2 ^ (?e + 1) + slot"
    using k d by (subst shifted_index) (simp_all add: g)
  have log: "ilog2 (2 ^ ?e + slot) = ?e" by (rule ilog2_range) (use k in simp_all)
  show "ssz_proof_verify c (item_proof t i sub (2 ^ b) (?e + 1) slot n) (state_root t)"
    by (rule hanging_proof_verifies [OF h, of ?e slot])
      (use k d idx in \<open>simp_all add: item_proof_def get_node_def generate_proof_from_node_def
        node_siblings_eq log div Let_def\<close>)
  show "sp_leaf (item_proof t i sub (2 ^ b) (?e + 1) slot n)
       = merkle_root c b (take (2 ^ b) (drop (slot * 2 ^ b) (leaves sub)))"
    using node_merkle_root [OF sub, of ?e b "2 ^ ?e + slot"] b k
    by (simp add: item_proof_def get_node_def div Let_def)
qed

section \<open>The items of a collection\<close>

context items
begin

lemma collection_leaf:
  assumes "collection c b fs t xs" "s < length xs" "j < 2 ^ b"
  shows "s * 2 ^ b + j < capacity t" "leaves t ! (s * 2 ^ b + j) = block_leaf fs (xs ! s) j"
proof -
  have f: "length xs * 2 ^ b \<le> capacity t" "\<And>k. k < capacity t \<Longrightarrow> leaves t ! k = leaf_at b fs xs k"
    using assms(1) by (simp_all add: collection_def filled_def)
  have "(s + 1) * 2 ^ b \<le> length xs * 2 ^ b" using assms(2) by (intro mult_le_mono1) simp
  with f(1) assms(3) show lt: "s * 2 ^ b + j < capacity t" unfolding add_mult_distrib mult_1 by linarith
  show "leaves t ! (s * 2 ^ b + j) = block_leaf fs (xs ! s) j"
    using f(2) [OF lt] leaf_at_split [OF assms(3), of xs s] assms(2) by simp
qed

lemma collection_block:
  assumes "collection c b fs t xs" "s < length xs"
  shows "take (2 ^ b) (drop (s * 2 ^ b) (leaves t)) = map (block_leaf fs (xs ! s)) [0 ..< 2 ^ b]"
    "(s + 1) * 2 ^ b \<le> capacity t" "b \<le> depth t"
proof -
  have h: "hashed c t" using assms(1) by (simp add: collection_def filled_def)
  have "(0 :: nat) < 2 ^ b" by simp
  then have "s * 2 ^ b + (2 ^ b - 1) < capacity t" by (intro collection_leaf(1) [OF assms]) simp
  then show room: "(s + 1) * 2 ^ b \<le> capacity t"
    using \<open>0 < 2 ^ b\<close> unfolding add_mult_distrib mult_1 by linarith
  then have "(2 :: nat) ^ b \<le> 2 ^ depth t"
    using hangs_depth [OF h] unfolding add_mult_distrib mult_1 by linarith
  then show "b \<le> depth t" by (simp add: power_increasing_iff)
  show "take (2 ^ b) (drop (s * 2 ^ b) (leaves t)) = map (block_leaf fs (xs ! s)) [0 ..< 2 ^ b]"
    using collection_leaf [OF assms] wf_tree_simps(5) [OF hashed_wf [OF h]] room
    by (intro nth_equalityI) simp_all
qed

lemma field_proof_verifies:
  assumes h: "hangs c t i sub (length xs)" and col: "collection c b fs sub xs" and d: "depth sub \<le> 57"
    and s: "s < length xs" "j < 2 ^ b"
  shows "ssz_proof_verify c (leaf_proof t i sub (s * 2 ^ b + j) (length xs)) (state_root t)"
    "sp_leaf (leaf_proof t i sub (s * 2 ^ b + j) (length xs)) = block_leaf fs (xs ! s) j"
  using leaf_proof_verifies [OF h d collection_leaf(1) [OF col s]] collection_leaf(2) [OF col s] by simp_all

lemma whole_proof_verifies:
  assumes h: "hangs c t i sub (length xs)" and col: "collection c b fs sub xs" and d: "depth sub \<le> 57"
    and s: "s < length xs"
  shows "ssz_proof_verify c (item_proof t i sub (2 ^ b) (depth sub - b + 1) s (length xs)) (state_root t)"
    "sp_leaf (item_proof t i sub (2 ^ b) (depth sub - b + 1) s (length xs))
       = merkle_root c b (map (block_leaf fs (xs ! s)) [0 ..< 2 ^ b])" "b \<le> depth sub"
  using item_proof_verifies [OF h d collection_block(3,2) [OF col s]] collection_block [OF col s] by simp_all

end

lemma in_sync_hangs:
  assumes "in_sync c v t"
  shows "hangs c t VALIDATOR_ACCOUNTS_ROOT (validator_tree t) (length (ct_validator_accounts v))"
    "hangs c t DEPOSIT_QUEUE_ROOT (deposit_tree t) (length (ct_deposit_queue v))"
    "hangs c t WITHDRAWAL_QUEUE_ROOT (withdrawal_tree t) (length (iter_all (ct_withdrawal_queue v)))"
    "hangs c t PROTOCOL_PARAM_CHANGES_ROOT (protocol_param_tree t) (length (ct_protocol_param_changes v))"
    "hangs c t ADDED_VALIDATORS_ROOT (added_validator_tree t) (length (flatten_added (ct_added_validators v)))"
    "hangs c t REMOVED_VALIDATORS_ROOT (removed_validator_tree t) (length (ct_removed_validators v))"
proof -
  have top: "hashed c (st_top t)" "leaves (st_top t) = top_leaves c v t" and s: "trees_in_sync c v t"
    using assms by (simp_all add: in_sync_def)
  have "length (leaves (st_top t)) = 32" using top(2) by (simp add: top_leaves_def)
  then have "(2 :: nat) ^ depth (st_top t) = 2 ^ 5"
    using wf_tree_simps(1,5) [OF hashed_wf [OF top(1)]] by simp
  then have "depth (st_top t) = 5" by (rule power_inject_exp [THEN iffD1, rotated]) simp
  with top s show "hangs c t VALIDATOR_ACCOUNTS_ROOT (validator_tree t) (length (ct_validator_accounts v))"
    "hangs c t DEPOSIT_QUEUE_ROOT (deposit_tree t) (length (ct_deposit_queue v))"
    "hangs c t WITHDRAWAL_QUEUE_ROOT (withdrawal_tree t) (length (iter_all (ct_withdrawal_queue v)))"
    "hangs c t PROTOCOL_PARAM_CHANGES_ROOT (protocol_param_tree t) (length (ct_protocol_param_changes v))"
    "hangs c t ADDED_VALIDATORS_ROOT (added_validator_tree t) (length (flatten_added (ct_added_validators v)))"
    "hangs c t REMOVED_VALIDATORS_ROOT (removed_validator_tree t) (length (ct_removed_validators v))"
    by (simp_all add: hangs_def trees_in_sync_def top_leaves_def collection_def filled_def top_index_defs)
qed

lemma collection_depth:
  assumes "collection c b fs t xs" "length xs * 2 ^ b \<le> 2 ^ 57"
  shows "depth t \<le> 57"
proof -
  have "(2 :: nat) ^ depth t \<le> 2 ^ 57"
    using assms hangs_depth [of c t] next_power_of_two_least [of "max (length xs * 2 ^ b) 1" 57]
    by (simp add: collection_def filled_def)
  then show ?thesis by (rule power_le_imp_le_exp [rotated]) simp
qed

section \<open>Validators\<close>

definition validator_leaves :: "crypto \<Rightarrow> node_key \<Rightarrow> validator_account \<Rightarrow> bytes32 list" where
  "validator_leaves c k a =
     [bls_key_root c (va_consensus_public_key a), address_root (va_withdrawal_credentials a),
      u64_root (va_balance a), status_root (va_status a), u64_root (va_joining_epoch a),
      u64_root (va_last_deposit_index a), k, 0]"

lemma less_8: "j < 8 \<longleftrightarrow> j = 0 \<or> j = 1 \<or> j = 2 \<or> j = 3 \<or> j = 4 \<or> j = 5 \<or> j = 6 \<or> j = (7 :: nat)"
  by auto

lemma validator_block_leaf:
  "j < 8 \<Longrightarrow> block_leaf (entry_fields c) e j = validator_leaves c (fst e) (snd e) ! j"
  by (auto simp: less_8 block_leaf_def validator_fields_def validator_leaves_def)

lemma validator_slot:
  assumes "bt_get m k = Some a"
  shows "\<exists>s. get_validator_index (map fst m) k = Some s \<and> s < length m \<and> m ! s = (k, a)"
proof -
  obtain s where s: "bt_position k m = Some s" using assms bt_position_get [of k m] by (cases "bt_position k m") auto
  have "bt_get m k = Some (snd (m ! s)) \<and> s < length m \<and> fst (m ! s) = k"
    using s unfolding bt_position_def
  proof (induction m arbitrary: s)
    case (Cons e m)
    then show ?case by (cases e) (auto simp: bt_get_def split: if_splits)
  qed simp
  with assms s show ?thesis
    by (intro exI [of _ s]) (auto simp: get_validator_index_def bt_position_def prod_eq_iff)
qed

lemma validator_field_proof:
  assumes s: "in_sync c v t" and a: "bt_get (ct_validator_accounts v) k = Some a"
    and n: "length (ct_validator_accounts v) \<le> 2 ^ 54" and f: "f < 8"
  shows "\<exists>slot p. slot < length (ct_validator_accounts v)
    \<and> generate_validator_field_proof t k f (map fst (ct_validator_accounts v)) = Some (Some p)
    \<and> p = leaf_proof t VALIDATOR_ACCOUNTS_ROOT (validator_tree t) (slot * 8 + f) (length (ct_validator_accounts v))
    \<and> get_validator_index (map fst (ct_validator_accounts v)) k = Some slot
    \<and> ssz_proof_verify c p (state_root t) \<and> sp_leaf p = validator_leaves c k a ! f"
proof -
  let ?m = "ct_validator_accounts v"
  obtain slot where slot: "get_validator_index (map fst ?m) k = Some slot" "slot < length ?m" "?m ! slot = (k, a)"
    using validator_slot [OF a] by blast
  have col: "collection c 3 (entry_fields c) (validator_tree t) ?m" and cnt: "validator_count t = length ?m"
    using s by (simp_all add: in_sync_def trees_in_sync_def)
  have d: "depth (validator_tree t) \<le> 57" using collection_depth [OF col] n by simp
  have "f < 2 ^ 3" using f by simp
  note p = validators.field_proof_verifies [OF in_sync_hangs(1) [OF s] col d slot(2) this]
  show ?thesis
    using p slot f validator_block_leaf [OF f, of c "(k, a)"]
    by (simp add: generate_validator_field_proof_def per_item_defs cnt)
qed

lemma unat_selector: "unat (g AND (word_of_nat 8 - 1)) = unat g mod 8"
  for g :: u64
proof -
  have "(word_of_nat 8 - 1 :: u64) = mask 3" by (simp add: mask_eq_exp_minus_1)
  then have "g AND (word_of_nat 8 - 1) = take_bit 3 g" by (simp only: take_bit_eq_mask)
  then show ?thesis by (simp add: take_bit_eq_mod unat_mod)
qed

lemma same_item: "drop_bit 3 g = drop_bit 3 h \<longleftrightarrow> unat g div 8 = unat h div 8"
  for g h :: u64
  by (simp add: word_unat_eq_iff drop_bit_eq_div unat_div)

lemma ilog2_8: "ilog2 8 = 3" and power_8: "is_power_of_two 8"
  using ilog2_pow [of 3] next_power_of_two_exact [of 3] by (simp_all add: is_power_of_two_def)

lemma keyed_verify_iff:
  assumes "f < 8"
  shows "keyed_field_proof_verify c w r k 8 f \<longleftrightarrow>
    ssz_proof_verify c (kf_field w) r \<and> ssz_proof_verify c (kf_key w) r \<and> sp_leaf (kf_key w) = k
    \<and> unat (sp_gindex (kf_key w)) mod 8 = f
    \<and> unat (sp_gindex (kf_field w)) div 8 = unat (sp_gindex (kf_key w)) div 8"
proof -
  have "unat (word_of_nat f :: u64) = f" using assms by (intro unat_word_of_nat) simp
  then have "sp_gindex (kf_key w) AND (word_of_nat 8 - 1) = word_of_nat f
      \<longleftrightarrow> unat (sp_gindex (kf_key w)) mod 8 = f"
    unfolding word_unat_eq_iff unat_selector by simp
  then show ?thesis
    by (auto simp: keyed_field_proof_verify_def power_8 ilog2_8 same_item simp del: of_nat_numeral)
qed

lemma index_parts:
  fixes d f i s :: nat
  assumes "3 \<le> d" "f < 8"
  shows "((32 + i) * 2 ^ (d + 1) + (s * 8 + f)) mod 8 = f"
    "((32 + i) * 2 ^ (d + 1) + (s * 8 + f)) div 8 = (32 + i) * 2 ^ (d - 2) + s"
proof -
  obtain e where "d = e + 3" using assms(1) le_Suc_ex by (metis add.commute)
  then have eq: "(32 + i) * 2 ^ (d + 1) + (s * 8 + f) = f + ((32 + i) * 2 ^ (d - 2) + s) * 8"
    by (simp add: power_add)
  have parts: "(f + x * 8) mod 8 = f \<and> (f + x * 8) div 8 = x" for x using assms(2) by simp
  show "((32 + i) * 2 ^ (d + 1) + (s * 8 + f)) mod 8 = f"
    "((32 + i) * 2 ^ (d + 1) + (s * 8 + f)) div 8 = (32 + i) * 2 ^ (d - 2) + s"
    unfolding eq using parts by blast+
qed

lemma proofs_agree:
  assumes "ssz_proof_verify c p r" "ssz_proof_verify c q r" "sp_gindex p = sp_gindex q" "sp_leaf p \<noteq> sp_leaf q"
  shows "\<exists>x x'. find_collision c (unat (sp_gindex p)) (sp_leaf p) (sp_branch p) (sp_leaf q) (sp_branch q) = Some (x, x')
    \<and> x \<noteq> x' \<and> hash_pair c x = hash_pair c x'"
  using assms by (intro find_collision_complete)
    (auto simp: ssz_proof_verify_def verify_proof_gindex_def split: if_splits prod.splits)

lemma validator_leaf_at_key:
  assumes "collection c 3 (entry_fields c) t m" "s < length m"
  shows "leaves t ! (s * 8 + 6) = fst (m ! s)"
    "f < 8 \<Longrightarrow> leaves t ! (s * 8 + f) = validator_leaves c (fst (m ! s)) (snd (m ! s)) ! f"
  using validators.collection_leaf(2) [OF assms, of 6] validators.collection_leaf(2) [OF assms, of f]
  by (simp_all add: validator_block_leaf, simp add: validator_leaves_def)

text \<open>Climbing the proof and the honest proof of the same leaf of the validator collection side by
  side finds two different inputs with the same hash.\<close>

definition collides_with_honest :: "crypto \<Rightarrow> state_tree \<Rightarrow> ssz_proof \<Rightarrow> bool" where
  "collides_with_honest c t p \<longleftrightarrow>
     (\<exists>idx x x'. let q = leaf_proof t VALIDATOR_ACCOUNTS_ROOT (validator_tree t) idx (validator_count t)
        in idx < capacity (validator_tree t) \<and> sp_gindex p = sp_gindex q
           \<and> find_collision c (unat (sp_gindex p)) (sp_leaf p) (sp_branch p) (sp_leaf q) (sp_branch q) = Some (x, x')
           \<and> x \<noteq> x' \<and> hash_pair c x = hash_pair c x')"

lemma validator_keyed_proof:
  assumes "in_sync c v t" "bt_get (ct_validator_accounts v) k = Some a"
    "length (ct_validator_accounts v) \<le> 2 ^ 54" "f < 8"
  shows "\<exists>slot p p'. slot < length (ct_validator_accounts v)
    \<and> generate_validator_field_proof t k f (map fst (ct_validator_accounts v)) = Some (Some p)
    \<and> generate_validator_field_proof t k 6 (map fst (ct_validator_accounts v)) = Some (Some p')
    \<and> get_validator_index (map fst (ct_validator_accounts v)) k = Some slot
    \<and> p' = leaf_proof t VALIDATOR_ACCOUNTS_ROOT (validator_tree t) (slot * 8 + 6) (length (ct_validator_accounts v))
    \<and> ssz_proof_verify c p (state_root t) \<and> sp_leaf p = validator_leaves c k a ! f
    \<and> keyed_field_proof_verify c \<lparr>kf_field = p, kf_key = p'\<rparr> (state_root t) k 8 6"
proof -
  let ?m = "ct_validator_accounts v" and ?sub = "validator_tree t" and ?i = VALIDATOR_ACCOUNTS_ROOT
  obtain slot p where p: "slot < length ?m" "generate_validator_field_proof t k f (map fst ?m) = Some (Some p)"
      "p = leaf_proof t ?i ?sub (slot * 8 + f) (length ?m)" "get_validator_index (map fst ?m) k = Some slot"
      "ssz_proof_verify c p (state_root t)" "sp_leaf p = validator_leaves c k a ! f"
    using validator_field_proof [OF assms] by blast
  obtain p' where p': "generate_validator_field_proof t k 6 (map fst ?m) = Some (Some p')"
      "p' = leaf_proof t ?i ?sub (slot * 8 + 6) (length ?m)"
      "ssz_proof_verify c p' (state_root t)" "sp_leaf p' = k"
    using validator_field_proof [OF assms(1-3), of 6] p(4) by (auto simp: validator_leaves_def)
  have col: "collection c 3 (entry_fields c) ?sub ?m" using assms(1) by (simp add: in_sync_def trees_in_sync_def)
  have d: "depth ?sub \<le> 57" using collection_depth [OF col] assms(3) by simp
  note h = in_sync_hangs(1) [OF assms(1)]
  have lf: "slot * 8 + j < capacity ?sub" if "j < 8" for j
    using validators.collection_leaf(1) [OF col p(1), of j] that by simp
  have "keyed_field_proof_verify c \<lparr>kf_field = p, kf_key = p'\<rparr> (state_root t) k 8 6"
    unfolding keyed_verify_iff [of 6, simplified]
    using p(5) p'(3,4) compose_index [OF h d lf [OF assms(4)]] compose_index [OF h d lf [of 6]]
      index_parts [OF validators.collection_block(3) [OF col p(1)], of _ ?i slot] assms(4)
    by (simp add: p(3) p'(2) leaf_proof_def)
  with p p' show ?thesis by blast
qed

section \<open>Queued items\<close>

lemma block_merkle:
  assumes "length ls \<le> 2 ^ b" "0 < length ls" "next_power_of_two (length ls) = 2 ^ b"
    "\<And>j. j < 2 ^ b \<Longrightarrow> block_leaf fs x j = (if j < length ls then ls ! j else 0)"
  shows "merkle_root c b (map (block_leaf fs x) [0 ..< 2 ^ b]) = merkleize c ls"
proof -
  have "map (block_leaf fs x) [0 ..< 2 ^ b] = ls @ replicate (2 ^ b - length ls) 0"
    using assms(1,4) by (intro nth_equalityI) (simp_all add: nth_append)
  moreover have "ls \<noteq> []" using assms(2) by auto
  ultimately show ?thesis using assms(3) by (simp add: merkleize_root)
qed

lemma next_power_7: "next_power_of_two (Suc (Suc (Suc (Suc (Suc (Suc (Suc 0))))))) = 8"
  and next_power_2: "next_power_of_two (Suc (Suc 0)) = 2"
  by code_simp+

lemma whole_roots:
  "merkle_root c 3 (map (block_leaf (deposit_fields c) d) [0 ..< 2 ^ 3]) = deposit_root c d"
  "merkle_root c 3 (map (block_leaf withdrawal_fields w) [0 ..< 2 ^ 3]) = withdrawal_root c w"
  "merkle_root c 1 (map (block_leaf protocol_param_leaves p) [0 ..< 2 ^ 1]) = protocol_param_root c p"
proof -
  show "merkle_root c 3 (map (block_leaf (deposit_fields c) d) [0 ..< 2 ^ 3]) = deposit_root c d"
    unfolding deposit_root_def
    by (rule block_merkle) (auto simp: next_power_7 less_8 block_leaf_def deposit_fields_def)
  show "merkle_root c 3 (map (block_leaf withdrawal_fields w) [0 ..< 2 ^ 3]) = withdrawal_root c w"
    unfolding withdrawal_root_def
    by (rule block_merkle) (auto simp: next_power_7 less_8 block_leaf_def withdrawal_fields_def)
  obtain tag h where p: "param_fields p = (tag, h)" by (cases "param_fields p")
  have "merkle_root c 1 (map (block_leaf protocol_param_leaves p) [0 ..< 2 ^ 1]) = merkleize c [u64_root tag, h]"
    by (rule block_merkle) (auto simp: next_power_2 block_leaf_def protocol_param_leaves_def p less_2_cases_iff)
  then show "merkle_root c 1 (map (block_leaf protocol_param_leaves p) [0 ..< 2 ^ 1]) = protocol_param_root c p"
    by (simp add: protocol_param_root_def p)
qed

lemma position_append:
  "position P (xs @ ys) = (case position P xs of Some i \<Rightarrow> Some i
     | None \<Rightarrow> map_option (\<lambda>i. length xs + i) (position P ys))"
  by (induction xs) (cases "position P ys"; auto split: option.splits)+

lemma pubkey_slots_position: "pubkey_slots ws k = position (\<lambda>w. pw_pubkey w = k) ws"
proof (induction ws rule: rev_induct)
  case (snoc w ws)
  have "pubkey_slots (ws @ [w]) = or_insert (pw_pubkey w) (length ws) (pubkey_slots ws)"
    by (simp add: pubkey_slots_def enumerate_append_eq)
  with snoc show ?case by (auto simp: or_insert_def position_append split: option.split)
qed (simp add: pubkey_slots_def)

lemma position_find: "List.find P xs = map_option (\<lambda>i. xs ! i) (position P xs)"
  by (induction xs) (auto simp: option.map_comp comp_def)

lemma get_withdrawal_slot:
  "get_withdrawal q k = Some w \<longleftrightarrow>
     (\<exists>s. pubkey_slots (iter_all q) k = Some s \<and> s < length (iter_all q) \<and> iter_all q ! s = w)"
proof -
  have "i < length xs" if "position P xs = Some i" for P :: "pending_withdrawal \<Rightarrow> bool" and xs i
    using position_Some [OF that] by simp
  then show ?thesis
    unfolding pubkey_slots_position get_withdrawal_def position_find iter_all_def map_option_eq_Some
    by blast
qed

section \<open>Properties\<close>

lemma demo_in_sync: "in_sync demo_crypto demo_contents (rebuild demo_crypto demo_contents)"
  by (rule rebuild_in_sync) simp

text \<open>C15. Every proof of a validator that the state tree generates is accepted against the state
  root. For a validator with an account, each field proof verifies and its leaf is the field's
  hash tree root (the node key for field 6, zero for the padding leaf); the proof of the whole
  account verifies with the Merkle root of its eight leaves; and a keyed field proof passes the
  keyed verification for that validator's key.\<close>

theorem validator_proofs_verify:
  assumes "in_sync c v t" "bt_get (ct_validator_accounts v) k = Some a"
    "length (ct_validator_accounts v) \<le> 2 ^ 54" "f < 8"
  shows "\<exists>p q w. generate_validator_field_proof t k f (map fst (ct_validator_accounts v)) = Some (Some p)
      \<and> ssz_proof_verify c p (state_root t) \<and> sp_leaf p = validator_leaves c k a ! f
      \<and> generate_validator_proof t k (map fst (ct_validator_accounts v)) = Some q
      \<and> ssz_proof_verify c q (state_root t) \<and> sp_leaf q = merkle_root c 3 (validator_leaves c k a)
      \<and> generate_validator_keyed_field_proof t k f (map fst (ct_validator_accounts v)) = Some (Some w)
      \<and> kf_field w = p \<and> keyed_field_proof_verify c w (state_root t) k VALIDATOR_FIELDS_PER_ACCOUNT
            VALIDATOR_FIELD_NODE_PUBKEY"
proof -
  let ?m = "ct_validator_accounts v" and ?sub = "validator_tree t"
  obtain slot p p' where p: "slot < length ?m" "generate_validator_field_proof t k f (map fst ?m) = Some (Some p)"
      "generate_validator_field_proof t k 6 (map fst ?m) = Some (Some p')"
      "get_validator_index (map fst ?m) k = Some slot" "ssz_proof_verify c p (state_root t)"
      "sp_leaf p = validator_leaves c k a ! f"
      "keyed_field_proof_verify c \<lparr>kf_field = p, kf_key = p'\<rparr> (state_root t) k 8 6"
    using validator_keyed_proof [OF assms] by blast
  have col: "collection c 3 (entry_fields c) ?sub ?m" and cnt: "validator_count t = length ?m"
    using assms(1) by (simp_all add: in_sync_def trees_in_sync_def)
  have d: "depth ?sub \<le> 57" using collection_depth [OF col] assms(3) by simp
  note q = validators.whole_proof_verifies [OF in_sync_hangs(1) [OF assms(1)] col d p(1)]
  have "?m ! slot = (k, a)" using validator_slot [OF assms(2)] p(4) by auto
  then have "map (block_leaf (entry_fields c) (?m ! slot)) [0..<8] = validator_leaves c k a"
    by (intro nth_equalityI) (simp_all add: validator_block_leaf validator_leaves_def)
  then show ?thesis
    using p q cnt
    by (simp add: generate_validator_proof_def validator_account_proof_def
        generate_validator_keyed_field_proof_def per_item_defs VALIDATOR_FIELD_NODE_PUBKEY_def ilog2_8)
qed

theorem validator_proofs_verify_witness:
  "\<exists>p. generate_validator_field_proof (rebuild demo_crypto demo_contents) 9 2 [5, 9] = Some (Some p)
      \<and> ssz_proof_verify demo_crypto p (state_root (rebuild demo_crypto demo_contents))
      \<and> sp_leaf p = u64_root 32"
proof -
  have "bt_get (ct_validator_accounts demo_contents) 9 = Some demo_account"
    "length (ct_validator_accounts demo_contents) \<le> 2 ^ 54" "(2 :: nat) < 8"
    "map fst (ct_validator_accounts demo_contents) = [5, 9]"
    by (simp_all add: demo_contents_def bt_get_def)
  with validator_proofs_verify [OF demo_in_sync this(1-3)] show ?thesis
    by (auto simp: validator_leaves_def demo_account_def)
qed

text \<open>C14. A keyed field proof binds the field to the validator. Take a state tree that is in sync
  with its state, and any keyed proof that verification accepts for a node key, whose key proof
  addresses an occupied leaf of the validator collection. Then the key belongs to a validator of
  the state and the field leaf is that validator's leaf at the addressed field, or climbing one
  of the two accepted branches beside the honest branch of its index finds two different inputs
  with the same hash.\<close>

theorem keyed_field_proof_binds:
  assumes s: "in_sync c v t" and n: "length (ct_validator_accounts v) \<le> 2 ^ 54"
    and acc: "keyed_field_proof_verify c w (state_root t) k VALIDATOR_FIELDS_PER_ACCOUNT VALIDATOR_FIELD_NODE_PUBKEY"
    and idx: "idx < 8 * length (ct_validator_accounts v)"
      "sp_gindex (kf_key w) = compose_collection_gindex t VALIDATOR_ACCOUNTS_ROOT (validator_tree t) idx"
  shows "(\<exists>a. (k, a) \<in> set (ct_validator_accounts v)
      \<and> sp_leaf (kf_field w) = validator_leaves c k a ! (unat (sp_gindex (kf_field w)) mod 8))
    \<or> collides_with_honest c t (kf_field w) \<or> collides_with_honest c t (kf_key w)"
proof (rule disjCI)
  assume nocol: "\<not> (collides_with_honest c t (kf_field w) \<or> collides_with_honest c t (kf_key w))"
  let ?m = "ct_validator_accounts v" and ?sub = "validator_tree t" and ?i = VALIDATOR_ACCOUNTS_ROOT
  define r f where "r = idx div 8" and "f = unat (sp_gindex (kf_field w)) mod 8"
  have f: "f < 8" and r: "r < length ?m" "idx = r * 8 + idx mod 8" using idx(1) by (auto simp: r_def f_def)
  have col: "collection c 3 (entry_fields c) ?sub ?m" and cnt: "validator_count t = length ?m"
    using s by (simp_all add: in_sync_def trees_in_sync_def)
  have d: "depth ?sub \<le> 57" using collection_depth [OF col] n by simp
  have d3: "3 \<le> depth ?sub" by (rule validators.collection_block(3) [OF col r(1)])
  note h = in_sync_hangs(1) [OF s]
  have lf: "r * 8 + j < capacity ?sub" if "j < 8" for j
    using validators.collection_leaf(1) [OF col r(1), of j] that by simp
  have ver: "ssz_proof_verify c (kf_field w) (state_root t)" "ssz_proof_verify c (kf_key w) (state_root t)"
    "sp_leaf (kf_key w) = k" "unat (sp_gindex (kf_key w)) mod 8 = 6"
    "unat (sp_gindex (kf_field w)) div 8 = unat (sp_gindex (kf_key w)) div 8"
    using acc keyed_verify_iff [of 6] by (simp_all add: per_item_defs VALIDATOR_FIELD_NODE_PUBKEY_def)
  have ix: "unat (compose_collection_gindex t ?i ?sub (r * 8 + j)) = (32 + ?i) * 2 ^ (depth ?sub + 1) + (r * 8 + j)"
    if "j < 8" for j by (rule compose_index [OF h d lf [OF that]])
  have "idx mod 8 = 6"
    using ver(4) ix [of "idx mod 8"] index_parts(1) [OF d3, of "idx mod 8" ?i r] r(2) idx(2) by simp
  then have k: "idx = r * 8 + 6" using r(2) by simp
  have "unat (sp_gindex (kf_field w)) = unat (compose_collection_gindex t ?i ?sub (r * 8 + f))"
    using ver(5) ix [OF f] ix [of 6] index_parts [OF d3, of _ ?i r] f idx(2) k
      div_mod_decomp [of "unat (sp_gindex (kf_field w))" 8]
      div_mod_decomp [of "unat (compose_collection_gindex t ?i ?sub (r * 8 + f))" 8]
    by (simp add: f_def)
  then have g: "sp_gindex (kf_field w) = compose_collection_gindex t ?i ?sub (r * 8 + f)"
    by (simp add: word_unat_eq_iff)
  have honest: "sp_leaf p = leaves ?sub ! (r * 8 + j)"
    if "p \<in> {kf_field w, kf_key w}" "j < 8" "sp_gindex p = compose_collection_gindex t ?i ?sub (r * 8 + j)" for p j
  proof (rule ccontr)
    let ?q = "leaf_proof t ?i ?sub (r * 8 + j) (length ?m)"
    note q = leaf_proof_verifies [OF h d lf [OF that(2)]]
    assume "sp_leaf p \<noteq> leaves ?sub ! (r * 8 + j)"
    then have "collides_with_honest c t p"
      using proofs_agree [of c p "state_root t" ?q] q that ver(1,2) lf [OF that(2)] cnt
      unfolding collides_with_honest_def by (intro exI [of _ "r * 8 + j"]) (auto simp: leaf_proof_def)
    then show False using nocol that(1) by blast
  qed
  have "k = fst (?m ! r)"
    using honest [of "kf_key w" 6] ver(3) idx(2) k validator_leaf_at_key(1) [OF col r(1)] by simp
  moreover have "sp_leaf (kf_field w) = validator_leaves c (fst (?m ! r)) (snd (?m ! r)) ! f"
    using honest [of "kf_field w" f] f g validator_leaf_at_key(2) [OF col r(1) f] by simp
  ultimately show "\<exists>a. (k, a) \<in> set ?m \<and> sp_leaf (kf_field w) = validator_leaves c k a ! (unat (sp_gindex (kf_field w)) mod 8)"
    using nth_mem [OF r(1)] by (intro exI [of _ "snd (?m ! r)"]) (simp add: f_def)
qed

theorem keyed_field_proof_binds_witness:
  "\<exists>w. keyed_field_proof_verify demo_crypto w (state_root (rebuild demo_crypto demo_contents)) 9 8 6
      \<and> ((\<exists>a. (9, a) \<in> set (ct_validator_accounts demo_contents)
            \<and> sp_leaf (kf_field w) = validator_leaves demo_crypto 9 a ! (unat (sp_gindex (kf_field w)) mod 8))
          \<or> collides_with_honest demo_crypto (rebuild demo_crypto demo_contents) (kf_field w)
          \<or> collides_with_honest demo_crypto (rebuild demo_crypto demo_contents) (kf_key w))"
proof -
  have m: "bt_get (ct_validator_accounts demo_contents) 9 = Some demo_account"
    "length (ct_validator_accounts demo_contents) \<le> 2 ^ 54" "(2 :: nat) < 8"
    by (simp_all add: demo_contents_def bt_get_def)
  obtain slot p p' where w: "slot < length (ct_validator_accounts demo_contents)"
      "p' = leaf_proof (rebuild demo_crypto demo_contents) VALIDATOR_ACCOUNTS_ROOT
          (validator_tree (rebuild demo_crypto demo_contents)) (slot * 8 + 6)
          (length (ct_validator_accounts demo_contents))"
      "keyed_field_proof_verify demo_crypto \<lparr>kf_field = p, kf_key = p'\<rparr>
          (state_root (rebuild demo_crypto demo_contents)) 9 8 6"
    using validator_keyed_proof [OF demo_in_sync m] by blast
  then have "slot * 8 + 6 < 8 * length (ct_validator_accounts demo_contents)" by simp
  with w keyed_field_proof_binds [OF demo_in_sync m(2), of "\<lparr>kf_field = p, kf_key = p'\<rparr>" 9 "slot * 8 + 6"]
  show ?thesis
    by (intro exI [of _ "\<lparr>kf_field = p, kf_key = p'\<rparr>"])
      (simp add: per_item_defs VALIDATOR_FIELD_NODE_PUBKEY_def leaf_proof_def)
qed

text \<open>C16. Proofs of queued items. For every queued deposit, withdrawal and parameter change the
  state tree generates a proof that verifies against the state root with the item's hash tree
  root as its leaf; a proof for an index past the end is refused. Looking a withdrawal up by key
  proves exactly the entry the queue itself returns for that key, the earliest queued one.\<close>

theorem queue_proofs_verify:
  assumes s: "in_sync c v t" and n: "length (ct_deposit_queue v) \<le> 2 ^ 54"
      "length (iter_all (ct_withdrawal_queue v)) \<le> 2 ^ 54" "length (ct_protocol_param_changes v) \<le> 2 ^ 54"
  shows "(\<forall>i. if i < length (ct_deposit_queue v)
      then \<exists>p. generate_deposit_proof t i = Some p \<and> ssz_proof_verify c p (state_root t)
             \<and> sp_leaf p = deposit_root c (ct_deposit_queue v ! i)
      else generate_deposit_proof t i = None)
    \<and> (\<forall>i. if i < length (ct_protocol_param_changes v)
      then \<exists>p. generate_protocol_param_proof t i = Some p \<and> ssz_proof_verify c p (state_root t)
             \<and> sp_leaf p = protocol_param_root c (ct_protocol_param_changes v ! i)
      else generate_protocol_param_proof t i = None)
    \<and> (\<forall>k. case get_withdrawal (ct_withdrawal_queue v) k of
        None \<Rightarrow> generate_withdrawal_proof_by_key t k = None
      | Some w \<Rightarrow> \<exists>p. generate_withdrawal_proof_by_key t k = Some p \<and> ssz_proof_verify c p (state_root t)
             \<and> sp_leaf p = withdrawal_root c w)"
proof (intro conjI allI)
  have col: "collection c 3 (deposit_fields c) (deposit_tree t) (ct_deposit_queue v)"
    "collection c 3 withdrawal_fields (withdrawal_tree t) (iter_all (ct_withdrawal_queue v))"
    "collection c 1 protocol_param_leaves (protocol_param_tree t) (ct_protocol_param_changes v)"
    and cnt: "deposit_count t = length (ct_deposit_queue v)" "protocol_param_count t = length (ct_protocol_param_changes v)"
      "withdrawal_count t = length (iter_all (ct_withdrawal_queue v))"
      "withdrawal_pubkey_index t = pubkey_slots (iter_all (ct_withdrawal_queue v))"
    using s by (simp_all add: in_sync_def trees_in_sync_def)
  have d: "depth (deposit_tree t) \<le> 57" "depth (withdrawal_tree t) \<le> 57" "depth (protocol_param_tree t) \<le> 57"
    using collection_depth [OF col(1)] collection_depth [OF col(2)] collection_depth [OF col(3)] n by simp_all
  note h = in_sync_hangs [OF s]
  have shift: "x - 3 + 1 = x - 2" if "3 \<le> x" for x :: nat using that by simp
  have shift1: "Suc (x - Suc 0) = x" if "Suc 0 \<le> x" for x :: nat using that by simp
  fix i k
  show "if i < length (ct_deposit_queue v)
      then \<exists>p. generate_deposit_proof t i = Some p \<and> ssz_proof_verify c p (state_root t)
             \<and> sp_leaf p = deposit_root c (ct_deposit_queue v ! i)
      else generate_deposit_proof t i = None"
    using deposits.whole_proof_verifies [OF h(2) col(1) d(1), of i] shift
    by (simp add: generate_deposit_proof_def deposit_item_proof_def cnt per_item_defs
        whole_roots [simplified])
  show "if i < length (ct_protocol_param_changes v)
      then \<exists>p. generate_protocol_param_proof t i = Some p \<and> ssz_proof_verify c p (state_root t)
             \<and> sp_leaf p = protocol_param_root c (ct_protocol_param_changes v ! i)
      else generate_protocol_param_proof t i = None"
    using params.whole_proof_verifies [OF h(4) col(3) d(3), of i] shift1
    by (cases "i < length (ct_protocol_param_changes v)") (simp_all add: generate_protocol_param_proof_def protocol_param_item_proof_def cnt per_item_defs
        whole_roots [simplified])
  show "case get_withdrawal (ct_withdrawal_queue v) k of
        None \<Rightarrow> generate_withdrawal_proof_by_key t k = None
      | Some w \<Rightarrow> \<exists>p. generate_withdrawal_proof_by_key t k = Some p \<and> ssz_proof_verify c p (state_root t)
             \<and> sp_leaf p = withdrawal_root c w"
  proof (cases "get_withdrawal (ct_withdrawal_queue v) k")
    case None
    then have "pubkey_slots (iter_all (ct_withdrawal_queue v)) k = None"
      by (simp add: get_withdrawal_def position_find pubkey_slots_position iter_all_def)
    with None show ?thesis by (simp add: generate_withdrawal_proof_by_key_def cnt)
  next
    case (Some w)
    then obtain r where r: "pubkey_slots (iter_all (ct_withdrawal_queue v)) k = Some r"
      "r < length (iter_all (ct_withdrawal_queue v))" "iter_all (ct_withdrawal_queue v) ! r = w"
      using get_withdrawal_slot by blast
    with Some show ?thesis
      using withdrawals.whole_proof_verifies [OF h(3) col(2) d(2) r(2)] shift
      by (simp add: generate_withdrawal_proof_by_key_def generate_withdrawal_proof_def
          withdrawal_item_proof_def cnt per_item_defs whole_roots [simplified])
  qed
qed

theorem queue_proofs_verify_witness:
  "\<exists>p. generate_withdrawal_proof_by_key (rebuild demo_crypto demo_contents) 5 = Some p
     \<and> ssz_proof_verify demo_crypto p (state_root (rebuild demo_crypto demo_contents))"
proof -
  have "length (ct_deposit_queue demo_contents) \<le> 2 ^ 54"
    "length (iter_all (ct_withdrawal_queue demo_contents)) \<le> 2 ^ 54"
    "length (ct_protocol_param_changes demo_contents) \<le> 2 ^ 54"
    by (simp_all add: demo_contents_def iter_all_def)
  from queue_proofs_verify [OF demo_in_sync this] have
    "case get_withdrawal (ct_withdrawal_queue demo_contents) 5 of
        None \<Rightarrow> generate_withdrawal_proof_by_key (rebuild demo_crypto demo_contents) 5 = None
      | Some w \<Rightarrow> \<exists>p. generate_withdrawal_proof_by_key (rebuild demo_crypto demo_contents) 5 = Some p
          \<and> ssz_proof_verify demo_crypto p (state_root (rebuild demo_crypto demo_contents))
          \<and> sp_leaf p = withdrawal_root demo_crypto w" by blast
  then show ?thesis by (auto simp: demo_contents_def get_withdrawal_def)
qed

end
