(* ===== verification/Dynamic_Epocher.thy ===== *)
theory Dynamic_Epocher
  imports Account
begin

text \<open>
  \<open>types/src/dynamic_epocher.rs\<close>: the map between heights and epochs when the epoch length
  changes. The source shares one schedule behind a lock; every operation locks it once, so it
  is a value here and the handle operations \<open>snapshot\<close> and \<open>replace_with\<close> copy it.
  Shown: a well-formed schedule satisfies the epocher contract, its epochs tile the heights
  without gap or overlap, a length change keeps it well formed and changes nothing that can be
  queried when it is registered, and the codec is exact.
\<close>

record segment =
  seg_start_epoch :: u64
  seg_start_height :: u64
  seg_length :: u64

record dynamic_epocher =
  de_segments :: "segment list"
  de_current_epoch :: u64

definition de_new :: "u64 \<Rightarrow> dynamic_epocher" where
  "de_new genesis_length =
     \<lparr>de_segments = [\<lparr>seg_start_epoch = 0, seg_start_height = 0, seg_length = genesis_length\<rparr>],
      de_current_epoch = 0\<rparr>"

definition snapshot :: "dynamic_epocher \<Rightarrow> dynamic_epocher" where
  "snapshot d = \<lparr>de_segments = de_segments d, de_current_epoch = de_current_epoch d\<rparr>"

definition replace_with :: "dynamic_epocher \<Rightarrow> dynamic_epocher \<Rightarrow> dynamic_epocher" where
  "replace_with other d = d\<lparr>de_segments := de_segments other, de_current_epoch := de_current_epoch other\<rparr>"

text \<open>\<open>None\<close> is the \<open>unreachable!\<close> panic.\<close>

definition current_length :: "dynamic_epocher \<Rightarrow> u64 option" where
  "current_length d =
     map_option seg_length
       (List.find (\<lambda>seg. seg_start_epoch seg \<le> de_current_epoch d) (rev (de_segments d)))"

definition advance_epoch :: "u64 \<Rightarrow> dynamic_epocher \<Rightarrow> dynamic_epocher" where
  "advance_epoch epoch d = d\<lparr>de_current_epoch := epoch\<rparr>"

definition seg_bounds :: "segment \<Rightarrow> u64 \<Rightarrow> (u64 \<times> u64) option" where
  "seg_bounds seg epoch =
     (let relative_epoch = epoch - seg_start_epoch seg
      in case checked_mul relative_epoch (seg_length seg) of
           None \<Rightarrow> None
         | Some relative_start \<Rightarrow>
             (case checked_add (seg_start_height seg) relative_start of
                None \<Rightarrow> None
              | Some first \<Rightarrow>
                  (case checked_add first (seg_length seg - 1) of
                     None \<Rightarrow> None
                   | Some last_height \<Rightarrow> Some (first, last_height))))"

definition bounds :: "segment list \<Rightarrow> u64 \<Rightarrow> (u64 \<times> u64) option" where
  "bounds segments epoch =
     (case List.find (\<lambda>seg. seg_start_epoch seg \<le> epoch) (rev segments) of
        None \<Rightarrow> None
      | Some seg \<Rightarrow> seg_bounds seg epoch)"

definition epoch_bounds :: "dynamic_epocher \<Rightarrow> u64 \<Rightarrow> (u64 \<times> u64) option" where
  "epoch_bounds d epoch =
     (if de_current_epoch d + 1 < epoch then None else bounds (de_segments d) epoch)"

datatype epocher_error = EpochOverflow | NoSegments | TargetBeforeLatest u64 u64 | NoBounds u64

definition update_length :: "u64 \<Rightarrow> dynamic_epocher \<Rightarrow> epocher_error + dynamic_epocher" where
  "update_length new_length d =
     (case checked_add (de_current_epoch d) 2 of
        None \<Rightarrow> Inl EpochOverflow
      | Some target_epoch \<Rightarrow>
          if de_segments d = [] then Inl NoSegments
          else let last_segment = last (de_segments d)
          in if target_epoch < seg_start_epoch last_segment
             then Inl (TargetBeforeLatest target_epoch (seg_start_epoch last_segment))
          else case bounds (de_segments d) target_epoch of
             None \<Rightarrow> Inl (NoBounds target_epoch)
           | Some (start_height, _) \<Rightarrow>
               let segments =
                 (if seg_start_epoch last_segment = target_epoch
                  then butlast (de_segments d) @ [last_segment\<lparr>seg_length := new_length\<rparr>]
                  else de_segments d @
                    [\<lparr>seg_start_epoch = target_epoch, seg_start_height = start_height,
                      seg_length = new_length\<rparr>])
               in Inr (d\<lparr>de_segments := segments\<rparr>))"

definition containing :: "dynamic_epocher \<Rightarrow> u64 \<Rightarrow> epoch_info option" where
  "containing d height =
     (case List.find (\<lambda>seg. seg_start_height seg \<le> height) (rev (de_segments d)) of
        None \<Rightarrow> None
      | Some seg \<Rightarrow>
          let relative_height = height - seg_start_height seg;
              relative_epoch = relative_height div seg_length seg
          in case checked_add (seg_start_epoch seg) relative_epoch of
               None \<Rightarrow> None
             | Some epoch \<Rightarrow>
                 if de_current_epoch d + 1 < epoch then None
                 else (case bounds (de_segments d) epoch of
                         None \<Rightarrow> None
                       | Some (first, last_height) \<Rightarrow>
                           Some \<lparr>ei_epoch = epoch, ei_height = height, ei_first = first, ei_last = last_height\<rparr>))"

definition epoch_first :: "dynamic_epocher \<Rightarrow> u64 \<Rightarrow> u64 option" where
  "epoch_first d epoch =
     (if de_current_epoch d + 1 < epoch then None
      else map_option fst (bounds (de_segments d) epoch))"

definition epoch_last :: "dynamic_epocher \<Rightarrow> u64 \<Rightarrow> u64 option" where
  "epoch_last d epoch =
     (if de_current_epoch d + 1 < epoch then None
      else map_option snd (bounds (de_segments d) epoch))"

definition de_encode_size :: "dynamic_epocher \<Rightarrow> nat" where
  "de_encode_size d = 8 + 4 + length (de_segments d) * (8 + 8 + 8)"

definition segment_write :: "segment \<Rightarrow> u8 list" where
  "segment_write seg =
     to_be_bytes (seg_start_epoch seg) @ to_be_bytes (seg_start_height seg) @ to_be_bytes (seg_length seg)"

definition de_write :: "dynamic_epocher \<Rightarrow> u8 list" where
  "de_write d =
     to_be_bytes (de_current_epoch d) @ to_be_bytes (word_of_nat (length (de_segments d)) :: u32)
       @ concat (map segment_write (de_segments d))"

definition segment_read :: "segment reader" where
  "segment_read =
     rbind get_be (\<lambda>start_epoch.
     rbind get_be (\<lambda>start_height.
     rbind get_be (\<lambda>len.
     rbind (ensure (len \<noteq> 0) (Invalid ''DynamicEpocher'' ''zero-length segment'')) (\<lambda>_.
     ret \<lparr>seg_start_epoch = start_epoch, seg_start_height = start_height, seg_length = len\<rparr>))))"

definition de_read :: "dynamic_epocher reader" where
  "de_read =
     rbind get_be (\<lambda>current_epoch.
     rbind get_be (\<lambda>segments_len :: u32.
     rbind (ensure (segments_len \<noteq> 0) (Invalid ''DynamicEpocher'' ''no segments'')) (\<lambda>_.
     rbind (read_many segment_read (unat segments_len)) (\<lambda>segments.
     ret \<lparr>de_segments = segments, de_current_epoch = current_epoch\<rparr>))))"

section \<open>Well-formed schedules\<close>

text \<open>Consecutive segments: the next one starts where whole epochs of the previous one end.\<close>

definition adjacent :: "segment \<Rightarrow> segment \<Rightarrow> bool" where
  "adjacent s t \<longleftrightarrow>
     unat (seg_start_epoch s) < unat (seg_start_epoch t) \<and>
     unat (seg_start_height t) = unat (seg_start_height s)
       + (unat (seg_start_epoch t) - unat (seg_start_epoch s)) * unat (seg_length s)"

definition segments_ok :: "segment list \<Rightarrow> bool" where
  "segments_ok segs \<longleftrightarrow>
     segs \<noteq> [] \<and> seg_start_epoch (hd segs) = 0 \<and> seg_start_height (hd segs) = 0 \<and>
     list_all (\<lambda>s. seg_length s \<noteq> 0) segs \<and> successively adjacent segs"

definition epocher_ok :: "dynamic_epocher \<Rightarrow> bool" where
  "epocher_ok d \<longleftrightarrow> segments_ok (de_segments d) \<and>
     unat (seg_start_epoch (last (de_segments d))) \<le> unat (de_current_epoch d) + 2"

abbreviation se :: "segment \<Rightarrow> nat" where "se s \<equiv> unat (seg_start_epoch s)"
abbreviation sh :: "segment \<Rightarrow> nat" where "sh s \<equiv> unat (seg_start_height s)"
abbreviation sl :: "segment \<Rightarrow> nat" where "sl s \<equiv> unat (seg_length s)"

lemma find_rev_split: "P x \<Longrightarrow> \<forall>z \<in> set zs. \<not> P z \<Longrightarrow> List.find P (rev (ys @ x # zs)) = Some x"
proof (induction zs rule: rev_induct)
  case Nil
  then show ?case by simp
next
  case (snoc z zs)
  then show ?case by simp
qed

lemma find_rev_Some:
  "List.find P (rev xs) = Some x \<Longrightarrow> \<exists>ys zs. xs = ys @ x # zs \<and> P x \<and> (\<forall>z \<in> set zs. \<not> P z)"
proof (induction xs rule: rev_induct)
  case Nil
  then show ?case by simp
next
  case (snoc y xs)
  show ?case
  proof (cases "P y")
    case True
    with snoc.prems show ?thesis by (intro exI [of _ xs] exI [of _ "[]"]) simp
  next
    case False
    with snoc.prems have "List.find P (rev xs) = Some x" by simp
    with snoc.IH obtain ys zs where "xs = ys @ x # zs" "P x" "\<forall>z \<in> set zs. \<not> P z" by blast
    with False show ?thesis by (intro exI [of _ ys] exI [of _ "zs @ [y]"]) auto
  qed
qed

lemma seg_bounds_iff:
  assumes e: "se s \<le> unat e" and len: "seg_length s \<noteq> 0"
  shows "seg_bounds s e = Some (f, l) \<longleftrightarrow>
    unat f = sh s + (unat e - se s) * sl s \<and> unat l + 1 = unat f + sl s"
proof -
  have d: "unat (e - seg_start_epoch s) = unat e - se s"
    using e by (simp add: unat_sub word_le_nat_alt)
  have pos: "0 < sl s" using len by (simp add: unat_gt_0)
  have m: "unat (seg_length s - 1) = sl s - 1"
    using pos by (simp add: unat_sub word_le_nat_alt)
  show ?thesis
  proof
    assume "seg_bounds s e = Some (f, l)"
    then show "unat f = sh s + (unat e - se s) * sl s \<and> unat l + 1 = unat f + sl s"
      using pos by (auto simp: seg_bounds_def Let_def checked_mul_Some checked_add_Some d m
          split: option.splits)
  next
    assume r: "unat f = sh s + (unat e - se s) * sl s \<and> unat l + 1 = unat f + sl s"
    let ?p = "(e - seg_start_epoch s) * seg_length s"
    have fl: "unat f < 2 ^ LENGTH(64)" "unat l < 2 ^ LENGTH(64)" using unat_less [of f] unat_less [of l] by simp_all
    have p: "checked_mul (e - seg_start_epoch s) (seg_length s) = Some ?p"
      and pu: "unat ?p = (unat e - se s) * sl s"
      using r fl by (simp_all add: checked_mul_def d unat_mult_exact)
    have "checked_add (seg_start_height s) ?p = Some f"
      using r fl by (simp add: checked_add_Some pu)
    moreover have "unat l = unat f + (sl s - 1)" using r pos by linarith
    then have "checked_add f (seg_length s - 1) = Some l"
      using fl by (simp add: checked_add_Some m)
    ultimately show "seg_bounds s e = Some (f, l)" by (simp add: seg_bounds_def p)
  qed
qed

text \<open>In a well-formed schedule both searches stop at the segment whose span holds the epoch.\<close>

lemma adjacent_increasing: "successively adjacent xs \<Longrightarrow> sorted_wrt (\<lambda>s t. se s < se t \<and> sh s \<le> sh t) xs"
proof -
  assume "successively adjacent xs"
  then have "successively (\<lambda>s t. se s < se t \<and> sh s \<le> sh t) xs"
    by (rule successively_mono) (auto simp: adjacent_def)
  moreover have "transp (\<lambda>s t. se s < se t \<and> sh s \<le> sh t)"
    by (auto simp: transp_def)
  ultimately show ?thesis by (simp add: successively_conv_sorted_wrt)
qed

text \<open>What a split of a well-formed schedule tells: a later segment starts no earlier than the
  segment right after the split.\<close>

lemma segments_ok_split:
  assumes "segments_ok (ys @ x # zs)"
  shows "seg_length x \<noteq> 0"
    "z \<in> set zs \<Longrightarrow> \<exists>t. adjacent x t \<and> se t \<le> se z \<and> sh t \<le> sh z \<and> t \<in> set zs"
proof -
  have suc: "successively adjacent (x # zs)"
    using assms by (auto simp: segments_ok_def successively_append_iff)
  show "seg_length x \<noteq> 0" using assms by (simp add: segments_ok_def)
  assume z: "z \<in> set zs"
  then obtain t zs' where t: "zs = t # zs'" by (cases zs) auto
  have "adjacent x t" using suc t by simp
  moreover have "se t \<le> se z \<and> sh t \<le> sh z"
    using adjacent_increasing [OF suc] t z by auto
  ultimately show "\<exists>t. adjacent x t \<and> se t \<le> se z \<and> sh t \<le> sh z \<and> t \<in> set zs" using t by auto
qed

lemma bounds_split:
  assumes "bounds segs e = Some (f, l)" "segments_ok segs"
  obtains ys x zs where "segs = ys @ x # zs" "se x \<le> unat e" "\<And>z. z \<in> set zs \<Longrightarrow> unat e < se z"
    "unat f = sh x + (unat e - se x) * sl x" "unat l + 1 = unat f + sl x" "seg_length x \<noteq> 0"
proof -
  obtain x where x: "List.find (\<lambda>seg. seg_start_epoch seg \<le> e) (rev segs) = Some x" "seg_bounds x e = Some (f, l)"
    using assms(1) by (auto simp: bounds_def split: option.splits)
  obtain ys zs where split: "segs = ys @ x # zs" "seg_start_epoch x \<le> e" "\<forall>z \<in> set zs. \<not> seg_start_epoch z \<le> e"
    using find_rev_Some [OF x(1)] by blast
  have "seg_length x \<noteq> 0" using segments_ok_split(1) assms(2) split(1) by blast
  with split x(2) seg_bounds_iff [of x e f l] show ?thesis
    by (intro that [of ys x zs]) (auto simp: word_le_nat_alt)
qed

lemma bounds_intro:
  assumes "segs = ys @ x # zs" "segments_ok segs" "se x \<le> unat e" "\<And>z. z \<in> set zs \<Longrightarrow> unat e < se z"
  shows "bounds segs e = seg_bounds x e"
proof -
  have "List.find (\<lambda>seg. seg_start_epoch seg \<le> e) (rev segs) = Some x"
    unfolding assms(1) by (rule find_rev_split) (simp_all add: word_le_nat_alt not_le assms(3,4))
  then show ?thesis by (simp add: bounds_def)
qed

text \<open>An epoch of the segment \<open>x\<close> ends before the next segment starts.\<close>

lemma epoch_end_le:
  assumes "adjacent x t" "se x \<le> n" "n < se t"
  shows "sh x + (n - se x) * sl x + sl x \<le> sh t"
proof -
  have "(n - se x) * sl x + sl x = (n - se x + 1) * sl x" by simp
  also have "\<dots> \<le> (se t - se x) * sl x" using assms(2,3) by (intro mult_le_mono1) simp
  finally show ?thesis using assms(1) by (simp add: adjacent_def)
qed

lemma height_epoch_less:
  assumes "adjacent x t" "sh x \<le> n" "n < sh t" "0 < sl x"
  shows "se x + (n - sh x) div sl x < se t"
proof -
  have "n - sh x < (se t - se x) * sl x" using assms by (simp add: adjacent_def)
  then have "(n - sh x) div sl x < se t - se x" using assms(4) by (simp add: less_mult_imp_div_less)
  then show ?thesis using assms(1) by (simp add: adjacent_def)
qed

lemma containing_split:
  assumes c: "containing d h = Some i" and ok: "segments_ok (de_segments d)"
  shows "ei_height i = h \<and> epoch_bounds d (ei_epoch i) = Some (ei_first i, ei_last i) \<and>
    ei_first i \<le> h \<and> h \<le> ei_last i"
proof -
  obtain x e f l where x: "List.find (\<lambda>seg. seg_start_height seg \<le> h) (rev (de_segments d)) = Some x"
    and e: "checked_add (seg_start_epoch x) ((h - seg_start_height x) div seg_length x) = Some e"
    and q: "\<not> de_current_epoch d + 1 < e" and b: "bounds (de_segments d) e = Some (f, l)"
    and i: "i = \<lparr>ei_epoch = e, ei_height = h, ei_first = f, ei_last = l\<rparr>"
    using c by (auto simp: containing_def Let_def split: option.splits if_splits)
  obtain ys zs where split: "de_segments d = ys @ x # zs" "sh x \<le> unat h" "\<forall>z \<in> set zs. unat h < sh z"
    using find_rev_Some [OF x] unfolding word_le_nat_alt not_le by blast
  note sp = segments_ok_split [OF ok [unfolded split(1)]]
  have pos: "0 < sl x" using sp(1) by (simp add: unat_gt_0)
  have ue: "unat e = se x + (unat h - sh x) div sl x"
    using e split(2) by (simp add: checked_add_Some unat_div unat_sub word_le_nat_alt)
  have "unat e < se z" if z: "z \<in> set zs" for z
  proof -
    obtain t where "adjacent x t" "se t \<le> se z" "t \<in> set zs" using sp(2) [OF z] by blast
    with height_epoch_less [of x t "unat h"] split pos ue show ?thesis by fastforce
  qed
  then have "seg_bounds x e = Some (f, l)"
    using bounds_intro [OF split(1) ok] b ue by simp
  then have fl: "unat f = sh x + (unat h - sh x) div sl x * sl x" "unat l + 1 = unat f + sl x"
    using seg_bounds_iff [of x e f l] sp(1) ue by simp_all
  have "(unat h - sh x) div sl x * sl x + (unat h - sh x) mod sl x = unat h - sh x" by simp
  moreover have "(unat h - sh x) mod sl x < sl x" using pos by simp
  ultimately have "unat f \<le> unat h" "unat h \<le> unat l" using fl split(2) by linarith+
  then show ?thesis using q b by (simp add: i epoch_bounds_def word_le_nat_alt)
qed

lemma bounds_containing_height:
  assumes b: "epoch_bounds d e = Some (f, l)" and ok: "segments_ok (de_segments d)"
    and h: "f \<le> h" "h \<le> l"
  shows "containing d h = Some \<lparr>ei_epoch = e, ei_height = h, ei_first = f, ei_last = l\<rparr>"
proof -
  have q: "\<not> de_current_epoch d + 1 < e" and b': "bounds (de_segments d) e = Some (f, l)"
    using b by (auto simp: epoch_bounds_def split: if_splits)
  obtain ys x zs where x: "de_segments d = ys @ x # zs" "se x \<le> unat e" "\<And>z. z \<in> set zs \<Longrightarrow> unat e < se z"
    "unat f = sh x + (unat e - se x) * sl x" "unat l + 1 = unat f + sl x" "seg_length x \<noteq> 0"
    using bounds_split [OF b' ok] by metis
  have pos: "0 < sl x" using x(6) by (simp add: unat_gt_0)
  have hn: "unat f \<le> unat h" "unat h \<le> unat l" using h by (simp_all add: word_le_nat_alt)
  have later: "unat h < sh z" if z: "z \<in> set zs" for z
  proof -
    obtain t where t: "adjacent x t" "sh t \<le> sh z" "t \<in> set zs"
      using segments_ok_split(2) [OF ok [unfolded x(1)] z] by blast
    with epoch_end_le [OF t(1) x(2) x(3) [OF t(3)]] x(4,5) hn show ?thesis by simp
  qed
  have "sh x \<le> unat h" using x(4) hn by linarith
  then have find: "List.find (\<lambda>seg. seg_start_height seg \<le> h) (rev (de_segments d)) = Some x"
    unfolding x(1) by (intro find_rev_split) (simp_all add: word_le_nat_alt not_le later)
  have "(unat h - sh x) div sl x = unat e - se x"
  proof (rule div_nat_eqI)
    show "sl x * (unat e - se x) \<le> unat h - sh x" using hn x(4) by (simp add: mult.commute)
    show "unat h - sh x < sl x * Suc (unat e - se x)" using hn x(4,5) pos by (simp add: mult.commute)
  qed
  then have "checked_add (seg_start_epoch x) ((h - seg_start_height x) div seg_length x) = Some e"
    using x(2,4) hn unat_less [of e] by (simp add: checked_add_Some unat_div unat_sub word_le_nat_alt)
  with find q b' show ?thesis by (simp add: containing_def)
qed

interpretation dynamic: epocher containing epoch_bounds "\<lambda>d. segments_ok (de_segments d)"
  by unfold_locales (use containing_split in blast, rule bounds_containing_height)

section \<open>Epochs tile the heights\<close>

lemma bounds_consecutive:
  assumes ok: "segments_ok segs" and b: "bounds segs e = Some (f, l)" and b': "bounds segs (e + 1) = Some (f', l')"
    and e: "e \<noteq> -1"
  shows "unat f' = unat l + 1"
proof -
  obtain ys x zs where x: "segs = ys @ x # zs" "se x \<le> unat e" "\<And>z. z \<in> set zs \<Longrightarrow> unat e < se z"
    "unat f = sh x + (unat e - se x) * sl x" "unat l + 1 = unat f + sl x" "seg_length x \<noteq> 0"
    using bounds_split [OF b ok] by metis
  have e1: "unat (e + 1) = unat e + 1" using e by (simp add: unat_plus_one)
  show ?thesis
  proof (cases "\<exists>z \<in> set zs. se z \<le> unat e + 1")
    case False
    then have "bounds segs (e + 1) = seg_bounds x (e + 1)"
      by (intro bounds_intro [OF x(1) ok]) (use x(2) e1 in auto)
    then have "unat f' = sh x + (unat e + 1 - se x) * sl x"
      using b' seg_bounds_iff [of x "e + 1" f' l'] x(2,6) e1 by simp
    then show ?thesis using x(2,4,5) by (simp add: Suc_diff_le)
  next
    case True
    then obtain z t where z: "z \<in> set zs" "se z \<le> unat e + 1"
      and t: "adjacent x t" "se t \<le> se z" "t \<in> set zs"
      using segments_ok_split(2) [OF ok [unfolded x(1)]] by blast
    have st: "se t = unat e + 1" using x(3) [OF t(3)] t(2) z(2) by linarith
    obtain us vs where tv: "zs = us @ t # vs" using split_list [OF t(3)] by blast
    have segs: "segs = (ys @ x # us) @ t # vs" using x(1) tv by simp
    have "unat (e + 1) < se v" if v: "v \<in> set vs" for v
      using segments_ok_split(2) [OF ok [unfolded segs] v] st e1 by (auto simp: adjacent_def)
    then have "bounds segs (e + 1) = seg_bounds t (e + 1)"
      by (intro bounds_intro [OF segs ok]) (use st e1 in auto)
    moreover have "seg_length t \<noteq> 0" using segments_ok_split(1) ok [unfolded segs] by blast
    ultimately have "unat f' = sh t"
      using b' seg_bounds_iff [of t "e + 1" f' l'] st e1 by simp
    moreover have "sh t = sh x + (unat e + 1 - se x) * sl x"
      using t(1) st by (simp add: adjacent_def)
    ultimately show ?thesis using x(2,4,5) by (simp add: Suc_diff_le)
  qed
qed

lemma bounds_first: "segments_ok segs \<Longrightarrow> bounds segs 0 = Some (f, l) \<Longrightarrow> f = 0"
proof -
  assume ok: "segments_ok segs" and b: "bounds segs 0 = Some (f, l)"
  obtain ys x zs where x: "segs = ys @ x # zs" "se x \<le> unat (0 :: u64)"
    "unat f = sh x + (unat (0 :: u64) - se x) * sl x"
    using bounds_split [OF b ok] by metis
  have "ys = []"
  proof (rule ccontr)
    assume "ys \<noteq> []"
    then have "\<exists>s. s \<in> set ys" by (cases ys) auto
    then obtain s where "s \<in> set ys" by blast
    then have "se s < se x"
      using ok x(1) adjacent_increasing [of segs] by (auto simp: segments_ok_def sorted_wrt_append)
    with x(2) show False by simp
  qed
  then have "sh x = 0" using ok x(1) by (simp add: segments_ok_def)
  with x(3) show "f = 0" by (simp add: unat_eq_0)
qed

section \<open>Length changes\<close>

lemma segments_ok_snoc:
  "segs \<noteq> [] \<Longrightarrow>
   segments_ok (segs @ [s]) \<longleftrightarrow> segments_ok segs \<and> seg_length s \<noteq> 0 \<and> adjacent (last segs) s"
  by (auto simp: segments_ok_def successively_append_iff)

lemma segments_ok_relength:
  assumes "segments_ok segs" "n \<noteq> 0"
  shows "segments_ok (butlast segs @ [(last segs)\<lparr>seg_length := n\<rparr>])"
proof (cases "butlast segs")
  case Nil
  then have "segs = [last segs]" using assms(1) by (cases segs) (auto simp: segments_ok_def split: if_splits)
  then have "seg_start_epoch (last segs) = 0" "seg_start_height (last segs) = 0"
    using assms(1) by (metis list.sel(1) segments_ok_def)+
  then show ?thesis using assms(2) by (simp add: Nil segments_ok_def)
next
  case (Cons y ys)
  have "segs = butlast segs @ [last segs]"
    by (rule append_butlast_last_id [symmetric]) (use assms(1) in \<open>simp add: segments_ok_def\<close>)
  then have "segments_ok (butlast segs) \<and> adjacent (last (butlast segs)) (last segs)"
    using assms(1) segments_ok_snoc [of "butlast segs" "last segs"] Cons by simp
  then show ?thesis using assms(2) Cons by (subst segments_ok_snoc) (simp_all add: adjacent_def)
qed

lemma bounds_skip_last: "e < seg_start_epoch s \<Longrightarrow> bounds (segs @ [s]) e = bounds segs e"
  by (simp add: bounds_def not_le [symmetric])

lemma bounds_at_last:
  "segments_ok (segs @ [s]) \<Longrightarrow> se s \<le> unat e \<Longrightarrow> bounds (segs @ [s]) e = seg_bounds s e"
  using bounds_intro [of "segs @ [s]" segs s "[]" e] by simp

lemma update_length_cases:
  assumes ok: "epocher_ok d" and n: "n \<noteq> 0" and u: "update_length n d = Inr d'"
  obtains s segs where "de_segments d' = segs @ [s]" "de_current_epoch d' = de_current_epoch d"
    "se s = unat (de_current_epoch d) + 2" "seg_length s = n" "segments_ok (segs @ [s])"
    "\<And>e. unat e < unat (de_current_epoch d) + 2 \<Longrightarrow> bounds (de_segments d) e = bounds segs e"
proof -
  define target where "target = de_current_epoch d + 2"
  let ?segs = "de_segments d" and ?last = "last (de_segments d)"
  have segs: "segments_ok ?segs" "?segs \<noteq> []" using ok by (simp_all add: epocher_ok_def segments_ok_def)
  obtain f l where t: "checked_add (de_current_epoch d) 2 = Some target"
    and le: "\<not> target < seg_start_epoch ?last" and b: "bounds ?segs target = Some (f, l)"
    and d': "d' = d\<lparr>de_segments := (if seg_start_epoch ?last = target
        then butlast ?segs @ [?last\<lparr>seg_length := n\<rparr>]
        else ?segs @ [\<lparr>seg_start_epoch = target, seg_start_height = f, seg_length = n\<rparr>])\<rparr>"
    using u segs(2)
    by (auto simp: update_length_def Let_def target_def checked_add_def split: option.splits if_splits)
  have ut: "unat target = unat (de_current_epoch d) + 2"
    using t by (simp add: checked_add_Some)
  have last: "?segs = butlast ?segs @ [?last]" using segs(2) by simp
  have lok: "seg_length ?last \<noteq> 0" using segments_ok_split(1) segs(1) last by metis
  show thesis
  proof (cases "seg_start_epoch ?last = target")
    case True
    show ?thesis
    proof (rule that [of "butlast ?segs" "?last\<lparr>seg_length := n\<rparr>"])
      show "segments_ok (butlast ?segs @ [?last\<lparr>seg_length := n\<rparr>])"
        by (rule segments_ok_relength [OF segs(1) n])
      show "bounds ?segs e = bounds (butlast ?segs) e" if "unat e < unat (de_current_epoch d) + 2" for e
        using bounds_skip_last [of e ?last "butlast ?segs"] that ut True last by (simp add: word_less_nat_alt)
    qed (use d' True ut in auto)
  next
    case False
    let ?s = "\<lparr>seg_start_epoch = target, seg_start_height = f, seg_length = n\<rparr>"
    have lt: "se ?last < unat target" using False le by (simp add: word_less_nat_alt word_unat_eq_iff)
    have "seg_bounds ?last target = Some (f, l)"
      using b bounds_at_last [of "butlast ?segs" ?last target] segs(1) last lt by simp
    then have "unat f = sh ?last + (unat target - se ?last) * sl ?last"
      using seg_bounds_iff [of ?last target f l] lt lok by simp
    then have "adjacent ?last ?s" using lt by (simp add: adjacent_def)
    then have "segments_ok (?segs @ [?s])" using segs n by (simp add: segments_ok_snoc)
    then show ?thesis using d' False ut by (intro that [of ?segs ?s]) auto
  qed
qed

section \<open>Codec\<close>

interpretation segment: exact_codec segment_write segment_read "\<lambda>s. seg_length s \<noteq> 0"
proof
  fix s :: segment assume "seg_length s \<noteq> 0"
  then show "reads segment_read s (segment_write s)"
    by (simp add: reads_def segment_read_def segment_write_def codec_reads)
next
  fix buf s rest assume "segment_read buf = Inr (s, rest)"
  then show "seg_length s \<noteq> 0 \<and> buf = segment_write s @ rest"
    by (auto simp: segment_read_def segment_write_def reader_Inr get_be_Inr)
qed

definition epocher_writable :: "dynamic_epocher \<Rightarrow> bool" where
  "epocher_writable d \<longleftrightarrow> de_segments d \<noteq> [] \<and> length (de_segments d) < 2 ^ 32 \<and>
     list_all (\<lambda>s. seg_length s \<noteq> 0) (de_segments d)"

interpretation dynamic_epocher: exact_codec de_write de_read epocher_writable
proof
  fix d assume d: "epocher_writable d"
  then have "unat (word_of_nat (length (de_segments d)) :: u32) = length (de_segments d)"
    by (simp add: epocher_writable_def unat_word_of_nat)
  then have "(word_of_nat (length (de_segments d)) :: u32) \<noteq> 0"
    using d by (auto simp: epocher_writable_def word_unat_eq_iff)
  with d \<open>unat _ = _\<close> show "reads de_read d (de_write d)"
    by (simp add: reads_def de_read_def de_write_def codec_reads epocher_writable_def
        reads_rbind [OF segment.read_many_written])
next
  fix buf d rest assume "de_read buf = Inr (d, rest)"
  then obtain e and n :: u32 and segs and mid where "n \<noteq> 0" "buf = to_be_bytes e @ to_be_bytes n @ mid"
    and m: "read_many segment_read (unat n) mid = Inr (segs, rest)"
    and d: "d = \<lparr>de_segments = segs, de_current_epoch = e\<rparr>"
    by (auto simp: de_read_def reader_Inr get_be_Inr)
  moreover have "length segs = unat n" "list_all (\<lambda>s. seg_length s \<noteq> 0) segs"
    "mid = concat (map segment_write segs) @ rest"
    using segment.read_many_read [OF m] by simp_all
  moreover have "segs \<noteq> []" using calculation(1,5) by (auto simp: unat_eq_0)
  ultimately show "epocher_writable d \<and> buf = de_write d @ rest"
    using unat_less [of n] by (simp add: epocher_writable_def de_write_def)
qed

section \<open>Properties\<close>

text \<open>C26. Heights and epochs agree under any well-formed schedule of lengths. A height is
  reported in an epoch exactly when the epoch can be queried and the height lies within its
  bounds, so no height belongs to two epochs; epoch 0 starts at height 0 and each queryable
  epoch starts right after the previous one ends; and the three block-of-epoch predicates
  are true exactly at the first, at the last and right before the last height of an epoch.\<close>

theorem epochs_tile_heights:
  assumes "segments_ok (de_segments d)"
  shows "(containing d h = Some i \<longleftrightarrow>
      (\<exists>e f l. epoch_bounds d e = Some (f, l) \<and> f \<le> h \<and> h \<le> l \<and>
        i = \<lparr>ei_epoch = e, ei_height = h, ei_first = f, ei_last = l\<rparr>)) \<and>
    (epoch_bounds d 0 = Some (f0, l0) \<longrightarrow> f0 = 0) \<and>
    (epoch_bounds d e = Some (f, l) \<longrightarrow> epoch_bounds d (e + 1) = Some (f', l') \<longrightarrow> e \<noteq> -1 \<longrightarrow>
      unat f' = unat l + 1) \<and>
    (is_first_block_of_epoch (containing d) h \<longleftrightarrow> (\<exists>e l. epoch_bounds d e = Some (h, l) \<and> h \<le> l)) \<and>
    (is_last_block_of_epoch (containing d) h \<longleftrightarrow> (\<exists>e f. epoch_bounds d e = Some (f, h) \<and> f \<le> h)) \<and>
    (is_penultimate_block_of_epoch (containing d) h \<longrightarrow> h \<noteq> -1 \<longrightarrow>
      is_last_block_of_epoch (containing d) (h + 1) \<and>
      map_option ei_epoch (containing d (h + 1)) = map_option ei_epoch (containing d h))"
proof -
  have "epoch_bounds d 0 = Some (f0, l0) \<longrightarrow> f0 = 0"
    using bounds_first [OF assms] by (auto simp: epoch_bounds_def)
  moreover have "epoch_bounds d e = Some (f, l) \<longrightarrow> epoch_bounds d (e + 1) = Some (f', l') \<longrightarrow> e \<noteq> -1 \<longrightarrow>
      unat f' = unat l + 1"
    using bounds_consecutive [OF assms, of e f l f' l'] by (simp add: epoch_bounds_def split: if_splits)
  ultimately show ?thesis
    using dynamic.penultimate_next_last [OF assms, of h]
    by (simp only: dynamic.containing_iff [OF assms] dynamic.first_block_iff [OF assms]
        dynamic.last_block_iff [OF assms] simp_thms imp_refl HOL.implies_True_equals) blast
qed

theorem epochs_tile_heights_witness:
  "containing (de_new 10) 19 = Some \<lparr>ei_epoch = 1, ei_height = 19, ei_first = 10, ei_last = 19\<rparr> \<and>
   is_last_block_of_epoch (containing (de_new 10)) 19"
proof -
  have ok: "segments_ok (de_segments (de_new 10))" by (simp add: segments_ok_def de_new_def)
  have b: "epoch_bounds (de_new 10) 1 = Some (10, 19)"
    by (simp add: epoch_bounds_def bounds_def de_new_def seg_bounds_def checked_mul_def checked_add_def)
  have "containing (de_new 10) 19 = Some \<lparr>ei_epoch = 1, ei_height = 19, ei_first = 10, ei_last = 19\<rparr>"
    using epochs_tile_heights [OF ok, of 19 "\<lparr>ei_epoch = 1, ei_height = 19, ei_first = 10, ei_last = 19\<rparr>"] b
    by auto
  then show ?thesis by (simp add: is_last_block_of_epoch_def)
qed

text \<open>C27. Registering a new epoch length changes nothing that can already be queried: the
  schedule stays well formed, the bounds of every epoch up to the next one and the epoch of
  every height are as before, and from two epochs ahead on the epochs have the new length.
  Advancing to a later epoch keeps the schedule well formed.\<close>

theorem update_length_future_only:
  assumes ok: "epocher_ok d" and n: "n \<noteq> 0" and u: "update_length n d = Inr d'"
    and e2: "unat e2 = unat (de_current_epoch d) + 2 + k" and b2: "bounds (de_segments d') e2 = Some (f, l)"
  shows "epocher_ok d' \<and> epoch_bounds d' e = epoch_bounds d e \<and> containing d' h = containing d h \<and>
    unat l + 1 - unat f = unat n \<and> (de_current_epoch d \<le> e' \<longrightarrow> epocher_ok (advance_epoch e' d'))"
proof -
  obtain s segs where s: "de_segments d' = segs @ [s]" "de_current_epoch d' = de_current_epoch d"
    "se s = unat (de_current_epoch d) + 2" "seg_length s = n" "segments_ok (segs @ [s])"
    "\<And>e. unat e < unat (de_current_epoch d) + 2 \<Longrightarrow> bounds (de_segments d) e = bounds segs e"
    using update_length_cases [OF ok n u] by metis
  have "unat (de_current_epoch d) + 2 < 2 ^ 64" using unat_less [of "seg_start_epoch s"] s(3) by simp
  then have cur: "unat (de_current_epoch d + 1) = unat (de_current_epoch d) + 1"
    by (subst unat_add_exact) simp_all
  have same: "epoch_bounds d' e = epoch_bounds d e" for e
  proof (cases "unat e < unat (de_current_epoch d) + 2")
    case True
    then have "bounds (segs @ [s]) e = bounds segs e"
      using s(3) by (intro bounds_skip_last) (simp add: word_less_nat_alt)
    then show ?thesis using True s by (simp add: epoch_bounds_def)
  next
    case False
    then show ?thesis using s cur by (simp add: epoch_bounds_def word_less_nat_alt)
  qed
  have "containing d' h = containing d h"
    by (rule dynamic.containing_determined) (use s ok same in \<open>simp_all add: epocher_ok_def\<close>)
  moreover have "seg_bounds s e2 = Some (f, l)"
    using b2 bounds_at_last [OF s(5), of e2] s(1,3) e2 by simp
  then have "unat l + 1 - unat f = unat n"
    using seg_bounds_iff [of s e2 f l] s(3,4) e2 n by simp
  moreover have "epocher_ok d'" "de_current_epoch d \<le> e' \<longrightarrow> epocher_ok (advance_epoch e' d')"
    using s by (simp_all add: epocher_ok_def advance_epoch_def word_le_nat_alt)
  ultimately show ?thesis using same by blast
qed

theorem update_length_future_only_witness:
  "case update_length 20 (de_new 10) of Inl _ \<Rightarrow> False
   | Inr d' \<Rightarrow> epocher_ok d' \<and> epoch_bounds d' 1 = epoch_bounds (de_new 10) 1"
proof -
  have ok: "epocher_ok (de_new 10)" by (simp add: epocher_ok_def segments_ok_def de_new_def)
  let ?d = "\<lparr>de_segments = [\<lparr>seg_start_epoch = 0, seg_start_height = 0, seg_length = 10\<rparr>,
      \<lparr>seg_start_epoch = 2, seg_start_height = 20, seg_length = 20\<rparr>], de_current_epoch = 0\<rparr>"
  have u: "update_length 20 (de_new 10) = Inr ?d"
    by (simp add: update_length_def de_new_def bounds_def seg_bounds_def checked_mul_def checked_add_def)
  have b: "bounds (de_segments ?d) 2 = Some (20, 39)"
    by (simp add: bounds_def seg_bounds_def checked_mul_def checked_add_def)
  have "unat (2 :: u64) = unat (de_current_epoch (de_new 10)) + 2 + 0" by (simp add: de_new_def)
  from update_length_future_only [OF ok _ u this b] show ?thesis by (simp add: u)
qed

end
