(* ===== verification/Checkpoint.thy ===== *)
theory Checkpoint
  imports Header
begin

text \<open>
  \<open>types/src/checkpoint.rs\<close>, the data of a checkpoint and its codec. A checkpoint carries the
  encoding of a consensus state and its SHA-256. The SSZ container of the two fields is the
  library's (\<open>checkpoint_container\<close> of \<open>wire\<close>). Shown: the decoder only returns checkpoints
  whose digest is that of their data, and reads back every checkpoint that fits the 32-bit
  length prefix.
\<close>

record checkpoint =
  ck_data :: "u8 list"
  ck_digest :: digest

definition checkpoint_of_data :: "crypto \<Rightarrow> u8 list \<Rightarrow> checkpoint" where
  "checkpoint_of_data c data = \<lparr>ck_data = data, ck_digest = sha256 c data\<rparr>"

definition checkpoint_ssz_append :: "wire \<Rightarrow> checkpoint \<Rightarrow> u8 list" where
  "checkpoint_ssz_append w ck = checkpoint_container w (ck_data ck) (ck_digest ck)"

definition checkpoint_ssz_bytes_len :: "checkpoint \<Rightarrow> nat" where
  "checkpoint_ssz_bytes_len ck = length (ck_data ck) + BYTES_PER_LENGTH_OFFSET + 32"

definition checkpoint_from_ssz_bytes :: "crypto \<Rightarrow> wire \<Rightarrow> u8 list \<Rightarrow> string + checkpoint" where
  "checkpoint_from_ssz_bytes c w bytes =
     (case checkpoint_fields w bytes of
        None \<Rightarrow> Inl ''invalid container''
      | Some (data, dg) \<Rightarrow>
          if sha256 c data \<noteq> dg then Inl ''checkpoint digest does not match sha256(data)''
          else Inr \<lparr>ck_data = data, ck_digest = dg\<rparr>)"

definition checkpoint_encode_size :: "checkpoint \<Rightarrow> nat" where
  "checkpoint_encode_size ck = checkpoint_ssz_bytes_len ck + BYTES_PER_LENGTH_OFFSET"

definition checkpoint_write :: "wire \<Rightarrow> checkpoint \<Rightarrow> u8 list" where
  "checkpoint_write w ck = prefixed (checkpoint_ssz_append w ck)"

definition checkpoint_read :: "crypto \<Rightarrow> wire \<Rightarrow> checkpoint reader" where
  "checkpoint_read c w =
     rbind get_be (\<lambda>len :: u32.
     rbind (at_least (unat len) (Invalid ''Checkpoint'' ''improper encoded length'')) (\<lambda>_.
     rbind (take_bytes (unat len)) (\<lambda>payload.
     case checkpoint_from_ssz_bytes c w payload of
       Inl _ \<Rightarrow> fail (Invalid ''Checkpoint'' ''Unable to decode SSZ bytes for checkpoint'')
     | Inr ck \<Rightarrow> ret ck)))"

definition checkpoint_ok :: "crypto \<Rightarrow> checkpoint \<Rightarrow> bool" where
  "checkpoint_ok c ck \<longleftrightarrow> ck_digest ck = sha256 c (ck_data ck) \<and> checkpoint_ssz_bytes_len ck < 2 ^ 32"

lemma checkpoint_digest_bound:
  assumes "checkpoint_read c w buf = Inr (ck, rest)"
  shows "ck_digest ck = sha256 c (ck_data ck)"
proof -
  obtain bs where "checkpoint_from_ssz_bytes c w bs = Inr ck"
    using assms by (auto simp: checkpoint_read_def reader_Inr case_sum_fail_Inr)
  then show ?thesis
    by (auto simp: checkpoint_from_ssz_bytes_def split: option.splits if_splits)
qed

lemma checkpoint_shorter:
  "checkpoint_read c w buf = Inr (ck, rest) \<Longrightarrow> length rest \<le> length buf"
  by (auto simp: checkpoint_read_def reader_Inr case_sum_fail_Inr get_be_Inr)

lemma checkpoint_write_size: "wire_ok c w \<Longrightarrow> length (checkpoint_write w ck) = checkpoint_encode_size ck"
  by (simp add: checkpoint_write_def prefixed_def checkpoint_ssz_append_def wire_checkpoint_length
      checkpoint_encode_size_def checkpoint_ssz_bytes_len_def BYTES_PER_LENGTH_OFFSET_def)

lemma checkpoint_reads:
  assumes w: "wire_ok c w" and ok: "checkpoint_ok c ck"
  shows "reads (checkpoint_read c w) ck (checkpoint_write w ck)"
proof -
  have len: "36 + length (ck_data ck) < 2 ^ 32" "length (checkpoint_ssz_append w ck) < 2 ^ 32"
    using ok by (simp_all add: checkpoint_ok_def checkpoint_ssz_bytes_len_def BYTES_PER_LENGTH_OFFSET_def
        checkpoint_ssz_append_def wire_checkpoint_length [OF w])
  have "checkpoint_from_ssz_bytes c w (checkpoint_ssz_append w ck) = Inr ck"
    using ok by (simp add: checkpoint_from_ssz_bytes_def checkpoint_ssz_append_def
        wire_checkpoint [OF w len(1)] checkpoint_ok_def)
  then show ?thesis
    by (simp add: reads_def checkpoint_read_def checkpoint_write_def prefixed_reads [OF len(2)] ret_def)
qed

interpretation checkpoint_codec: codec "checkpoint_write w" "checkpoint_read c w"
  "\<lambda>ck. wire_ok c w \<and> checkpoint_ok c ck" for c w
  by standard (blast intro: checkpoint_reads)

end
