(* ===== verification/Consensus_State.thy ===== *)
theory Consensus_State
  imports Checkpoint Ssz_Sync Dynamic_Epocher
begin

text \<open>
  \<open>types/src/consensus_state/mod.rs\<close>, the state itself: its fields, constructors, the setters
  that write a field and its leaf of the state tree, accounts, queues and the staged committee
  changes. The shared epocher handle is a value, so \<open>clone\<close> and its variants are copies.
  Operations that can panic return an option, \<open>None\<close> being the panic.

  Shown: how each primitive operation moves the contents the state tree commits to, so that the
  tree stays the one a rebuild would give. Two subtrees may lag behind while a batch is being
  processed (\<open>tree_ok\<close> says which), and the leaf of the epoch schedule is refreshed only when
  the root is captured.
\<close>

section \<open>The state\<close>

text \<open>\<open>ForkchoiceState\<close> of \<open>alloy_rpc_types_engine\<close>, three plain fields.\<close>

record forkchoice_state =
  fc_head_block_hash :: bytes32
  fc_safe_block_hash :: bytes32
  fc_finalized_block_hash :: bytes32

record consensus_state =
  cs_epoch :: u64
  cs_view :: u64
  cs_latest_height :: u64
  cs_head_digest :: digest
  cs_deposit_queue :: "deposit_request list"
  cs_withdrawal_queue :: withdrawal_queue
  cs_validator_accounts :: "(node_key, validator_account) btree"
  cs_protocol_param_changes :: "protocol_param list"
  cs_pending_checkpoint :: "checkpoint option"
  cs_added_validators :: "(u64, added_validator list) btree"
  cs_removed_validators :: "node_key list"
  cs_pending_execution_requests :: "u8 list list"
  cs_forkchoice :: forkchoice_state
  cs_epoch_genesis_hash :: bytes32
  cs_validator_minimum_stake :: u64
  cs_allowed_timestamp_future_ms :: u64
  cs_treasury_address :: address
  cs_max_deposits_per_epoch :: u64
  cs_max_withdrawals_per_epoch :: u64
  cs_observers_per_validator :: u32
  cs_max_validator_count :: u64
  cs_minimum_validator_count :: u64
  cs_pending_active_validator_exits :: u64
  cs_invalid_deposit_tax :: u64
  cs_max_pending_withdrawals_per_validator :: u64
  cs_epocher :: dynamic_epocher
  cs_ssz_tree :: state_tree
  cs_proof_tree :: state_tree
  cs_proof_validator_keys :: "node_key list"
  cs_state_root :: bytes32
  cs_proof_el_block_number :: u64
  cs_captured_bytes :: "u8 list option"

definition clone_with_epocher :: "dynamic_epocher \<Rightarrow> consensus_state \<Rightarrow> consensus_state" where
  "clone_with_epocher e s = s\<lparr>cs_epocher := e\<rparr>"

definition clone_with_shared_epocher :: "consensus_state \<Rightarrow> consensus_state" where
  "clone_with_shared_epocher s = clone_with_epocher (cs_epocher s) s"

definition cs_clone :: "consensus_state \<Rightarrow> consensus_state" where
  "cs_clone s = clone_with_epocher (snapshot (cs_epocher s)) s"

section \<open>The tree of a state\<close>

definition contents_of :: "consensus_state \<Rightarrow> contents" where
  "contents_of s =
     \<lparr>ct_epoch = cs_epoch s, ct_view = cs_view s, ct_latest_height = cs_latest_height s,
      ct_head_digest = cs_head_digest s, ct_epoch_genesis_hash = cs_epoch_genesis_hash s,
      ct_validator_minimum_stake = cs_validator_minimum_stake s,
      ct_allowed_timestamp_future_ms = cs_allowed_timestamp_future_ms s,
      ct_next_withdrawal_index = wq_next_index (cs_withdrawal_queue s),
      ct_forkchoice_head = fc_head_block_hash (cs_forkchoice s),
      ct_forkchoice_safe = fc_safe_block_hash (cs_forkchoice s),
      ct_forkchoice_finalized = fc_finalized_block_hash (cs_forkchoice s),
      ct_validator_accounts = cs_validator_accounts s, ct_deposit_queue = cs_deposit_queue s,
      ct_withdrawal_queue = cs_withdrawal_queue s,
      ct_protocol_param_changes = cs_protocol_param_changes s,
      ct_added_validators = cs_added_validators s, ct_removed_validators = cs_removed_validators s,
      ct_treasury_address = cs_treasury_address s,
      ct_max_deposits_per_epoch = cs_max_deposits_per_epoch s,
      ct_max_withdrawals_per_epoch = cs_max_withdrawals_per_epoch s,
      ct_observers_per_validator = cs_observers_per_validator s,
      ct_max_validator_count = cs_max_validator_count s,
      ct_pending_execution_requests = cs_pending_execution_requests s,
      ct_pending_checkpoint_digest = map_option ck_digest (cs_pending_checkpoint s),
      ct_dynamic_epoch_schedule = de_write (cs_epocher s),
      ct_minimum_validator_count = cs_minimum_validator_count s,
      ct_pending_active_validator_exits = cs_pending_active_validator_exits s,
      ct_invalid_deposit_tax = cs_invalid_deposit_tax s,
      ct_max_pending_withdrawals_per_validator = cs_max_pending_withdrawals_per_validator s\<rparr>"

definition rebuild_ssz_tree :: "crypto \<Rightarrow> consensus_state \<Rightarrow> consensus_state" where
  "rebuild_ssz_tree c s =
     (let t = rebuild c (contents_of s)
      in s\<lparr>cs_ssz_tree := t, cs_state_root := state_root t, cs_proof_tree := t,
           cs_proof_validator_keys := map fst (cs_validator_accounts s)\<rparr>)"

definition on_tree :: "(state_tree \<Rightarrow> state_tree) \<Rightarrow> consensus_state \<Rightarrow> consensus_state" where
  "on_tree f s = s\<lparr>cs_ssz_tree := f (cs_ssz_tree s)\<rparr>"

section \<open>Constructors\<close>

definition DEFAULT_MINIMUM_VALIDATOR_COUNT :: u64 where
  "DEFAULT_MINIMUM_VALIDATOR_COUNT = 3"

definition DEFAULT_MAX_PENDING_WITHDRAWALS_PER_VALIDATOR :: u64 where
  "DEFAULT_MAX_PENDING_WITHDRAWALS_PER_VALIDATOR = 3"

definition DEFAULT_MAX_VALIDATOR_COUNT :: u64 where
  "DEFAULT_MAX_VALIDATOR_COUNT = 128"

definition consensus_state_new ::
  "crypto \<Rightarrow> forkchoice_state \<Rightarrow> u64 \<Rightarrow> u64 \<Rightarrow> u64 \<Rightarrow> address \<Rightarrow> u64 \<Rightarrow> u64 \<Rightarrow> u32 \<Rightarrow> u64
     \<Rightarrow> u64 \<Rightarrow> u64 \<Rightarrow> u64 \<Rightarrow> consensus_state" where
  "consensus_state_new c forkchoice validator_minimum_stake epoch_length allowed_timestamp_future_ms
     treasury_address max_deposits_per_epoch max_withdrawals_per_epoch observers_per_validator
     max_validator_count minimum_validator_count invalid_deposit_tax
     max_pending_withdrawals_per_validator =
     rebuild_ssz_tree c
     \<lparr>cs_epoch = 0, cs_view = 0, cs_latest_height = 0,
      cs_head_digest = fc_head_block_hash forkchoice,
      cs_deposit_queue = [], cs_withdrawal_queue = wq_default, cs_validator_accounts = [],
      cs_protocol_param_changes = [], cs_pending_checkpoint = None, cs_added_validators = [],
      cs_removed_validators = [], cs_pending_execution_requests = [], cs_forkchoice = forkchoice,
      cs_epoch_genesis_hash = fc_head_block_hash forkchoice,
      cs_validator_minimum_stake = validator_minimum_stake,
      cs_allowed_timestamp_future_ms = allowed_timestamp_future_ms,
      cs_treasury_address = treasury_address, cs_max_deposits_per_epoch = max_deposits_per_epoch,
      cs_max_withdrawals_per_epoch = max_withdrawals_per_epoch,
      cs_observers_per_validator = observers_per_validator,
      cs_max_validator_count = max_validator_count,
      cs_minimum_validator_count = minimum_validator_count, cs_pending_active_validator_exits = 0,
      cs_invalid_deposit_tax = invalid_deposit_tax,
      cs_max_pending_withdrawals_per_validator = max_pending_withdrawals_per_validator,
      cs_epocher = de_new epoch_length, cs_ssz_tree = state_tree_new c,
      cs_proof_tree = state_tree_new c, cs_proof_validator_keys = [], cs_state_root = 0,
      cs_proof_el_block_number = 0, cs_captured_bytes = None\<rparr>"

definition consensus_state_default :: "crypto \<Rightarrow> consensus_state" where
  "consensus_state_default c =
     consensus_state_new c
       \<lparr>fc_head_block_hash = 0, fc_safe_block_hash = 0, fc_finalized_block_hash = 0\<rparr>
       32000000000 1 MIN_ALLOWED_TIMESTAMP_FUTURE_MS 0 3 16 0 DEFAULT_MAX_VALIDATOR_COUNT
       DEFAULT_MINIMUM_VALIDATOR_COUNT 0 DEFAULT_MAX_PENDING_WITHDRAWALS_PER_VALIDATOR"

section \<open>Scalar setters\<close>

definition set_epoch :: "crypto \<Rightarrow> u64 \<Rightarrow> consensus_state \<Rightarrow> consensus_state" where
  "set_epoch c epoch s = on_tree (tree_set_epoch c epoch) (s\<lparr>cs_epoch := epoch\<rparr>)"

definition set_view :: "crypto \<Rightarrow> u64 \<Rightarrow> consensus_state \<Rightarrow> consensus_state" where
  "set_view c view s = on_tree (tree_set_view c view) (s\<lparr>cs_view := view\<rparr>)"

definition set_latest_height :: "crypto \<Rightarrow> u64 \<Rightarrow> consensus_state \<Rightarrow> consensus_state" where
  "set_latest_height c height s =
     on_tree (tree_set_latest_height c height) (s\<lparr>cs_latest_height := height\<rparr>)"

definition set_minimum_stake :: "crypto \<Rightarrow> u64 \<Rightarrow> consensus_state \<Rightarrow> consensus_state" where
  "set_minimum_stake c stake s =
     on_tree (tree_set_validator_minimum_stake c stake) (s\<lparr>cs_validator_minimum_stake := stake\<rparr>)"

definition set_allowed_timestamp_future_ms :: "crypto \<Rightarrow> u64 \<Rightarrow> consensus_state \<Rightarrow> consensus_state" where
  "set_allowed_timestamp_future_ms c ms s =
     on_tree (tree_set_allowed_timestamp_future_ms c ms) (s\<lparr>cs_allowed_timestamp_future_ms := ms\<rparr>)"

definition set_max_deposits_per_epoch :: "crypto \<Rightarrow> u64 \<Rightarrow> consensus_state \<Rightarrow> consensus_state" where
  "set_max_deposits_per_epoch c v s =
     on_tree (tree_set_max_deposits_per_epoch c v) (s\<lparr>cs_max_deposits_per_epoch := v\<rparr>)"

definition set_max_withdrawals_per_epoch :: "crypto \<Rightarrow> u64 \<Rightarrow> consensus_state \<Rightarrow> consensus_state" where
  "set_max_withdrawals_per_epoch c v s =
     on_tree (tree_set_max_withdrawals_per_epoch c v) (s\<lparr>cs_max_withdrawals_per_epoch := v\<rparr>)"

definition set_observers_per_validator :: "crypto \<Rightarrow> u32 \<Rightarrow> consensus_state \<Rightarrow> consensus_state" where
  "set_observers_per_validator c v s =
     on_tree (tree_set_observers_per_validator c v) (s\<lparr>cs_observers_per_validator := v\<rparr>)"

definition set_max_validator_count :: "crypto \<Rightarrow> u64 \<Rightarrow> consensus_state \<Rightarrow> consensus_state" where
  "set_max_validator_count c v s =
     on_tree (tree_set_max_validator_count c v) (s\<lparr>cs_max_validator_count := v\<rparr>)"

definition set_max_pending_withdrawals_per_validator ::
  "crypto \<Rightarrow> u64 \<Rightarrow> consensus_state \<Rightarrow> consensus_state" where
  "set_max_pending_withdrawals_per_validator c v s =
     on_tree (tree_set_max_pending_withdrawals_per_validator c v)
       (s\<lparr>cs_max_pending_withdrawals_per_validator := v\<rparr>)"

definition set_minimum_validator_count :: "crypto \<Rightarrow> u64 \<Rightarrow> consensus_state \<Rightarrow> consensus_state" where
  "set_minimum_validator_count c v s =
     on_tree (tree_set_minimum_validator_count c v) (s\<lparr>cs_minimum_validator_count := v\<rparr>)"

definition set_pending_active_validator_exits :: "crypto \<Rightarrow> u64 \<Rightarrow> consensus_state \<Rightarrow> consensus_state" where
  "set_pending_active_validator_exits c v s =
     on_tree (tree_set_pending_active_validator_exits c v) (s\<lparr>cs_pending_active_validator_exits := v\<rparr>)"

definition increment_pending_active_validator_exits :: "crypto \<Rightarrow> consensus_state \<Rightarrow> consensus_state" where
  "increment_pending_active_validator_exits c s =
     set_pending_active_validator_exits c (saturating_add (cs_pending_active_validator_exits s) 1) s"

definition reset_pending_active_validator_exits :: "crypto \<Rightarrow> consensus_state \<Rightarrow> consensus_state" where
  "reset_pending_active_validator_exits c s = set_pending_active_validator_exits c 0 s"

definition set_invalid_deposit_tax :: "crypto \<Rightarrow> u64 \<Rightarrow> consensus_state \<Rightarrow> consensus_state" where
  "set_invalid_deposit_tax c v s =
     on_tree (tree_set_invalid_deposit_tax c v) (s\<lparr>cs_invalid_deposit_tax := v\<rparr>)"

definition set_treasury_address :: "crypto \<Rightarrow> address \<Rightarrow> consensus_state \<Rightarrow> consensus_state" where
  "set_treasury_address c v s =
     on_tree (tree_set_treasury_address c v) (s\<lparr>cs_treasury_address := v\<rparr>)"

definition set_next_withdrawal_index :: "crypto \<Rightarrow> u64 \<Rightarrow> consensus_state \<Rightarrow> consensus_state" where
  "set_next_withdrawal_index c index s =
     on_tree (tree_set_next_withdrawal_index c index)
       (s\<lparr>cs_withdrawal_queue := set_next_index index (cs_withdrawal_queue s)\<rparr>)"

definition set_pending_checkpoint :: "crypto \<Rightarrow> checkpoint option \<Rightarrow> consensus_state \<Rightarrow> consensus_state" where
  "set_pending_checkpoint c ck s =
     on_tree (tree_set_pending_checkpoint_digest c (map_option ck_digest ck))
       (s\<lparr>cs_pending_checkpoint := ck\<rparr>)"

definition take_pending_checkpoint :: "crypto \<Rightarrow> consensus_state \<Rightarrow> checkpoint option \<times> consensus_state" where
  "take_pending_checkpoint c s =
     (cs_pending_checkpoint s,
      on_tree (tree_set_pending_checkpoint_digest c None) (s\<lparr>cs_pending_checkpoint := None\<rparr>))"

definition set_forkchoice :: "crypto \<Rightarrow> forkchoice_state \<Rightarrow> consensus_state \<Rightarrow> consensus_state" where
  "set_forkchoice c fc s =
     on_tree (tree_set_forkchoice_finalized_block_hash c (fc_finalized_block_hash fc)
       \<circ> tree_set_forkchoice_safe_block_hash c (fc_safe_block_hash fc)
       \<circ> tree_set_forkchoice_head_block_hash c (fc_head_block_hash fc)) (s\<lparr>cs_forkchoice := fc\<rparr>)"

definition set_forkchoice_head :: "crypto \<Rightarrow> bytes32 \<Rightarrow> consensus_state \<Rightarrow> consensus_state" where
  "set_forkchoice_head c h s =
     on_tree (tree_set_forkchoice_head_block_hash c h)
       (s\<lparr>cs_forkchoice := (cs_forkchoice s)\<lparr>fc_head_block_hash := h\<rparr>\<rparr>)"

definition set_forkchoice_safe_and_finalized :: "crypto \<Rightarrow> bytes32 \<Rightarrow> consensus_state \<Rightarrow> consensus_state" where
  "set_forkchoice_safe_and_finalized c h s =
     on_tree (tree_set_forkchoice_finalized_block_hash c h \<circ> tree_set_forkchoice_safe_block_hash c h)
       (s\<lparr>cs_forkchoice := (cs_forkchoice s)\<lparr>fc_safe_block_hash := h, fc_finalized_block_hash := h\<rparr>\<rparr>)"

definition set_epoch_genesis_hash :: "crypto \<Rightarrow> bytes32 \<Rightarrow> consensus_state \<Rightarrow> consensus_state" where
  "set_epoch_genesis_hash c h s =
     on_tree (tree_set_epoch_genesis_hash c h) (s\<lparr>cs_epoch_genesis_hash := h\<rparr>)"

definition set_head_digest :: "crypto \<Rightarrow> digest \<Rightarrow> consensus_state \<Rightarrow> consensus_state" where
  "set_head_digest c d s = on_tree (tree_set_head_digest c d) (s\<lparr>cs_head_digest := d\<rparr>)"

lemmas setter_defs =
  set_epoch_def set_view_def set_latest_height_def set_minimum_stake_def
  set_allowed_timestamp_future_ms_def set_max_deposits_per_epoch_def
  set_max_withdrawals_per_epoch_def set_observers_per_validator_def set_max_validator_count_def
  set_max_pending_withdrawals_per_validator_def set_minimum_validator_count_def
  set_pending_active_validator_exits_def increment_pending_active_validator_exits_def
  reset_pending_active_validator_exits_def set_invalid_deposit_tax_def set_treasury_address_def
  set_next_withdrawal_index_def set_pending_checkpoint_def take_pending_checkpoint_def
  set_forkchoice_def set_forkchoice_head_def set_forkchoice_safe_and_finalized_def
  set_epoch_genesis_hash_def set_head_digest_def on_tree_def

section \<open>Queued parameter changes\<close>

primrec find_map :: "('a \<Rightarrow> 'b option) \<Rightarrow> 'a list \<Rightarrow> 'b option" where
  "find_map f [] = None"
| "find_map f (x # xs) = (case f x of Some y \<Rightarrow> Some y | None \<Rightarrow> find_map f xs)"

fun minimum_stake_of :: "protocol_param \<Rightarrow> u64 option" where
  "minimum_stake_of (MinimumStake v) = Some v"
| "minimum_stake_of _ = None"

fun minimum_validator_count_of :: "protocol_param \<Rightarrow> u64 option" where
  "minimum_validator_count_of (MinimumValidatorCount v) = Some v"
| "minimum_validator_count_of _ = None"

fun max_validator_count_of :: "protocol_param \<Rightarrow> u64 option" where
  "max_validator_count_of (MaxValidatorCount v) = Some v"
| "max_validator_count_of _ = None"

fun observers_per_validator_of :: "protocol_param \<Rightarrow> u64 option" where
  "observers_per_validator_of (ObserversPerValidator v) = Some v"
| "observers_per_validator_of _ = None"

definition last_queued :: "(protocol_param \<Rightarrow> 'v option) \<Rightarrow> protocol_param list \<Rightarrow> 'v \<Rightarrow> 'v" where
  "last_queued f ps current = (case find_map f (rev ps) of Some v \<Rightarrow> v | None \<Rightarrow> current)"

definition prospective_minimum_stake :: "consensus_state \<Rightarrow> u64" where
  "prospective_minimum_stake s =
     last_queued minimum_stake_of (cs_protocol_param_changes s) (cs_validator_minimum_stake s)"

definition prospective_minimum_validator_count :: "consensus_state \<Rightarrow> u64" where
  "prospective_minimum_validator_count s =
     last_queued minimum_validator_count_of (cs_protocol_param_changes s) (cs_minimum_validator_count s)"

definition prospective_max_validator_count :: "consensus_state \<Rightarrow> u64" where
  "prospective_max_validator_count s =
     last_queued max_validator_count_of (cs_protocol_param_changes s) (cs_max_validator_count s)"

text \<open>\<open>None\<close> is the failed conversion to \<open>u32\<close>.\<close>

definition prospective_observers_per_validator :: "consensus_state \<Rightarrow> u32 option" where
  "prospective_observers_per_validator s =
     (case find_map observers_per_validator_of (rev (cs_protocol_param_changes s)) of
        Some v \<Rightarrow> if unat v < 2 ^ 32 then Some (ucast v) else None
      | None \<Rightarrow> Some (cs_observers_per_validator s))"

definition count_status :: "(validator_status \<Rightarrow> bool) \<Rightarrow> consensus_state \<Rightarrow> u64" where
  "count_status P s =
     word_of_nat (length (filter (\<lambda>e. P (va_status (snd e))) (cs_validator_accounts s)))"

definition current_epoch_active_validator_count :: "consensus_state \<Rightarrow> u64" where
  "current_epoch_active_validator_count = count_status (\<lambda>st. st = Active \<or> st = SubmittedExitRequest)"

definition active_or_joining_validator_count :: "consensus_state \<Rightarrow> u64" where
  "active_or_joining_validator_count = count_status (\<lambda>st. st = Active \<or> st = Joining)"

definition can_accept_active_validator_exit :: "consensus_state \<Rightarrow> bool" where
  "can_accept_active_validator_exit s \<longleftrightarrow>
     prospective_minimum_validator_count s
       \<le> saturating_sub (current_epoch_active_validator_count s)
            (saturating_add (cs_pending_active_validator_exits s) 1)"

definition is_max_validator_count :: "protocol_param \<Rightarrow> bool" where
  "is_max_validator_count p \<longleftrightarrow> max_validator_count_of p \<noteq> None"

definition is_minimum_validator_count :: "protocol_param \<Rightarrow> bool" where
  "is_minimum_validator_count p \<longleftrightarrow> minimum_validator_count_of p \<noteq> None"

text \<open>The two steps of \<open>reject_invalid_validator_count_changes\<close> on the queue, and the rebuild of the
  subtree when the queue became shorter.\<close>

definition reject_low_cap :: "consensus_state \<Rightarrow> protocol_param list" where
  "reject_low_cap s =
     (if prospective_minimum_validator_count s \<le> prospective_max_validator_count s
         \<and> list_ex is_max_validator_count (cs_protocol_param_changes s)
         \<and> prospective_max_validator_count s < active_or_joining_validator_count s
      then filter (\<lambda>p. \<not> is_max_validator_count p) (cs_protocol_param_changes s)
      else cs_protocol_param_changes s)"

definition reject_conflicting :: "u64 \<Rightarrow> consensus_state \<Rightarrow> protocol_param list" where
  "reject_conflicting minimum s =
     (if prospective_max_validator_count s < minimum
      then filter (\<lambda>p. \<not> (is_minimum_validator_count p \<or> is_max_validator_count p))
             (cs_protocol_param_changes s)
      else cs_protocol_param_changes s)"

definition set_param_changes :: "crypto \<Rightarrow> protocol_param list \<Rightarrow> consensus_state \<Rightarrow> consensus_state" where
  "set_param_changes c ps s =
     on_tree (rebuild_protocol_params c ps) (s\<lparr>cs_protocol_param_changes := ps\<rparr>)"

definition reject_invalid_validator_count_changes :: "crypto \<Rightarrow> consensus_state \<Rightarrow> consensus_state" where
  "reject_invalid_validator_count_changes c s =
     (let minimum = prospective_minimum_validator_count s;
          s1 = s\<lparr>cs_protocol_param_changes := reject_low_cap s\<rparr>;
          ps = reject_conflicting minimum s1
      in if length ps \<noteq> length (cs_protocol_param_changes s) then set_param_changes c ps s
         else s\<lparr>cs_protocol_param_changes := ps\<rparr>)"

definition push_protocol_param_change :: "crypto \<Rightarrow> protocol_param \<Rightarrow> consensus_state \<Rightarrow> consensus_state" where
  "push_protocol_param_change c p s = set_param_changes c (cs_protocol_param_changes s @ [p]) s"

definition push_protocol_param_changes ::
  "crypto \<Rightarrow> protocol_param list \<Rightarrow> consensus_state \<Rightarrow> consensus_state" where
  "push_protocol_param_changes c ps s =
     (let changes = cs_protocol_param_changes s @ ps
      in if length changes \<noteq> length (cs_protocol_param_changes s) then set_param_changes c changes s
         else s\<lparr>cs_protocol_param_changes := changes\<rparr>)"

section \<open>Staged committee changes\<close>

definition set_added_validators ::
  "crypto \<Rightarrow> (u64, added_validator list) btree \<Rightarrow> consensus_state \<Rightarrow> consensus_state" where
  "set_added_validators c m s =
     on_tree (rebuild_added_validators c m) (s\<lparr>cs_added_validators := m\<rparr>)"

definition get_added_validators :: "consensus_state \<Rightarrow> u64 \<Rightarrow> added_validator list option" where
  "get_added_validators s epoch = bt_get (cs_added_validators s) epoch"

definition has_added_validators :: "consensus_state \<Rightarrow> u64 \<Rightarrow> bool" where
  "has_added_validators s epoch \<longleftrightarrow> get_added_validators s epoch \<noteq> None"

definition add_validator :: "crypto \<Rightarrow> u64 \<Rightarrow> added_validator \<Rightarrow> consensus_state \<Rightarrow> consensus_state" where
  "add_validator c epoch v s =
     (let vs = (case get_added_validators s epoch of None \<Rightarrow> [] | Some vs \<Rightarrow> vs)
      in set_added_validators c (bt_insert epoch (vs @ [v]) (cs_added_validators s)) s)"

definition remove_added_validators_for_epoch ::
  "crypto \<Rightarrow> u64 \<Rightarrow> consensus_state \<Rightarrow> added_validator list option \<times> consensus_state" where
  "remove_added_validators_for_epoch c epoch s =
     (case get_added_validators s epoch of
        None \<Rightarrow> (None, s)
      | Some vs \<Rightarrow> (Some vs, set_added_validators c (bt_remove epoch (cs_added_validators s)) s))"

definition remove_nth :: "nat \<Rightarrow> 'a list \<Rightarrow> 'a list" where
  "remove_nth i xs = take i xs @ drop (Suc i) xs"

definition remove_added_validator :: "crypto \<Rightarrow> u64 \<Rightarrow> node_key \<Rightarrow> consensus_state \<Rightarrow> bool \<times> consensus_state" where
  "remove_added_validator c epoch pubkey s =
     (case get_added_validators s epoch of
        None \<Rightarrow> (False, s)
      | Some vs \<Rightarrow>
          (case position (\<lambda>v. av_node_key v = pubkey) vs of
             None \<Rightarrow> (False, s)
           | Some pos \<Rightarrow>
               let vs' = remove_nth pos vs;
                   m = bt_insert epoch vs' (cs_added_validators s);
                   m' = (if vs' = [] then bt_remove epoch m else m)
               in (True, set_added_validators c m' s)))"

definition set_removed_validators :: "crypto \<Rightarrow> node_key list \<Rightarrow> consensus_state \<Rightarrow> consensus_state" where
  "set_removed_validators c vs s =
     on_tree (rebuild_removed_validators c vs) (s\<lparr>cs_removed_validators := vs\<rparr>)"

definition push_removed_validator :: "crypto \<Rightarrow> node_key \<Rightarrow> consensus_state \<Rightarrow> consensus_state" where
  "push_removed_validator c pubkey s = set_removed_validators c (cs_removed_validators s @ [pubkey]) s"

definition clear_removed_validators :: "crypto \<Rightarrow> consensus_state \<Rightarrow> consensus_state" where
  "clear_removed_validators c s = set_removed_validators c [] s"

section \<open>Buffered execution requests\<close>

definition set_pending_requests :: "crypto \<Rightarrow> u8 list list \<Rightarrow> consensus_state \<Rightarrow> consensus_state" where
  "set_pending_requests c rs s =
     on_tree (rebuild_pending_execution_requests c rs) (s\<lparr>cs_pending_execution_requests := rs\<rparr>)"

definition take_pending_execution_requests ::
  "crypto \<Rightarrow> consensus_state \<Rightarrow> u8 list list \<times> consensus_state" where
  "take_pending_execution_requests c s = (cs_pending_execution_requests s, set_pending_requests c [] s)"

definition push_pending_execution_request :: "crypto \<Rightarrow> u8 list \<Rightarrow> consensus_state \<Rightarrow> consensus_state" where
  "push_pending_execution_request c r s =
     set_pending_requests c (cs_pending_execution_requests s @ [r]) s"

definition buffer_execution_requests :: "crypto \<Rightarrow> u8 list list \<Rightarrow> consensus_state \<Rightarrow> consensus_state" where
  "buffer_execution_requests c rs s =
     (if rs = [] then s else set_pending_requests c (cs_pending_execution_requests s @ rs) s)"

section \<open>Accounts\<close>

abbreviation get_account :: "consensus_state \<Rightarrow> node_key \<Rightarrow> validator_account option" where
  "get_account s k \<equiv> bt_get (cs_validator_accounts s) k"

text \<open>The key was just inserted, so its position exists (\<open>bt_position_insert\<close>).\<close>

definition set_account :: "crypto \<Rightarrow> node_key \<Rightarrow> validator_account \<Rightarrow> consensus_state \<Rightarrow> consensus_state" where
  "set_account c pubkey account s =
     (let is_update = get_account s pubkey \<noteq> None;
          m = bt_insert pubkey account (cs_validator_accounts s);
          slot = the (bt_position pubkey m)
      in on_tree (if is_update then update_validator_at_slot c slot pubkey account
                  else insert_validator_at_slot c slot pubkey account)
           (s\<lparr>cs_validator_accounts := m\<rparr>))"

definition remove_account ::
  "crypto \<Rightarrow> node_key \<Rightarrow> consensus_state \<Rightarrow> (validator_account option \<times> consensus_state) option" where
  "remove_account c pubkey s =
     (let removed = get_account s pubkey;
          s1 = s\<lparr>cs_validator_accounts := bt_remove pubkey (cs_validator_accounts s)\<rparr>
      in case (bt_position pubkey (cs_validator_accounts s), removed) of
           (Some slot, Some _) \<Rightarrow>
             (case remove_validator_at_slot c slot (cs_ssz_tree s) of
                None \<Rightarrow> None
              | Some t \<Rightarrow> Some (removed, s1\<lparr>cs_ssz_tree := t\<rparr>))
         | _ \<Rightarrow> Some (removed, s1))"

definition set_validator_accounts ::
  "crypto \<Rightarrow> (node_key, validator_account) btree \<Rightarrow> consensus_state \<Rightarrow> consensus_state" where
  "set_validator_accounts c accounts s = rebuild_ssz_tree c (s\<lparr>cs_validator_accounts := accounts\<rparr>)"

text \<open>The validator lists: the accounts whose status satisfies the predicate, in key order, so the
  final sort changes nothing. \<open>None\<close> is a key that does not decode.\<close>

definition keys_where ::
  "crypto \<Rightarrow> (validator_status \<Rightarrow> bool) \<Rightarrow> consensus_state \<Rightarrow> (node_key \<times> bls_key) list option" where
  "keys_where c P s =
     (let es = filter (\<lambda>e. P (va_status (snd e))) (cs_validator_accounts s)
      in if list_all (\<lambda>e. ed_key_ok c (fst e)) es
         then Some (sort_key fst (map (\<lambda>e. (fst e, va_consensus_public_key (snd e))) es))
         else None)"

definition get_validator_keys :: "crypto \<Rightarrow> consensus_state \<Rightarrow> (node_key \<times> bls_key) list option" where
  "get_validator_keys c = keys_where c (\<lambda>st. \<not> is_out_of_committee st)"

definition get_active_validators :: "crypto \<Rightarrow> consensus_state \<Rightarrow> (node_key \<times> bls_key) list option" where
  "get_active_validators c = keys_where c (\<lambda>st. st = Active)"

definition get_current_epoch_validators :: "crypto \<Rightarrow> consensus_state \<Rightarrow> (node_key \<times> bls_key) list option" where
  "get_current_epoch_validators c = keys_where c is_current_epoch_signer"

definition get_active_or_joining_validators :: "crypto \<Rightarrow> consensus_state \<Rightarrow> (node_key \<times> bls_key) list option" where
  "get_active_or_joining_validators c = keys_where c (\<lambda>st. st = Active \<or> st = Joining)"

section \<open>Deposit and withdrawal queues\<close>

definition cs_push_deposit :: "crypto \<Rightarrow> deposit_request \<Rightarrow> consensus_state \<Rightarrow> consensus_state" where
  "cs_push_deposit c r s =
     (on_tree (tree_push_deposit c r) s)\<lparr>cs_deposit_queue := cs_deposit_queue s @ [r]\<rparr>"

definition cs_pop_deposit :: "crypto \<Rightarrow> consensus_state \<Rightarrow> deposit_request option \<times> consensus_state" where
  "cs_pop_deposit c s =
     (case cs_deposit_queue s of
        [] \<Rightarrow> (None, s)
      | r # rs \<Rightarrow> (Some r, on_tree (tree_pop_deposit c rs) (s\<lparr>cs_deposit_queue := rs\<rparr>)))"

definition pop_deposit_deferred :: "consensus_state \<Rightarrow> deposit_request option \<times> consensus_state" where
  "pop_deposit_deferred s =
     (case cs_deposit_queue s of
        [] \<Rightarrow> (None, s) | r # rs \<Rightarrow> (Some r, s\<lparr>cs_deposit_queue := rs\<rparr>))"

definition rebuild_deposit_tree :: "crypto \<Rightarrow> consensus_state \<Rightarrow> consensus_state" where
  "rebuild_deposit_tree c s = on_tree (rebuild_deposits c (cs_deposit_queue s)) s"

definition rebuild_withdrawal_tree :: "crypto \<Rightarrow> consensus_state \<Rightarrow> consensus_state" where
  "rebuild_withdrawal_tree c s = on_tree (rebuild_withdrawals c (cs_withdrawal_queue s)) s"

text \<open>The returned flag says that a rebuild was deferred. The queue entry was just pushed, so
  \<open>back\<close> exists.\<close>

definition push_withdrawal_request_with_kind ::
  "crypto \<Rightarrow> withdrawal_request \<Rightarrow> u64 \<Rightarrow> withdrawal_kind \<Rightarrow> bool \<Rightarrow> consensus_state \<Rightarrow> bool \<times> consensus_state" where
  "push_withdrawal_request_with_kind c request withdrawal_epoch kind defer_rebuild s =
     (let q = push_request_with_kind request withdrawal_epoch kind (cs_withdrawal_queue s);
          s1 = on_tree (tree_set_next_withdrawal_index c (wq_next_index q)) (s\<lparr>cs_withdrawal_queue := q\<rparr>)
      in if kind = Validator \<and> wq_back q DepositRefund \<noteq> None
         then (if defer_rebuild then (True, s1) else (False, on_tree (rebuild_withdrawals c q) s1))
         else (False, on_tree (tree_push_withdrawal c (the (wq_back q kind))) s1))"

definition push_withdrawal_request :: "crypto \<Rightarrow> withdrawal_request \<Rightarrow> u64 \<Rightarrow> consensus_state \<Rightarrow> consensus_state" where
  "push_withdrawal_request c request epoch s =
     snd (push_withdrawal_request_with_kind c request epoch Validator False s)"

definition push_refund_withdrawal_request ::
  "crypto \<Rightarrow> withdrawal_request \<Rightarrow> u64 \<Rightarrow> consensus_state \<Rightarrow> consensus_state" where
  "push_refund_withdrawal_request c request epoch s =
     snd (push_withdrawal_request_with_kind c request epoch DepositRefund False s)"

definition cs_push_withdrawal :: "crypto \<Rightarrow> pending_withdrawal \<Rightarrow> consensus_state \<Rightarrow> consensus_state" where
  "cs_push_withdrawal c w s =
     (let q = wq_push w (cs_withdrawal_queue s)
      in on_tree (rebuild_withdrawals c q) (s\<lparr>cs_withdrawal_queue := q\<rparr>))"

definition cs_pop_withdrawal :: "crypto \<Rightarrow> u64 \<Rightarrow> consensus_state \<Rightarrow> pending_withdrawal option \<times> consensus_state" where
  "cs_pop_withdrawal c epoch s =
     (case wq_pop epoch (cs_withdrawal_queue s) of
        (None, q) \<Rightarrow> (None, s\<lparr>cs_withdrawal_queue := q\<rparr>)
      | (Some w, q) \<Rightarrow> (Some w, on_tree (rebuild_withdrawals c q) (s\<lparr>cs_withdrawal_queue := q\<rparr>)))"

section \<open>The tree follows the state\<close>

text \<open>\<open>tree_ok c dep wd s\<close>: the accounts are in key order and the tree is the tree of the state's
  contents, but for the leaf of the epoch schedule and, when \<open>dep\<close> or \<open>wd\<close> is set, the deposit or
  withdrawal subtree, which then is the tree of some other queue.\<close>

definition tree_contents :: "deposit_request list \<Rightarrow> withdrawal_queue \<Rightarrow> u8 list \<Rightarrow> consensus_state \<Rightarrow> contents" where
  "tree_contents ds q bs s =
     (contents_of s)\<lparr>ct_deposit_queue := ds, ct_withdrawal_queue := q, ct_dynamic_epoch_schedule := bs\<rparr>"

definition tree_ok :: "crypto \<Rightarrow> bool \<Rightarrow> bool \<Rightarrow> consensus_state \<Rightarrow> bool" where
  "tree_ok c dep wd s \<longleftrightarrow>
     zero_hashes_ok c \<and> bt_ok (cs_validator_accounts s) \<and>
     (\<exists>ds q bs. (\<not> dep \<longrightarrow> ds = cs_deposit_queue s) \<and>
        (\<not> wd \<longrightarrow> iter_all q = iter_all (cs_withdrawal_queue s)) \<and>
        in_sync c (tree_contents ds q bs s) (cs_ssz_tree s))"

lemma tree_ok_zero: "tree_ok c d w s \<Longrightarrow> zero_hashes_ok c"
  and tree_ok_accounts: "tree_ok c d w s \<Longrightarrow> bt_ok (cs_validator_accounts s)"
  by (simp_all add: tree_ok_def)

lemma in_sync_queue:
  "iter_all q = iter_all q' \<Longrightarrow>
     in_sync c (v\<lparr>ct_withdrawal_queue := q\<rparr>) t \<longleftrightarrow> in_sync c (v\<lparr>ct_withdrawal_queue := q'\<rparr>) t"
  by (simp add: in_sync_def trees_in_sync_def top_leaves_def)

text \<open>An operation that writes other fields than the two queues.\<close>

lemma tree_ok_update:
  assumes s: "tree_ok c d w s"
    and t: "\<And>v. in_sync c v (cs_ssz_tree s) \<Longrightarrow> ct_validator_accounts v = cs_validator_accounts s \<Longrightarrow>
      in_sync c (f v) (cs_ssz_tree s')"
    and f: "\<And>ds q bs. tree_contents ds q bs s' = f (tree_contents ds q bs s)"
    and keep: "bt_ok (cs_validator_accounts s')" "cs_deposit_queue s' = cs_deposit_queue s"
      "iter_all (cs_withdrawal_queue s') = iter_all (cs_withdrawal_queue s)"
  shows "tree_ok c d w s'"
proof -
  obtain ds q bs where q: "\<not> d \<longrightarrow> ds = cs_deposit_queue s"
    "\<not> w \<longrightarrow> iter_all q = iter_all (cs_withdrawal_queue s)"
    and i: "in_sync c (tree_contents ds q bs s) (cs_ssz_tree s)"
    using s by (auto simp: tree_ok_def)
  have "in_sync c (tree_contents ds q bs s') (cs_ssz_tree s')"
    unfolding f by (rule t [OF i]) (simp add: tree_contents_def contents_of_def)
  with q keep tree_ok_zero [OF s] show ?thesis by (auto simp: tree_ok_def)
qed

lemmas contents_defs = tree_contents_def contents_of_def

lemma setters_tree_ok:
  assumes "tree_ok c d w s"
  shows "tree_ok c d w (set_epoch c e s)" "tree_ok c d w (set_view c e s)"
    "tree_ok c d w (set_latest_height c e s)" "tree_ok c d w (set_minimum_stake c e s)"
    "tree_ok c d w (set_allowed_timestamp_future_ms c e s)"
    "tree_ok c d w (set_max_deposits_per_epoch c e s)"
    "tree_ok c d w (set_max_withdrawals_per_epoch c e s)"
    "tree_ok c d w (set_observers_per_validator c n s)"
    "tree_ok c d w (set_max_validator_count c e s)"
    "tree_ok c d w (set_max_pending_withdrawals_per_validator c e s)"
    "tree_ok c d w (set_minimum_validator_count c e s)"
    "tree_ok c d w (set_pending_active_validator_exits c e s)"
    "tree_ok c d w (set_invalid_deposit_tax c e s)" "tree_ok c d w (set_treasury_address c a s)"
    "tree_ok c d w (set_next_withdrawal_index c e s)"
    "tree_ok c d w (set_pending_checkpoint c ck s)"
    "tree_ok c d w (set_epoch_genesis_hash c h s)" "tree_ok c d w (set_head_digest c h s)"
    "tree_ok c d w (set_forkchoice_head c h s)"
  using tree_ok_accounts [OF assms] unfolding setter_defs
  by - (rule tree_ok_update [OF assms], simp,
      rule scalar_setters_in_sync, assumption,
      simp_all add: contents_defs set_next_index_def iter_all_def)+

lemma forkchoice_tree_ok:
  assumes "tree_ok c d w s"
  shows "tree_ok c d w (set_forkchoice c fc s)" "tree_ok c d w (set_forkchoice_safe_and_finalized c h s)"
proof -
  note setters = scalar_setters_in_sync(9-11) and ok = tree_ok_accounts [OF assms]
  show "tree_ok c d w (set_forkchoice c fc s)" unfolding setter_defs
    by (rule tree_ok_update [OF assms, where f = "\<lambda>v. v\<lparr>ct_forkchoice_head := fc_head_block_hash fc,
          ct_forkchoice_safe := fc_safe_block_hash fc, ct_forkchoice_finalized := fc_finalized_block_hash fc\<rparr>"])
      (simp_all add: setters contents_defs ok)
  show "tree_ok c d w (set_forkchoice_safe_and_finalized c h s)" unfolding setter_defs
    by (rule tree_ok_update [OF assms, where f = "\<lambda>v. v\<lparr>ct_forkchoice_safe := h, ct_forkchoice_finalized := h\<rparr>"])
      (simp_all add: setters contents_defs ok)
qed

lemma rebuilds_tree_ok:
  assumes "tree_ok c d w s"
  shows "tree_ok c d w (set_param_changes c ps s)" "tree_ok c d w (set_added_validators c m s)"
    "tree_ok c d w (set_removed_validators c vs s)" "tree_ok c d w (set_pending_requests c rs s)"
  using tree_ok_accounts [OF assms] tree_ok_zero [OF assms]
  unfolding set_param_changes_def set_added_validators_def set_removed_validators_def
    set_pending_requests_def on_tree_def
  by - (rule tree_ok_update [OF assms], simp,
      rule rebuilds_in_sync(4-7), assumption, assumption, simp_all add: contents_defs)+

lemma set_account_tree_ok:
  assumes s: "tree_ok c d w s"
  shows "tree_ok c d w (set_account c k a s)"
proof -
  let ?m = "cs_validator_accounts s"
  have ok: "bt_ok ?m" by (rule tree_ok_accounts [OF s])
  obtain i where i: "bt_position k (bt_insert k a ?m) = Some i"
    using bt_position_insert [of k a ?m] by auto
  have new: "bt_get ?m k = None \<Longrightarrow> i \<le> length ?m \<and> bt_insert k a ?m = take i ?m @ (k, a) # drop i ?m"
    by (rule bt_insert_new [OF ok _ i])
  have old: "bt_get ?m k = Some u \<Longrightarrow> i < length ?m \<and> bt_insert k a ?m = ?m[i := (k, a)]" for u
    using bt_insert_update [OF ok _ i] by blast
  show ?thesis
    unfolding set_account_def Let_def on_tree_def i option.sel
  proof (rule tree_ok_update [OF s, where f = "\<lambda>v. v\<lparr>ct_validator_accounts := bt_insert k a ?m\<rparr>"])
    fix v assume v: "in_sync c v (cs_ssz_tree s)" "ct_validator_accounts v = ?m"
    show "in_sync c (v\<lparr>ct_validator_accounts := bt_insert k a ?m\<rparr>) (cs_ssz_tree (s\<lparr>cs_validator_accounts :=
        bt_insert k a ?m, cs_ssz_tree := (if get_account s k \<noteq> None then update_validator_at_slot c i k a
          else insert_validator_at_slot c i k a) (cs_ssz_tree (s\<lparr>cs_validator_accounts := bt_insert k a ?m\<rparr>))\<rparr>))"
      using new old insert_validator_in_sync [OF v(1), of i k a] update_validator_in_sync [OF v(1), of i k a]
      by (cases "bt_get ?m k") (auto simp: v(2))
  qed (simp_all add: contents_defs bt_ok_insert ok)
qed

lemma remove_account_tree_ok:
  assumes s: "tree_ok c d w s"
  shows "\<exists>s'. remove_account c k s = Some (get_account s k, s') \<and> tree_ok c d w s' \<and>
    (\<exists>t. s' = s\<lparr>cs_validator_accounts := bt_remove k (cs_validator_accounts s), cs_ssz_tree := t\<rparr>)"
proof (cases "bt_position k (cs_validator_accounts s)")
  case None
  then have "get_account s k = None" "bt_remove k (cs_validator_accounts s) = cs_validator_accounts s"
    by (simp_all add: bt_position_get bt_remove_absent)
  with None s show ?thesis by (auto simp: remove_account_def intro!: exI [of _ "cs_ssz_tree s"])
next
  case (Some i)
  let ?m = "cs_validator_accounts s"
  obtain u where u: "bt_get ?m k = Some u" using Some bt_position_get [of k ?m] by fastforce
  have i: "i < length ?m" "bt_remove k ?m = take i ?m @ drop (Suc i) ?m"
    using bt_remove_at [OF Some] by simp_all
  have rem: "\<exists>t'. remove_validator_at_slot c i (cs_ssz_tree s) = Some t' \<and>
      in_sync c (v\<lparr>ct_validator_accounts := bt_remove k ?m\<rparr>) t'"
    if "in_sync c v (cs_ssz_tree s)" "ct_validator_accounts v = ?m" for v
    using remove_validator_in_sync [OF that(1), of i] that(2) i by simp
  obtain ds q bs where "in_sync c (tree_contents ds q bs s) (cs_ssz_tree s)" using s by (auto simp: tree_ok_def)
  from rem [OF this] obtain t where t: "remove_validator_at_slot c i (cs_ssz_tree s) = Some t"
    by (auto simp: contents_defs)
  have "tree_ok c d w (s\<lparr>cs_validator_accounts := bt_remove k ?m, cs_ssz_tree := t\<rparr>)"
  proof (rule tree_ok_update [OF s, where f = "\<lambda>v. v\<lparr>ct_validator_accounts := bt_remove k ?m\<rparr>"])
    fix v assume "in_sync c v (cs_ssz_tree s)" "ct_validator_accounts v = ?m"
    from rem [OF this] t
    show "in_sync c (v\<lparr>ct_validator_accounts := bt_remove k ?m\<rparr>)
        (cs_ssz_tree (s\<lparr>cs_validator_accounts := bt_remove k ?m, cs_ssz_tree := t\<rparr>))" by simp
  qed (simp_all add: contents_defs bt_ok_remove [OF tree_ok_accounts [OF s]])
  with Some u t show ?thesis by (auto simp: remove_account_def)
qed

lemma tree_ok_mono: "tree_ok c d w s \<Longrightarrow> (d \<longrightarrow> d') \<Longrightarrow> (w \<longrightarrow> w') \<Longrightarrow> tree_ok c d' w' s"
  unfolding tree_ok_def by blast

lemma tree_okI:
  assumes "zero_hashes_ok c" "bt_ok (cs_validator_accounts s)" "\<not> d \<longrightarrow> ds = cs_deposit_queue s"
    "\<not> w \<longrightarrow> iter_all q = iter_all (cs_withdrawal_queue s)"
    "in_sync c (tree_contents ds q bs s) (cs_ssz_tree s)"
  shows "tree_ok c d w s"
  using assms unfolding tree_ok_def by blast

lemma rebuild_tree_ok:
  assumes "zero_hashes_ok c" "bt_ok (cs_validator_accounts s)"
  shows "tree_ok c False False (rebuild_ssz_tree c s)"
proof -
  have "tree_contents (cs_deposit_queue s) (cs_withdrawal_queue s) (de_write (cs_epocher s)) (rebuild_ssz_tree c s)
      = contents_of s" by (simp add: contents_defs rebuild_ssz_tree_def Let_def)
  then show ?thesis
    using assms rebuild_in_sync [OF assms(1), of "contents_of s"]
    by (intro tree_okI [of c _ _ "cs_deposit_queue s" _ "cs_withdrawal_queue s" "de_write (cs_epocher s)"])
      (simp_all add: rebuild_ssz_tree_def Let_def)
qed

lemma deposit_queue_tree_ok:
  assumes s: "tree_ok c d w s"
  shows "tree_ok c d w (cs_push_deposit c r s)" "tree_ok c True w (snd (pop_deposit_deferred s))"
    "tree_ok c False w (rebuild_deposit_tree c s)" "tree_ok c d w (snd (cs_pop_deposit c s))"
proof -
  note z = tree_ok_zero [OF s] and ok = tree_ok_accounts [OF s]
  obtain ds q bs where q: "\<not> d \<longrightarrow> ds = cs_deposit_queue s"
    "\<not> w \<longrightarrow> iter_all q = iter_all (cs_withdrawal_queue s)"
    and i: "in_sync c (tree_contents ds q bs s) (cs_ssz_tree s)"
    using s by (auto simp: tree_ok_def)
  show "tree_ok c d w (cs_push_deposit c r s)"
    using pushes_in_sync(1) [OF i, of r] q
    by (intro tree_okI [of c _ _ "ds @ [r]" _ q bs] z)
      (simp_all add: cs_push_deposit_def on_tree_def contents_defs ok)
  show "tree_ok c True w (snd (pop_deposit_deferred s))"
    using i q by (intro tree_okI [of c _ _ ds _ q bs] z)
      (auto simp: pop_deposit_deferred_def contents_defs ok split: list.split)
  show "tree_ok c False w (rebuild_deposit_tree c s)"
    using rebuilds_in_sync(2) [OF z i, of "cs_deposit_queue s"] q
    by (intro tree_okI [of c _ _ "cs_deposit_queue s" _ q bs] z)
      (simp_all add: rebuild_deposit_tree_def on_tree_def contents_defs ok)
  show "tree_ok c d w (snd (cs_pop_deposit c s))"
  proof (cases "cs_deposit_queue s")
    case (Cons r rs)
    then show ?thesis
      using rebuilds_in_sync(2) [OF z i, of rs] q
      by (intro tree_okI [of c _ _ rs _ q bs] z)
        (simp_all add: cs_pop_deposit_def tree_pop_deposit_def on_tree_def contents_defs ok)
  qed (simp add: cs_pop_deposit_def s)
qed

lemma push_request_iter:
  "iter_all (push_request_with_kind r e kind q) =
     (if kind = Validator then wq_withdrawals q @ [pending_of_request q r e kind] @ wq_refunds q
      else iter_all q @ [pending_of_request q r e kind])"
  "wq_back (push_request_with_kind r e kind q) kind = Some (pending_of_request q r e kind)"
  "wq_refunds (push_request_with_kind r e Validator q) = wq_refunds q"
  by (cases kind; simp add: push_request_with_kind_def Let_def iter_all_def increment_pending_count_def
      wq_back_def)+

lemma push_kind_tree_ok:
  assumes s: "tree_ok c d w s"
    and p: "push_withdrawal_request_with_kind c r e kind df s = (b, s')"
  shows "tree_ok c d (w \<or> b) s'"
proof -
  note z = tree_ok_zero [OF s] and ok = tree_ok_accounts [OF s]
  define q' where "q' = push_request_with_kind r e kind (cs_withdrawal_queue s)"
  define x where "x = pending_of_request (cs_withdrawal_queue s) r e kind"
  obtain ds q bs where q: "\<not> d \<longrightarrow> ds = cs_deposit_queue s"
    "\<not> w \<longrightarrow> iter_all q = iter_all (cs_withdrawal_queue s)"
    and i: "in_sync c (tree_contents ds q bs s) (cs_ssz_tree s)"
    using s by (auto simp: tree_ok_def)
  define t where "t = tree_set_next_withdrawal_index c (wq_next_index q') (cs_ssz_tree s)"
  have t: "in_sync c (tree_contents ds q bs (s\<lparr>cs_withdrawal_queue := q', cs_ssz_tree := u\<rparr>)) t" for u
    using scalar_setters_in_sync(8) [OF i, of "wq_next_index q'"]
    by (simp add: t_def contents_defs)
  have bk: "wq_back q' kind = Some x" by (simp add: q'_def x_def push_request_iter)
  have run: "(b, s') =
      (if kind = Validator \<and> wq_back q' DepositRefund \<noteq> None
       then (if df then (True, s\<lparr>cs_withdrawal_queue := q', cs_ssz_tree := t\<rparr>)
             else (False, s\<lparr>cs_withdrawal_queue := q', cs_ssz_tree := rebuild_withdrawals c q' t\<rparr>))
       else (False, s\<lparr>cs_withdrawal_queue := q', cs_ssz_tree := tree_push_withdrawal c x t\<rparr>))"
    unfolding p [symmetric] push_withdrawal_request_with_kind_def Let_def q'_def [symmetric] bk option.sel
    by (auto simp: on_tree_def t_def)
  show ?thesis
  proof (cases "kind = Validator \<and> wq_back q' DepositRefund \<noteq> None")
    case refunds: True
    show ?thesis
    proof (cases df)
      case True
      with run refunds have "b" "s' = s\<lparr>cs_withdrawal_queue := q', cs_ssz_tree := t\<rparr>" by simp_all
      then show ?thesis
        using t [of t] q by (intro tree_okI [of c _ _ ds _ q bs] z) (simp_all add: ok)
    next
      case False
      with run refunds
      have "s' = s\<lparr>cs_withdrawal_queue := q', cs_ssz_tree := rebuild_withdrawals c q' t\<rparr>" by simp
      then show ?thesis
        using rebuilds_in_sync(3) [OF z t [of "rebuild_withdrawals c q' t"], where q = q'] q
        by (intro tree_okI [of c _ _ ds _ q' bs] z) (simp_all add: ok contents_defs)
    qed
  next
    case False
    define v where "v = q\<lparr>wq_refunds := wq_refunds q @ [x]\<rparr>"
    have v: "iter_all v = iter_all q @ [x]" by (simp add: v_def iter_all_def)
    have "iter_all q' = iter_all (cs_withdrawal_queue s) @ [x]"
      using False push_request_iter(1) [of r e kind "cs_withdrawal_queue s"]
        push_request_iter(3) [of r e "cs_withdrawal_queue s"]
      by (cases kind) (auto simp: q'_def x_def wq_back_def iter_all_def split: if_splits)
    with q(2) v have "\<not> w \<longrightarrow> iter_all v = iter_all q'" by simp
    moreover have "s' = s\<lparr>cs_withdrawal_queue := q', cs_ssz_tree := tree_push_withdrawal c x t\<rparr>"
      using run False by (simp split: if_splits)
    ultimately show ?thesis
      using pushes_in_sync(2) [OF t [of "tree_push_withdrawal c x t"], where q = v and w = x] v q(1)
      by (intro tree_okI [of c _ _ ds _ v bs] z) (simp_all add: contents_defs ok)
  qed
qed

lemma queue_change_tree_ok:
  assumes s: "tree_ok c d w s" and n: "wq_next_index q' = wq_next_index (cs_withdrawal_queue s)"
  shows "tree_ok c d True (s\<lparr>cs_withdrawal_queue := q'\<rparr>)"
  using s n unfolding tree_ok_def by (auto simp: contents_defs)

lemma rebuild_withdrawals_tree_ok:
  assumes s: "tree_ok c d w s"
  shows "tree_ok c d False (rebuild_withdrawal_tree c s)"
proof -
  note z = tree_ok_zero [OF s] and ok = tree_ok_accounts [OF s]
  obtain ds q bs where q: "\<not> d \<longrightarrow> ds = cs_deposit_queue s"
    and i: "in_sync c (tree_contents ds q bs s) (cs_ssz_tree s)"
    using s by (auto simp: tree_ok_def)
  show ?thesis
    using rebuilds_in_sync(3) [OF z i, of "cs_withdrawal_queue s"] q
    by (intro tree_okI [of c _ _ ds _ "cs_withdrawal_queue s" bs] z)
      (simp_all add: rebuild_withdrawal_tree_def on_tree_def contents_defs ok)
qed

lemma withdrawal_queue_tree_ok:
  assumes s: "tree_ok c d w s"
  shows "tree_ok c d w (cs_push_withdrawal c x s)" "tree_ok c d w (snd (cs_pop_withdrawal c e s))"
proof -
  have "on_tree (rebuild_withdrawals c q') (s\<lparr>cs_withdrawal_queue := q'\<rparr>)
      = rebuild_withdrawal_tree c (s\<lparr>cs_withdrawal_queue := q'\<rparr>)" for q'
    by (simp add: rebuild_withdrawal_tree_def)
  then have step: "tree_ok c d w (on_tree (rebuild_withdrawals c q') (s\<lparr>cs_withdrawal_queue := q'\<rparr>))"
    if "wq_next_index q' = wq_next_index (cs_withdrawal_queue s)" for q'
    using rebuild_withdrawals_tree_ok [OF queue_change_tree_ok [OF s that]]
    by (auto intro: tree_ok_mono)
  have push: "wq_next_index (wq_push x q) = wq_next_index q" for q
    by (cases "pw_kind x") (simp_all add: wq_push_def Let_def increment_pending_count_def)
  have pop: "wq_next_index (snd (pop_kind e k q)) = wq_next_index q" for k q
    by (cases k) (auto simp: pop_kind_def decrement_pending_count_def Let_def split: list.split option.split)
  have idle: "wq_pop e q = (None, q') \<Longrightarrow> q' = q" for q q'
    by (auto simp: wq_pop_def pop_kind_def split: list.splits if_splits)
  have nxt: "wq_pop e q = (r, q') \<Longrightarrow> wq_next_index q' = wq_next_index q" for q q' r
    using pop [of Validator q] pop [of DepositRefund] unfolding wq_pop_def
    by (auto split: prod.splits option.splits) (metis snd_conv)
  show "tree_ok c d w (cs_push_withdrawal c x s)"
    unfolding cs_push_withdrawal_def Let_def by (rule step) (rule push)
  show "tree_ok c d w (snd (cs_pop_withdrawal c e s))"
    unfolding cs_pop_withdrawal_def
    by (auto split: prod.split option.split intro!: step dest: nxt idle simp: s)
qed

end
