(* ===== verification/Epoch_Processing.thy ===== *)
theory Epoch_Processing
  imports Consensus_State
begin

text \<open>
  \<open>types/src/consensus_state/mod.rs\<close>, the epoch-end processing: deposits, withdrawal requests,
  buffered requests, enforcement of a minimum-stake change, payouts, the committee transition and
  the protocol-parameter changes. The contract of the primitive state operations is the locale
  \<open>state_invariant\<close>: an invariant indexed by which of the two queue subtrees lag. What every
  primitive keeps, the whole processing keeps; the locale is interpreted for the state tree, for
  the shape of the state, and for the fields processing never writes.
\<close>

section \<open>Deposits\<close>

datatype deposit_rejection_reason =
  KeyMismatch | InvalidNodeSignature | InvalidConsensusSignature | MalformedKey

text \<open>\<open>None\<close> is \<open>Ok(())\<close>.\<close>

definition verify_deposit_request ::
  "crypto \<Rightarrow> deposit_request \<Rightarrow> digest \<Rightarrow> consensus_state \<Rightarrow> deposit_rejection_reason option" where
  "verify_deposit_request c d deposit_signature_domain s =
     (let validator_pubkey = dr_node_pubkey d;
          message = as_message c d deposit_signature_domain
      in if \<not> ed_sig_ok c (dr_node_signature d) then Some InvalidNodeSignature
         else if \<not> ed_verify c (dr_node_pubkey d) message (dr_node_signature d)
              then Some InvalidNodeSignature
         else if \<not> bls_sig_ok c (dr_consensus_signature d) then Some InvalidConsensusSignature
         else if \<not> bls_verify c (dr_consensus_pubkey d) message (dr_consensus_signature d)
              then Some InvalidConsensusSignature
         else if (case get_account s validator_pubkey of
                    None \<Rightarrow> False
                  | Some acc \<Rightarrow> va_consensus_public_key acc \<noteq> dr_consensus_pubkey d)
              then Some KeyMismatch
         else if list_ex (\<lambda>(key, acc). key \<noteq> validator_pubkey
                            \<and> va_consensus_public_key acc = dr_consensus_pubkey d)
                   (cs_validator_accounts s)
              then Some KeyMismatch
         else None)"

text \<open>The reason is only logged.\<close>

definition refund_deposit ::
  "crypto \<Rightarrow> bytes32 \<Rightarrow> u64 \<Rightarrow> deposit_rejection_reason \<Rightarrow> u64 \<Rightarrow> consensus_state \<Rightarrow> consensus_state" where
  "refund_deposit c withdrawal_credentials amount why withdrawal_num_epochs s =
     (case parse_withdrawal_credentials withdrawal_credentials of
        Inl _ \<Rightarrow> s
      | Inr withdrawal_address \<Rightarrow>
          let withdrawal_epoch = cs_epoch s + withdrawal_num_epochs;
              (refund_amount, tax_amount) = invalid_deposit_refund_split amount (cs_invalid_deposit_tax s);
              s1 = (if refund_amount > 0
                    then push_refund_withdrawal_request c
                           \<lparr>wr_source_address = withdrawal_address, wr_validator_pubkey = 0,
                            wr_amount = refund_amount\<rparr> withdrawal_epoch s
                    else s)
          in if tax_amount > 0
             then push_refund_withdrawal_request c
                    \<lparr>wr_source_address = cs_treasury_address s1, wr_validator_pubkey = 0,
                     wr_amount = tax_amount\<rparr> withdrawal_epoch s1
             else s1)"

text \<open>The account a verified deposit is credited to; \<open>None\<close> when a new account's credentials do
  not parse and the deposit is dropped.\<close>

definition deposit_account :: "deposit_request \<Rightarrow> consensus_state \<Rightarrow> validator_account option" where
  "deposit_account r s =
     (case get_account s (dr_node_pubkey r) of
        Some account \<Rightarrow> Some account
      | None \<Rightarrow>
          (case parse_withdrawal_credentials (dr_withdrawal_credentials r) of
             Inl _ \<Rightarrow> None
           | Inr withdrawal_credentials \<Rightarrow> Some
               \<lparr>va_consensus_public_key = dr_consensus_pubkey r,
                va_withdrawal_credentials = withdrawal_credentials, va_balance = 0,
                va_status = Inactive, va_joining_epoch = 0, va_last_deposit_index = dr_index r\<rparr>))"

definition credit_deposit :: "crypto \<Rightarrow> u64 \<Rightarrow> deposit_request \<Rightarrow> validator_account \<Rightarrow> consensus_state \<Rightarrow> consensus_state" where
  "credit_deposit c warm_up_epochs r account0 s =
     (let account = account0\<lparr>va_balance := saturating_add (va_balance account0) (dr_amount r),
                             va_last_deposit_index := dr_index r\<rparr>
      in if va_status account = Inactive
            \<and> cs_validator_minimum_stake s \<le> va_balance account
            \<and> pending_count (cs_withdrawal_queue s) (dr_node_pubkey r) = 0
            \<and> active_or_joining_validator_count s < prospective_max_validator_count s
         then let activation_epoch = cs_epoch s + warm_up_epochs;
                  account = account\<lparr>va_status := Joining, va_joining_epoch := activation_epoch\<rparr>
              in add_validator c activation_epoch
                   \<lparr>av_node_key = dr_node_pubkey r, av_consensus_key = va_consensus_public_key account\<rparr>
                   (set_account c (dr_node_pubkey r) account s)
         else set_account c (dr_node_pubkey r) account s)"

definition process_deposit :: "crypto \<Rightarrow> digest \<Rightarrow> u64 \<Rightarrow> u64 \<Rightarrow> deposit_request \<Rightarrow> consensus_state \<Rightarrow> consensus_state" where
  "process_deposit c deposit_signature_domain warm_up_epochs withdrawal_num_epochs r s =
     (case verify_deposit_request c r deposit_signature_domain s of
        Some why \<Rightarrow>
          refund_deposit c (dr_withdrawal_credentials r) (dr_amount r) why withdrawal_num_epochs s
      | None \<Rightarrow>
          (case deposit_account r s of
             None \<Rightarrow> s
           | Some account \<Rightarrow> credit_deposit c warm_up_epochs r account s))"

primrec drain_deposits ::
  "crypto \<Rightarrow> digest \<Rightarrow> u64 \<Rightarrow> u64 \<Rightarrow> nat \<Rightarrow> consensus_state \<Rightarrow> bool \<times> consensus_state" where
  "drain_deposits c domain warm_up_epochs withdrawal_num_epochs 0 s = (False, s)"
| "drain_deposits c domain warm_up_epochs withdrawal_num_epochs (Suc n) s =
     (case pop_deposit_deferred s of
        (None, s1) \<Rightarrow> (False, s1)
      | (Some request, s1) \<Rightarrow>
          (True, snd (drain_deposits c domain warm_up_epochs withdrawal_num_epochs n
                   (process_deposit c domain warm_up_epochs withdrawal_num_epochs request s1))))"

definition process_deposits :: "crypto \<Rightarrow> digest \<Rightarrow> u64 \<Rightarrow> u64 \<Rightarrow> consensus_state \<Rightarrow> consensus_state" where
  "process_deposits c deposit_signature_domain warm_up_epochs withdrawal_num_epochs s =
     (let (drained_any, s1) = drain_deposits c deposit_signature_domain warm_up_epochs
            withdrawal_num_epochs (unat (cs_max_deposits_per_epoch s)) s
      in if drained_any then rebuild_deposit_tree c s1 else s1)"

section \<open>Withdrawal requests\<close>

definition enqueue_payout ::
  "crypto \<Rightarrow> validator_account \<Rightarrow> node_key \<Rightarrow> u64 \<Rightarrow> u64 \<Rightarrow> consensus_state \<Rightarrow> bool \<times> consensus_state" where
  "enqueue_payout c account pubkey withdrawal_epoch amount s =
     push_withdrawal_request_with_kind c
       \<lparr>wr_source_address = va_withdrawal_credentials account, wr_validator_pubkey = pubkey,
        wr_amount = amount\<rparr> withdrawal_epoch Validator True s"

text \<open>The cancelled activation of a joining validator that withdraws.\<close>

definition cancel_joining ::
  "crypto \<Rightarrow> node_key \<Rightarrow> validator_account \<Rightarrow> consensus_state \<Rightarrow> validator_account \<times> consensus_state" where
  "cancel_joining c pubkey account s =
     (if va_status account = Joining
      then let s1 = (if cs_epoch s < va_joining_epoch account \<and> ed_key_ok c pubkey
                     then snd (remove_added_validator c (va_joining_epoch account) pubkey s) else s);
               account = account\<lparr>va_status := Inactive\<rparr>
           in (account, set_account c pubkey account s1)
      else (account, s))"

definition route_withdrawal ::
  "crypto \<Rightarrow> node_key \<Rightarrow> u64 \<Rightarrow> u64 \<Rightarrow> validator_account \<Rightarrow> consensus_state \<Rightarrow> bool \<times> consensus_state" where
  "route_withdrawal c pubkey request_amount withdrawal_epoch account s =
     (case va_status account of
        Active \<Rightarrow>
          if request_amount = 0
          then if \<not> can_accept_active_validator_exit s then (False, s)
               else if \<not> ed_key_ok c pubkey then (False, s)
               else enqueue_payout c account pubkey withdrawal_epoch 0
                      (set_account c pubkey (account\<lparr>va_status := SubmittedExitRequest\<rparr>)
                        (increment_pending_active_validator_exits c (push_removed_validator c pubkey s)))
          else let withdrawable = saturating_sub (va_balance account) (cs_validator_minimum_stake s);
                   amount = min request_amount withdrawable
               in if amount = 0 then (False, s)
                  else enqueue_payout c account pubkey withdrawal_epoch amount s
      | Inactive \<Rightarrow>
          if request_amount = 0
          then enqueue_payout c account pubkey withdrawal_epoch 0
                 (set_account c pubkey (account\<lparr>va_status := FullPayoutPending\<rparr>) s)
          else let amount = min request_amount (va_balance account)
               in if amount = 0 then (False, s)
                  else enqueue_payout c account pubkey withdrawal_epoch amount s
      | _ \<Rightarrow> (False, s))"

definition apply_withdrawal_request_deferred ::
  "crypto \<Rightarrow> withdrawal_request \<Rightarrow> u64 \<Rightarrow> consensus_state \<Rightarrow> bool \<times> consensus_state" where
  "apply_withdrawal_request_deferred c request withdrawal_num_epochs s =
     (let pubkey = wr_validator_pubkey request
      in case get_account s pubkey of
           None \<Rightarrow> (False, s)
         | Some account \<Rightarrow>
             if wr_source_address request \<noteq> va_withdrawal_credentials account then (False, s)
             else if va_status account = SubmittedExitRequest \<or> va_status account = FullPayoutPending
                  then (False, s)
             else if cs_max_pending_withdrawals_per_validator s
                       \<le> pending_count (cs_withdrawal_queue s) pubkey then (False, s)
             else let withdrawal_epoch = cs_epoch s + withdrawal_num_epochs;
                      (account, s1) = cancel_joining c pubkey account s
                  in route_withdrawal c pubkey (wr_amount request) withdrawal_epoch account s1)"

definition apply_withdrawal_request :: "crypto \<Rightarrow> withdrawal_request \<Rightarrow> u64 \<Rightarrow> consensus_state \<Rightarrow> consensus_state" where
  "apply_withdrawal_request c request withdrawal_num_epochs s =
     (let (stale, s1) = apply_withdrawal_request_deferred c request withdrawal_num_epochs s
      in if stale then rebuild_withdrawal_tree c s1 else s1)"

section \<open>Buffered requests\<close>

definition param_of_parsed :: "parsed_execution_request \<Rightarrow> protocol_param list" where
  "param_of_parsed p =
     (case p of
        Valid (ProtocolParam r) \<Rightarrow>
          (case protocol_param_try_from r of Inl _ \<Rightarrow> [] | Inr param \<Rightarrow> [param])
      | _ \<Rightarrow> [])"

definition collect_params :: "crypto \<Rightarrow> u8 list list \<Rightarrow> protocol_param list" where
  "collect_params c buffered =
     concat (map (\<lambda>entry. case parse_eth_entry c entry of
        Inl _ \<Rightarrow> [] | Inr parsed \<Rightarrow> concat (map param_of_parsed parsed)) buffered)"

text \<open>One routed request; the flag is \<open>withdrawal_tree_stale\<close>.\<close>

definition route_parsed ::
  "crypto \<Rightarrow> u64 \<Rightarrow> parsed_execution_request \<Rightarrow> bool \<times> consensus_state \<Rightarrow> bool \<times> consensus_state" where
  "route_parsed c withdrawal_num_epochs parsed = (\<lambda>(stale, s).
     case parsed of
       Valid (Deposit deposit) \<Rightarrow> (stale, cs_push_deposit c deposit s)
     | Valid (Withdrawal withdrawal) \<Rightarrow>
         (let (b, s1) = apply_withdrawal_request_deferred c withdrawal withdrawal_num_epochs s
          in (stale \<or> b, s1))
     | Valid (ProtocolParam _) \<Rightarrow> (stale, s)
     | MalformedDeposit m \<Rightarrow>
         (stale, refund_deposit c (md_withdrawal_credentials m) (md_amount m) MalformedKey
            withdrawal_num_epochs s))"

definition route_entry ::
  "crypto \<Rightarrow> u64 \<Rightarrow> u8 list \<Rightarrow> bool \<times> consensus_state \<Rightarrow> bool \<times> consensus_state" where
  "route_entry c withdrawal_num_epochs entry ss =
     (case parse_eth_entry c entry of
        Inr parsed \<Rightarrow> fold (route_parsed c withdrawal_num_epochs) parsed ss
      | Inl _ \<Rightarrow> ss)"

definition process_buffered_requests ::
  "crypto \<Rightarrow> digest \<Rightarrow> u64 \<Rightarrow> u64 \<Rightarrow> consensus_state \<Rightarrow> consensus_state" where
  "process_buffered_requests c deposit_signature_domain warm_up_epochs withdrawal_num_epochs s =
     (let (buffered, s1) = take_pending_execution_requests c s;
          batch = collect_params c buffered;
          s2 = (if batch = [] then s1 else push_protocol_param_changes c batch s1);
          s3 = reject_invalid_validator_count_changes c s2;
          (stale, s4) = fold (route_entry c withdrawal_num_epochs) buffered (False, s3);
          s5 = (if stale then rebuild_withdrawal_tree c s4 else s4)
      in process_deposits c deposit_signature_domain warm_up_epochs withdrawal_num_epochs s5)"

section \<open>Minimum stake\<close>

definition retained_validators :: "consensus_state \<Rightarrow> u64" where
  "retained_validators s =
     word_of_nat (length (filter (\<lambda>(key, account). va_status account = Active
         \<and> prospective_minimum_stake s \<le> va_balance account
         \<and> key \<notin> set (cs_removed_validators s)) (cs_validator_accounts s)))"

definition below_minimum :: "consensus_state \<Rightarrow> (node_key \<times> validator_account) list" where
  "below_minimum s =
     filter (\<lambda>(key, account). \<not> prospective_minimum_stake s \<le> va_balance account
         \<and> (va_status account = Active \<or> va_status account = Joining)) (cs_validator_accounts s)"

definition remove_candidate ::
  "crypto \<Rightarrow> u64 \<Rightarrow> node_key set \<Rightarrow> node_key \<times> validator_account \<Rightarrow> consensus_state \<Rightarrow> consensus_state" where
  "remove_candidate c current_epoch already_removed = (\<lambda>(key, candidate) s.
     if \<not> ed_key_ok c key then s
     else if key \<in> already_removed then s
     else if va_status candidate = Joining \<and> current_epoch < va_joining_epoch candidate
     then let s1 = snd (remove_added_validator c (va_joining_epoch candidate) key s)
          in (case get_account s1 key of
                None \<Rightarrow> s1
              | Some account \<Rightarrow> set_account c key (account\<lparr>va_status := Inactive\<rparr>) s1)
     else if va_status candidate = Active
     then increment_pending_active_validator_exits c (push_removed_validator c key s)
     else s)"

definition is_minimum_stake :: "protocol_param \<Rightarrow> bool" where
  "is_minimum_stake p \<longleftrightarrow> minimum_stake_of p \<noteq> None"

definition enforce_minimum_stake :: "crypto \<Rightarrow> consensus_state \<Rightarrow> consensus_state" where
  "enforce_minimum_stake c s =
     (if \<not> list_ex is_minimum_stake (cs_protocol_param_changes s) then s
      else if retained_validators s < prospective_minimum_validator_count s
      then set_param_changes c (filter (\<lambda>p. \<not> is_minimum_stake p) (cs_protocol_param_changes s)) s
      else fold (remove_candidate c (cs_epoch s) (set (cs_removed_validators s))) (below_minimum s) s)"

section \<open>Payouts\<close>

definition withdrawal_payout_amount :: "pending_withdrawal \<Rightarrow> u64 \<Rightarrow> bool \<Rightarrow> u64 \<Rightarrow> u64" where
  "withdrawal_payout_amount entry balance has_floor min_stake =
     (case pw_kind entry of
        DepositRefund \<Rightarrow> w_amount (pw_inner entry)
      | Validator \<Rightarrow>
          if w_amount (pw_inner entry) = 0 then balance
          else min (w_amount (pw_inner entry)) (saturating_sub balance (if has_floor then min_stake else 0)))"

primrec emit_loop ::
  "u64 \<Rightarrow> consensus_state \<Rightarrow> pending_withdrawal list \<Rightarrow> (node_key \<rightharpoonup> u64) \<Rightarrow> eip4895_withdrawal list" where
  "emit_loop min_stake s [] running = []"
| "emit_loop min_stake s (entry # entries) running =
     (if pw_kind entry = DepositRefund then pw_inner entry # emit_loop min_stake s entries running
      else case get_account s (pw_pubkey entry) of
        None \<Rightarrow> emit_loop min_stake s entries running
      | Some account \<Rightarrow>
          if w_address (pw_inner entry) \<noteq> va_withdrawal_credentials account
          then emit_loop min_stake s entries running
          else let balance = (case running (pw_pubkey entry) of Some b \<Rightarrow> b | None \<Rightarrow> va_balance account);
                   payout = withdrawal_payout_amount entry balance
                     (has_minimum_stake_floor (va_status account)) min_stake;
                   rest = emit_loop min_stake s entries
                     (running(pw_pubkey entry \<mapsto> saturating_sub balance payout))
               in if payout > 0 then (pw_inner entry)\<lparr>w_amount := payout\<rparr> # rest else rest)"

definition due_entries :: "consensus_state \<Rightarrow> u64 \<Rightarrow> pending_withdrawal list" where
  "due_entries s epoch =
     get_for_epoch_with_total_cap (cs_withdrawal_queue s) epoch (unat (cs_max_withdrawals_per_epoch s))"

definition emit_withdrawal_payouts :: "u64 \<Rightarrow> consensus_state \<Rightarrow> eip4895_withdrawal list" where
  "emit_withdrawal_payouts epoch s =
     emit_loop (prospective_minimum_stake s) s (due_entries s epoch) Map.empty"

text \<open>The balance change of one popped entry.\<close>

definition settle_entry :: "crypto \<Rightarrow> u64 \<Rightarrow> pending_withdrawal \<Rightarrow> consensus_state \<Rightarrow> consensus_state option" where
  "settle_entry c min_stake entry s =
     (if pw_kind entry = DepositRefund then Some s
      else case get_account s (pw_pubkey entry) of
        None \<Rightarrow> Some s
      | Some account \<Rightarrow>
          if w_address (pw_inner entry) \<noteq> va_withdrawal_credentials account then Some s
          else let payout = withdrawal_payout_amount entry (va_balance account)
                     (has_minimum_stake_floor (va_status account)) min_stake;
                   account = account\<lparr>va_balance := saturating_sub (va_balance account) payout\<rparr>
               in if va_balance account = 0
                  then map_option snd (remove_account c (pw_pubkey entry) s)
                  else Some (set_account c (pw_pubkey entry) account s))"

primrec settle_loop ::
  "crypto \<Rightarrow> u64 \<Rightarrow> u64 list \<Rightarrow> bool \<Rightarrow> consensus_state \<Rightarrow> (bool \<times> consensus_state) option" where
  "settle_loop c min_stake [] drained_any s = Some (drained_any, s)"
| "settle_loop c min_stake (index # indices) drained_any s =
     (case pop_by_index index (cs_withdrawal_queue s) of
        (None, q) \<Rightarrow> settle_loop c min_stake indices drained_any (s\<lparr>cs_withdrawal_queue := q\<rparr>)
      | (Some entry, q) \<Rightarrow>
          (case settle_entry c min_stake entry (s\<lparr>cs_withdrawal_queue := q\<rparr>) of
             None \<Rightarrow> None
           | Some s1 \<Rightarrow> settle_loop c min_stake indices True s1))"

text \<open>\<open>None\<close> is the failed assertion that the block carries the emitted payouts.\<close>

definition apply_withdrawal_payouts ::
  "crypto \<Rightarrow> u64 \<Rightarrow> eip4895_withdrawal list \<Rightarrow> consensus_state \<Rightarrow> consensus_state option" where
  "apply_withdrawal_payouts c epoch block_withdrawals s =
     (if emit_withdrawal_payouts epoch s \<noteq> block_withdrawals then None
      else case settle_loop c (prospective_minimum_stake s) (map pw_index (due_entries s epoch)) False s of
        None \<Rightarrow> None
      | Some (drained_any, s1) \<Rightarrow> Some (if drained_any then rebuild_withdrawal_tree c s1 else s1))"

section \<open>The epoch boundary\<close>

text \<open>\<open>None\<close> is the failed expectation that an added validator has an account.\<close>

primrec activate_all :: "crypto \<Rightarrow> added_validator list \<Rightarrow> consensus_state \<Rightarrow> consensus_state option" where
  "activate_all c [] s = Some s"
| "activate_all c (v # vs) s =
     (case get_account s (av_node_key v) of
        None \<Rightarrow> None
      | Some account \<Rightarrow>
          activate_all c vs (set_account c (av_node_key v) (account\<lparr>va_status := Active\<rparr>) s))"

definition retire :: "crypto \<Rightarrow> node_key \<Rightarrow> consensus_state \<Rightarrow> consensus_state" where
  "retire c key s =
     (case get_account s key of
        None \<Rightarrow> s
      | Some account \<Rightarrow>
          set_account c key (account\<lparr>va_status :=
            (if va_status account = SubmittedExitRequest then FullPayoutPending else Inactive)\<rparr>) s)"

definition apply_committee_transition :: "crypto \<Rightarrow> node_key \<Rightarrow> consensus_state \<Rightarrow> (bool \<times> consensus_state) option" where
  "apply_committee_transition c node_public_key s =
     (let next_epoch = cs_epoch s + 1;
          s1 = reset_pending_active_validator_exits c s
      in if \<not> has_added_validators s1 next_epoch \<and> cs_removed_validators s1 = [] then Some (False, s1)
         else case (case get_added_validators s1 next_epoch of
                      None \<Rightarrow> Some s1 | Some vs \<Rightarrow> activate_all c vs s1) of
           None \<Rightarrow> None
         | Some s2 \<Rightarrow> Some (node_public_key \<in> set (cs_removed_validators s2),
                            fold (retire c) (cs_removed_validators s2) s2))"

text \<open>\<open>None\<close> is a panic: a zero or refused epoch length, or an observer count beyond 32 bits.\<close>

definition apply_param :: "crypto \<Rightarrow> protocol_param \<Rightarrow> consensus_state \<Rightarrow> consensus_state option" where
  "apply_param c param s =
     (case param of
        MinimumStake v \<Rightarrow> Some (set_minimum_stake c v s)
      | EpochLength len \<Rightarrow>
          if len = 0 then None
          else (case update_length len (cs_epocher s) of
                  Inl _ \<Rightarrow> None | Inr e \<Rightarrow> Some (s\<lparr>cs_epocher := e\<rparr>))
      | AllowedTimestampFuture ms \<Rightarrow> Some (set_allowed_timestamp_future_ms c ms s)
      | TreasuryAddress a \<Rightarrow> Some (set_treasury_address c a s)
      | MaxDepositsPerEpoch v \<Rightarrow> Some (set_max_deposits_per_epoch c v s)
      | MaxWithdrawalsPerEpoch v \<Rightarrow> Some (set_max_withdrawals_per_epoch c v s)
      | ObserversPerValidator v \<Rightarrow>
          if unat v < 2 ^ 32 then Some (set_observers_per_validator c (ucast v) s) else None
      | MaxValidatorCount v \<Rightarrow> Some (set_max_validator_count c v s)
      | MinimumValidatorCount v \<Rightarrow> Some (set_minimum_validator_count c v s)
      | InvalidDepositTax v \<Rightarrow>
          if MAX_INVALID_DEPOSIT_TAX < v then Some s else Some (set_invalid_deposit_tax c v s)
      | MaxPendingWithdrawalsPerValidator v \<Rightarrow> Some (set_max_pending_withdrawals_per_validator c v s))"

primrec apply_params :: "crypto \<Rightarrow> protocol_param list \<Rightarrow> consensus_state \<Rightarrow> consensus_state option" where
  "apply_params c [] s = Some s"
| "apply_params c (p # ps) s =
     (case apply_param c p s of None \<Rightarrow> None | Some s1 \<Rightarrow> apply_params c ps s1)"

definition apply_protocol_parameter_changes :: "crypto \<Rightarrow> consensus_state \<Rightarrow> (bool \<times> consensus_state) option" where
  "apply_protocol_parameter_changes c s =
     (let s1 = reject_invalid_validator_count_changes c s;
          params = cs_protocol_param_changes s1
      in case apply_params c params s1 of
           None \<Rightarrow> None
         | Some s2 \<Rightarrow> Some (list_ex is_minimum_stake params, set_param_changes c [] s2))"

section \<open>What the primitives keep, the processing keeps\<close>

text \<open>\<open>I dep wd\<close> is the invariant while the deposit (\<open>dep\<close>) or withdrawal (\<open>wd\<close>) subtree may lag.\<close>

locale state_invariant =
  fixes c :: crypto
    and I :: "bool \<Rightarrow> bool \<Rightarrow> consensus_state \<Rightarrow> bool"
  assumes set_account: "I d w s \<Longrightarrow> I d w (set_account c k a s)"
    and remove_account: "I d w s \<Longrightarrow> \<exists>x s'. remove_account c k s = Some (x, s') \<and> I d w s'"
    and add_validator: "I d w s \<Longrightarrow> I d w (add_validator c e v s)"
    and remove_added: "I d w s \<Longrightarrow> I d w (snd (remove_added_validator c e k s))"
    and set_removed: "I d w s \<Longrightarrow> I d w (set_removed_validators c vs s)"
    and set_exits: "I d w s \<Longrightarrow> I d w (set_pending_active_validator_exits c n s)"
    and set_params: "I d w s \<Longrightarrow> I d w (set_param_changes c ps s)"
    and set_requests: "I d w s \<Longrightarrow> I d w (set_pending_requests c rs s)"
    and push_deposit: "I d w s \<Longrightarrow> I d w (cs_push_deposit c r s)"
    and pop_deposit: "I d w s \<Longrightarrow> I True w (snd (pop_deposit_deferred s))"
    and rebuild_deposits: "I d w s \<Longrightarrow> I False w (rebuild_deposit_tree c s)"
    and push_kind: "I d w s \<Longrightarrow> push_withdrawal_request_with_kind c q e kind df s = (b, s') \<Longrightarrow> I d (w \<or> b) s'"
    and pop_index: "I d w s \<Longrightarrow> I d True (s\<lparr>cs_withdrawal_queue := snd (pop_by_index i (cs_withdrawal_queue s))\<rparr>)"
    and rebuild_withdrawals: "I d w s \<Longrightarrow> I d False (rebuild_withdrawal_tree c s)"
begin

lemma push_refund: "I d w s \<Longrightarrow> I d w (push_refund_withdrawal_request c q e s)"
proof -
  assume s: "I d w s"
  obtain b s' where p: "push_withdrawal_request_with_kind c q e DepositRefund False s = (b, s')"
    by (cases "push_withdrawal_request_with_kind c q e DepositRefund False s")
  then have "\<not> b" by (simp add: push_withdrawal_request_with_kind_def Let_def)
  with push_kind [OF s p] p show ?thesis by (simp add: push_refund_withdrawal_request_def)
qed

lemma refund: "I d w s \<Longrightarrow> I d w (refund_deposit c creds amount why n s)"
  by (auto simp: refund_deposit_def Let_def push_refund split: sum.split prod.split)

lemma credit: "I d w s \<Longrightarrow> I d w (credit_deposit c n r a s)"
  by (simp add: credit_deposit_def Let_def set_account add_validator)

lemma deposit: "I d w s \<Longrightarrow> I d w (process_deposit c domain m n r s)"
  by (auto simp: process_deposit_def refund credit split: option.split)

lemma drain:
  "I d w s \<Longrightarrow> drain_deposits c domain m n k s = (b, s') \<Longrightarrow> I (d \<or> b) w s'"
proof (induction k arbitrary: d s b s')
  case (Suc k)
  show ?case
  proof (cases "pop_deposit_deferred s")
    case (Pair r s1)
    show ?thesis
    proof (cases r)
      case None
      with Pair have "s1 = s" by (auto simp: pop_deposit_deferred_def split: list.splits)
      with Suc.prems Pair None show ?thesis by simp
    next
      case (Some q)
      have "I True w s1" using pop_deposit [OF Suc.prems(1)] Pair by simp
      then have "I True w (process_deposit c domain m n q s1)" by (rule deposit)
      from Suc.IH [OF this surjective_pairing] Suc.prems(2) Pair Some show ?thesis by auto
    qed
  qed
qed simp

lemma deposits: "I False w s \<Longrightarrow> I False w (process_deposits c domain m n s)"
proof -
  assume s: "I False w s"
  obtain b s1 where d: "drain_deposits c domain m n (unat (cs_max_deposits_per_epoch s)) s = (b, s1)"
    by fastforce
  have "I b w s1" using drain [OF s d] by simp
  then show ?thesis
    using rebuild_deposits by (cases b) (auto simp: process_deposits_def d)
qed

lemma enqueue: "I d w s \<Longrightarrow> enqueue_payout c a k e n s = (b, s') \<Longrightarrow> I d (w \<or> b) s'"
  unfolding enqueue_payout_def by (rule push_kind)

lemma joining: "I d w s \<Longrightarrow> cancel_joining c k a s = (a', s') \<Longrightarrow> I d w s'"
  by (auto simp: cancel_joining_def Let_def set_account remove_added split: if_splits)

lemma exits: "I d w s \<Longrightarrow> I d w (increment_pending_active_validator_exits c (push_removed_validator c k s))"
  by (simp add: increment_pending_active_validator_exits_def push_removed_validator_def set_removed set_exits)

lemma route_one:
  assumes "I d w s" "route_withdrawal c k n e a s = (b, s')"
  shows "I d (w \<or> b) s'"
  using assms
  by (cases "va_status a")
    (auto simp: route_withdrawal_def Let_def split: if_splits
      intro: enqueue enqueue [OF set_account] enqueue [OF set_account [OF exits]])

lemma request:
  assumes s: "I d w s" and r: "apply_withdrawal_request_deferred c r n s = (b, s')"
  shows "I d (w \<or> b) s'"
proof -
  have "I d (w \<or> b) s'" if "get_account s (wr_validator_pubkey r) = Some a"
    "cancel_joining c (wr_validator_pubkey r) a s = (a', s1)"
    "route_withdrawal c (wr_validator_pubkey r) (wr_amount r) (cs_epoch s + n) a' s1 = (b, s')" for a a' s1
    by (rule route_one [OF joining [OF s that(2)] that(3)])
  with s r show ?thesis
    unfolding apply_withdrawal_request_deferred_def Let_def
    by (auto split: option.splits if_splits prod.splits)
qed

lemma routed: "I d w s \<Longrightarrow> route_parsed c n p (w, s) = (w', s') \<Longrightarrow> I d w' s'"
  by (auto simp: route_parsed_def push_deposit refund intro: request
      split: parsed_execution_request.splits execution_request.splits prod.splits)

lemma routed_all: "I d w s \<Longrightarrow> fold (route_parsed c n) ps (w, s) = (w', s') \<Longrightarrow> I d w' s'"
proof (induction ps arbitrary: w s)
  case (Cons p ps)
  obtain w1 s1 where p: "route_parsed c n p (w, s) = (w1, s1)" by fastforce
  from Cons.IH [OF routed [OF Cons.prems(1) p]] Cons.prems(2) p show ?case by simp
qed simp

lemma entries: "I d w s \<Longrightarrow> fold (route_entry c n) es (w, s) = (w', s') \<Longrightarrow> I d w' s'"
proof (induction es arbitrary: w s)
  case (Cons e es)
  obtain w1 s1 where e: "route_entry c n e (w, s) = (w1, s1)" by fastforce
  have "I d w1 s1"
    using e Cons.prems(1) by (auto simp: route_entry_def intro: routed_all split: sum.splits)
  from Cons.IH [OF this] Cons.prems(2) e show ?case by simp
qed simp

lemma params_unchanged: "s\<lparr>cs_protocol_param_changes := cs_protocol_param_changes s\<rparr> = s"
  by simp

lemma reject: "I d w s \<Longrightarrow> I d w (reject_invalid_validator_count_changes c s)"
proof -
  assume s: "I d w s"
  define ps where "ps = reject_conflicting (prospective_minimum_validator_count s)
      (s\<lparr>cs_protocol_param_changes := reject_low_cap s\<rparr>)"
  have "\<exists>P. ps = filter P (cs_protocol_param_changes s)"
    by (auto simp: ps_def reject_conflicting_def reject_low_cap_def intro: exI [of _ "\<lambda>_. True"])
  then have "length ps = length (cs_protocol_param_changes s) \<Longrightarrow> ps = cs_protocol_param_changes s"
    using filter_eq_Cons_iff length_filter_le by (metis filter_True length_filter_less less_irrefl)
  then show ?thesis
    using s by (auto simp: reject_invalid_validator_count_changes_def Let_def ps_def [symmetric] set_params)
qed

lemma buffered: "I False False s \<Longrightarrow> I False False (process_buffered_requests c domain m n s)"
proof -
  assume s: "I False False s"
  define s1 where "s1 = set_pending_requests c [] s"
  define batch where "batch = collect_params c (cs_pending_execution_requests s)"
  define s3 where "s3 = reject_invalid_validator_count_changes c
      (if batch = [] then s1 else push_protocol_param_changes c batch s1)"
  obtain stale s4 where r: "fold (route_entry c n) (cs_pending_execution_requests s) (False, s3) = (stale, s4)"
    by fastforce
  have "I False False s3"
    using s by (auto simp: s3_def s1_def push_protocol_param_changes_def Let_def intro!: reject set_params set_requests)
  then have "I False stale s4" by (rule entries [OF _ r])
  then have "I False False (if stale then rebuild_withdrawal_tree c s4 else s4)"
    using rebuild_withdrawals by (cases stale) auto
  then show ?thesis
    unfolding process_buffered_requests_def take_pending_execution_requests_def Let_def prod.case
      s1_def [symmetric] batch_def [symmetric] s3_def [symmetric] r
    by (rule deposits)
qed

lemma candidate: "I d w s \<Longrightarrow> I d w (remove_candidate c e R x s)"
  by (cases x) (auto simp: remove_candidate_def Let_def exits remove_added set_account split: option.split)

lemma candidates: "I d w s \<Longrightarrow> I d w (fold (remove_candidate c e R) xs s)"
  by (induction xs arbitrary: s) (simp_all add: candidate)

lemma minimum_stake: "I d w s \<Longrightarrow> I d w (enforce_minimum_stake c s)"
  by (simp add: enforce_minimum_stake_def set_params candidates)

lemma settle: "I d w s \<Longrightarrow> \<exists>s'. settle_entry c n x s = Some s' \<and> I d w s'"
  using remove_account [of d w s "pw_pubkey x"]
  by (auto simp: settle_entry_def Let_def set_account split: option.split)

lemma settle_all:
  "I d (w \<or> b) s \<Longrightarrow> \<exists>b' s'. settle_loop c n is b s = Some (b', s') \<and> I d (w \<or> b') s'"
proof (induction "is" arbitrary: b s)
  case (Cons i "is")
  obtain r q where p: "pop_by_index i (cs_withdrawal_queue s) = (r, q)" by fastforce
  show ?case
  proof (cases r)
    case None
    then have "q = cs_withdrawal_queue s"
      using p by (auto simp: pop_by_index_def Let_def split: list.splits if_splits)
    with Cons.IH [OF Cons.prems] p None show ?thesis by simp
  next
    case (Some x)
    have "I d True (s\<lparr>cs_withdrawal_queue := q\<rparr>)" using pop_index [OF Cons.prems, of i] p by simp
    from settle [OF this, of n x] obtain s1
      where s1: "settle_entry c n x (s\<lparr>cs_withdrawal_queue := q\<rparr>) = Some s1" "I d True s1" by blast
    from Cons.IH [of True s1] s1 p Some show ?thesis by simp
  qed
qed simp

lemma payouts:
  "I d False s \<Longrightarrow> emit_withdrawal_payouts e s = ws \<Longrightarrow>
     \<exists>s'. apply_withdrawal_payouts c e ws s = Some s' \<and> I d False s'"
  using settle_all [of d False False s "prospective_minimum_stake s" "map pw_index (due_entries s e)"]
  by (auto simp: apply_withdrawal_payouts_def rebuild_withdrawals)

lemma activated: "I d w s \<Longrightarrow> activate_all c vs s = Some s' \<Longrightarrow> I d w s'"
proof (induction vs arbitrary: s)
  case (Cons v vs)
  then show ?case
    using Cons.IH [OF set_account [OF Cons.prems(1)]] by (auto split: option.splits)
qed simp

lemma retired: "I d w s \<Longrightarrow> I d w (fold (retire c) ks s)"
  by (induction ks arbitrary: s) (auto simp: retire_def set_account split: option.split)

lemma transition:
  assumes s: "I d w s" and t: "apply_committee_transition c k s = Some (b, s')"
  shows "I d w s'"
proof -
  have s1: "I d w (reset_pending_active_validator_exits c s)"
    using s by (simp add: reset_pending_active_validator_exits_def set_exits)
  show ?thesis
    using t s1 unfolding apply_committee_transition_def Let_def
    by (auto split: option.splits if_splits intro: retired activated)
qed

end

section \<open>The state tree, and the fields that are not written\<close>

interpretation tree: state_invariant c "tree_ok c" for c
proof
  fix d w s k i
  assume s: "tree_ok c d w s"
  show "\<exists>x s'. remove_account c k s = Some (x, s') \<and> tree_ok c d w s'"
    using remove_account_tree_ok [OF s] by blast
  have "wq_next_index (snd (pop_by_index i q)) = wq_next_index q" for q
    by (auto simp: pop_by_index_def Let_def decrement_pending_count_def split: list.split option.split)
  then show "tree_ok c d True (s\<lparr>cs_withdrawal_queue := snd (pop_by_index i (cs_withdrawal_queue s))\<rparr>)"
    by (intro queue_change_tree_ok [OF s])
next
  fix d w s e k
  assume s: "tree_ok c d w s"
  show "tree_ok c d w (snd (remove_added_validator c e k s))"
    using s by (auto simp: remove_added_validator_def Let_def rebuilds_tree_ok split: option.split)
qed (simp_all add: set_account_tree_ok add_validator_def Let_def rebuilds_tree_ok setters_tree_ok
    deposit_queue_tree_ok rebuild_withdrawals_tree_ok push_kind_tree_ok)

text \<open>The fields epoch-end processing leaves alone.\<close>

definition frame :: "consensus_state \<Rightarrow> consensus_state \<Rightarrow> bool" where
  "frame s0 s \<longleftrightarrow>
     cs_epoch s = cs_epoch s0 \<and> cs_view s = cs_view s0 \<and> cs_latest_height s = cs_latest_height s0
   \<and> cs_head_digest s = cs_head_digest s0 \<and> cs_pending_checkpoint s = cs_pending_checkpoint s0
   \<and> cs_forkchoice s = cs_forkchoice s0 \<and> cs_epoch_genesis_hash s = cs_epoch_genesis_hash s0
   \<and> cs_validator_minimum_stake s = cs_validator_minimum_stake s0
   \<and> cs_allowed_timestamp_future_ms s = cs_allowed_timestamp_future_ms s0
   \<and> cs_treasury_address s = cs_treasury_address s0
   \<and> cs_max_deposits_per_epoch s = cs_max_deposits_per_epoch s0
   \<and> cs_max_withdrawals_per_epoch s = cs_max_withdrawals_per_epoch s0
   \<and> cs_observers_per_validator s = cs_observers_per_validator s0
   \<and> cs_max_validator_count s = cs_max_validator_count s0
   \<and> cs_minimum_validator_count s = cs_minimum_validator_count s0
   \<and> cs_invalid_deposit_tax s = cs_invalid_deposit_tax s0
   \<and> cs_max_pending_withdrawals_per_validator s = cs_max_pending_withdrawals_per_validator s0
   \<and> cs_epocher s = cs_epocher s0 \<and> cs_proof_tree s = cs_proof_tree s0
   \<and> cs_proof_validator_keys s = cs_proof_validator_keys s0 \<and> cs_state_root s = cs_state_root s0
   \<and> cs_proof_el_block_number s = cs_proof_el_block_number s0
   \<and> cs_captured_bytes s = cs_captured_bytes s0"

lemmas primitive_defs =
  setter_defs set_account_def add_validator_def remove_added_validator_def set_added_validators_def
  set_removed_validators_def set_param_changes_def set_pending_requests_def cs_push_deposit_def
  pop_deposit_deferred_def rebuild_deposit_tree_def rebuild_withdrawal_tree_def
  push_withdrawal_request_with_kind_def Let_def

lemma frame_primitives:
  assumes "frame s0 s"
  shows "frame s0 (set_account c k a s)" "frame s0 (add_validator c e v s)"
    "frame s0 (snd (remove_added_validator c e k s))" "frame s0 (set_removed_validators c vs s)"
    "frame s0 (set_pending_active_validator_exits c n s)" "frame s0 (set_param_changes c ps s)"
    "frame s0 (set_pending_requests c rs s)" "frame s0 (cs_push_deposit c r s)"
    "frame s0 (snd (pop_deposit_deferred s))" "frame s0 (rebuild_deposit_tree c s)"
    "frame s0 (s\<lparr>cs_withdrawal_queue := q\<rparr>)" "frame s0 (rebuild_withdrawal_tree c s)"
    "push_withdrawal_request_with_kind c req e kind df s = (b, s') \<Longrightarrow> frame s0 s'"
    "remove_account c k s = Some (x, s') \<Longrightarrow> frame s0 s'"
proof -
  show "push_withdrawal_request_with_kind c req e kind df s = (b, s') \<Longrightarrow> frame s0 s'"
    using assms by (auto simp: frame_def primitive_defs split: if_splits)
  show "remove_account c k s = Some (x, s') \<Longrightarrow> frame s0 s'"
    using assms by (auto simp: frame_def remove_account_def Let_def split: option.splits)
qed (use assms in \<open>simp_all add: frame_def primitive_defs split: list.split option.split\<close>)

interpretation framed: state_invariant c "\<lambda>d w s. tree_ok c d w s \<and> frame s0 s" for c s0
proof
  show "tree_ok c d w s \<and> frame s0 s \<Longrightarrow>
      \<exists>x s'. remove_account c k s = Some (x, s') \<and> tree_ok c d w s' \<and> frame s0 s'" for d w s k
    by (metis tree.remove_account frame_primitives(14))
qed (elim conjE, rule conjI,
    (erule tree.set_account tree.add_validator tree.remove_added tree.set_removed
      tree.set_exits tree.set_params tree.set_requests tree.push_deposit tree.pop_deposit
      tree.rebuild_deposits tree.pop_index tree.rebuild_withdrawals | erule tree.push_kind, assumption),
    (erule frame_primitives(1-12) | erule frame_primitives(13), assumption))+

section \<open>The state root after processing\<close>

text \<open>The live tree is the one a rebuild gives, the epoch-schedule leaf apart.\<close>

definition committed :: "crypto \<Rightarrow> consensus_state \<Rightarrow> bool" where
  "committed c s \<longleftrightarrow> (\<exists>bs. cs_ssz_tree s = rebuild c ((contents_of s)\<lparr>ct_dynamic_epoch_schedule := bs\<rparr>))"

lemma tree_ok_committed:
  "tree_ok c False False s \<longleftrightarrow> zero_hashes_ok c \<and> bt_ok (cs_validator_accounts s) \<and> committed c s"
proof -
  have eq: "tree_contents (cs_deposit_queue s) (cs_withdrawal_queue s) bs s
      = (contents_of s)\<lparr>ct_dynamic_epoch_schedule := bs\<rparr>" for bs
    by (simp add: contents_defs)
  have "in_sync c (tree_contents (cs_deposit_queue s) q bs s) t
      \<longleftrightarrow> in_sync c ((contents_of s)\<lparr>ct_dynamic_epoch_schedule := bs\<rparr>) t"
    if "iter_all q = iter_all (cs_withdrawal_queue s)" for q bs t
    unfolding eq [symmetric]
    using in_sync_queue [OF that, of c "(contents_of s)\<lparr>ct_dynamic_epoch_schedule := bs\<rparr>" t]
    by (simp add: contents_defs)
  then show ?thesis
    unfolding tree_ok_def committed_def
    by (metis (no_types, lifting) in_sync_unique rebuild_in_sync)
qed

lemma apply_param_tree_ok:
  assumes "tree_ok c d w s" "apply_param c p s = Some s'"
  shows "tree_ok c d w s'"
proof -
  have "tree_ok c d w (s\<lparr>cs_epocher := e\<rparr>)" for e
    using assms(1) by (simp add: tree_ok_def contents_defs)
  with assms show ?thesis
    by (auto simp: apply_param_def setters_tree_ok split: protocol_param.splits if_splits sum.splits)
qed

lemma apply_params_tree_ok: "tree_ok c d w s \<Longrightarrow> apply_params c ps s = Some s' \<Longrightarrow> tree_ok c d w s'"
  by (induction ps arbitrary: s) (auto split: option.splits dest: apply_param_tree_ok)


definition demo_state :: consensus_state where
  "demo_state =
     set_account demo_crypto 9 (demo_account\<lparr>va_consensus_public_key := 70\<rparr>)
       (set_account demo_crypto 5 demo_account (consensus_state_default demo_crypto))"

lemma demo_state_ok: "tree_ok demo_crypto False False demo_state"
  unfolding demo_state_def consensus_state_default_def consensus_state_new_def
  by (intro set_account_tree_ok rebuild_tree_ok) simp_all


end
