(* ===== verification/Payouts.thy ===== *)
theory Payouts
  imports Epoch_Processing
begin

text \<open>
  The payouts of \<open>types/src/consensus_state/mod.rs\<close>: what a block must pay out
  (\<open>emit_withdrawal_payouts\<close>, computed with transient running balances) and what committing it
  debits (\<open>apply_withdrawal_payouts\<close>, on the live accounts). Shown: the two agree entry by entry,
  each validator loses exactly what the block pays for it, the queue loses exactly the processed
  entries, and a validator that has to keep the minimum stake keeps it.
\<close>

section \<open>Payouts on the accounts\<close>

definition balance_of :: "(node_key, validator_account) btree \<Rightarrow> node_key \<Rightarrow> nat" where
  "balance_of m k = (case bt_get m k of None \<Rightarrow> 0 | Some a \<Rightarrow> unat (va_balance a))"

text \<open>The account an entry is paid from, and the payout.\<close>

definition payer :: "(node_key, validator_account) btree \<Rightarrow> pending_withdrawal \<Rightarrow> validator_account option" where
  "payer m x =
     (case bt_get m (pw_pubkey x) of
        None \<Rightarrow> None
      | Some a \<Rightarrow> if pw_kind x = Validator \<and> w_address (pw_inner x) = va_withdrawal_credentials a then Some a else None)"

definition payout :: "u64 \<Rightarrow> pending_withdrawal \<Rightarrow> validator_account \<Rightarrow> u64" where
  "payout n x a = withdrawal_payout_amount x (va_balance a) (has_minimum_stake_floor (va_status a)) n"

definition settle_accounts ::
  "u64 \<Rightarrow> pending_withdrawal \<Rightarrow> (node_key, validator_account) btree \<Rightarrow> (node_key, validator_account) btree" where
  "settle_accounts n x m =
     (case payer m x of
        None \<Rightarrow> m
      | Some a \<Rightarrow>
          let b = saturating_sub (va_balance a) (payout n x a)
          in if b = 0 then bt_remove (pw_pubkey x) m
             else bt_insert (pw_pubkey x) (a\<lparr>va_balance := b\<rparr>) m)"

primrec payout_pairs ::
  "u64 \<Rightarrow> (node_key, validator_account) btree \<Rightarrow> pending_withdrawal list \<Rightarrow> (pending_withdrawal \<times> u64) list" where
  "payout_pairs n m [] = []"
| "payout_pairs n m (x # xs) =
     (if pw_kind x = DepositRefund then [(x, w_amount (pw_inner x))]
      else case payer m x of
        None \<Rightarrow> []
      | Some a \<Rightarrow> if payout n x a > 0 then [(x, payout n x a)] else [])
     @ payout_pairs n (settle_accounts n x m) xs"

lemma payer_refund [simp]: "pw_kind x = DepositRefund \<Longrightarrow> payer m x = None"
  by (simp add: payer_def split: option.split)

lemma settle_accounts_ok: "bt_ok m \<Longrightarrow> bt_ok (settle_accounts n x m)"
  by (simp add: settle_accounts_def Let_def bt_ok_insert bt_ok_remove split: option.split)

lemma settle_all_ok: "bt_ok m \<Longrightarrow> bt_ok (fold (settle_accounts n) xs m)"
  by (induction xs arbitrary: m) (simp_all add: settle_accounts_ok)

lemma payout_le: "pw_kind x = Validator \<Longrightarrow> payout n x a \<le> va_balance a"
  by (auto simp: payout_def withdrawal_payout_amount_def intro: saturating_sub_le min.coboundedI2)

lemma kind_cases: "pw_kind x \<noteq> DepositRefund \<longleftrightarrow> pw_kind x = Validator"
  by (cases "pw_kind x") simp_all

section \<open>Emission follows the accounts\<close>

text \<open>The live accounts told from the running balances: a key not seen yet has its original
  account, a seen one the original with the running balance, and none at balance zero.\<close>

definition live ::
  "(node_key, validator_account) btree \<Rightarrow> (node_key \<rightharpoonup> u64) \<Rightarrow> node_key \<rightharpoonup> validator_account" where
  "live m0 running k =
     (case running k of
        None \<Rightarrow> bt_get m0 k
      | Some b \<Rightarrow> if b = 0 then None else map_option (\<lambda>a. a\<lparr>va_balance := b\<rparr>) (bt_get m0 k))"

lemma live_update:
  "bt_get m0 k = Some a \<Longrightarrow>
     live m0 (running(k \<mapsto> b)) = (live m0 running)(k := if b = 0 then None else Some (a\<lparr>va_balance := b\<rparr>))"
  by (auto simp: live_def fun_eq_iff)

lemma emit_live:
  assumes "bt_get m = live (cs_validator_accounts s) running" "bt_ok m"
  shows "emit_loop n s xs running = map (\<lambda>(x, p). (pw_inner x)\<lparr>w_amount := p\<rparr>) (payout_pairs n m xs)"
  using assms
proof (induction xs arbitrary: m running)
  case (Cons x xs)
  let ?m0 = "cs_validator_accounts s" and ?k = "pw_pubkey x"
  show ?case
  proof (cases "pw_kind x = DepositRefund \<or> bt_get ?m0 ?k = None \<or>
      w_address (pw_inner x) \<noteq> va_withdrawal_credentials (the (bt_get ?m0 ?k))")
    case True
    have "payer m x = None"
      using True Cons.prems(1) by (auto simp: payer_def live_def split: option.splits if_splits)
    with True Cons show ?thesis by (auto simp: settle_accounts_def split: option.split)
  next
    case False
    then obtain a where a: "bt_get ?m0 ?k = Some a" "w_address (pw_inner x) = va_withdrawal_credentials a"
      "pw_kind x = Validator" by (auto simp: kind_cases)
    define b where "b = (case running ?k of Some b \<Rightarrow> b | None \<Rightarrow> va_balance a)"
    define p where "p = withdrawal_payout_amount x b (has_minimum_stake_floor (va_status a)) n"
    have emit: "emit_loop n s (x # xs) running =
        (if p > 0 then [(pw_inner x)\<lparr>w_amount := p\<rparr>] else [])
          @ emit_loop n s xs (running(?k \<mapsto> saturating_sub b p))"
      using a by (simp add: Let_def b_def [symmetric] p_def [symmetric])
    show ?thesis
    proof (cases "bt_get m ?k")
      case None
      then have "running ?k = Some 0" using Cons.prems(1) a by (auto simp: live_def split: option.splits if_splits)
      then have zero: "b = 0" "p = 0"
        by (simp_all add: b_def p_def withdrawal_payout_amount_def a saturating_sub_def)
      from None have "payer m x = None" by (simp add: payer_def)
      moreover have "bt_get m = live ?m0 (running(?k \<mapsto> 0))"
        using None Cons.prems(1) by (simp add: live_update [OF a(1)] fun_upd_idem)
      note ih = Cons.IH [OF this Cons.prems(2)]
      ultimately show ?thesis unfolding emit zero saturating_sub_0 ih by (simp add: settle_accounts_def a)
    next
      case (Some a')
      then have a': "a' = a\<lparr>va_balance := b\<rparr>"
        using Cons.prems(1) a by (auto simp: live_def b_def split: option.splits if_splits)
      then have pay: "payer m x = Some a'" "payout n x a' = p"
        using Some a by (simp_all add: payer_def payout_def p_def)
      have "bt_get (settle_accounts n x m) = live ?m0 (running(?k \<mapsto> saturating_sub b p))"
        using Cons.prems pay by (simp add: settle_accounts_def Let_def live_update [OF a(1)] get_updates a')
      note ih = Cons.IH [OF this settle_accounts_ok [OF Cons.prems(2)]]
      show ?thesis unfolding emit ih using pay a(3) by simp
    qed
  qed
qed simp

lemma emit_pairs:
  "bt_ok (cs_validator_accounts s) \<Longrightarrow>
     emit_withdrawal_payouts e s = map (\<lambda>(x, p). (pw_inner x)\<lparr>w_amount := p\<rparr>)
       (payout_pairs (prospective_minimum_stake s) (cs_validator_accounts s) (due_entries s e))"
  unfolding emit_withdrawal_payouts_def by (rule emit_live) (simp_all add: live_def fun_eq_iff)

section \<open>Conservation\<close>

definition paid_to :: "node_key \<Rightarrow> (pending_withdrawal \<times> u64) list \<Rightarrow> nat" where
  "paid_to k ps = (\<Sum>(x, p) \<leftarrow> filter (\<lambda>(x, p). pw_kind x = Validator \<and> pw_pubkey x = k) ps. unat p)"

lemma paid_to_simps [simp]: "paid_to k [] = 0" "paid_to k (ps @ qs) = paid_to k ps + paid_to k qs"
  by (simp_all add: paid_to_def)

lemma balance_conserved:
  "bt_ok m \<Longrightarrow> balance_of m k = balance_of (fold (settle_accounts n) xs m) k + paid_to k (payout_pairs n m xs)"
proof (induction xs arbitrary: m)
  case (Cons x xs)
  have step: "balance_of m k = balance_of (settle_accounts n x m) k + paid_to k
      (if pw_kind x = DepositRefund then [(x, w_amount (pw_inner x))]
       else case payer m x of None \<Rightarrow> [] | Some a \<Rightarrow> if payout n x a > 0 then [(x, payout n x a)] else [])"
  proof (cases "payer m x")
    case None
    then show ?thesis by (simp add: settle_accounts_def paid_to_def)
  next
    case (Some a)
    then have a: "bt_get m (pw_pubkey x) = Some a" "pw_kind x = Validator"
      by (auto simp: payer_def split: option.splits if_splits)
    have "unat (saturating_sub (va_balance a) (payout n x a)) + unat (payout n x a) = unat (va_balance a)"
      using payout_le [OF a(2), of n a] by (simp add: unat_saturating_sub word_le_nat_alt)
    moreover have "unat (saturating_sub (va_balance a) (payout n x a)) = 0 \<longleftrightarrow>
        saturating_sub (va_balance a) (payout n x a) = 0" by (rule unat_eq_zero)
    ultimately show ?thesis
      using Some a Cons.prems
      by (auto simp: settle_accounts_def Let_def balance_of_def get_updates paid_to_def word_gt_0)
  qed
  from Cons.IH [OF settle_accounts_ok [OF Cons.prems], of n x] step show ?case by simp
qed simp

section \<open>Committing a block\<close>

lemma settle_entry_accounts:
  assumes s: "tree_ok c d w s"
  shows "\<exists>t. settle_entry c n x s =
      Some (s\<lparr>cs_validator_accounts := settle_accounts n x (cs_validator_accounts s), cs_ssz_tree := t\<rparr>)"
proof (cases "payer (cs_validator_accounts s) x")
  case None
  then have "settle_entry c n x s = Some s"
    by (auto simp: settle_entry_def payer_def kind_cases split: option.splits if_splits)
  with None show ?thesis by (auto simp: settle_accounts_def intro!: exI [of _ "cs_ssz_tree s"])
next
  case (Some a)
  let ?b = "saturating_sub (va_balance a) (payout n x a)"
  have "get_account s (pw_pubkey x) = Some a" "w_address (pw_inner x) = va_withdrawal_credentials a"
    "pw_kind x \<noteq> DepositRefund" using Some by (auto simp: payer_def split: option.splits if_splits)
  then have "settle_entry c n x s =
      (if ?b = 0 then map_option snd (remove_account c (pw_pubkey x) s)
       else Some (set_account c (pw_pubkey x) (a\<lparr>va_balance := ?b\<rparr>) s))"
    by (simp add: settle_entry_def Let_def payout_def)
  moreover obtain t where "remove_account c (pw_pubkey x) s = Some (get_account s (pw_pubkey x),
      s\<lparr>cs_validator_accounts := bt_remove (pw_pubkey x) (cs_validator_accounts s), cs_ssz_tree := t\<rparr>)"
    using remove_account_tree_ok [OF s, of "pw_pubkey x"] by blast
  ultimately show ?thesis
    using Some by (auto simp: settle_accounts_def Let_def set_account_def on_tree_def)
qed

lemma settle_loop_accounts:
  assumes "tree_ok c d w s" "drain_by_index is (cs_withdrawal_queue s) = (map Some xs, q)"
  shows "\<exists>t. settle_loop c n is b s = Some (b \<or> xs \<noteq> [],
    s\<lparr>cs_withdrawal_queue := q, cs_validator_accounts := fold (settle_accounts n) xs (cs_validator_accounts s),
      cs_ssz_tree := t\<rparr>)"
  using assms
proof (induction "is" arbitrary: xs b s w)
  case Nil
  then show ?case by (auto intro!: exI [of _ "cs_ssz_tree s"])
next
  case (Cons i "is")
  obtain x q1 xs' where p: "pop_by_index i (cs_withdrawal_queue s) = (Some x, q1)"
    and xs: "xs = x # xs'" and d: "drain_by_index is q1 = (map Some xs', q)"
    using Cons.prems(2) by (auto simp: Let_def split: prod.splits)
  have "tree_ok c d True (s\<lparr>cs_withdrawal_queue := q1\<rparr>)"
    using tree.pop_index [OF Cons.prems(1), of i] p by simp
  from settle_entry_accounts [OF this, of n x] tree.settle [OF this, of n x] obtain t s1
    where s1: "s1 = s\<lparr>cs_withdrawal_queue := q1, cs_validator_accounts := settle_accounts n x (cs_validator_accounts s),
        cs_ssz_tree := t\<rparr>" "settle_entry c n x (s\<lparr>cs_withdrawal_queue := q1\<rparr>) = Some s1" "tree_ok c d True s1"
    by auto
  then have "drain_by_index is (cs_withdrawal_queue s1) = (map Some xs', q)" using d by simp
  from Cons.IH [OF s1(3) this, of True] p xs s1 show ?case by auto
qed

lemma apply_payouts_accounts:
  assumes s: "tree_ok c d False s" and q: "queue_ok (cs_withdrawal_queue s)"
  shows "\<exists>q' t. apply_withdrawal_payouts c e (emit_withdrawal_payouts e s) s =
      Some (s\<lparr>cs_withdrawal_queue := q', cs_validator_accounts :=
          fold (settle_accounts (prospective_minimum_stake s)) (due_entries s e) (cs_validator_accounts s),
        cs_ssz_tree := t\<rparr>)
    \<and> iter_all q' = filter (\<lambda>x. x \<notin> set (due_entries s e)) (iter_all (cs_withdrawal_queue s))
    \<and> wq_next_index q' = wq_next_index (cs_withdrawal_queue s) \<and> queue_ok q'"
proof -
  obtain q' where d: "drain_by_index (map pw_index (due_entries s e)) (cs_withdrawal_queue s) =
      (map Some (due_entries s e), q')"
    and q': "iter_all q' = filter (\<lambda>x. x \<notin> set (due_entries s e)) (iter_all (cs_withdrawal_queue s))"
      "wq_next_index q' = wq_next_index (cs_withdrawal_queue s)" "queue_ok q'"
    using selected_drained [OF q] unfolding due_entries_def by metis
  obtain t where "settle_loop c (prospective_minimum_stake s) (map pw_index (due_entries s e)) False s =
    Some (due_entries s e \<noteq> [], s\<lparr>cs_withdrawal_queue := q', cs_validator_accounts :=
      fold (settle_accounts (prospective_minimum_stake s)) (due_entries s e) (cs_validator_accounts s),
      cs_ssz_tree := t\<rparr>)"
    using settle_loop_accounts [OF s d, of "prospective_minimum_stake s" False] by auto
  with q' show ?thesis by (auto simp: apply_withdrawal_payouts_def rebuild_withdrawal_tree_def on_tree_def)
qed

section \<open>The floor\<close>

text \<open>An account that must keep the minimum stake, and is not paid out in full, keeps it.\<close>

lemma floor_kept:
  assumes "bt_ok m" "bt_get m k = Some a" "has_minimum_stake_floor (va_status a)" "0 < n" "n \<le> va_balance a"
    "\<And>x. x \<in> set xs \<Longrightarrow> pw_kind x = Validator \<Longrightarrow> pw_pubkey x = k \<Longrightarrow> w_amount (pw_inner x) \<noteq> 0"
  shows "\<exists>b. bt_get (fold (settle_accounts n) xs m) k = Some (a\<lparr>va_balance := b\<rparr>) \<and> n \<le> b \<and> b \<le> va_balance a"
  using assms
proof (induction xs arbitrary: m a)
  case Nil
  then show ?case by (intro exI [of _ "va_balance a"]) simp
next
  case (Cons x xs)
  have "\<exists>b. bt_get (settle_accounts n x m) k = Some (a\<lparr>va_balance := b\<rparr>) \<and> n \<le> b \<and> b \<le> va_balance a"
  proof (cases "payer m x \<noteq> None \<and> pw_pubkey x = k")
    case True
    then have x: "payer m x = Some a" "pw_kind x = Validator" "pw_pubkey x = k"
      using Cons.prems(2) by (auto simp: payer_def split: option.splits if_splits)
    define p where "p = payout n x a"
    have "w_amount (pw_inner x) \<noteq> 0" using Cons.prems(6) [of x] x by simp
    then have "unat p \<le> unat (va_balance a) - unat n"
      using x Cons.prems(3) by (simp add: p_def payout_def withdrawal_payout_amount_def word_le_nat_alt
          unat_saturating_sub [symmetric] min_def)
    then have "unat n \<le> unat (saturating_sub (va_balance a) p)"
      using Cons.prems(5) by (simp add: unat_saturating_sub word_le_nat_alt)
    then have "n \<le> saturating_sub (va_balance a) p" "saturating_sub (va_balance a) p \<noteq> 0"
      using Cons.prems(4) by (auto simp: word_le_nat_alt word_less_nat_alt)
    with x show ?thesis
      using Cons.prems(1) by (auto simp: settle_accounts_def Let_def p_def [symmetric] get_updates saturating_sub_le)
  next
    case False
    then have "bt_get (settle_accounts n x m) k = bt_get m k"
      using Cons.prems(1) by (auto simp: settle_accounts_def Let_def get_updates split: option.split)
    with Cons.prems show ?thesis by (intro exI [of _ "va_balance a"]) simp
  qed
  then obtain b where b: "bt_get (settle_accounts n x m) k = Some (a\<lparr>va_balance := b\<rparr>)" "n \<le> b" "b \<le> va_balance a"
    by blast
  from Cons.IH [OF settle_accounts_ok [OF Cons.prems(1)] b(1)] Cons.prems b(2,3) show ?case by force
qed

section \<open>Properties\<close>

lemma pairs_subset: "set (map fst (payout_pairs n m xs)) \<subseteq> set xs"
  by (induction xs arbitrary: m) (auto split: option.splits if_splits)

lemma pairs_distinct: "distinct xs \<Longrightarrow> distinct (map fst (payout_pairs n m xs))"
proof (induction xs arbitrary: m)
  case (Cons x xs)
  then show ?case
    using pairs_subset [of n "settle_accounts n x m" xs] by (auto split: option.split)
qed simp

lemma pairs_length: "length (payout_pairs n m xs) \<le> length xs"
  by (induction xs arbitrary: m) (auto split: option.split intro: le_SucI)

lemma pairs_refunds:
  "filter (\<lambda>(x, p). pw_kind x = DepositRefund) (payout_pairs n m xs) =
     map (\<lambda>x. (x, w_amount (pw_inner x))) (filter (\<lambda>x. pw_kind x = DepositRefund) xs)"
  by (induction xs arbitrary: m) (auto split: option.split)

lemma due_distinct: "queue_ok (cs_withdrawal_queue s) \<Longrightarrow> distinct (due_entries s e)"
proof -
  assume "queue_ok (cs_withdrawal_queue s)"
  then have "distinct (iter_all (cs_withdrawal_queue s))"
    unfolding queue_ok_def by (metis distinct_map)
  moreover obtain n m where "due_entries s e =
      take n (wq_withdrawals (cs_withdrawal_queue s)) @ take m (wq_refunds (cs_withdrawal_queue s))"
    using selection_prefixes unfolding due_entries_def by metis
  ultimately show ?thesis by (auto simp: iter_all_def dest: in_set_takeD)
qed

lemma due_length: "length (due_entries s e) \<le> unat (cs_max_withdrawals_per_epoch s)"
  by (auto simp: due_entries_def get_for_epoch_with_total_cap_def Let_def min_def)

text \<open>C3. Payouts are conserved. The withdrawals a block must carry come from distinct due queue
  entries, at most as many as the per-epoch cap, and every due refund among them is paid its exact
  amount. Committing a block that carries them succeeds, lowers the balance of each validator by
  exactly what the block pays for that validator's entries (a balance that reaches zero is an
  account that is gone), touches no other field than the accounts, the queue and the tree, and
  removes exactly the processed entries from the queue, which stays well formed. So the consensus
  balances and the execution layer never disagree, although emission works on transient running
  balances and the commit on the live accounts.\<close>

theorem payouts_conserve:
  assumes "zero_hashes_ok c" "bt_ok (cs_validator_accounts s)" "committed c s"
    and q: "queue_ok (cs_withdrawal_queue s)"
  shows "\<exists>ps m q' t. emit_withdrawal_payouts e s = map (\<lambda>(x, p). (pw_inner x)\<lparr>w_amount := p\<rparr>) ps
    \<and> distinct (map fst ps) \<and> set (map fst ps) \<subseteq> set (due_entries s e)
    \<and> length ps \<le> unat (cs_max_withdrawals_per_epoch s)
    \<and> filter (\<lambda>(x, p). pw_kind x = DepositRefund) ps =
        map (\<lambda>x. (x, w_amount (pw_inner x))) (filter (\<lambda>x. pw_kind x = DepositRefund) (due_entries s e))
    \<and> apply_withdrawal_payouts c e (emit_withdrawal_payouts e s) s =
        Some (s\<lparr>cs_withdrawal_queue := q', cs_validator_accounts := m, cs_ssz_tree := t\<rparr>)
    \<and> (\<forall>k. balance_of (cs_validator_accounts s) k = balance_of m k + paid_to k ps)
    \<and> iter_all q' = filter (\<lambda>x. x \<notin> set (due_entries s e)) (iter_all (cs_withdrawal_queue s)) \<and> queue_ok q'"
proof -
  let ?n = "prospective_minimum_stake s" and ?m = "cs_validator_accounts s"
  let ?ps = "payout_pairs ?n ?m (due_entries s e)"
  have ok: "tree_ok c False False s" using assms by (simp add: tree_ok_committed)
  obtain q' t where a: "apply_withdrawal_payouts c e (emit_withdrawal_payouts e s) s =
      Some (s\<lparr>cs_withdrawal_queue := q', cs_validator_accounts := fold (settle_accounts ?n) (due_entries s e) ?m,
        cs_ssz_tree := t\<rparr>)"
    "iter_all q' = filter (\<lambda>x. x \<notin> set (due_entries s e)) (iter_all (cs_withdrawal_queue s))" "queue_ok q'"
    using apply_payouts_accounts [OF ok q] by blast
  show ?thesis
    by (rule exI [of _ ?ps], rule exI [of _ "fold (settle_accounts ?n) (due_entries s e) ?m"],
        rule exI [of _ q'], rule exI [of _ t])
      (use a pairs_subset [of ?n ?m "due_entries s e"] le_trans [OF pairs_length due_length]
         balance_conserved [OF assms(2)] in \<open>simp add: emit_pairs [OF assms(2), symmetric] pairs_refunds
         pairs_distinct [OF due_distinct [OF q]]\<close>)
qed


definition demo_payout_state :: consensus_state where
  "demo_payout_state =
     push_withdrawal_request demo_crypto \<lparr>wr_source_address = 8, wr_validator_pubkey = 5, wr_amount = 0\<rparr> 3
       (push_withdrawal_request demo_crypto \<lparr>wr_source_address = 8, wr_validator_pubkey = 9, wr_amount = 30\<rparr> 3
         (set_minimum_stake demo_crypto 20 demo_state))"

lemma demo_payout_ok: "tree_ok demo_crypto False False demo_payout_state"
proof -
  have step: "tree_ok demo_crypto False False s \<Longrightarrow>
      tree_ok demo_crypto False False (push_withdrawal_request demo_crypto r e s)" for r e s
    using tree.push_kind [of demo_crypto False False s r e Validator False]
    by (auto simp: push_withdrawal_request_def push_withdrawal_request_with_kind_def Let_def split: if_splits)
  show ?thesis unfolding demo_payout_state_def by (intro step setters_tree_ok demo_state_ok)
qed

lemmas demo_payout_defs =
  demo_payout_state_def demo_state_def demo_account_def push_withdrawal_request_def
  push_withdrawal_request_with_kind_def set_account_def set_minimum_stake_def on_tree_def
  consensus_state_default_def consensus_state_new_def rebuild_ssz_tree_def Let_def wq_default_def
  push_request_with_kind_def increment_pending_count_def pending_of_request_def

lemma demo_payout_queue: "queue_ok (cs_withdrawal_queue demo_payout_state)"
  by (simp add: demo_payout_defs queue_ok_def deque_ok_def iter_all_def count_pending_def bump_def wq_back_def)

lemma demo_payout_due:
  "map (\<lambda>x. (pw_pubkey x, w_amount (pw_inner x))) (due_entries demo_payout_state 3) = [(9, 30), (5, 0)]"
  by (simp add: demo_payout_defs due_entries_def get_for_epoch_with_total_cap_def wq_back_def)

theorem payouts_conserve_witness:
  "map w_amount (emit_withdrawal_payouts 3 demo_payout_state) = [12, 32]
    \<and> (\<exists>ps m q' t. emit_withdrawal_payouts 3 demo_payout_state = map (\<lambda>(x, p). (pw_inner x)\<lparr>w_amount := p\<rparr>) ps
      \<and> apply_withdrawal_payouts demo_crypto 3 (emit_withdrawal_payouts 3 demo_payout_state) demo_payout_state =
          Some (demo_payout_state\<lparr>cs_withdrawal_queue := q', cs_validator_accounts := m, cs_ssz_tree := t\<rparr>)
      \<and> (\<forall>k. balance_of (cs_validator_accounts demo_payout_state) k = balance_of m k + paid_to k ps))"
proof
  have "prospective_minimum_stake demo_payout_state = 20"
    by (simp add: demo_payout_defs prospective_minimum_stake_def last_queued_def wq_back_def)
  then show "map w_amount (emit_withdrawal_payouts 3 demo_payout_state) = [12, 32]"
    unfolding emit_withdrawal_payouts_def
    by (simp add: demo_payout_defs due_entries_def get_for_epoch_with_total_cap_def wq_back_def bt_get_def
        withdrawal_payout_amount_def has_minimum_stake_floor_def saturating_sub_def)
  have "zero_hashes_ok demo_crypto" "bt_ok (cs_validator_accounts demo_payout_state)" "committed demo_crypto demo_payout_state"
    using demo_payout_ok by (simp_all add: tree_ok_committed)
  from payouts_conserve [OF this demo_payout_queue, of 3]
  show "\<exists>ps m q' t. emit_withdrawal_payouts 3 demo_payout_state = map (\<lambda>(x, p). (pw_inner x)\<lparr>w_amount := p\<rparr>) ps
      \<and> apply_withdrawal_payouts demo_crypto 3 (emit_withdrawal_payouts 3 demo_payout_state) demo_payout_state =
          Some (demo_payout_state\<lparr>cs_withdrawal_queue := q', cs_validator_accounts := m, cs_ssz_tree := t\<rparr>)
      \<and> (\<forall>k. balance_of (cs_validator_accounts demo_payout_state) k = balance_of m k + paid_to k ps)" by blast
qed


end
