(* ===== verification/Lifecycle.thy ===== *)
theory Lifecycle
  imports Account
begin

text \<open>
  The life of a validator, as a state machine. The abstract machine knows of a validator only its
  status, its consensus key, whether and when its activation is scheduled, whether it is leaving
  the committee at the coming boundary, and whether withdrawals of it are queued. Its invariant is
  proved by rule induction. \<open>Lifecycle_Simulation\<close> shows that the operations of
  \<open>types/src/consensus_state/mod.rs\<close> are sequences of its steps.
\<close>

section \<open>The machine\<close>

record lifecycle =
  lf_epoch :: u64
  lf_status :: "node_key \<rightharpoonup> validator_status"
  lf_bls :: "node_key \<rightharpoonup> bls_key"
  lf_scheduled :: "(node_key \<times> u64) set"
  lf_leaving :: "node_key set"
  lf_pending :: "node_key set"

definition boundary_status :: "lifecycle \<Rightarrow> node_key \<rightharpoonup> validator_status" where
  "boundary_status l k =
     (if (k, lf_epoch l + 1) \<in> lf_scheduled l then Some Active
      else if k \<in> lf_leaving l
      then map_option (\<lambda>st. if st = SubmittedExitRequest then FullPayoutPending else Inactive) (lf_status l k)
      else lf_status l k)"

inductive lstep :: "lifecycle \<Rightarrow> lifecycle \<Rightarrow> bool" where
  register: "lf_status l k = None \<Longrightarrow> k \<notin> lf_leaving l \<Longrightarrow> b \<notin> ran (lf_bls l) \<Longrightarrow>
    lstep l (l\<lparr>lf_status := (lf_status l)(k \<mapsto> Inactive), lf_bls := (lf_bls l)(k \<mapsto> b)\<rparr>)"
| join: "lf_status l k = Some Inactive \<Longrightarrow> k \<notin> lf_pending l \<Longrightarrow> lf_epoch l < e \<Longrightarrow>
    lstep l (l\<lparr>lf_status := (lf_status l)(k \<mapsto> Joining), lf_scheduled := insert (k, e) (lf_scheduled l)\<rparr>)"
| cancel: "lf_status l k = Some Joining \<Longrightarrow>
    lstep l (l\<lparr>lf_status := (lf_status l)(k \<mapsto> Inactive),
               lf_scheduled := {p \<in> lf_scheduled l. fst p \<noteq> k}\<rparr>)"
| exit: "lf_status l k = Some Active \<Longrightarrow>
    lstep l (l\<lparr>lf_status := (lf_status l)(k \<mapsto> SubmittedExitRequest), lf_leaving := insert k (lf_leaving l)\<rparr>)"
| unstake: "lf_status l k = Some Active \<Longrightarrow> lstep l (l\<lparr>lf_leaving := insert k (lf_leaving l)\<rparr>)"
| retire: "lf_status l k = Some Inactive \<Longrightarrow>
    lstep l (l\<lparr>lf_status := (lf_status l)(k \<mapsto> FullPayoutPending)\<rparr>)"
| enqueue: "lf_status l k = Some st \<Longrightarrow> st \<noteq> Joining \<Longrightarrow> lstep l (l\<lparr>lf_pending := insert k (lf_pending l)\<rparr>)"
| drain: "k \<in> lf_pending l \<Longrightarrow>
    lstep l (l\<lparr>lf_status := (lf_status l)(k := None), lf_bls := (lf_bls l)(k := None)\<rparr>)"
| consume: "P \<subseteq> lf_pending l \<Longrightarrow> lstep l (l\<lparr>lf_pending := P\<rparr>)"
| boundary: "lf_epoch l \<noteq> -1 \<Longrightarrow>
    lstep l (l\<lparr>lf_epoch := lf_epoch l + 1, lf_status := boundary_status l,
               lf_scheduled := {p \<in> lf_scheduled l. snd p \<noteq> lf_epoch l + 1}, lf_leaving := {}\<rparr>)"

definition schedule_ok :: "lifecycle \<Rightarrow> bool" where
  "schedule_ok l \<longleftrightarrow>
     (\<forall>k e. (k, e) \<in> lf_scheduled l \<longrightarrow> lf_status l k = Some Joining \<and> lf_epoch l < e)
   \<and> (\<forall>k e e'. (k, e) \<in> lf_scheduled l \<longrightarrow> (k, e') \<in> lf_scheduled l \<longrightarrow> e = e')"

definition joining_ok :: "lifecycle \<Rightarrow> bool" where
  "joining_ok l \<longleftrightarrow>
     (\<forall>k. lf_status l k = Some Joining \<longrightarrow> (\<exists>e. (k, e) \<in> lf_scheduled l) \<and> k \<notin> lf_pending l)"

definition leaving_ok :: "lifecycle \<Rightarrow> bool" where
  "leaving_ok l \<longleftrightarrow>
     (\<forall>k \<in> lf_leaving l. lf_status l k \<in> {None, Some Active, Some SubmittedExitRequest})
   \<and> (\<forall>k. lf_status l k = Some SubmittedExitRequest \<longrightarrow> k \<in> lf_leaving l)"

definition bls_ok :: "lifecycle \<Rightarrow> bool" where
  "bls_ok l \<longleftrightarrow> dom (lf_bls l) = dom (lf_status l) \<and> inj_on (lf_bls l) (dom (lf_bls l))"

definition lf_ok :: "lifecycle \<Rightarrow> bool" where
  "lf_ok l \<longleftrightarrow> schedule_ok l \<and> joining_ok l \<and> leaving_ok l \<and> bls_ok l"

lemma epoch_succ: "lf_epoch l \<noteq> -1 \<Longrightarrow> lf_epoch l < e \<Longrightarrow> e \<noteq> lf_epoch l + 1 \<Longrightarrow> lf_epoch l + 1 < e"
  by (metis inc_le order_le_less)

lemma schedule_step: "lstep l l' \<Longrightarrow> schedule_ok l \<Longrightarrow> leaving_ok l \<Longrightarrow> joining_ok l \<Longrightarrow> schedule_ok l'"
proof (induction rule: lstep.induct)
  case (boundary l)
  have "boundary_status l k = Some Joining" if "(k, e) \<in> lf_scheduled l" "e \<noteq> lf_epoch l + 1" for k e
    using that boundary by (auto simp: boundary_status_def schedule_ok_def leaving_ok_def)
  with boundary show ?case by (auto simp: schedule_ok_def intro: epoch_succ)
qed (auto simp: schedule_ok_def joining_ok_def)

lemma joining_step: "lstep l l' \<Longrightarrow> schedule_ok l \<Longrightarrow> leaving_ok l \<Longrightarrow> joining_ok l \<Longrightarrow> joining_ok l'"
proof (induction rule: lstep.induct)
  case (boundary l)
  have "\<exists>e. (k, e) \<in> lf_scheduled l \<and> e \<noteq> lf_epoch l + 1" "k \<notin> lf_pending l"
    if "boundary_status l k = Some Joining" for k
    using that boundary unfolding boundary_status_def joining_ok_def schedule_ok_def
    by (auto split: if_splits)
  then show ?case by (auto simp: joining_ok_def)
qed (auto simp: joining_ok_def)

lemma leaving_step: "lstep l l' \<Longrightarrow> schedule_ok l \<Longrightarrow> leaving_ok l \<Longrightarrow> leaving_ok l'"
proof (induction rule: lstep.induct)
  case (boundary l)
  then show ?case by (auto simp: leaving_ok_def boundary_status_def split: if_splits)
qed (auto simp: leaving_ok_def split: if_splits)

lemma bls_step: "lstep l l' \<Longrightarrow> schedule_ok l \<Longrightarrow> bls_ok l \<Longrightarrow> bls_ok l'"
proof (induction rule: lstep.induct)
  case (register l k b)
  then show ?case by (auto simp: bls_ok_def inj_on_def ran_def)
next
  case (boundary l)
  have "dom (boundary_status l) = dom (lf_status l)"
    using boundary by (auto simp: boundary_status_def schedule_ok_def split: if_splits)
  with boundary show ?case by (auto simp: bls_ok_def)
qed (auto simp: bls_ok_def inj_on_def)

lemma lsteps_ok: "lstep\<^sup>*\<^sup>* l l' \<Longrightarrow> lf_ok l \<Longrightarrow> lf_ok l'"
  by (induction rule: rtranclp_induct)
    (auto simp: lf_ok_def intro: schedule_step joining_step leaving_step bls_step)

end
