(* ===== verification/Lifecycle_Simulation.thy ===== *)
theory Lifecycle_Simulation
  imports Lifecycle Payouts
begin

text \<open>
  The epoch-end operations of \<open>types/src/consensus_state/mod.rs\<close> as sequences of steps of the
  abstract machine of \<open>Lifecycle\<close>: an abstraction function, a well-formedness predicate on what the
  machine does not see, and one simulation lemma per operation. So the invariant of the machine
  holds of the real state, and the expectations in the code (every scheduled validator has an
  account) cannot fail.
\<close>

section \<open>The machine of a state\<close>

definition scheduled_in :: "(u64, added_validator list) btree \<Rightarrow> (node_key \<times> u64) set" where
  "scheduled_in m = {(k, e). \<exists>vs. bt_get m e = Some vs \<and> k \<in> av_node_key ` set vs}"

definition abs_lf :: "consensus_state \<Rightarrow> lifecycle" where
  "abs_lf s =
     \<lparr>lf_epoch = cs_epoch s,
      lf_status = (\<lambda>k. map_option va_status (get_account s k)),
      lf_bls = (\<lambda>k. map_option va_consensus_public_key (get_account s k)),
      lf_scheduled = scheduled_in (cs_added_validators s),
      lf_leaving = set (cs_removed_validators s),
      lf_pending = pw_pubkey ` set (wq_withdrawals (cs_withdrawal_queue s))\<rparr>"

lemma abs_simps [simp]:
  "lf_epoch (abs_lf s) = cs_epoch s" "lf_status (abs_lf s) k = map_option va_status (get_account s k)"
  "lf_bls (abs_lf s) k = map_option va_consensus_public_key (get_account s k)"
  "lf_scheduled (abs_lf s) = scheduled_in (cs_added_validators s)"
  "lf_leaving (abs_lf s) = set (cs_removed_validators s)"
  "lf_pending (abs_lf s) = pw_pubkey ` set (wq_withdrawals (cs_withdrawal_queue s))"
  by (simp_all add: abs_lf_def)

text \<open>What the machine does not see: the maps are ordered, no scheduled list is empty or names a key
  twice, keys decode, a joining account carries its activation epoch, and the queue's counters
  count.\<close>

definition members_ok :: "crypto \<Rightarrow> consensus_state \<Rightarrow> bool" where
  "members_ok c s \<longleftrightarrow>
     bt_ok (cs_validator_accounts s) \<and> bt_ok (cs_added_validators s)
   \<and> (\<forall>e vs. bt_get (cs_added_validators s) e = Some vs \<longrightarrow> vs \<noteq> [] \<and> distinct (map av_node_key vs))
   \<and> (\<forall>k a. get_account s k = Some a \<longrightarrow> ed_key_ok c k
        \<and> (va_status a = Joining \<longrightarrow> (k, va_joining_epoch a) \<in> scheduled_in (cs_added_validators s)))
   \<and> wq_pending_per_pubkey (cs_withdrawal_queue s) = count_pending (wq_withdrawals (cs_withdrawal_queue s))
   \<and> (\<forall>k. occurrences (wq_withdrawals (cs_withdrawal_queue s)) k < 2 ^ 64)
   \<and> (\<forall>r \<in> set (cs_deposit_queue s). ed_key_ok c (dr_node_pubkey r))
   \<and> distinct (cs_removed_validators s)"

definition lifecycle_ok :: "crypto \<Rightarrow> consensus_state \<Rightarrow> bool" where
  "lifecycle_ok c s \<longleftrightarrow> members_ok c s \<and> lf_ok (abs_lf s)"

text \<open>While requests are processed the staged removals are exactly voluntary exits; the enforcement of
  a minimum stake then adds others, a payout on the last block may drain one of their accounts, and
  the boundary clears the list.\<close>

definition staged :: "consensus_state \<Rightarrow> bool" where
  "staged s \<longleftrightarrow> (\<forall>k \<in> set (cs_removed_validators s). lf_status (abs_lf s) k = Some SubmittedExitRequest)"

text \<open>The flag says whether the state is in that first phase.\<close>

definition ready :: "bool \<Rightarrow> crypto \<Rightarrow> consensus_state \<Rightarrow> bool" where
  "ready ph c s \<longleftrightarrow> lifecycle_ok c s \<and> (ph \<longrightarrow> staged s)"

text \<open>From a good \<open>s\<close>, steps of the machine reach \<open>s'\<close>, which is good again.\<close>

definition simulates :: "bool \<Rightarrow> crypto \<Rightarrow> consensus_state \<Rightarrow> consensus_state \<Rightarrow> bool" where
  "simulates ph c s s' \<longleftrightarrow>
     (ready ph c s \<longrightarrow> lstep\<^sup>*\<^sup>* (abs_lf s) (abs_lf s') \<and> ready ph c s' \<and> cs_epoch s' = cs_epoch s)"

lemma simulates_refl [intro, simp]: "simulates ph c s s"
  by (simp add: simulates_def)

lemma simulates_trans: "simulates ph c s s' \<Longrightarrow> simulates ph c s' s'' \<Longrightarrow> simulates ph c s s''"
  unfolding simulates_def by auto

lemma simulatesI:
  assumes "ready ph c s \<Longrightarrow> lstep\<^sup>*\<^sup>* (abs_lf s) (abs_lf s')" "ready ph c s \<Longrightarrow> members_ok c s'"
    "ready ph c s \<Longrightarrow> ph \<Longrightarrow> staged s'" "ready ph c s \<Longrightarrow> cs_epoch s' = cs_epoch s"
  shows "simulates ph c s s'"
  using assms lsteps_ok unfolding simulates_def ready_def lifecycle_ok_def by blast

text \<open>A change the machine does not see.\<close>

lemma simulates_stutter:
  assumes "abs_lf s' = abs_lf s" "cs_validator_accounts s' = cs_validator_accounts s"
    "cs_added_validators s' = cs_added_validators s" "cs_withdrawal_queue s' = cs_withdrawal_queue s"
    "cs_removed_validators s' = cs_removed_validators s"
    "ready ph c s \<Longrightarrow> \<forall>r \<in> set (cs_deposit_queue s'). ed_key_ok c (dr_node_pubkey r)"
  shows "simulates ph c s s'"
proof (rule simulatesI)
  show "ready ph c s \<Longrightarrow> ph \<Longrightarrow> staged s'" "cs_epoch s' = cs_epoch s"
    using assms(1,5) abs_simps(1) [of s] abs_simps(1) [of s'] by (simp_all add: ready_def staged_def)
  show "ready ph c s \<Longrightarrow> members_ok c s'"
    using assms(2-6) by (auto simp: ready_def lifecycle_ok_def members_ok_def)
qed (use assms(1) in simp)

lemma scheduled_insert:
  "scheduled_in (bt_insert e vs m) =
     {p \<in> scheduled_in m. snd p \<noteq> e} \<union> {(k, e) |k. k \<in> av_node_key ` set vs}"
  by (auto simp: scheduled_in_def get_updates split: if_splits)

lemma scheduled_remove: "bt_ok m \<Longrightarrow> scheduled_in (bt_remove e m) = {p \<in> scheduled_in m. snd p \<noteq> e}"
  by (auto simp: scheduled_in_def get_updates split: if_splits)

lemma abs_set_account:
  "abs_lf (set_account c k a s) = (abs_lf s)\<lparr>lf_status := (lf_status (abs_lf s))(k \<mapsto> va_status a),
     lf_bls := (lf_bls (abs_lf s))(k \<mapsto> va_consensus_public_key a)\<rparr>"
  by (simp add: abs_lf_def set_account_def Let_def on_tree_def get_updates fun_eq_iff)

lemma abs_set_added:
  "abs_lf (set_added_validators c m s) = (abs_lf s)\<lparr>lf_scheduled := scheduled_in m\<rparr>"
  by (simp add: abs_lf_def set_added_validators_def on_tree_def)

lemma abs_leave:
  "abs_lf (increment_pending_active_validator_exits c (push_removed_validator c k s)) =
     (abs_lf s)\<lparr>lf_leaving := insert k (lf_leaving (abs_lf s))\<rparr>"
  by (simp add: abs_lf_def push_removed_validator_def set_removed_validators_def setter_defs)

text \<open>A scheduled validator has its account.\<close>

lemma scheduled_joining:
  assumes "schedule_ok (abs_lf s)" "(k, e) \<in> scheduled_in (cs_added_validators s)"
  shows "\<exists>a. get_account s k = Some a \<and> va_status a = Joining \<and> cs_epoch s < e"
proof -
  from assms have "lf_status (abs_lf s) k = Some Joining \<and> lf_epoch (abs_lf s) < e"
    unfolding schedule_ok_def abs_simps(4) by blast
  then show ?thesis by auto
qed

section \<open>Queue operations\<close>

lemma push_request_queue:
  "wq_withdrawals (push_request_with_kind r e kind q) =
     (if kind = Validator then wq_withdrawals q @ [pending_of_request q r e kind] else wq_withdrawals q)"
  "wq_pending_per_pubkey (push_request_with_kind r e kind q) =
     (if kind = Validator then bump (wr_validator_pubkey r) (wq_pending_per_pubkey q) else wq_pending_per_pubkey q)"
  by (cases kind; simp add: push_request_with_kind_def Let_def increment_pending_count_def pending_of_request_def)+

text \<open>A push leaves everything but the queue and the tree alone.\<close>

lemma push_kind_fields:
  assumes "push_withdrawal_request_with_kind c r e kind df s = (b, s')"
  shows "\<exists>t. s' = s\<lparr>cs_withdrawal_queue := push_request_with_kind r e kind (cs_withdrawal_queue s), cs_ssz_tree := t\<rparr>"
  using assms by (auto simp: push_withdrawal_request_with_kind_def Let_def on_tree_def split: if_splits)

text \<open>The counter of a key is the number of its entries, so the cap on it bounds that number.\<close>

lemma pending_count_occurrences:
  assumes "members_ok c s"
  shows "unat (pending_count (cs_withdrawal_queue s) k) = occurrences (wq_withdrawals (cs_withdrawal_queue s)) k"
  using assms by (auto simp: members_ok_def pending_count_def count_pending_occurrences unat_word_of_nat)

lemma occurrences_pos: "occurrences ws k \<noteq> 0 \<longleftrightarrow> k \<in> pw_pubkey ` set ws"
  by (induction ws) auto

lemma push_validator_simulates:
  assumes "push_withdrawal_request_with_kind c r e Validator df s = (b, s')"
    "get_account s (wr_validator_pubkey r) = Some a" "va_status a \<noteq> Joining"
    "pending_count (cs_withdrawal_queue s) (wr_validator_pubkey r) < cap"
  shows "simulates ph c s s'"
proof (rule simulatesI)
  obtain t where s': "s' = s\<lparr>cs_withdrawal_queue :=
      push_request_with_kind r e Validator (cs_withdrawal_queue s), cs_ssz_tree := t\<rparr>"
    using push_kind_fields [OF assms(1)] by blast
  have "abs_lf s' = (abs_lf s)\<lparr>lf_pending := insert (wr_validator_pubkey r) (lf_pending (abs_lf s))\<rparr>"
    by (auto simp: abs_lf_def s' push_request_queue pending_of_request_def)
  then show "lstep\<^sup>*\<^sup>* (abs_lf s) (abs_lf s')"
    using assms(2,3) lstep.enqueue [of "abs_lf s" "wr_validator_pubkey r" "va_status a"] by auto
  assume "ready ph c s"
  then show "ph \<Longrightarrow> staged s'" "cs_epoch s' = cs_epoch s" by (simp_all add: ready_def staged_def s')
  have m: "members_ok c s" using \<open>ready ph c s\<close> by (simp add: ready_def lifecycle_ok_def)
  have "unat (pending_count (cs_withdrawal_queue s) (wr_validator_pubkey r)) < unat cap"
    using assms(4) by (simp add: word_less_nat_alt)
  then have "Suc (occurrences (wq_withdrawals (cs_withdrawal_queue s)) (wr_validator_pubkey r)) < 2 ^ 64"
    unfolding pending_count_occurrences [OF m] using unat_less [of cap] by simp
  with m show "members_ok c s'"
    by (simp add: members_ok_def s' push_request_queue count_pending_append pending_of_request_def)
qed

lemma push_refund_simulates:
  "simulates ph c s (push_refund_withdrawal_request c r e s)"
proof (rule simulatesI)
  obtain b s' where p: "push_withdrawal_request_with_kind c r e DepositRefund False s = (b, s')" by fastforce
  obtain t where s': "s' = s\<lparr>cs_withdrawal_queue :=
      push_request_with_kind r e DepositRefund (cs_withdrawal_queue s), cs_ssz_tree := t\<rparr>"
    using push_kind_fields [OF p] by blast
  have eq: "push_refund_withdrawal_request c r e s = s'" by (simp add: push_refund_withdrawal_request_def p)
  have "abs_lf s' = abs_lf s" by (simp add: abs_lf_def s' push_request_queue)
  then show "lstep\<^sup>*\<^sup>* (abs_lf s) (abs_lf (push_refund_withdrawal_request c r e s))" by (simp add: eq)
  assume "ready ph c s"
  then show "members_ok c (push_refund_withdrawal_request c r e s)"
    "ph \<Longrightarrow> staged (push_refund_withdrawal_request c r e s)"
    "cs_epoch (push_refund_withdrawal_request c r e s) = cs_epoch s"
    by (simp_all add: eq members_ok_def s' push_request_queue ready_def lifecycle_ok_def staged_def)
qed

lemma refund_simulates: "simulates ph c s (refund_deposit c wc amount why delay s)"
  by (auto simp: refund_deposit_def Let_def split: sum.splits prod.splits
      intro: push_refund_simulates simulates_trans)

section \<open>Deposits\<close>

text \<open>The machine does not look at the state tree.\<close>

lemma simulates_tree [simp]:
  "simulates ph c (s\<lparr>cs_ssz_tree := t\<rparr>) s' \<longleftrightarrow> simulates ph c s s'"
  "simulates ph c s (s'\<lparr>cs_ssz_tree := t\<rparr>) \<longleftrightarrow> simulates ph c s s'"
  by (simp_all add: simulates_def ready_def lifecycle_ok_def members_ok_def staged_def abs_lf_def)

lemma set_account_fields:
  "\<exists>t. set_account c k a s = s\<lparr>cs_validator_accounts := bt_insert k a (cs_validator_accounts s), cs_ssz_tree := t\<rparr>"
  by (auto simp: set_account_def Let_def on_tree_def)

lemma set_added_fields:
  "\<exists>t. set_added_validators c m s = s\<lparr>cs_added_validators := m, cs_ssz_tree := t\<rparr>"
  by (auto simp: set_added_validators_def on_tree_def)

lemma set_account_simulates:
  assumes "ready ph c s \<Longrightarrow> lstep\<^sup>*\<^sup>* (abs_lf s) ((abs_lf s)\<lparr>lf_status := (lf_status (abs_lf s))(k \<mapsto> va_status a),
      lf_bls := (lf_bls (abs_lf s))(k \<mapsto> va_consensus_public_key a)\<rparr>)"
    and "ready ph c s \<Longrightarrow> ed_key_ok c k"
    and "ready ph c s \<Longrightarrow> va_status a = Joining \<Longrightarrow> (k, va_joining_epoch a) \<in> scheduled_in (cs_added_validators s)"
    and "ready ph c s \<Longrightarrow> lf_status (abs_lf s) k = Some SubmittedExitRequest \<Longrightarrow> va_status a = SubmittedExitRequest"
  shows "simulates ph c s (set_account c k a s)"
proof (rule simulatesI)
  obtain t where eq: "set_account c k a s =
      s\<lparr>cs_validator_accounts := bt_insert k a (cs_validator_accounts s), cs_ssz_tree := t\<rparr>"
    using set_account_fields by blast
  assume r: "ready ph c s"
  show "lstep\<^sup>*\<^sup>* (abs_lf s) (abs_lf (set_account c k a s))"
    unfolding abs_set_account using assms(1) [OF r] .
  show "members_ok c (set_account c k a s)"
    using assms(2,3) [OF r] r
    by (auto simp: eq ready_def lifecycle_ok_def members_ok_def bt_ok_insert get_updates split: if_splits)
  show "ph \<Longrightarrow> staged (set_account c k a s)" "cs_epoch (set_account c k a s) = cs_epoch s"
    using r assms(4) [OF r] by (auto simp: eq ready_def staged_def get_updates)
qed

lemma set_account_same:
  assumes "get_account s k = Some a" "va_status a' = va_status a"
    "va_consensus_public_key a' = va_consensus_public_key a" "va_joining_epoch a' = va_joining_epoch a"
  shows "simulates ph c s (set_account c k a' s)"
proof (rule set_account_simulates)
  have "(lf_status (abs_lf s))(k \<mapsto> va_status a') = lf_status (abs_lf s)"
    "(lf_bls (abs_lf s))(k \<mapsto> va_consensus_public_key a') = lf_bls (abs_lf s)"
    using assms by (auto simp: fun_eq_iff)
  then show "lstep\<^sup>*\<^sup>* (abs_lf s) ((abs_lf s)\<lparr>lf_status := (lf_status (abs_lf s))(k \<mapsto> va_status a'),
      lf_bls := (lf_bls (abs_lf s))(k \<mapsto> va_consensus_public_key a')\<rparr>)" by simp
qed (use assms in \<open>auto simp: ready_def lifecycle_ok_def members_ok_def\<close>)

lemma verified_key:
  assumes "verify_deposit_request c r domain s = None" "bt_ok (cs_validator_accounts s)"
    "get_account s (dr_node_pubkey r) = None"
  shows "dr_consensus_pubkey r \<notin> ran (lf_bls (abs_lf s))"
proof
  assume "dr_consensus_pubkey r \<in> ran (lf_bls (abs_lf s))"
  then obtain k a where k: "get_account s k = Some a" "va_consensus_public_key a = dr_consensus_pubkey r"
    by (auto simp: ran_def)
  then have "k \<noteq> dr_node_pubkey r" using assms(3) by auto
  moreover have "(k, a) \<in> set (cs_validator_accounts s)" using k assms(2) by (simp add: bt_get_iff)
  ultimately show False using assms(1) k
    by (auto simp: verify_deposit_request_def Let_def list_ex_iff split: if_splits option.splits)
qed

lemma credit_simulates:
  assumes "verify_deposit_request c r domain s = None" "deposit_account r s = Some a0"
    "ed_key_ok c (dr_node_pubkey r)" "va_status a = va_status a0"
    "va_consensus_public_key a = va_consensus_public_key a0" "va_joining_epoch a = va_joining_epoch a0"
  shows "simulates True c s (set_account c (dr_node_pubkey r) a s)"
proof (cases "get_account s (dr_node_pubkey r)")
  case None
  then have a: "va_status a = Inactive" "va_consensus_public_key a = dr_consensus_pubkey r"
    using assms(2,4,5) by (auto simp: deposit_account_def split: sum.splits)
  show ?thesis
  proof (rule set_account_simulates)
    assume r: "ready True c s"
    then have "bt_ok (cs_validator_accounts s)" "dr_node_pubkey r \<notin> set (cs_removed_validators s)"
      using None by (auto simp: ready_def lifecycle_ok_def members_ok_def staged_def)
    with lstep.register [of "abs_lf s" "dr_node_pubkey r" "dr_consensus_pubkey r"]
      verified_key [OF assms(1) _ None] None
    show "lstep\<^sup>*\<^sup>* (abs_lf s) ((abs_lf s)\<lparr>lf_status := (lf_status (abs_lf s))(dr_node_pubkey r \<mapsto> va_status a),
      lf_bls := (lf_bls (abs_lf s))(dr_node_pubkey r \<mapsto> va_consensus_public_key a)\<rparr>)"
      by (simp add: a)
  qed (use a assms(3) None in auto)
next
  case (Some a1)
  with assms(2) have "a1 = a0" by (simp add: deposit_account_def)
  with Some assms show ?thesis by (intro set_account_same) auto
qed

lemma join_simulates:
  assumes k: "get_account s k = Some a" and st: "va_status a = Inactive"
    and pc: "pending_count (cs_withdrawal_queue s) k = 0" and e: "cs_epoch s < e"
  shows "simulates ph c s (add_validator c e \<lparr>av_node_key = k, av_consensus_key = b\<rparr>
     (set_account c k (a\<lparr>va_status := Joining, va_joining_epoch := e\<rparr>) s))" (is "simulates ph c s ?s'")
proof (rule simulatesI)
  let ?a = "a\<lparr>va_status := Joining, va_joining_epoch := e\<rparr>"
  let ?vs = "(case bt_get (cs_added_validators s) e of None \<Rightarrow> [] | Some vs \<Rightarrow> vs)
      @ [\<lparr>av_node_key = k, av_consensus_key = b\<rparr>]"
  let ?m = "bt_insert e ?vs (cs_added_validators s)"
  obtain t where eq: "?s' = s\<lparr>cs_validator_accounts := bt_insert k ?a (cs_validator_accounts s),
      cs_added_validators := ?m, cs_ssz_tree := t\<rparr>"
    by (auto simp: add_validator_def set_added_validators_def set_account_def Let_def on_tree_def
        get_added_validators_def)
  assume r: "ready ph c s"
  then have m: "members_ok c s" and l: "lf_ok (abs_lf s)" by (simp_all add: ready_def lifecycle_ok_def)
  have sch: "scheduled_in ?m = insert (k, e) (scheduled_in (cs_added_validators s))"
    by (cases "bt_get (cs_added_validators s) e") (auto simp: scheduled_in_def get_updates split: if_splits)
  have new: "k \<notin> av_node_key ` set vs" if "bt_get (cs_added_validators s) e = Some vs" for vs
    using that l k st by (force simp: lf_ok_def schedule_ok_def scheduled_in_def)
  have "occurrences (wq_withdrawals (cs_withdrawal_queue s)) k = 0"
    using pending_count_occurrences [OF m, of k] pc by simp
  then have "k \<notin> lf_pending (abs_lf s)" by (simp flip: occurrences_pos)
  moreover have "abs_lf ?s' = (abs_lf s)\<lparr>lf_status := (lf_status (abs_lf s))(k \<mapsto> Joining),
      lf_scheduled := insert (k, e) (lf_scheduled (abs_lf s))\<rparr>"
    using k by (auto simp: abs_lf_def eq sch get_updates fun_eq_iff)
  ultimately show "lstep\<^sup>*\<^sup>* (abs_lf s) (abs_lf ?s')"
    using lstep.join [of "abs_lf s" k e] k st e by simp
  show "members_ok c ?s'"
    using m k new unfolding eq members_ok_def
    by (auto simp: sch bt_ok_insert get_updates split: if_splits option.splits)
  show "ph \<Longrightarrow> staged ?s'" "cs_epoch ?s' = cs_epoch s"
    using r k st by (auto simp: eq ready_def staged_def get_updates)
qed

lemma bt_insert_twice: "bt_insert k v (bt_insert k u m) = bt_insert k v m"
  by (induction m) auto

lemma simulates_if: "(ready ph c s \<Longrightarrow> simulates ph c s s') \<Longrightarrow> simulates ph c s s'"
  by (simp add: simulates_def)

text \<open>The activation epoch lies ahead and does not wrap.\<close>

definition warm_ok :: "u64 \<Rightarrow> u64 \<Rightarrow> bool" where
  "warm_ok warm_up epoch \<longleftrightarrow> 0 < warm_up \<and> unat epoch + unat warm_up < 2 ^ 64"

lemma warm_less: "warm_ok w e \<Longrightarrow> e < e + w"
  by (simp add: warm_ok_def word_less_nat_alt unat_add_exact)

lemma process_deposit_simulates:
  assumes k: "ed_key_ok c (dr_node_pubkey r)" and w: "warm_ok warm_up (cs_epoch s)"
  shows "simulates True c s (process_deposit c domain warm_up delay r s)"
proof (cases "verify_deposit_request c r domain s = None \<and> deposit_account r s \<noteq> None")
  case True
  then obtain a0 where v: "verify_deposit_request c r domain s = None" and a0: "deposit_account r s = Some a0"
    by auto
  let ?k = "dr_node_pubkey r" and ?e = "cs_epoch s + warm_up"
  let ?a = "a0\<lparr>va_balance := saturating_add (va_balance a0) (dr_amount r), va_last_deposit_index := dr_index r\<rparr>"
  let ?j = "?a\<lparr>va_status := Joining, va_joining_epoch := ?e\<rparr>"
  let ?v = "\<lparr>av_node_key = ?k, av_consensus_key = va_consensus_public_key ?j\<rparr>"
  have credit: "simulates True c s (set_account c ?k ?a s)"
    by (rule credit_simulates [OF v a0 k]) simp_all
  obtain t where s1: "set_account c ?k ?a s =
      s\<lparr>cs_validator_accounts := bt_insert ?k ?a (cs_validator_accounts s), cs_ssz_tree := t\<rparr>"
    using set_account_fields by blast
  have "simulates True c s (add_validator c ?e ?v (set_account c ?k ?j s))"
    if "va_status ?a = Inactive" "pending_count (cs_withdrawal_queue s) ?k = 0"
  proof -
    have "simulates True c (set_account c ?k ?a s) (add_validator c ?e ?v (set_account c ?k ?j (set_account c ?k ?a s)))"
      by (rule join_simulates) (use that warm_less [OF w] in \<open>simp_all add: s1 get_updates\<close>)
    moreover have "\<exists>t. add_validator c ?e ?v (set_account c ?k ?j s) =
        (add_validator c ?e ?v (set_account c ?k ?j (set_account c ?k ?a s)))\<lparr>cs_ssz_tree := t\<rparr>"
      by (simp add: s1 set_account_def add_validator_def set_added_validators_def on_tree_def Let_def
          get_added_validators_def bt_insert_twice) blast
    ultimately show ?thesis using simulates_trans [OF credit] by auto
  qed
  then show ?thesis using credit v a0 by (auto simp: process_deposit_def credit_deposit_def Let_def)
qed (auto simp: process_deposit_def refund_simulates split: option.splits)

lemma drain_simulates:
  "warm_ok warm_up (cs_epoch s) \<Longrightarrow> simulates True c s (snd (drain_deposits c domain warm_up delay n s))"
proof (induction n arbitrary: s)
  case (Suc n)
  show ?case
  proof (rule simulates_if)
    assume r: "ready True c s"
    show ?thesis
    proof (cases "cs_deposit_queue s")
      case (Cons d ds)
      let ?s1 = "s\<lparr>cs_deposit_queue := ds\<rparr>"
      have "simulates True c s ?s1"
        by (rule simulates_stutter) (use r Cons in \<open>auto simp: abs_lf_def ready_def lifecycle_ok_def members_ok_def\<close>)
      moreover have p: "simulates True c ?s1 (process_deposit c domain warm_up delay d ?s1)"
        using r Cons Suc.prems
        by (intro process_deposit_simulates) (auto simp: ready_def lifecycle_ok_def members_ok_def)
      ultimately have q: "simulates True c s (process_deposit c domain warm_up delay d ?s1)" by (rule simulates_trans)
      then have "cs_epoch (process_deposit c domain warm_up delay d ?s1) = cs_epoch s"
        using r by (simp add: simulates_def)
      from simulates_trans [OF q Suc.IH] this Suc.prems show ?thesis
        by (simp add: pop_deposit_deferred_def Cons)
    qed (simp add: pop_deposit_deferred_def)
  qed
qed simp

lemma deposits_simulate:
  assumes "warm_ok warm_up (cs_epoch s)"
  shows "simulates True c s (process_deposits c domain warm_up delay s)"
  using drain_simulates [OF assms, of c domain delay "unat (cs_max_deposits_per_epoch s)"]
  by (auto simp: process_deposits_def rebuild_deposit_tree_def on_tree_def split: prod.splits)

section \<open>Withdrawal requests and removals\<close>

lemma remove_position:
  "distinct (map f vs) \<Longrightarrow> position (\<lambda>v. f v = k) vs = Some i \<Longrightarrow> remove_nth i vs = filter (\<lambda>v. f v \<noteq> k) vs"
proof (induction vs arbitrary: i)
  case (Cons v vs)
  then show ?case
    by (auto simp: remove_nth_def image_iff split: if_splits intro!: filter_True [symmetric])
qed simp

text \<open>Cancelling a scheduled activation.\<close>

lemma cancel_simulates:
  assumes a: "get_account s k = Some a" "va_status a = Joining"
  shows "simulates ph c s (set_account c k (a\<lparr>va_status := Inactive\<rparr>)
     (snd (remove_added_validator c (va_joining_epoch a) k s)))" (is "simulates ph c s ?s'")
proof (rule simulates_if)
  let ?a = "a\<lparr>va_status := Inactive\<rparr>" and ?e = "va_joining_epoch a" and ?old = "cs_added_validators s"
  assume r: "ready ph c s"
  then have m: "members_ok c s" and l: "lf_ok (abs_lf s)" by (simp_all add: ready_def lifecycle_ok_def)
  obtain vs where vs: "bt_get ?old ?e = Some vs" "k \<in> av_node_key ` set vs" "distinct (map av_node_key vs)"
    using m a by (force simp: members_ok_def scheduled_in_def)
  then obtain i where i: "position (\<lambda>v. av_node_key v = k) vs = Some i"
    by (cases "position (\<lambda>v. av_node_key v = k) vs") (auto simp: position_None)
  let ?vs = "filter (\<lambda>v. av_node_key v \<noteq> k) vs"
  let ?m = "if ?vs = [] then bt_remove ?e (bt_insert ?e ?vs ?old) else bt_insert ?e ?vs ?old"
  obtain t where eq: "?s' = s\<lparr>cs_added_validators := ?m,
      cs_validator_accounts := bt_insert k ?a (cs_validator_accounts s), cs_ssz_tree := t\<rparr>"
    using remove_position [OF vs(3) i]
    by (auto simp: remove_added_validator_def get_added_validators_def vs i set_added_validators_def
        set_account_def Let_def on_tree_def)
  have ok: "bt_ok ?m" "bt_ok ?old" using m by (auto simp: members_ok_def bt_ok_insert bt_ok_remove)
  have get: "bt_get ?m = (bt_get ?old)(?e := if ?vs = [] then None else Some ?vs)"
    using ok by (auto simp: get_updates bt_ok_insert)
  have only: "e = ?e" if "(k, e) \<in> scheduled_in ?old" for e
    using l that vs by (auto simp: lf_ok_def schedule_ok_def scheduled_in_def)
  have sch: "scheduled_in ?m = {p \<in> scheduled_in ?old. fst p \<noteq> k}"
  proof (intro set_eqI, clarify)
    fix k' e'
    have "(k', ?e) \<in> scheduled_in ?m \<longleftrightarrow> k' \<in> av_node_key ` set ?vs"
      unfolding scheduled_in_def get by (cases "?vs = []") (simp_all only: mem_Collect_eq case_prod_conv, auto)
    moreover have "(k', e') \<in> scheduled_in ?m \<longleftrightarrow> (k', e') \<in> scheduled_in ?old" if "e' \<noteq> ?e"
      using that unfolding scheduled_in_def get by simp
    ultimately show "(k', e') \<in> scheduled_in ?m \<longleftrightarrow> (k', e') \<in> {p \<in> scheduled_in ?old. fst p \<noteq> k}"
      using only vs(1) by (cases "e' = ?e") (auto simp: scheduled_in_def)
  qed
  have "abs_lf ?s' = (abs_lf s)\<lparr>lf_status := (lf_status (abs_lf s))(k \<mapsto> Inactive),
      lf_scheduled := {p \<in> lf_scheduled (abs_lf s). fst p \<noteq> k}\<rparr>"
    unfolding eq using a by (auto simp: abs_lf_def sch get_updates fun_eq_iff)
  then have "lstep (abs_lf s) (abs_lf ?s')" using lstep.cancel [of "abs_lf s" k] a by simp
  moreover have "members_ok c ?s'"
    unfolding eq members_ok_def using m ok a distinct_map_filter [OF vs(3)]
    by (simp add: members_ok_def get sch bt_ok_insert get_updates)
  ultimately show "simulates ph c s ?s'"
    using r a by (intro simulatesI) (auto simp: eq ready_def staged_def get_updates)
qed

lemma set_status_simulates:
  assumes "get_account s k = Some a" "st \<noteq> Joining" "va_status a \<noteq> SubmittedExitRequest"
    "lstep (abs_lf s) ((abs_lf s)\<lparr>lf_status := (lf_status (abs_lf s))(k \<mapsto> st)\<rparr>)"
  shows "simulates ph c s (set_account c k (a\<lparr>va_status := st\<rparr>) s)"
proof (rule set_account_simulates)
  have "(lf_bls (abs_lf s))(k \<mapsto> va_consensus_public_key a) = lf_bls (abs_lf s)"
    using assms(1) by (auto simp: fun_eq_iff)
  then have "(abs_lf s)\<lparr>lf_status := (lf_status (abs_lf s))(k \<mapsto> st),
      lf_bls := (lf_bls (abs_lf s))(k \<mapsto> va_consensus_public_key a)\<rparr> =
    (abs_lf s)\<lparr>lf_status := (lf_status (abs_lf s))(k \<mapsto> st)\<rparr>" by simp
  with assms(4) show "lstep\<^sup>*\<^sup>* (abs_lf s) ((abs_lf s)\<lparr>lf_status := (lf_status (abs_lf s))(k \<mapsto> va_status (a\<lparr>va_status := st\<rparr>)),
      lf_bls := (lf_bls (abs_lf s))(k \<mapsto> va_consensus_public_key (a\<lparr>va_status := st\<rparr>))\<rparr>)"
    by (simp add: r_into_rtranclp)
qed (use assms in \<open>auto simp: ready_def lifecycle_ok_def members_ok_def\<close>)

lemma leave_fields:
  "\<exists>n t. increment_pending_active_validator_exits c (push_removed_validator c k s) =
     s\<lparr>cs_removed_validators := cs_removed_validators s @ [k], cs_pending_active_validator_exits := n, cs_ssz_tree := t\<rparr>"
  by (simp add: push_removed_validator_def set_removed_validators_def setter_defs) blast

lemma leave_simulates:
  assumes "get_account s k = Some a" "va_status a = Active" "k \<notin> set (cs_removed_validators s)"
  shows "simulates False c s (increment_pending_active_validator_exits c (push_removed_validator c k s))"
    (is "simulates False c s ?s'")
proof (rule simulatesI)
  obtain n t where eq: "?s' = s\<lparr>cs_removed_validators := cs_removed_validators s @ [k],
      cs_pending_active_validator_exits := n, cs_ssz_tree := t\<rparr>" using leave_fields by blast
  show "lstep\<^sup>*\<^sup>* (abs_lf s) (abs_lf ?s')"
    unfolding abs_leave using lstep.unstake [of "abs_lf s" k] assms by auto
  assume "ready False c s"
  then show "members_ok c ?s'" "cs_epoch ?s' = cs_epoch s"
    unfolding eq using assms by (simp_all add: ready_def lifecycle_ok_def members_ok_def)
qed simp

text \<open>A full exit: the status and the staged removal change together.\<close>

lemma exit_simulates:
  assumes a: "get_account s k = Some a" "va_status a = Active"
  shows "simulates True c s (set_account c k (a\<lparr>va_status := SubmittedExitRequest\<rparr>)
     (increment_pending_active_validator_exits c (push_removed_validator c k s)))" (is "simulates True c s ?s'")
proof (rule simulatesI)
  obtain n t where eq: "increment_pending_active_validator_exits c (push_removed_validator c k s) =
     s\<lparr>cs_removed_validators := cs_removed_validators s @ [k], cs_pending_active_validator_exits := n, cs_ssz_tree := t\<rparr>"
    using leave_fields by blast
  obtain t' where eq': "?s' = s\<lparr>cs_removed_validators := cs_removed_validators s @ [k],
      cs_pending_active_validator_exits := n,
      cs_validator_accounts := bt_insert k (a\<lparr>va_status := SubmittedExitRequest\<rparr>) (cs_validator_accounts s),
      cs_ssz_tree := t'\<rparr>"
    unfolding eq by (auto simp: set_account_def Let_def on_tree_def)
  have "abs_lf ?s' = (abs_lf s)\<lparr>lf_status := (lf_status (abs_lf s))(k \<mapsto> SubmittedExitRequest),
      lf_leaving := insert k (lf_leaving (abs_lf s))\<rparr>"
    using a by (auto simp: abs_lf_def eq' get_updates fun_eq_iff)
  then show "lstep\<^sup>*\<^sup>* (abs_lf s) (abs_lf ?s')" using lstep.exit [of "abs_lf s" k] a by simp
  assume "ready True c s"
  then show "members_ok c ?s'" "staged ?s'" "cs_epoch ?s' = cs_epoch s"
    unfolding eq' using a
    by (auto simp: ready_def lifecycle_ok_def members_ok_def staged_def bt_ok_insert get_updates split: if_splits)
qed

lemma enqueue_simulates:
  assumes "get_account s k = Some a" "va_status a \<noteq> Joining" "pending_count (cs_withdrawal_queue s) k < cap"
  shows "simulates True c s (snd (enqueue_payout c a' k e n s))"
proof -
  obtain b s' where p: "enqueue_payout c a' k e n s = (b, s')" by fastforce
  from push_validator_simulates [OF p [unfolded enqueue_payout_def], of a cap] assms
  show ?thesis by (simp add: p)
qed

lemma route_simulates:
  assumes a: "get_account s k = Some a" and p: "pending_count (cs_withdrawal_queue s) k < cap"
  shows "simulates True c s (snd (route_withdrawal c k n e a s))"
proof -
  have exit: "simulates True c s (snd (enqueue_payout c a k e 0 (set_account c k (a\<lparr>va_status := SubmittedExitRequest\<rparr>)
      (increment_pending_active_validator_exits c (push_removed_validator c k s)))))" if "va_status a = Active"
    by (rule simulates_trans [OF exit_simulates [OF a that] enqueue_simulates])
      (use p in \<open>auto simp: set_account_def Let_def on_tree_def get_updates push_removed_validator_def
        set_removed_validators_def setter_defs\<close>)
  have full: "simulates True c s (snd (enqueue_payout c a k e 0 (set_account c k (a\<lparr>va_status := FullPayoutPending\<rparr>) s)))"
    if "va_status a = Inactive"
    by (rule simulates_trans [OF set_status_simulates [OF a, of FullPayoutPending] enqueue_simulates])
      (use a p that lstep.retire [of "abs_lf s" k] in
        \<open>auto simp: set_account_def Let_def on_tree_def get_updates\<close>)
  have "simulates True c s (snd (enqueue_payout c a k e m s))" if "va_status a \<noteq> Joining" for m
    by (rule enqueue_simulates [OF a that p])
  with exit full show ?thesis
    by (auto simp: route_withdrawal_def Let_def split: validator_status.splits)
qed

lemma joining_epoch_ahead:
  assumes "ready ph c s" "get_account s k = Some a" "va_status a = Joining"
  shows "ed_key_ok c k \<and> cs_epoch s < va_joining_epoch a"
proof -
  have "ed_key_ok c k" "(k, va_joining_epoch a) \<in> lf_scheduled (abs_lf s)"
    using assms by (simp_all add: ready_def lifecycle_ok_def members_ok_def)
  moreover have "schedule_ok (abs_lf s)" using assms(1) by (simp add: ready_def lifecycle_ok_def lf_ok_def)
  ultimately show ?thesis by (auto simp: schedule_ok_def)
qed

lemma withdrawal_request_simulates: "simulates True c s (snd (apply_withdrawal_request_deferred c r delay s))"
proof (cases "get_account s (wr_validator_pubkey r)")
  case (Some a)
  let ?k = "wr_validator_pubkey r" and ?cap = "cs_max_pending_withdrawals_per_validator s"
  let ?e = "cs_epoch s + delay"
  have "simulates True c s (snd (let (a', s1) = cancel_joining c ?k a s in route_withdrawal c ?k (wr_amount r) ?e a' s1))"
    if p: "pending_count (cs_withdrawal_queue s) ?k < ?cap"
  proof (cases "va_status a = Joining")
    case True
    show ?thesis
    proof (rule simulates_if)
      assume "ready True c s"
      from joining_epoch_ahead [OF this Some True] have eq: "cancel_joining c ?k a s = (a\<lparr>va_status := Inactive\<rparr>, set_account c ?k (a\<lparr>va_status := Inactive\<rparr>)
          (snd (remove_added_validator c (va_joining_epoch a) ?k s)))" (is "_ = (?a, ?s1)")
        by (simp add: cancel_joining_def True Let_def)
      have "simulates True c s ?s1" by (rule cancel_simulates [OF Some True])
      moreover have "simulates True c ?s1 (snd (route_withdrawal c ?k (wr_amount r) ?e ?a ?s1))"
        by (rule route_simulates [where cap = ?cap]) (use p in \<open>auto simp: set_account_def Let_def on_tree_def get_updates
            remove_added_validator_def set_added_validators_def split: option.splits\<close>)
      ultimately show ?thesis by (simp add: eq simulates_trans)
    qed
  next
    case False
    with route_simulates [OF Some p] show ?thesis by (simp add: cancel_joining_def)
  qed
  then show ?thesis by (simp add: apply_withdrawal_request_deferred_def Let_def Some not_le)
qed (simp add: apply_withdrawal_request_deferred_def Let_def)

section \<open>Buffered requests and the minimum stake\<close>

lemma parsed_deposit_key:
  "parse_eth_entry c entry = Inr ps \<Longrightarrow> Valid (Deposit d) \<in> set ps \<Longrightarrow> ed_key_ok c (dr_node_pubkey d)"
  by (auto simp: parse_eth_entry_def parse_deposit_chunk_def deposit_request_try_from_eth_bytes_def Let_def
      map_sum_def split: list.splits if_splits sum.splits)

lemma push_deposit_simulates:
  "ed_key_ok c (dr_node_pubkey d) \<Longrightarrow> simulates ph c s (cs_push_deposit c d s)"
  by (rule simulates_stutter)
    (auto simp: cs_push_deposit_def on_tree_def abs_lf_def ready_def lifecycle_ok_def members_ok_def)

lemma route_parsed_simulates:
  assumes "\<And>d. p = Valid (Deposit d) \<Longrightarrow> ed_key_ok c (dr_node_pubkey d)"
  shows "simulates True c (snd ss) (snd (route_parsed c delay p ss))"
  using assms withdrawal_request_simulates refund_simulates push_deposit_simulates
  by (cases ss) (auto simp: route_parsed_def Let_def case_prod_beta split: parsed_execution_request.splits
      execution_request.splits)

lemma fold_simulates:
  assumes "\<And>x ss. x \<in> set xs \<Longrightarrow> simulates ph c (snd ss) (snd (f x ss))"
  shows "simulates ph c (snd ss) (snd (fold f xs ss))"
  using assms
proof (induction xs arbitrary: ss)
  case (Cons x xs)
  from simulates_trans [OF Cons.prems [of x] Cons.IH] Cons.prems show ?case by simp
qed simp

lemma route_entry_simulates: "simulates True c (snd ss) (snd (route_entry c delay entry ss))"
  by (auto simp: route_entry_def split: sum.splits intro!: fold_simulates route_parsed_simulates
      dest: parsed_deposit_key)

lemma param_changes_simulate:
  "simulates ph c s (set_param_changes c ps s)" "simulates ph c s (s\<lparr>cs_protocol_param_changes := ps\<rparr>)"
  "simulates ph c s (reject_invalid_validator_count_changes c s)"
  "simulates ph c s (push_protocol_param_changes c ps s)"
  "simulates ph c s (set_pending_requests c rs s)"
  by (rule simulates_stutter; simp add: set_param_changes_def reject_invalid_validator_count_changes_def
      push_protocol_param_changes_def set_pending_requests_def Let_def on_tree_def abs_lf_def ready_def
      lifecycle_ok_def members_ok_def)+

lemma buffered_simulates:
  assumes "warm_ok warm_up (cs_epoch s)"
  shows "simulates True c s (process_buffered_requests c domain warm_up delay s)"
proof (rule simulates_if)
  assume r: "ready True c s"
  let ?s1 = "set_pending_requests c [] s" and ?b = "collect_params c (cs_pending_execution_requests s)"
  let ?s3 = "reject_invalid_validator_count_changes c (if ?b = [] then ?s1 else push_protocol_param_changes c ?b ?s1)"
  let ?f = "fold (route_entry c delay) (cs_pending_execution_requests s) (False, ?s3)"
  have "simulates True c s (if ?b = [] then ?s1 else push_protocol_param_changes c ?b ?s1)"
    using param_changes_simulate(5) simulates_trans [OF param_changes_simulate(5) param_changes_simulate(4)] by simp
  then have s3: "simulates True c s ?s3" by (rule simulates_trans) (rule param_changes_simulate)
  have "simulates True c (snd (False, ?s3)) (snd ?f)" by (rule fold_simulates) (rule route_entry_simulates)
  then have f: "simulates True c s (snd ?f)" by (simp only: snd_conv simulates_trans [OF s3])
  then have e: "warm_ok warm_up (cs_epoch (snd ?f))" using r assms by (simp add: simulates_def)
  have s5: "simulates True c s (if fst ?f then rebuild_withdrawal_tree c (snd ?f) else snd ?f)"
    and w: "warm_ok warm_up (cs_epoch (if fst ?f then rebuild_withdrawal_tree c (snd ?f) else snd ?f))"
    using f e by (simp_all add: rebuild_withdrawal_tree_def on_tree_def)
  from simulates_trans [OF s5 deposits_simulate [OF w, of c domain delay]] show ?thesis
    by (simp only: process_buffered_requests_def take_pending_execution_requests_def case_prod_beta Let_def
        fst_conv snd_conv)
qed

lemma candidate_simulates:
  assumes "get_account s k = Some a" "k \<notin> R \<Longrightarrow> k \<notin> set (cs_removed_validators s)"
  shows "simulates False c s (remove_candidate c (cs_epoch s) R (k, a) s)"
proof -
  have eq: "get_account (snd (remove_added_validator c e k s)) k = Some a" for e
    using assms(1) by (simp add: remove_added_validator_def set_added_validators_def on_tree_def Let_def
        split: option.splits)
  show ?thesis
    using cancel_simulates [OF assms(1), of False c] leave_simulates [OF assms(1), of c] assms
    by (auto simp: remove_candidate_def eq Let_def)
qed

lemma remove_candidate_frame:
  "k' \<noteq> k \<Longrightarrow> get_account (remove_candidate c e R (k, a) s) k' = get_account s k'"
  "set (cs_removed_validators (remove_candidate c e R (k, a) s)) \<subseteq> insert k (set (cs_removed_validators s))"
  "cs_epoch (remove_candidate c e R (k, a) s) = cs_epoch s"
  by (simp_all add: remove_candidate_def Let_def remove_added_validator_def set_added_validators_def
      set_account_def on_tree_def get_updates push_removed_validator_def set_removed_validators_def setter_defs
      split: option.splits) auto

lemma candidates_simulate:
  assumes "distinct (map fst xs)" "cs_epoch s = e"
    "\<forall>(k, a) \<in> set xs. get_account s k = Some a \<and> (k \<notin> R \<longrightarrow> k \<notin> set (cs_removed_validators s))"
  shows "simulates False c s (fold (remove_candidate c e R) xs s)"
  using assms
proof (induction xs arbitrary: s)
  case (Cons x xs)
  obtain k a where x: "x = (k, a)" by fastforce
  let ?s = "remove_candidate c e R (k, a) s"
  have "simulates False c s ?s" using candidate_simulates [of s k a R c] Cons.prems x by auto
  moreover have "get_account ?s k' = Some a' \<and> (k' \<notin> R \<longrightarrow> k' \<notin> set (cs_removed_validators ?s))"
    if "(k', a') \<in> set xs" for k' a'
  proof -
    have "k' \<noteq> k" using Cons.prems(1) that by (force simp: x)
    then show ?thesis
      using Cons.prems(3) that remove_candidate_frame(1) [of k' k c e R a s]
        remove_candidate_frame(2) [of c e R k a s] by (auto simp: x)
  qed
  then have "simulates False c ?s (fold (remove_candidate c e R) xs ?s)"
    using Cons.prems by (intro Cons.IH) (auto simp: remove_candidate_frame(3))
  ultimately show ?case by (simp add: x simulates_trans)
qed simp

lemma enforce_simulates: "simulates False c s (enforce_minimum_stake c s)"
proof (rule simulates_if)
  assume "ready False c s"
  then have m: "bt_ok (cs_validator_accounts s)" by (simp add: ready_def lifecycle_ok_def members_ok_def)
  have "simulates False c s (fold (remove_candidate c (cs_epoch s) (set (cs_removed_validators s))) (below_minimum s) s)"
    using m by (intro candidates_simulate)
      (auto simp: below_minimum_def bt_get_iff bt_ok_def strict_sorted_iff intro: distinct_map_filter)
  then show ?thesis by (simp add: enforce_minimum_stake_def param_changes_simulate)
qed

section \<open>Payouts\<close>

text \<open>The machine with the statuses and keys of an account map.\<close>

definition with_accounts :: "(node_key, validator_account) btree \<Rightarrow> lifecycle \<Rightarrow> lifecycle" where
  "with_accounts m l = l\<lparr>lf_status := (\<lambda>k. map_option va_status (bt_get m k)),
     lf_bls := (\<lambda>k. map_option va_consensus_public_key (bt_get m k))\<rparr>"

lemma with_accounts_same: "with_accounts (cs_validator_accounts s) (abs_lf s) = abs_lf s"
  by (simp add: with_accounts_def abs_lf_def)

lemma settle_step:
  assumes "bt_ok m" "pw_kind x = Validator \<Longrightarrow> pw_pubkey x \<in> lf_pending l"
  shows "lstep\<^sup>*\<^sup>* (with_accounts m l) (with_accounts (settle_accounts n x m) l)"
proof (cases "payer m x")
  case (Some a)
  let ?k = "pw_pubkey x" and ?b = "saturating_sub (va_balance a) (payout n x a)"
  have a: "bt_get m ?k = Some a" "pw_kind x = Validator"
    using Some by (auto simp: payer_def split: option.splits if_splits)
  show ?thesis
  proof (cases "?b = 0")
    case True
    then have "with_accounts (settle_accounts n x m) l =
        (with_accounts m l)\<lparr>lf_status := (lf_status (with_accounts m l))(?k := None),
          lf_bls := (lf_bls (with_accounts m l))(?k := None)\<rparr>"
      using assms(1) by (auto simp: with_accounts_def settle_accounts_def Some Let_def get_updates fun_eq_iff)
    then show ?thesis using lstep.drain [of ?k "with_accounts m l"] assms(2) a by (simp add: with_accounts_def)
  next
    case False
    then have "with_accounts (settle_accounts n x m) l = with_accounts m l"
      using a by (simp add: with_accounts_def settle_accounts_def Some Let_def get_updates fun_eq_iff)
    then show ?thesis by simp
  qed
qed (simp add: settle_accounts_def)

lemma settle_steps:
  assumes "bt_ok m" "\<forall>x \<in> set xs. pw_kind x = Validator \<longrightarrow> pw_pubkey x \<in> lf_pending l"
  shows "lstep\<^sup>*\<^sup>* (with_accounts m l) (with_accounts (fold (settle_accounts n) xs m) l)"
  using assms
proof (induction xs arbitrary: m)
  case (Cons x xs)
  from rtranclp_trans [OF settle_step [of m x l n] Cons.IH [of "settle_accounts n x m"]] Cons.prems
  show ?case by (auto simp: settle_accounts_ok)
qed simp

lemma settled_account:
  assumes "bt_ok m" "bt_get (fold (settle_accounts n) xs m) k = Some a'"
  shows "\<exists>a b. bt_get m k = Some a \<and> a' = a\<lparr>va_balance := b\<rparr>"
  using assms
proof (induction xs arbitrary: m)
  case Nil
  then show ?case by (intro exI [of _ a'] exI [of _ "va_balance a'"]) simp
next
  case (Cons x xs)
  have "\<exists>a b. bt_get (settle_accounts n x m) k = Some a \<and> a' = a\<lparr>va_balance := b\<rparr>"
    by (rule Cons.IH) (use Cons.prems settle_accounts_ok in simp_all)
  then obtain a b where a: "bt_get (settle_accounts n x m) k = Some a" "a' = a\<lparr>va_balance := b\<rparr>" by blast
  then show ?case
    using Cons.prems(1)
    by (auto simp: settle_accounts_def payer_def Let_def get_updates split: option.splits if_splits)
qed

lemma queue_validators: "queue_ok q \<Longrightarrow> wq_withdrawals q = filter (\<lambda>x. pw_kind x = Validator) (iter_all q)"
  by (simp add: queue_ok_def deque_ok_def iter_all_def list_all_iff filter_empty_conv)

lemma filter_swap: "filter P (filter Q xs) = filter Q (filter P xs)"
  by (induction xs) auto

lemma payout_queue:
  assumes "queue_ok q" "queue_ok q'" "iter_all q' = filter P (iter_all q)"
  shows "wq_withdrawals q' = filter P (wq_withdrawals q)"
  unfolding queue_validators [OF assms(1)] queue_validators [OF assms(2)] assms(3) by (rule filter_swap)

lemma due_members: "set (due_entries s e) \<subseteq> set (iter_all (cs_withdrawal_queue s))"
  by (auto simp: due_entries_def get_for_epoch_with_total_cap_def Let_def iter_all_def
      dest: in_set_takeD set_takeWhileD)

lemma payouts_simulate:
  assumes ok: "lifecycle_ok c s" and t: "tree_ok c False False s" and q: "queue_ok (cs_withdrawal_queue s)"
  shows "\<exists>s'. apply_withdrawal_payouts c e (emit_withdrawal_payouts e s) s = Some s'
    \<and> lstep\<^sup>*\<^sup>* (abs_lf s) (abs_lf s') \<and> lifecycle_ok c s' \<and> cs_epoch s' = cs_epoch s"
proof -
  let ?m = "fold (settle_accounts (prospective_minimum_stake s)) (due_entries s e) (cs_validator_accounts s)"
  obtain q' t' where a: "apply_withdrawal_payouts c e (emit_withdrawal_payouts e s) s =
      Some (s\<lparr>cs_withdrawal_queue := q', cs_validator_accounts := ?m, cs_ssz_tree := t'\<rparr>)" (is "_ = Some ?s'")
    "iter_all q' = filter (\<lambda>x. x \<notin> set (due_entries s e)) (iter_all (cs_withdrawal_queue s))" "queue_ok q'"
    using apply_payouts_accounts [OF t q] by blast
  have m: "members_ok c s" "bt_ok (cs_validator_accounts s)"
    using ok by (simp_all add: lifecycle_ok_def members_ok_def)
  have w: "wq_withdrawals q' = filter (\<lambda>x. x \<notin> set (due_entries s e)) (wq_withdrawals (cs_withdrawal_queue s))"
    using payout_queue q a(2,3) by blast
  have "x \<in> set (wq_withdrawals (cs_withdrawal_queue s))" if "x \<in> set (due_entries s e)" "pw_kind x = Validator" for x
    using that q due_members [of s e] by (auto simp: queue_ok_def deque_ok_def iter_all_def list_all_iff)
  then have "\<forall>x \<in> set (due_entries s e). pw_kind x = Validator \<longrightarrow> pw_pubkey x \<in> lf_pending (abs_lf s)" by simp
  from settle_steps [OF m(2) this] have "lstep\<^sup>*\<^sup>* (abs_lf s) (with_accounts ?m (abs_lf s))"
    by (simp only: with_accounts_same)
  moreover have "abs_lf ?s' = (with_accounts ?m (abs_lf s))\<lparr>lf_pending := pw_pubkey ` set (wq_withdrawals q')\<rparr>"
    by (simp add: abs_lf_def with_accounts_def)
  moreover have "lstep (with_accounts ?m (abs_lf s))
      ((with_accounts ?m (abs_lf s))\<lparr>lf_pending := pw_pubkey ` set (wq_withdrawals q')\<rparr>)"
    by (rule lstep.consume) (auto simp: with_accounts_def w)
  ultimately have steps: "lstep\<^sup>*\<^sup>* (abs_lf s) (abs_lf ?s')" by simp
  have "occurrences (filter P ws) k \<le> occurrences ws k" for P ws k by (induction ws) auto
  then have "occurrences (wq_withdrawals q') k < 2 ^ 64" for k
    using m(1) le_less_trans unfolding w members_ok_def by blast
  moreover have "wq_pending_per_pubkey q' = count_pending (wq_withdrawals q')"
    using a(3) by (simp add: queue_ok_def)
  moreover have "ed_key_ok c k \<and> (va_status a' = Joining \<longrightarrow>
      (k, va_joining_epoch a') \<in> scheduled_in (cs_added_validators s))" if "bt_get ?m k = Some a'" for k a'
    using settled_account [OF m(2) that] m(1) by (auto simp: members_ok_def)
  ultimately have "members_ok c ?s'"
    using m settle_all_ok [OF m(2)] by (simp add: members_ok_def)
  then show ?thesis using a(1) steps ok lsteps_ok by (auto simp: lifecycle_ok_def)
qed

section \<open>The epoch boundary\<close>

lemma activate_accounts:
  assumes "distinct (map av_node_key vs)" "\<forall>v \<in> set vs. get_account s (av_node_key v) \<noteq> None"
  shows "\<exists>m t. activate_all c vs s = Some (s\<lparr>cs_validator_accounts := m, cs_ssz_tree := t\<rparr>)
    \<and> (bt_ok (cs_validator_accounts s) \<longrightarrow> bt_ok m)
    \<and> (\<forall>k. bt_get m k = (if k \<in> av_node_key ` set vs then map_option (\<lambda>a. a\<lparr>va_status := Active\<rparr>) (get_account s k)
                        else get_account s k))"
  using assms
proof (induction vs arbitrary: s)
  case Nil
  show ?case by (rule exI [of _ "cs_validator_accounts s"], rule exI [of _ "cs_ssz_tree s"]) simp
next
  case (Cons v vs)
  let ?k = "av_node_key v"
  obtain a where a: "get_account s ?k = Some a" using Cons.prems by auto
  obtain t where s1: "set_account c ?k (a\<lparr>va_status := Active\<rparr>) s = s\<lparr>cs_validator_accounts :=
      bt_insert ?k (a\<lparr>va_status := Active\<rparr>) (cs_validator_accounts s), cs_ssz_tree := t\<rparr>" (is "?s1 = _")
    using set_account_fields by blast
  have "\<forall>v \<in> set vs. get_account ?s1 (av_node_key v) \<noteq> None" using Cons.prems by (auto simp: s1 get_updates)
  from Cons.IH [OF _ this] Cons.prems obtain m t' where
    "activate_all c vs ?s1 = Some (?s1\<lparr>cs_validator_accounts := m, cs_ssz_tree := t'\<rparr>)"
    "bt_ok (cs_validator_accounts ?s1) \<longrightarrow> bt_ok m"
    "\<forall>k. bt_get m k = (if k \<in> av_node_key ` set vs then map_option (\<lambda>a. a\<lparr>va_status := Active\<rparr>) (get_account ?s1 k)
                        else get_account ?s1 k)" by auto
  with a Cons.prems(1) show ?case
    by (intro exI [of _ m] exI [of _ t']) (auto simp: s1 get_updates bt_ok_insert)
qed

definition retired :: "validator_account \<Rightarrow> validator_account" where
  "retired a = a\<lparr>va_status := if va_status a = SubmittedExitRequest then FullPayoutPending else Inactive\<rparr>"

lemma retire_accounts:
  assumes "distinct ks"
  shows "\<exists>m t. fold (retire c) ks s = s\<lparr>cs_validator_accounts := m, cs_ssz_tree := t\<rparr>
    \<and> (bt_ok (cs_validator_accounts s) \<longrightarrow> bt_ok m)
    \<and> (\<forall>k. bt_get m k = (if k \<in> set ks then map_option retired (get_account s k) else get_account s k))"
  using assms
proof (induction ks arbitrary: s)
  case Nil
  show ?case by (rule exI [of _ "cs_validator_accounts s"], rule exI [of _ "cs_ssz_tree s"]) simp
next
  case (Cons k ks)
  obtain m1 t where s1: "retire c k s = s\<lparr>cs_validator_accounts := m1, cs_ssz_tree := t\<rparr>"
    "bt_ok (cs_validator_accounts s) \<longrightarrow> bt_ok m1"
    "\<forall>k'. bt_get m1 k' = (if k' = k then map_option retired (get_account s k) else get_account s k')"
  proof (cases "get_account s k")
    case None
    then show ?thesis
      using that [of "cs_ssz_tree s" "cs_validator_accounts s"] by (simp add: retire_def)
  next
    case (Some a)
    obtain t where "set_account c k (retired a) s = s\<lparr>cs_validator_accounts :=
        bt_insert k (retired a) (cs_validator_accounts s), cs_ssz_tree := t\<rparr>"
      using set_account_fields by blast
    then show ?thesis
      using that [of t "bt_insert k (retired a) (cs_validator_accounts s)"]
      by (simp add: retire_def Some retired_def bt_ok_insert get_updates)
  qed
  obtain m t' where m: "fold (retire c) ks (retire c k s) = (retire c k s)\<lparr>cs_validator_accounts := m, cs_ssz_tree := t'\<rparr>"
    "bt_ok (cs_validator_accounts (retire c k s)) \<longrightarrow> bt_ok m"
    "\<forall>k'. bt_get m k' = (if k' \<in> set ks then map_option retired (get_account (retire c k s) k')
       else get_account (retire c k s) k')"
    using Cons.IH [of "retire c k s"] Cons.prems by auto
  show ?case
    by (rule exI [of _ m], rule exI [of _ t'], use m s1 Cons.prems in \<open>auto simp: s1(1)\<close>)
qed

text \<open>The committee transition never misses an account, and gives every validator the status the
  machine gives it at the boundary.\<close>

lemma transition_accounts:
  assumes "lifecycle_ok c s"
  shows "\<exists>m t. apply_committee_transition c nk s =
      Some (nk \<in> set (cs_removed_validators s),
        s\<lparr>cs_pending_active_validator_exits := 0, cs_validator_accounts := m, cs_ssz_tree := t\<rparr>)
    \<and> bt_ok m
    \<and> (\<forall>k. bt_get m k = map_option (\<lambda>a. a\<lparr>va_status := the (boundary_status (abs_lf s) k)\<rparr>) (get_account s k))"
proof -
  let ?e = "cs_epoch s + 1"
  have m: "members_ok c s" and l: "schedule_ok (abs_lf s)" "leaving_ok (abs_lf s)"
    using assms by (simp_all add: lifecycle_ok_def lf_ok_def)
  obtain t1 where s1: "reset_pending_active_validator_exits c s =
      s\<lparr>cs_pending_active_validator_exits := 0, cs_ssz_tree := t1\<rparr>" (is "_ = ?s1")
    by (simp add: setter_defs)
  have sched: "(k, ?e) \<in> scheduled_in (cs_added_validators s) \<longleftrightarrow>
      (case get_added_validators s ?e of None \<Rightarrow> False | Some vs \<Rightarrow> k \<in> av_node_key ` set vs)" for k
    by (auto simp: scheduled_in_def get_added_validators_def split: option.splits)
  obtain m2 t2 where s2: "(case get_added_validators ?s1 ?e of None \<Rightarrow> Some ?s1 | Some vs \<Rightarrow> activate_all c vs ?s1) =
      Some (s\<lparr>cs_pending_active_validator_exits := 0, cs_validator_accounts := m2, cs_ssz_tree := t2\<rparr>)"
    "bt_ok m2" "\<forall>k. bt_get m2 k = (if (k, ?e) \<in> scheduled_in (cs_added_validators s)
        then map_option (\<lambda>a. a\<lparr>va_status := Active\<rparr>) (get_account s k) else get_account s k)"
  proof (cases "get_added_validators s ?e")
    case None
    then have "get_added_validators ?s1 ?e = None" by (simp add: get_added_validators_def)
    then show ?thesis
      using that [of t1 "cs_validator_accounts s"] m None by (simp add: sched members_ok_def)
  next
    case (Some vs)
    then have vs: "get_added_validators ?s1 ?e = Some vs" by (simp add: get_added_validators_def)
    have "distinct (map av_node_key vs)" using m Some by (simp add: members_ok_def get_added_validators_def)
    moreover have "\<forall>v \<in> set vs. get_account ?s1 (av_node_key v) \<noteq> None"
      using l(1) Some sched by (fastforce simp: schedule_ok_def)
    ultimately obtain m2 t2 where "activate_all c vs ?s1 = Some (?s1\<lparr>cs_validator_accounts := m2, cs_ssz_tree := t2\<rparr>)"
      "bt_ok (cs_validator_accounts ?s1) \<longrightarrow> bt_ok m2"
      "\<forall>k. bt_get m2 k = (if k \<in> av_node_key ` set vs
         then map_option (\<lambda>a. a\<lparr>va_status := Active\<rparr>) (get_account ?s1 k) else get_account ?s1 k)"
      using activate_accounts [of vs ?s1 c] by blast
    then show ?thesis using that [of t2 m2] m by (simp add: sched vs Some members_ok_def)
  qed
  let ?s2 = "s\<lparr>cs_pending_active_validator_exits := 0, cs_validator_accounts := m2, cs_ssz_tree := t2\<rparr>"
  obtain m3 t3 where s3: "fold (retire c) (cs_removed_validators s) ?s2 =
      ?s2\<lparr>cs_validator_accounts := m3, cs_ssz_tree := t3\<rparr>" "bt_ok m3"
    "\<forall>k. bt_get m3 k = (if k \<in> set (cs_removed_validators s) then map_option retired (bt_get m2 k) else bt_get m2 k)"
    using retire_accounts [of "cs_removed_validators s" c ?s2] m s2(2) by (auto simp: members_ok_def)
  have main: "bt_get m3 k = map_option (\<lambda>a. a\<lparr>va_status := the (boundary_status (abs_lf s) k)\<rparr>) (get_account s k)" for k
  proof (cases "get_account s k")
    case (Some a)
    have "va_status a = Joining" if "(k, ?e) \<in> scheduled_in (cs_added_validators s)"
      using scheduled_joining [OF l(1) that] Some by simp
    moreover have "va_status a \<noteq> Joining" if "k \<in> set (cs_removed_validators s)"
      using l(2) Some that by (auto simp: leaving_ok_def)
    ultimately consider "(k, ?e) \<in> scheduled_in (cs_added_validators s)" "k \<notin> set (cs_removed_validators s)"
      | "(k, ?e) \<notin> scheduled_in (cs_added_validators s)" "k \<in> set (cs_removed_validators s)"
      | "(k, ?e) \<notin> scheduled_in (cs_added_validators s)" "k \<notin> set (cs_removed_validators s)"
      by blast
    then show ?thesis by cases (simp_all add: s3(3) s2(3) Some boundary_status_def retired_def)
  qed (simp add: s3(3) s2(3))
  show ?thesis
  proof (cases "get_added_validators s ?e = None \<and> cs_removed_validators s = []")
    case True
    then have "get_account s k = bt_get m3 k" for k using s3(3) s2(3) by (simp add: sched)
    then show ?thesis
      using True m main by (intro exI [of _ "cs_validator_accounts s"] exI [of _ t1])
        (auto simp: apply_committee_transition_def s1 has_added_validators_def get_added_validators_def members_ok_def)
  next
    case False
    then show ?thesis
      using s2(1) s3(1,2) main by (intro exI [of _ m3] exI [of _ t3])
        (auto simp: apply_committee_transition_def s1 has_added_validators_def get_added_validators_def)
  qed
qed

text \<open>The rest of the boundary: the epoch advances and the applied deltas are cleared.\<close>

lemma boundary_step:
  assumes ok: "lifecycle_ok c s" and e: "cs_epoch s \<noteq> -1"
    and acc: "bt_ok (cs_validator_accounts s')"
      "\<And>k. get_account s' k = map_option (\<lambda>a. a\<lparr>va_status := the (boundary_status (abs_lf s) k)\<rparr>) (get_account s k)"
    and fields: "cs_epoch s' = cs_epoch s + 1"
      "cs_added_validators s' = bt_remove (cs_epoch s + 1) (cs_added_validators s)" "cs_removed_validators s' = []"
      "cs_withdrawal_queue s' = cs_withdrawal_queue s" "cs_deposit_queue s' = cs_deposit_queue s"
  shows "lstep (abs_lf s) (abs_lf s') \<and> lifecycle_ok c s' \<and> staged s'"
proof -
  let ?m = "cs_added_validators s" and ?e = "cs_epoch s + 1"
  have m: "members_ok c s" and l: "lf_ok (abs_lf s)" using ok by (simp_all add: lifecycle_ok_def)
  have "bt_ok ?m" using m by (simp add: members_ok_def)
  note sched = scheduled_remove [OF this, of ?e] and get = get_updates(2) [OF this, of ?e]
  have dom: "boundary_status (abs_lf s) k = None" if "get_account s k = None" for k
    using scheduled_joining [of s k ?e] l that by (auto simp: boundary_status_def lf_ok_def)
  have def: "\<exists>st. boundary_status (abs_lf s) k = Some st" if "get_account s k = Some a" for k a
    using that by (simp add: boundary_status_def)
  have "map_option va_status (get_account s' k) = boundary_status (abs_lf s) k"
    "map_option va_consensus_public_key (get_account s' k) = map_option va_consensus_public_key (get_account s k)" for k
    using dom [of k] def [of k] acc(2) [of k] by (cases "get_account s k"; auto)+
  then have "abs_lf s' = (abs_lf s)\<lparr>lf_epoch := lf_epoch (abs_lf s) + 1, lf_status := boundary_status (abs_lf s),
      lf_scheduled := {p \<in> lf_scheduled (abs_lf s). snd p \<noteq> lf_epoch (abs_lf s) + 1}, lf_leaving := {}\<rparr>"
    by (simp add: abs_lf_def [of s'] fields sched fun_eq_iff)
  then have step: "lstep (abs_lf s) (abs_lf s')" using lstep.boundary [of "abs_lf s"] e by simp
  have "(k, va_joining_epoch a) \<in> scheduled_in (bt_remove ?e ?m)"
    if "get_account s k = Some a" "the (boundary_status (abs_lf s) k) = Joining" for k a
  proof -
    have "va_status a = Joining \<Longrightarrow> (k, va_joining_epoch a) \<in> scheduled_in ?m"
      using m that(1) by (simp add: members_ok_def)
    then show ?thesis using that by (auto simp: sched boundary_status_def split: if_splits)
  qed
  then have "members_ok c s'"
    using m acc by (auto simp: members_ok_def fields bt_ok_remove get split: if_splits)
  then show ?thesis using step lsteps_ok l by (auto simp: lifecycle_ok_def staged_def fields)
qed

section \<open>The refinement\<close>


lemma demo_lifecycle:
  "lifecycle_ok demo_crypto demo_state" "staged demo_state" "queue_ok (cs_withdrawal_queue demo_state)"
  by (auto simp: lifecycle_ok_def members_ok_def lf_ok_def schedule_ok_def joining_ok_def leaving_ok_def bls_ok_def
      inj_on_def staged_def abs_lf_def demo_state_def demo_account_def consensus_state_default_def
      consensus_state_new_def rebuild_ssz_tree_def set_account_def on_tree_def Let_def scheduled_in_def bt_get_def
      wq_default_def count_pending_def queue_ok_def deque_ok_def iter_all_def split: if_splits)


end
