(* ===== verification/Consensus_Codec.thy ===== *)
theory Consensus_Codec
  imports Epoch_Processing
begin

text \<open>
  \<open>types/src/consensus_state/mod.rs\<close>, the codec of the whole state and \<open>capture_state_root\<close>, with
  the conversion of a checkpoint into a state (\<open>types/src/checkpoint.rs\<close>). The trees are not
  serialised: a read rebuilds them, and takes the frozen proof tree from the captured snapshot
  nested in the bytes. Shown: what is written is read back with its trees rebuilt, the announced
  size is the written one, what a read returns is within the protocol bounds, and a node that
  restarts from its bytes has the same state root, proof tree and proof keys.
\<close>

section \<open>Sequences and options\<close>

definition list_write :: "('a \<Rightarrow> u8 list) \<Rightarrow> 'a list \<Rightarrow> u8 list" where
  "list_write wr xs = to_be_bytes (word_of_nat (length xs) :: u32) @ concat (map wr xs)"

definition list_read :: "'a reader \<Rightarrow> 'a list reader" where
  "list_read rd = rbind get_be (\<lambda>n :: u32. read_many rd (unat n))"

definition option_write :: "('a \<Rightarrow> u8 list) \<Rightarrow> 'a option \<Rightarrow> u8 list" where
  "option_write wr x = (case x of Some y \<Rightarrow> to_be_bytes (1 :: u8) @ wr y | None \<Rightarrow> to_be_bytes (0 :: u8))"

definition option_read :: "'a reader \<Rightarrow> 'a option reader" where
  "option_read rd = rbind get_be (\<lambda>flag :: u8. if flag \<noteq> 0 then rbind rd (\<lambda>y. ret (Some y)) else ret None)"

text \<open>A length-prefixed byte string; the length is checked before the copy.\<close>

definition blob_read :: "u8 list reader" where
  "blob_read = rbind get_be (\<lambda>len :: u32. rbind (at_least (unat len) EndOfBuffer) (\<lambda>_. take_bytes (unat len)))"

text \<open>A map filled entry by entry.\<close>

definition collect_map :: "('k::linorder \<times> 'v) list \<Rightarrow> ('k, 'v) btree" where
  "collect_map kvs = fold (\<lambda>(k, v). bt_insert k v) kvs []"

section \<open>Entries\<close>

text \<open>The errors of the key decoders are those of the key libraries.\<close>

definition node_key_read :: "crypto \<Rightarrow> node_key reader" where
  "node_key_read c = rbind get_be (\<lambda>k. rbind (ensure (ed_key_ok c k) (Invalid ''PublicKey'' ''Invalid'')) (\<lambda>_. ret k))"

definition bls_key_read :: "crypto \<Rightarrow> bls_key reader" where
  "bls_key_read c = rbind get_be (\<lambda>k. rbind (ensure (bls_key_ok c k) (Invalid ''PublicKey'' ''Invalid'')) (\<lambda>_. ret k))"

definition account_entry_write :: "node_key \<times> validator_account \<Rightarrow> u8 list" where
  "account_entry_write = (\<lambda>(key, account). to_be_bytes key @ validator_account_write account)"

definition account_entry_read :: "crypto \<Rightarrow> (node_key \<times> validator_account) reader" where
  "account_entry_read c = rbind get_be (\<lambda>key. rbind (validator_account_read c) (\<lambda>account. ret (key, account)))"

definition added_validator_write :: "added_validator \<Rightarrow> u8 list" where
  "added_validator_write v = to_be_bytes (av_node_key v) @ to_be_bytes (av_consensus_key v)"

definition added_validator_read :: "crypto \<Rightarrow> added_validator reader" where
  "added_validator_read c =
     rbind (node_key_read c) (\<lambda>node_key. rbind (bls_key_read c) (\<lambda>consensus_key.
     ret \<lparr>av_node_key = node_key, av_consensus_key = consensus_key\<rparr>))"

definition added_entry_write :: "u64 \<times> added_validator list \<Rightarrow> u8 list" where
  "added_entry_write = (\<lambda>(key, validators). to_be_bytes key @ list_write added_validator_write validators)"

definition added_entry_read :: "crypto \<Rightarrow> (u64 \<times> added_validator list) reader" where
  "added_entry_read c = rbind get_be (\<lambda>key. rbind (list_read (added_validator_read c)) (\<lambda>vs. ret (key, vs)))"

section \<open>The state\<close>

definition write_queues :: "consensus_state \<Rightarrow> u8 list" where
  "write_queues s =
     to_be_bytes (cs_epoch s) @ to_be_bytes (cs_view s) @ to_be_bytes (cs_latest_height s)
      @ list_write deposit_request_write (cs_deposit_queue s)
      @ wq_write (cs_withdrawal_queue s)
      @ list_write protocol_param_write (cs_protocol_param_changes s)
      @ list_write account_entry_write (cs_validator_accounts s)"

definition write_staged :: "wire \<Rightarrow> consensus_state \<Rightarrow> u8 list" where
  "write_staged w s =
     option_write (checkpoint_write w) (cs_pending_checkpoint s)
      @ list_write added_entry_write (cs_added_validators s)
      @ list_write to_be_bytes (cs_removed_validators s)
      @ list_write prefixed (cs_pending_execution_requests s)"

definition write_chain :: "consensus_state \<Rightarrow> u8 list" where
  "write_chain s =
     to_be_bytes (fc_head_block_hash (cs_forkchoice s)) @ to_be_bytes (fc_safe_block_hash (cs_forkchoice s))
      @ to_be_bytes (fc_finalized_block_hash (cs_forkchoice s)) @ to_be_bytes (cs_epoch_genesis_hash s)
      @ to_be_bytes (cs_head_digest s)"

definition write_params :: "consensus_state \<Rightarrow> u8 list" where
  "write_params s =
     to_be_bytes (cs_validator_minimum_stake s) @ to_be_bytes (cs_allowed_timestamp_future_ms s)
      @ to_be_bytes (cs_treasury_address s) @ to_be_bytes (cs_max_deposits_per_epoch s)
      @ to_be_bytes (cs_max_withdrawals_per_epoch s) @ to_be_bytes (cs_observers_per_validator s)
      @ to_be_bytes (cs_max_validator_count s) @ to_be_bytes (cs_minimum_validator_count s)
      @ to_be_bytes (cs_pending_active_validator_exits s) @ to_be_bytes (cs_invalid_deposit_tax s)
      @ to_be_bytes (cs_max_pending_withdrawals_per_validator s)"

definition write_trailer :: "consensus_state \<Rightarrow> u8 list" where
  "write_trailer s =
     de_write (cs_epocher s) @ to_be_bytes (cs_proof_el_block_number s)
      @ option_write prefixed (cs_captured_bytes s)"

definition cs_write :: "wire \<Rightarrow> consensus_state \<Rightarrow> u8 list" where
  "cs_write w s = write_queues s @ write_staged w s @ write_chain s @ write_params s @ write_trailer s"

definition cs_encode_size :: "consensus_state \<Rightarrow> nat" where
  "cs_encode_size s =
     8 + 8 + 8
     + 4 + sum_list (map (\<lambda>r. 288) (cs_deposit_queue s))
     + wq_encode_size (cs_withdrawal_queue s)
     + 4 + sum_list (map protocol_param_encode_size (cs_protocol_param_changes s))
     + 4 + sum_list (map (\<lambda>e. 32 + 93) (cs_validator_accounts s))
     + 1 + (case cs_pending_checkpoint s of None \<Rightarrow> 0 | Some ck \<Rightarrow> checkpoint_encode_size ck)
     + 4 + sum_list (map (\<lambda>e. 8 + 4 + sum_list (map (\<lambda>v. 32 + 48) (snd e))) (cs_added_validators s))
     + 4 + sum_list (map (\<lambda>k. 32) (cs_removed_validators s))
     + 4 + sum_list (map (\<lambda>r. 4 + length r) (cs_pending_execution_requests s))
     + 32 + 32 + 32 + 32 + 32
     + 8 + 8 + 20
     + 8
     + 1 + (case cs_captured_bytes s of None \<Rightarrow> 0 | Some b \<Rightarrow> 4 + length b)
     + 8 + 8 + 4 + 8 + 8 + 8 + 8 + 8
     + de_encode_size (cs_epocher s)"

text \<open>The reader in the order of the source: the queues and accounts, the staged changes, the
  chain pointers, the bounded parameters, the schedule and the captured snapshot. Each part
  fills the fields it read.\<close>

definition cs_read_queues :: "crypto \<Rightarrow> consensus_state \<Rightarrow> consensus_state reader" where
  "cs_read_queues c s =
     rbind get_be (\<lambda>epoch. rbind get_be (\<lambda>view. rbind get_be (\<lambda>latest_height.
     rbind (list_read (deposit_request_read c)) (\<lambda>deposit_queue.
     rbind wq_read (\<lambda>withdrawal_queue.
     rbind (list_read protocol_param_read) (\<lambda>protocol_param_changes.
     rbind (list_read (account_entry_read c)) (\<lambda>accounts.
     ret (s\<lparr>cs_epoch := epoch, cs_view := view, cs_latest_height := latest_height,
            cs_deposit_queue := deposit_queue, cs_withdrawal_queue := withdrawal_queue,
            cs_protocol_param_changes := protocol_param_changes,
            cs_validator_accounts := collect_map accounts\<rparr>))))))))"

definition cs_read_staged :: "crypto \<Rightarrow> wire \<Rightarrow> consensus_state \<Rightarrow> consensus_state reader" where
  "cs_read_staged c w s =
     rbind (option_read (checkpoint_read c w)) (\<lambda>pending_checkpoint.
     rbind (list_read (added_entry_read c)) (\<lambda>added.
     rbind (list_read (node_key_read c)) (\<lambda>removed_validators.
     rbind (list_read blob_read) (\<lambda>pending_execution_requests.
     ret (s\<lparr>cs_pending_checkpoint := pending_checkpoint, cs_added_validators := collect_map added,
            cs_removed_validators := removed_validators,
            cs_pending_execution_requests := pending_execution_requests\<rparr>)))))"

definition cs_read_chain :: "consensus_state \<Rightarrow> consensus_state reader" where
  "cs_read_chain s =
     rbind get_be (\<lambda>head_block_hash. rbind get_be (\<lambda>safe_block_hash. rbind get_be (\<lambda>finalized_block_hash.
     rbind get_be (\<lambda>epoch_genesis_hash. rbind get_be (\<lambda>head_digest.
     ret (s\<lparr>cs_forkchoice := \<lparr>fc_head_block_hash = head_block_hash, fc_safe_block_hash = safe_block_hash,
              fc_finalized_block_hash = finalized_block_hash\<rparr>,
            cs_epoch_genesis_hash := epoch_genesis_hash, cs_head_digest := head_digest\<rparr>))))))"

definition invalid_state :: "string \<Rightarrow> codec_error" where
  "invalid_state msg = Invalid ''ConsensusState'' msg"

definition cs_read_params :: "consensus_state \<Rightarrow> consensus_state reader" where
  "cs_read_params s =
     rbind get_be (\<lambda>validator_minimum_stake. rbind get_be (\<lambda>allowed_timestamp_future_ms.
     rbind (ensure (within MIN_ALLOWED_TIMESTAMP_FUTURE_MS MAX_ALLOWED_TIMESTAMP_FUTURE_MS allowed_timestamp_future_ms)
              (invalid_state ''allowed timestamp future out of bounds'')) (\<lambda>_.
     rbind get_be (\<lambda>treasury_address. rbind get_be (\<lambda>max_deposits_per_epoch.
     rbind (ensure (max_deposits_per_epoch \<le> MAX_MAX_DEPOSITS_PER_EPOCH)
              (invalid_state ''max deposits per epoch out of bounds'')) (\<lambda>_.
     rbind get_be (\<lambda>max_withdrawals_per_epoch.
     rbind (ensure (within MAX_WITHDRAWALS_PER_EPOCH_MIN MAX_WITHDRAWALS_PER_EPOCH_MAX max_withdrawals_per_epoch)
              (invalid_state ''max withdrawals per epoch out of bounds'')) (\<lambda>_.
     rbind get_be (\<lambda>observers_per_validator :: u32.
     rbind (ensure (ucast observers_per_validator \<le> MAX_OBSERVERS_PER_VALIDATOR)
              (invalid_state ''observers per validator out of bounds'')) (\<lambda>_.
     rbind get_be (\<lambda>max_validator_count.
     rbind (ensure (within MIN_MAX_VALIDATOR_COUNT MAX_MAX_VALIDATOR_COUNT max_validator_count)
              (invalid_state ''max validator count out of bounds'')) (\<lambda>_.
     rbind get_be (\<lambda>minimum_validator_count.
     rbind (ensure (minimum_validator_count \<noteq> 0) (invalid_state ''minimum validator count out of bounds'')) (\<lambda>_.
     rbind (ensure (minimum_validator_count \<le> max_validator_count)
              (invalid_state ''minimum validator count exceeds max validator count'')) (\<lambda>_.
     rbind get_be (\<lambda>pending_active_validator_exits.
     rbind (ensure (pending_active_validator_exits \<le> current_epoch_active_validator_count s)
              (invalid_state ''pending active validator exits exceeds active validator count'')) (\<lambda>_.
     rbind get_be (\<lambda>invalid_deposit_tax.
     rbind (ensure (invalid_deposit_tax \<le> MAX_INVALID_DEPOSIT_TAX)
              (invalid_state ''invalid deposit tax out of bounds'')) (\<lambda>_.
     rbind get_be (\<lambda>max_pending_withdrawals_per_validator.
     rbind (ensure (within MAX_PENDING_WITHDRAWALS_PER_VALIDATOR_MIN MAX_PENDING_WITHDRAWALS_PER_VALIDATOR_MAX
                      max_pending_withdrawals_per_validator)
              (invalid_state ''max pending withdrawals per validator out of bounds'')) (\<lambda>_.
     ret (s\<lparr>cs_validator_minimum_stake := validator_minimum_stake,
            cs_allowed_timestamp_future_ms := allowed_timestamp_future_ms,
            cs_treasury_address := treasury_address, cs_max_deposits_per_epoch := max_deposits_per_epoch,
            cs_max_withdrawals_per_epoch := max_withdrawals_per_epoch,
            cs_observers_per_validator := observers_per_validator,
            cs_max_validator_count := max_validator_count,
            cs_minimum_validator_count := minimum_validator_count,
            cs_pending_active_validator_exits := pending_active_validator_exits,
            cs_invalid_deposit_tax := invalid_deposit_tax,
            cs_max_pending_withdrawals_per_validator := max_pending_withdrawals_per_validator\<rparr>))))))))))))))))))))))"

definition cs_read_trailer :: "consensus_state \<Rightarrow> consensus_state reader" where
  "cs_read_trailer s =
     rbind de_read (\<lambda>epocher. rbind get_be (\<lambda>proof_el_block_number.
     rbind (option_read blob_read) (\<lambda>captured_bytes.
     ret (s\<lparr>cs_epocher := epocher, cs_proof_el_block_number := proof_el_block_number,
            cs_captured_bytes := captured_bytes\<rparr>))))"

definition cs_read_fields :: "crypto \<Rightarrow> wire \<Rightarrow> consensus_state reader" where
  "cs_read_fields c w =
     rbind (cs_read_queues c (consensus_state_default c)) (\<lambda>s. rbind (cs_read_staged c w s) (\<lambda>s.
     rbind (cs_read_chain s) (\<lambda>s. rbind (cs_read_params s) (\<lambda>s. rbind (cs_read_trailer s) (\<lambda>s.
     ret (rebuild_ssz_tree c s))))))"

section \<open>Readers only consume\<close>

text \<open>The nested snapshot is part of the bytes just read, so the recursion of the reader ends.\<close>

definition consumes :: "'a reader \<Rightarrow> bool" where
  "consumes rd \<longleftrightarrow> (\<forall>buf x rest. rd buf = Inr (x, rest) \<longrightarrow> length rest \<le> length buf)"

lemma consumes_rbind [intro]:
  assumes "consumes m" "\<And>x. consumes (f x)"
  shows "consumes (rbind m f)"
  unfolding consumes_def
proof (intro allI impI)
  fix buf y rest assume "rbind m f buf = Inr (y, rest)"
  then obtain x mid where "m buf = Inr (x, mid)" "f x mid = Inr (y, rest)" by (auto simp: rbind_Inr)
  with assms show "length rest \<le> length buf" unfolding consumes_def using le_trans by blast
qed

lemma consumes_base [intro, simp]:
  "consumes (ret x)" "consumes (fail e)" "consumes (ensure b e)" "consumes (at_least n e)" "consumes (take_bytes n)"
  by (auto simp: consumes_def ret_Inr ensure_Inr at_least_Inr take_bytes_Inr)

lemma consumes_get_be [intro, simp]: "consumes get_be"
  unfolding get_be_def by blast

lemma consumes_read_many [intro, simp]: "consumes rd \<Longrightarrow> consumes (read_many rd n)"
  by (induction n) auto

lemma consumes_list_read [intro, simp]: "consumes rd \<Longrightarrow> consumes (list_read rd)"
  unfolding list_read_def by blast

lemma consumes_option_read [intro, simp]: "consumes rd \<Longrightarrow> consumes (option_read rd)"
  unfolding option_read_def by (intro consumes_rbind) (auto split: if_split)

lemma consumes_exact:
  assumes "\<And>buf x rest. rd buf = Inr (x, rest) \<Longrightarrow> ok x \<and> buf = wr x @ rest"
  shows "consumes rd"
  unfolding consumes_def using assms by fastforce

lemma consumes_components [intro, simp]:
  "consumes (deposit_request_read c)" "consumes wq_read" "consumes protocol_param_read"
  "consumes (validator_account_read c)" "consumes (checkpoint_read c w)" "consumes de_read"
  by (rule consumes_exact, erule deposit_request.written_read)
    (rule consumes_exact, erule withdrawal_queue.written_read,
     rule consumes_exact, erule protocol_param.written_read,
     rule consumes_exact, erule validator_account.written_read,
     simp add: consumes_def checkpoint_shorter,
     rule consumes_exact, erule dynamic_epocher.written_read)

lemma consumes_entries [intro, simp]:
  "consumes (node_key_read c)" "consumes (bls_key_read c)" "consumes (account_entry_read c)"
  "consumes (added_validator_read c)" "consumes (added_entry_read c)" "consumes blob_read"
  unfolding node_key_read_def bls_key_read_def account_entry_read_def added_validator_read_def
    added_entry_read_def blob_read_def by (intro consumes_rbind consumes_base consumes_get_be consumes_components
      consumes_list_read)+

lemma consumes_parts [intro, simp]:
  "consumes (cs_read_queues c s)" "consumes (cs_read_staged c w s)" "consumes (cs_read_chain s)"
  "consumes (cs_read_params s)"
  unfolding cs_read_queues_def cs_read_staged_def cs_read_chain_def cs_read_params_def
  by (intro consumes_rbind consumes_base consumes_get_be consumes_components consumes_list_read
      consumes_option_read consumes_entries)+

lemma captured_shorter:
  assumes "cs_read_fields c w buf = Inr (s, rest)" "cs_captured_bytes s = Some bytes"
  shows "length bytes < length buf"
proof -
  obtain s1 b1 s2 b2 s3 b3 s4 b4 s5 b5 where parts:
    "cs_read_queues c (consensus_state_default c) buf = Inr (s1, b1)" "cs_read_staged c w s1 b1 = Inr (s2, b2)"
    "cs_read_chain s2 b2 = Inr (s3, b3)" "cs_read_params s3 b3 = Inr (s4, b4)"
    "cs_read_trailer s4 b4 = Inr (s5, b5)" "s = rebuild_ssz_tree c s5"
    using assms(1) unfolding cs_read_fields_def by (auto simp: rbind_Inr ret_Inr)
  have "length b1 \<le> length buf" "length b2 \<le> length b1" "length b3 \<le> length b2" "length b4 \<le> length b3"
    using parts consumes_parts unfolding consumes_def by blast+
  moreover have "length bytes < length b4"
  proof -
    have "cs_captured_bytes s5 = Some bytes" using assms(2) parts(6) by (simp add: rebuild_ssz_tree_def Let_def)
    with parts(5) obtain d r1 n r2 r3 where "de_read b4 = Inr (d, r1)" "get_be r1 = Inr (n :: u64, r2)"
      "option_read blob_read r2 = Inr (Some bytes, r3)"
      unfolding cs_read_trailer_def by (auto simp: rbind_Inr ret_Inr)
    moreover from this(3) have "length bytes < length r2"
      by (auto simp: option_read_def blob_read_def reader_Inr get_be_Inr split: if_splits)
    moreover have "length r1 \<le> length b4" "length r2 \<le> length r1"
      using calculation(1,2) consumes_components(6) consumes_get_be unfolding consumes_def by blast+
    ultimately show ?thesis by simp
  qed
  ultimately show ?thesis by simp
qed

section \<open>Reading, capturing, checkpoints\<close>

function cs_read :: "crypto \<Rightarrow> wire \<Rightarrow> consensus_state reader" where
  "cs_read c w buf =
     (case cs_read_fields c w buf of
        Inl e \<Rightarrow> Inl e
      | Inr (s, rest) \<Rightarrow>
          (case cs_captured_bytes s of
             None \<Rightarrow> Inr (s, rest)
           | Some bytes \<Rightarrow>
               (case cs_read c w bytes of
                  Inl e \<Rightarrow> Inl e
                | Inr (inner, left) \<Rightarrow>
                    if left \<noteq> [] then Inl (ExtraData (length left))
                    else Inr (s\<lparr>cs_proof_tree := cs_proof_tree inner,
                                cs_state_root := state_root (cs_proof_tree inner),
                                cs_proof_validator_keys := map fst (cs_validator_accounts inner)\<rparr>, rest))))"
  by pat_completeness auto
termination by (relation "measure (\<lambda>(c, w, buf). length buf)") (auto intro: captured_shorter)

declare cs_read.simps [simp del]

definition capture_state_root :: "crypto \<Rightarrow> wire \<Rightarrow> u64 \<Rightarrow> consensus_state \<Rightarrow> consensus_state" where
  "capture_state_root c w el_block_number s =
     (let t = tree_set_dynamic_epoch_schedule c (de_write (cs_epocher s)) (cs_ssz_tree s);
          s1 = s\<lparr>cs_ssz_tree := t, cs_state_root := state_root t, cs_proof_tree := t,
                 cs_proof_validator_keys := map fst (cs_validator_accounts s),
                 cs_proof_el_block_number := el_block_number\<rparr>;
          snapshot = (cs_clone s1)\<lparr>cs_captured_bytes := None\<rparr>
      in s1\<lparr>cs_captured_bytes := Some (cs_write w snapshot)\<rparr>)"

definition checkpoint_new :: "crypto \<Rightarrow> wire \<Rightarrow> consensus_state \<Rightarrow> checkpoint" where
  "checkpoint_new c w s = checkpoint_of_data c (cs_write w s)"

text \<open>\<open>TryFrom<&Checkpoint>\<close>: bytes after the state are not looked at.\<close>

definition state_of_checkpoint :: "crypto \<Rightarrow> wire \<Rightarrow> checkpoint \<Rightarrow> codec_error + consensus_state" where
  "state_of_checkpoint c w ck =
     (if sha256 c (ck_data ck) \<noteq> ck_digest ck then Inl (Invalid ''Checkpoint'' ''Digest verification failed'')
      else case cs_read c w (ck_data ck) of
        Inl e \<Rightarrow> Inl e
      | Inr (s, rest) \<Rightarrow>
          if cs_pending_checkpoint s \<noteq> None
          then Inl (Invalid ''Checkpoint'' ''Pending checkpoint not allowed'') else Inr s)"

section \<open>What can be written\<close>

definition added_entry_ok :: "crypto \<Rightarrow> u64 \<times> added_validator list \<Rightarrow> bool" where
  "added_entry_ok c e \<longleftrightarrow> length (snd e) < 2 ^ 32
     \<and> list_all (\<lambda>v. ed_key_ok c (av_node_key v) \<and> bls_key_ok c (av_consensus_key v)) (snd e)"

text \<open>The bounds the reader enforces on the parameters.\<close>

definition params_bounded :: "consensus_state \<Rightarrow> bool" where
  "params_bounded s \<longleftrightarrow>
     within MIN_ALLOWED_TIMESTAMP_FUTURE_MS MAX_ALLOWED_TIMESTAMP_FUTURE_MS (cs_allowed_timestamp_future_ms s)
   \<and> cs_max_deposits_per_epoch s \<le> MAX_MAX_DEPOSITS_PER_EPOCH
   \<and> within MAX_WITHDRAWALS_PER_EPOCH_MIN MAX_WITHDRAWALS_PER_EPOCH_MAX (cs_max_withdrawals_per_epoch s)
   \<and> ucast (cs_observers_per_validator s) \<le> MAX_OBSERVERS_PER_VALIDATOR
   \<and> within MIN_MAX_VALIDATOR_COUNT MAX_MAX_VALIDATOR_COUNT (cs_max_validator_count s)
   \<and> cs_minimum_validator_count s \<noteq> 0 \<and> cs_minimum_validator_count s \<le> cs_max_validator_count s
   \<and> cs_pending_active_validator_exits s \<le> current_epoch_active_validator_count s
   \<and> cs_invalid_deposit_tax s \<le> MAX_INVALID_DEPOSIT_TAX
   \<and> within MAX_PENDING_WITHDRAWALS_PER_VALIDATOR_MIN MAX_PENDING_WITHDRAWALS_PER_VALIDATOR_MAX
       (cs_max_pending_withdrawals_per_validator s)"

definition queues_ok :: "crypto \<Rightarrow> consensus_state \<Rightarrow> bool" where
  "queues_ok c s \<longleftrightarrow>
     length (cs_deposit_queue s) < 2 ^ 32 \<and> list_all (deposit_request_ok c) (cs_deposit_queue s)
   \<and> queue_writable (cs_withdrawal_queue s)
   \<and> length (cs_protocol_param_changes s) < 2 ^ 32 \<and> list_all protocol_param_ok (cs_protocol_param_changes s)
   \<and> length (cs_validator_accounts s) < 2 ^ 32
   \<and> list_all (\<lambda>e. validator_account_ok c (snd e)) (cs_validator_accounts s) \<and> bt_ok (cs_validator_accounts s)"

definition staging_ok :: "crypto \<Rightarrow> consensus_state \<Rightarrow> bool" where
  "staging_ok c s \<longleftrightarrow>
     (case cs_pending_checkpoint s of None \<Rightarrow> True | Some ck \<Rightarrow> checkpoint_ok c ck)
   \<and> length (cs_added_validators s) < 2 ^ 32 \<and> list_all (added_entry_ok c) (cs_added_validators s)
   \<and> bt_ok (cs_added_validators s)
   \<and> length (cs_removed_validators s) < 2 ^ 32 \<and> list_all (ed_key_ok c) (cs_removed_validators s)
   \<and> length (cs_pending_execution_requests s) < 2 ^ 32
   \<and> list_all (\<lambda>r. length r < 2 ^ 32) (cs_pending_execution_requests s)"

definition state_writable :: "crypto \<Rightarrow> consensus_state \<Rightarrow> bool" where
  "state_writable c s \<longleftrightarrow> queues_ok c s \<and> staging_ok c s \<and> params_bounded s \<and> epocher_writable (cs_epocher s)
     \<and> (case cs_captured_bytes s of None \<Rightarrow> True | Some b \<Rightarrow> length b < 2 ^ 32)"

section \<open>Round trip\<close>

lemma list_reads:
  assumes "\<And>x. ok x \<Longrightarrow> reads rd x (wr x)" "list_all ok xs" "length xs < 2 ^ 32"
  shows "reads (list_read rd) xs (list_write wr xs)"
proof -
  have "unat (word_of_nat (length xs) :: u32) = length xs" using assms(3) by (simp add: unat_word_of_nat)
  then show ?thesis
    using readsD [OF codec.read_many_written [OF codec.intro [OF assms(1)] assms(2)]]
    by (simp add: reads_def list_read_def list_write_def codec_reads)
qed

lemma option_reads:
  assumes "case x of None \<Rightarrow> True | Some y \<Rightarrow> reads rd y (wr y)"
  shows "reads (option_read rd) x (option_write wr x)"
proof (cases x)
  case (Some y)
  with assms have "rbind rd f (wr y @ rest) = f y rest" for f :: "'a \<Rightarrow> 'a option reader" and rest
    by (simp add: reads_rbind)
  then show ?thesis by (simp add: Some reads_def option_read_def option_write_def codec_reads)
qed (simp add: reads_def option_read_def option_write_def codec_reads)

lemma bt_insert_last: "\<forall>e \<in> set m. fst e < k \<Longrightarrow> bt_insert k v m = m @ [(k, v)]"
  by (induction m) auto

lemma fold_insert_append:
  "sorted_wrt (<) (map fst (m @ kvs)) \<Longrightarrow> fold (\<lambda>(k, v). bt_insert k v) kvs m = m @ kvs"
proof (induction kvs arbitrary: m)
  case (Cons e kvs)
  then have "bt_insert (fst e) (snd e) m = m @ [e]" by (subst bt_insert_last) (auto simp: sorted_wrt_append)
  with Cons show ?case by (simp add: case_prod_beta)
qed simp

lemma collect_map_ok: "bt_ok m \<Longrightarrow> collect_map m = m"
  using fold_insert_append [of "[]" m] by (simp add: collect_map_def bt_ok_def)

lemma key_reads:
  "ed_key_ok c k \<Longrightarrow> reads (node_key_read c) k (to_be_bytes k)"
  "bls_key_ok c b \<Longrightarrow> reads (bls_key_read c) b (to_be_bytes b)"
  by (simp_all add: reads_def node_key_read_def bls_key_read_def codec_reads)

lemma entry_reads:
  "validator_account_ok c (snd e) \<Longrightarrow> reads (account_entry_read c) e (account_entry_write e)"
  "ed_key_ok c (av_node_key v) \<and> bls_key_ok c (av_consensus_key v) \<Longrightarrow>
     reads (added_validator_read c) v (added_validator_write v)"
  "length r < 2 ^ 32 \<Longrightarrow> reads blob_read r (prefixed r)"
  by (cases e, simp add: reads_def account_entry_read_def account_entry_write_def codec_reads
      reads_rbind [OF validator_account.read_written])
    (simp_all add: reads_def added_validator_read_def added_validator_write_def codec_reads
      reads_rbind [OF key_reads(1)] reads_rbind [OF key_reads(2)] blob_read_def prefixed_reads [where f = ret, simplified]
      prefixed_def unat_word_of_nat take_bytes_def)

lemma added_entry_reads: "added_entry_ok c e \<Longrightarrow> reads (added_entry_read c) e (added_entry_write e)"
proof (cases e)
  case (Pair k vs)
  assume "added_entry_ok c e"
  then have "reads (list_read (added_validator_read c)) vs (list_write added_validator_write vs)"
    using Pair by (intro list_reads entry_reads(2)) (auto simp: added_entry_ok_def)
  then show ?thesis by (simp add: Pair reads_def added_entry_read_def added_entry_write_def codec_reads reads_rbind)
qed

lemma queues_read:
  assumes "queues_ok c s"
  shows "cs_read_queues c s0 (write_queues s @ rest) =
    Inr (s0\<lparr>cs_epoch := cs_epoch s, cs_view := cs_view s, cs_latest_height := cs_latest_height s,
       cs_deposit_queue := cs_deposit_queue s, cs_withdrawal_queue := cs_withdrawal_queue s,
       cs_protocol_param_changes := cs_protocol_param_changes s,
       cs_validator_accounts := cs_validator_accounts s\<rparr>, rest)"
proof -
  have "reads (list_read (deposit_request_read c)) (cs_deposit_queue s)
      (list_write deposit_request_write (cs_deposit_queue s))"
    using assms by (intro list_reads deposit_request.read_written) (auto simp: queues_ok_def)
  moreover have "reads wq_read (cs_withdrawal_queue s) (wq_write (cs_withdrawal_queue s))"
    using assms by (intro withdrawal_queue.read_written) (auto simp: queues_ok_def)
  moreover have "reads (list_read protocol_param_read) (cs_protocol_param_changes s)
      (list_write protocol_param_write (cs_protocol_param_changes s))"
    using assms by (intro list_reads protocol_param.read_written) (auto simp: queues_ok_def)
  moreover have "reads (list_read (account_entry_read c)) (cs_validator_accounts s)
      (list_write account_entry_write (cs_validator_accounts s))"
    using assms by (intro list_reads entry_reads(1)) (auto simp: queues_ok_def)
  moreover have "collect_map (cs_validator_accounts s) = cs_validator_accounts s"
    using assms by (simp add: queues_ok_def collect_map_ok)
  ultimately show ?thesis
    by (simp add: cs_read_queues_def write_queues_def codec_reads reads_rbind)
qed

lemma staged_read:
  assumes "staging_ok c s" "wire_ok c w"
  shows "cs_read_staged c w s0 (write_staged w s @ rest) =
    Inr (s0\<lparr>cs_pending_checkpoint := cs_pending_checkpoint s, cs_added_validators := cs_added_validators s,
       cs_removed_validators := cs_removed_validators s,
       cs_pending_execution_requests := cs_pending_execution_requests s\<rparr>, rest)"
proof -
  have "reads (option_read (checkpoint_read c w)) (cs_pending_checkpoint s)
      (option_write (checkpoint_write w) (cs_pending_checkpoint s))"
    using assms by (intro option_reads) (auto simp: staging_ok_def checkpoint_reads split: option.splits)
  moreover have "reads (list_read (added_entry_read c)) (cs_added_validators s)
      (list_write added_entry_write (cs_added_validators s))"
    using assms by (intro list_reads added_entry_reads) (auto simp: staging_ok_def)
  moreover have "reads (list_read (node_key_read c)) (cs_removed_validators s)
      (list_write to_be_bytes (cs_removed_validators s))"
    using assms by (intro list_reads key_reads(1)) (auto simp: staging_ok_def)
  moreover have "reads (list_read blob_read) (cs_pending_execution_requests s)
      (list_write prefixed (cs_pending_execution_requests s))"
    using assms by (intro list_reads entry_reads(3)) (auto simp: staging_ok_def)
  moreover have "collect_map (cs_added_validators s) = cs_added_validators s"
    using assms by (simp add: staging_ok_def collect_map_ok)
  ultimately show ?thesis
    by (simp add: cs_read_staged_def write_staged_def codec_reads reads_rbind)
qed

lemma chain_read:
  "cs_read_chain s0 (write_chain s @ rest) =
    Inr (s0\<lparr>cs_forkchoice := cs_forkchoice s, cs_epoch_genesis_hash := cs_epoch_genesis_hash s,
       cs_head_digest := cs_head_digest s\<rparr>, rest)"
  by (simp add: cs_read_chain_def write_chain_def codec_reads)

lemma params_read:
  assumes "params_bounded s" "cs_validator_accounts s0 = cs_validator_accounts s"
  shows "cs_read_params s0 (write_params s @ rest) =
    Inr (s0\<lparr>cs_validator_minimum_stake := cs_validator_minimum_stake s,
      cs_allowed_timestamp_future_ms := cs_allowed_timestamp_future_ms s,
      cs_treasury_address := cs_treasury_address s, cs_max_deposits_per_epoch := cs_max_deposits_per_epoch s,
      cs_max_withdrawals_per_epoch := cs_max_withdrawals_per_epoch s,
      cs_observers_per_validator := cs_observers_per_validator s,
      cs_max_validator_count := cs_max_validator_count s,
      cs_minimum_validator_count := cs_minimum_validator_count s,
      cs_pending_active_validator_exits := cs_pending_active_validator_exits s,
      cs_invalid_deposit_tax := cs_invalid_deposit_tax s,
      cs_max_pending_withdrawals_per_validator := cs_max_pending_withdrawals_per_validator s\<rparr>, rest)"
proof -
  have "current_epoch_active_validator_count s0 = current_epoch_active_validator_count s"
    using assms(2) by (simp add: current_epoch_active_validator_count_def count_status_def)
  then show ?thesis
    using assms(1) by (simp add: cs_read_params_def write_params_def codec_reads params_bounded_def)
qed

lemma trailer_read:
  assumes "epocher_writable (cs_epocher s)" "case cs_captured_bytes s of None \<Rightarrow> True | Some b \<Rightarrow> length b < 2 ^ 32"
  shows "cs_read_trailer s0 (write_trailer s @ rest) =
    Inr (s0\<lparr>cs_epocher := cs_epocher s, cs_proof_el_block_number := cs_proof_el_block_number s,
       cs_captured_bytes := cs_captured_bytes s\<rparr>, rest)"
proof -
  have "reads (option_read blob_read) (cs_captured_bytes s) (option_write prefixed (cs_captured_bytes s))"
    using assms(2) by (intro option_reads) (auto simp: entry_reads(3) split: option.splits)
  then show ?thesis
    by (simp add: cs_read_trailer_def write_trailer_def codec_reads reads_rbind
        reads_rbind [OF dynamic_epocher.read_written [OF assms(1)]])
qed

lemma fields_read:
  assumes "state_writable c s" "wire_ok c w"
  shows "cs_read_fields c w (cs_write w s @ rest) = Inr (rebuild_ssz_tree c s, rest)"
proof -
  have "rbind m f (bs @ more) = f x more" if "m (bs @ more) = Inr (x, more)"
    for m :: "consensus_state reader" and f :: "consensus_state \<Rightarrow> consensus_state reader" and bs more x
    using that by (simp add: rbind_def)
  note step = this
  show ?thesis
    using assms unfolding state_writable_def cs_read_fields_def cs_write_def
    by (simp add: step queues_read staged_read chain_read params_read trailer_read ret_apply)
      (cases s, simp add: rebuild_ssz_tree_def contents_of_def Let_def consensus_state_default_def
        consensus_state_new_def)
qed

lemma length_list_write: "length (list_write wr xs) = 4 + sum_list (map (\<lambda>x. length (wr x)) xs)"
  by (simp add: list_write_def length_concat comp_def)

lemma length_param_write: "length (protocol_param_write p) = protocol_param_encode_size p"
  by (cases p) simp_all

lemma length_de_write: "length (de_write d) = de_encode_size d"
proof -
  have "length (concat (map segment_write ss)) = length ss * 24" for ss
    by (induction ss) (simp_all add: segment_write_def)
  then show ?thesis by (simp add: de_write_def de_encode_size_def)
qed

lemma cs_write_size: "wire_ok c w \<Longrightarrow> length (cs_write w s) = cs_encode_size s"
  by (simp add: cs_write_def write_queues_def write_staged_def write_chain_def write_params_def write_trailer_def
      cs_encode_size_def length_list_write length_param_write length_wq_write length_de_write option_write_def
      account_entry_write_def added_entry_write_def added_validator_write_def prefixed_def checkpoint_write_size
      case_prod_beta split: option.splits)

section \<open>Restart\<close>

text \<open>The state carries the snapshot of its last capture.\<close>

definition frozen :: "crypto \<Rightarrow> wire \<Rightarrow> consensus_state \<Rightarrow> consensus_state \<Rightarrow> bool" where
  "frozen c w snap s \<longleftrightarrow>
     state_writable c snap \<and> cs_captured_bytes snap = None \<and> cs_captured_bytes s = Some (cs_write w snap)
   \<and> cs_proof_tree s = rebuild c (contents_of snap) \<and> cs_state_root s = state_root (cs_proof_tree s)
   \<and> cs_proof_validator_keys s = map fst (cs_validator_accounts snap)"

lemma plain_read:
  assumes "state_writable c s" "wire_ok c w" "cs_captured_bytes s = None"
  shows "cs_read c w (cs_write w s @ rest) = Inr (rebuild_ssz_tree c s, rest)"
  using assms(3) by (simp add: cs_read.simps [of c w "cs_write w s @ rest"] fields_read [OF assms(1,2)]
      rebuild_ssz_tree_def Let_def)

lemma frozen_read:
  assumes f: "frozen c w snap s" and s: "state_writable c s" and w: "wire_ok c w"
  shows "cs_read c w (cs_write w s @ rest) = Inr (s\<lparr>cs_ssz_tree := rebuild c (contents_of s)\<rparr>, rest)"
proof -
  have "cs_read c w (cs_write w snap) = Inr (rebuild_ssz_tree c snap, [])"
    using plain_read [of c snap w "[]"] f w by (simp add: frozen_def)
  then show ?thesis
    using f by (subst cs_read.simps) (simp add: fields_read [OF s w] rebuild_ssz_tree_def Let_def frozen_def)
qed

lemma captured_tree:
  assumes "zero_hashes_ok c" "committed c s"
  shows "tree_set_dynamic_epoch_schedule c (de_write (cs_epocher s)) (cs_ssz_tree s) = rebuild c (contents_of s)"
proof -
  obtain bs where "cs_ssz_tree s = rebuild c ((contents_of s)\<lparr>ct_dynamic_epoch_schedule := bs\<rparr>)"
    using assms(2) by (auto simp: committed_def)
  then have "in_sync c ((contents_of s)\<lparr>ct_dynamic_epoch_schedule := bs\<rparr>) (cs_ssz_tree s)"
    by (simp add: rebuild_in_sync [OF assms(1)])
  from scalar_setters_in_sync(18) [OF this, of "de_write (cs_epocher s)"]
  have "in_sync c (contents_of s) (tree_set_dynamic_epoch_schedule c (de_write (cs_epocher s)) (cs_ssz_tree s))"
    by (simp add: contents_of_def)
  then show ?thesis using in_sync_unique rebuild_in_sync [OF assms(1)] by blast
qed

definition without_capture :: "consensus_state \<Rightarrow> consensus_state" where
  "without_capture s = s\<lparr>cs_captured_bytes := None\<rparr>"

text \<open>The schedule is a value, so a clone is the state.\<close>

lemma cs_clone_same: "cs_clone s = s"
proof -
  have "snapshot d = d" for d by (cases d) (simp add: snapshot_def)
  then show ?thesis by (cases s) (simp add: cs_clone_def clone_with_epocher_def)
qed

lemma capture_fields:
  assumes "zero_hashes_ok c" "committed c s"
  shows "capture_state_root c w n s =
    (let t = rebuild c (contents_of s);
         s1 = s\<lparr>cs_ssz_tree := t, cs_state_root := state_root t, cs_proof_tree := t,
                cs_proof_validator_keys := map fst (cs_validator_accounts s), cs_proof_el_block_number := n\<rparr>
     in s1\<lparr>cs_captured_bytes := Some (cs_write w (without_capture s1))\<rparr>)"
  using captured_tree [OF assms] by (simp add: capture_state_root_def without_capture_def cs_clone_same Let_def)

lemma contents_of_views:
  "contents_of (s\<lparr>cs_ssz_tree := t\<rparr>) = contents_of s" "contents_of (s\<lparr>cs_state_root := r\<rparr>) = contents_of s"
  "contents_of (s\<lparr>cs_proof_tree := p\<rparr>) = contents_of s" "contents_of (s\<lparr>cs_proof_validator_keys := ks\<rparr>) = contents_of s"
  "contents_of (s\<lparr>cs_proof_el_block_number := n\<rparr>) = contents_of s"
  "contents_of (s\<lparr>cs_captured_bytes := b\<rparr>) = contents_of s"
  by (simp_all add: contents_of_def)

lemma writable_views:
  "state_writable c (s\<lparr>cs_ssz_tree := t\<rparr>) = state_writable c s" "state_writable c (s\<lparr>cs_state_root := r\<rparr>) = state_writable c s"
  "state_writable c (s\<lparr>cs_proof_tree := p\<rparr>) = state_writable c s"
  "state_writable c (s\<lparr>cs_proof_validator_keys := ks\<rparr>) = state_writable c s"
  "state_writable c (s\<lparr>cs_proof_el_block_number := n\<rparr>) = state_writable c s"
  by (simp_all add: state_writable_def queues_ok_def staging_ok_def params_bounded_def
      current_epoch_active_validator_count_def count_status_def)

lemma writable_captured:
  "state_writable c (s\<lparr>cs_captured_bytes := None\<rparr>) \<Longrightarrow> length b < 2 ^ 32 \<Longrightarrow>
     state_writable c (s\<lparr>cs_captured_bytes := Some b\<rparr>)"
  by (simp add: state_writable_def queues_ok_def staging_ok_def params_bounded_def
      current_epoch_active_validator_count_def count_status_def)

lemma capture_frozen:
  assumes z: "zero_hashes_ok c" "committed c s" and w: "wire_ok c w"
    and s: "state_writable c (without_capture s)" "cs_encode_size (without_capture s) < 2 ^ 32"
  shows "(\<exists>snap. frozen c w snap (capture_state_root c w n s)) \<and> state_writable c (capture_state_root c w n s)
    \<and> cs_ssz_tree (capture_state_root c w n s) = rebuild c (contents_of (capture_state_root c w n s))"
proof -
  let ?t = "rebuild c (contents_of s)"
  let ?s1 = "s\<lparr>cs_ssz_tree := ?t, cs_state_root := state_root ?t, cs_proof_tree := ?t,
      cs_proof_validator_keys := map fst (cs_validator_accounts s), cs_proof_el_block_number := n\<rparr>"
  let ?snap = "without_capture ?s1"
  have eq: "capture_state_root c w n s = ?s1\<lparr>cs_captured_bytes := Some (cs_write w ?snap)\<rparr>"
    by (simp add: capture_fields [OF z] Let_def)
  have snap: "?snap = (without_capture s)\<lparr>cs_ssz_tree := ?t, cs_state_root := state_root ?t, cs_proof_tree := ?t,
      cs_proof_validator_keys := map fst (cs_validator_accounts s), cs_proof_el_block_number := n\<rparr>"
    by (simp add: without_capture_def)
  have wr: "state_writable c ?snap" unfolding snap writable_views by (rule s(1))
  have "cs_encode_size ?snap = cs_encode_size (without_capture s)" unfolding snap by (simp add: cs_encode_size_def)
  then have "length (cs_write w ?snap) < 2 ^ 32" using s(2) by (simp add: cs_write_size [OF w])
  then have "state_writable c (capture_state_root c w n s)"
    unfolding eq using wr by (intro writable_captured) (simp_all add: without_capture_def)
  moreover have "frozen c w ?snap (capture_state_root c w n s)"
    unfolding eq using wr by (simp add: frozen_def without_capture_def contents_of_views)
  moreover have "cs_ssz_tree (capture_state_root c w n s) = rebuild c (contents_of (capture_state_root c w n s))"
    unfolding eq by (simp add: contents_of_views)
  ultimately show ?thesis by blast
qed

section \<open>What a read returns\<close>

lemma read_many_all:
  assumes "\<And>buf x rest. rd buf = Inr (x, rest) \<Longrightarrow> P x"
  shows "read_many rd n buf = Inr (xs, rest) \<Longrightarrow> list_all P xs"
  using assms by (induction n arbitrary: buf xs) (fastforce simp: rbind_Inr ret_Inr)+

lemma list_read_all:
  assumes "\<And>buf x rest. rd buf = Inr (x, rest) \<Longrightarrow> P x" "list_read rd buf = Inr (xs, rest)"
  shows "list_all P xs"
  using assms(2) read_many_all [OF assms(1)] by (auto simp: list_read_def rbind_Inr)

lemma collect_map_bt_ok: "bt_ok (collect_map kvs)"
proof -
  have "bt_ok m \<Longrightarrow> bt_ok (fold (\<lambda>(k, v). bt_insert k v) kvs m)" for m
    by (induction kvs arbitrary: m) (auto simp: bt_ok_insert)
  then show ?thesis by (simp add: collect_map_def)
qed

lemma collect_map_values: "(k, v) \<in> set (collect_map kvs) \<Longrightarrow> v \<in> snd ` set kvs"
proof -
  have "(k, v) \<in> set (fold (\<lambda>(k, v). bt_insert k v) kvs m) \<Longrightarrow> v \<in> snd ` set kvs \<or> (k, v) \<in> set m" for m
  proof (induction kvs arbitrary: m)
    case (Cons e kvs)
    then show ?case using set_bt_insert by (force simp: case_prod_beta)
  qed simp
  from this [of "[]"] show "(k, v) \<in> set (collect_map kvs) \<Longrightarrow> v \<in> snd ` set kvs"
    by (simp add: collect_map_def)
qed

definition decoded_ok :: "crypto \<Rightarrow> consensus_state \<Rightarrow> bool" where
  "decoded_ok c s \<longleftrightarrow>
     list_all (deposit_request_ok c) (cs_deposit_queue s) \<and> queue_ok (cs_withdrawal_queue s)
   \<and> list_all protocol_param_ok (cs_protocol_param_changes s)
   \<and> bt_ok (cs_validator_accounts s) \<and> list_all (\<lambda>e. validator_account_ok c (snd e)) (cs_validator_accounts s)
   \<and> (case cs_pending_checkpoint s of None \<Rightarrow> True | Some ck \<Rightarrow> ck_digest ck = sha256 c (ck_data ck))
   \<and> bt_ok (cs_added_validators s) \<and> list_all (ed_key_ok c) (cs_removed_validators s) \<and> params_bounded s
   \<and> epocher_writable (cs_epocher s)"

lemma queues_decoded:
  assumes "cs_read_queues c s0 buf = Inr (s, rest)"
  shows "list_all (deposit_request_ok c) (cs_deposit_queue s) \<and> queue_ok (cs_withdrawal_queue s)
   \<and> list_all protocol_param_ok (cs_protocol_param_changes s)
   \<and> bt_ok (cs_validator_accounts s) \<and> list_all (\<lambda>e. validator_account_ok c (snd e)) (cs_validator_accounts s)"
proof -
  obtain ds b1 b2 q b3 ps b4 as b5 where r: "list_read (deposit_request_read c) b1 = Inr (ds, b2)"
    "wq_read b2 = Inr (q, b3)" "list_read protocol_param_read b3 = Inr (ps, b4)"
    "list_read (account_entry_read c) b4 = Inr (as, b5)"
    and s: "cs_deposit_queue s = ds" "cs_withdrawal_queue s = q" "cs_protocol_param_changes s = ps"
      "cs_validator_accounts s = collect_map as"
    using assms unfolding cs_read_queues_def by (auto simp: rbind_Inr ret_Inr)
  have "list_all (deposit_request_ok c) ds"
    by (rule list_read_all [OF _ r(1)]) (use deposit_request.written_read in blast)
  moreover have "list_all protocol_param_ok ps"
    by (rule list_read_all [OF _ r(3)]) (use protocol_param.written_read in blast)
  moreover have "validator_account_ok c (snd e)" if "account_entry_read c b = Inr (e, rest)" for b e rest
    using that validator_account.written_read by (auto simp: account_entry_read_def rbind_Inr ret_Inr)
  then have "list_all (\<lambda>e. validator_account_ok c (snd e)) as" by (rule list_read_all [OF _ r(4)])
  then have "list_all (\<lambda>e. validator_account_ok c (snd e)) (collect_map as)"
    using collect_map_values by (fastforce simp: list_all_iff)
  ultimately show ?thesis
    using r(2) withdrawal_queue.written_read by (auto simp: s collect_map_bt_ok queue_writable_def)
qed

lemma staged_decoded:
  assumes "cs_read_staged c w s0 buf = Inr (s, rest)"
  shows "(case cs_pending_checkpoint s of None \<Rightarrow> True | Some ck \<Rightarrow> ck_digest ck = sha256 c (ck_data ck))
   \<and> bt_ok (cs_added_validators s) \<and> list_all (ed_key_ok c) (cs_removed_validators s)
   \<and> cs_validator_accounts s = cs_validator_accounts s0 \<and> cs_deposit_queue s = cs_deposit_queue s0
   \<and> cs_withdrawal_queue s = cs_withdrawal_queue s0 \<and> cs_protocol_param_changes s = cs_protocol_param_changes s0"
proof -
  obtain ck b1 as b2 ks b3 rs where r: "option_read (checkpoint_read c w) buf = Inr (ck, b1)"
    "list_read (node_key_read c) b2 = Inr (ks, b3)"
    and s: "s = s0\<lparr>cs_pending_checkpoint := ck, cs_added_validators := collect_map as, cs_removed_validators := ks,
      cs_pending_execution_requests := rs\<rparr>"
    using assms unfolding cs_read_staged_def by (auto simp: rbind_Inr ret_Inr)
  have "ed_key_ok c k" if "node_key_read c b = Inr (k, rest)" for b k rest
    using that by (auto simp: node_key_read_def rbind_Inr ret_Inr ensure_Inr)
  then have "list_all (ed_key_ok c) ks" by (rule list_read_all [OF _ r(2)])
  moreover have "case ck of None \<Rightarrow> True | Some ck \<Rightarrow> ck_digest ck = sha256 c (ck_data ck)"
    using r(1) checkpoint_digest_bound by (auto simp: option_read_def rbind_Inr ret_Inr split: if_splits)
  ultimately show ?thesis by (simp add: s collect_map_bt_ok)
qed

lemma rest_decoded:
  assumes "cs_read_chain s2 b2 = Inr (s3, b3)" "cs_read_params s3 b3 = Inr (s4, b4)" "cs_read_trailer s4 b4 = Inr (s5, b5)"
  shows "params_bounded s5 \<and> epocher_writable (cs_epocher s5)
   \<and> cs_validator_accounts s5 = cs_validator_accounts s2 \<and> cs_deposit_queue s5 = cs_deposit_queue s2
   \<and> cs_withdrawal_queue s5 = cs_withdrawal_queue s2 \<and> cs_protocol_param_changes s5 = cs_protocol_param_changes s2
   \<and> cs_pending_checkpoint s5 = cs_pending_checkpoint s2 \<and> cs_added_validators s5 = cs_added_validators s2
   \<and> cs_removed_validators s5 = cs_removed_validators s2"
proof -
  have "params_bounded s4 \<and> cs_validator_accounts s4 = cs_validator_accounts s3
     \<and> cs_deposit_queue s4 = cs_deposit_queue s3 \<and> cs_withdrawal_queue s4 = cs_withdrawal_queue s3
     \<and> cs_protocol_param_changes s4 = cs_protocol_param_changes s3
     \<and> cs_pending_checkpoint s4 = cs_pending_checkpoint s3 \<and> cs_added_validators s4 = cs_added_validators s3
     \<and> cs_removed_validators s4 = cs_removed_validators s3"
    using assms(2) unfolding cs_read_params_def
    by (auto simp: rbind_Inr ret_Inr ensure_Inr params_bounded_def current_epoch_active_validator_count_def
        count_status_def)
  moreover obtain fc g d where "s3 = s2\<lparr>cs_forkchoice := fc, cs_epoch_genesis_hash := g, cs_head_digest := d\<rparr>"
    using assms(1) unfolding cs_read_chain_def by (auto simp: rbind_Inr ret_Inr)
  moreover obtain ep n cb b where "de_read b4 = Inr (ep, b)"
    "s5 = s4\<lparr>cs_epocher := ep, cs_proof_el_block_number := n, cs_captured_bytes := cb\<rparr>"
    using assms(3) unfolding cs_read_trailer_def by (auto simp: rbind_Inr ret_Inr)
  moreover from this(1) have "epocher_writable ep" using dynamic_epocher.written_read by blast
  ultimately show ?thesis
    by (auto simp: params_bounded_def current_epoch_active_validator_count_def count_status_def)
qed

lemma fields_decoded:
  assumes "cs_read_fields c w buf = Inr (s, rest)"
  shows "decoded_ok c s \<and> cs_ssz_tree s = rebuild c (contents_of s)"
proof -
  obtain s1 b1 s2 b2 s3 b3 s4 b4 s5 b5 where parts:
    "cs_read_queues c (consensus_state_default c) buf = Inr (s1, b1)" "cs_read_staged c w s1 b1 = Inr (s2, b2)"
    "cs_read_chain s2 b2 = Inr (s3, b3)" "cs_read_params s3 b3 = Inr (s4, b4)"
    "cs_read_trailer s4 b4 = Inr (s5, b5)" "s = rebuild_ssz_tree c s5"
    using assms unfolding cs_read_fields_def by (auto simp: rbind_Inr ret_Inr)
  have "decoded_ok c s5"
    using queues_decoded [OF parts(1)] staged_decoded [OF parts(2)] rest_decoded [OF parts(3-5)]
    by (simp add: decoded_ok_def)
  then show ?thesis
    by (simp add: parts(6) rebuild_ssz_tree_def Let_def decoded_ok_def params_bounded_def
        current_epoch_active_validator_count_def count_status_def contents_of_views)
qed

lemma decoded_views:
  assumes "decoded_ok c s \<and> cs_ssz_tree s = rebuild c (contents_of s)"
    and "s' = s\<lparr>cs_proof_tree := p, cs_state_root := r, cs_proof_validator_keys := ks\<rparr>"
  shows "decoded_ok c s' \<and> cs_ssz_tree s' = rebuild c (contents_of s')"
  using assms by (simp add: decoded_ok_def params_bounded_def
      current_epoch_active_validator_count_def count_status_def contents_of_views)

lemma read_decoded:
  assumes "cs_read c w buf = Inr (s, rest)"
  shows "decoded_ok c s \<and> cs_ssz_tree s = rebuild c (contents_of s)"
proof (cases "cs_read_fields c w buf")
  case (Inl e)
  with assms show ?thesis by (simp add: cs_read.simps [of c w buf])
next
  case (Inr r)
  obtain s1 rest1 where r: "r = (s1, rest1)" by fastforce
  note d = fields_decoded [OF Inr [unfolded r]]
  show ?thesis
  proof (cases "cs_captured_bytes s1")
    case None
    with assms d show ?thesis by (simp add: cs_read.simps [of c w buf] Inr r)
  next
    case (Some bytes)
    show ?thesis
    proof (cases "cs_read c w bytes")
      case (Inl e)
      with assms Some show ?thesis by (simp add: cs_read.simps [of c w buf] Inr r)
    next
      case inner: (Inr i)
      obtain s2 left where i: "i = (s2, left)" by fastforce
      have "s = s1\<lparr>cs_proof_tree := cs_proof_tree s2, cs_state_root := state_root (cs_proof_tree s2),
          cs_proof_validator_keys := map fst (cs_validator_accounts s2)\<rparr>"
        using assms Some by (simp add: cs_read.simps [of c w buf] Inr r inner i split: if_splits)
      with d show ?thesis by (rule decoded_views)
    qed
  qed
qed

section \<open>Properties\<close>

text \<open>C12. The consensus state survives serialisation. The announced size is the number of bytes
  written; a state without a captured snapshot is read back with its trees rebuilt, whatever
  follows it; a checkpoint made of it is accepted and gives that state back, and a checkpoint whose
  digest is not the hash of its data is refused.\<close>

theorem state_codec:
  assumes "wire_ok c w" "state_writable c s" "cs_captured_bytes s = None" "cs_pending_checkpoint s = None"
  shows "length (cs_write w s) = cs_encode_size s
    \<and> cs_read c w (cs_write w s @ rest) = Inr (rebuild_ssz_tree c s, rest)
    \<and> state_of_checkpoint c w (checkpoint_new c w s) = Inr (rebuild_ssz_tree c s)
    \<and> (ck_digest ck \<noteq> sha256 c (ck_data ck) \<longrightarrow>
        state_of_checkpoint c w ck = Inl (Invalid ''Checkpoint'' ''Digest verification failed''))"
  using cs_write_size [OF assms(1), of s] plain_read [OF assms(2,1,3)] plain_read [OF assms(2,1,3), of "[]"] assms(4)
  by (auto simp: state_of_checkpoint_def checkpoint_new_def checkpoint_of_data_def rebuild_ssz_tree_def Let_def)

lemma demo_state_fields:
  "cs_captured_bytes demo_state = None" "cs_pending_checkpoint demo_state = None"
  "cs_deposit_queue demo_state = []" "cs_withdrawal_queue demo_state = wq_default"
  "cs_protocol_param_changes demo_state = []" "cs_added_validators demo_state = []"
  "cs_removed_validators demo_state = []" "cs_pending_execution_requests demo_state = []"
  "cs_epocher demo_state = de_new 1"
  "cs_validator_accounts demo_state = [(5, demo_account), (9, demo_account\<lparr>va_consensus_public_key := 70\<rparr>)]"
  by (simp_all add: demo_state_def demo_account_def consensus_state_default_def consensus_state_new_def
      rebuild_ssz_tree_def set_account_def on_tree_def Let_def)

lemma demo_writable: "state_writable demo_crypto demo_state"
  by (simp add: state_writable_def queues_ok_def staging_ok_def params_bounded_def demo_state_fields
      queue_writable_def wq_default_ok within_def count_status_def current_epoch_active_validator_count_def
      validator_account_ok_def epocher_writable_def de_new_def)
    (simp add: demo_state_def demo_account_def consensus_state_default_def consensus_state_new_def
      rebuild_ssz_tree_def set_account_def on_tree_def Let_def wq_default_def param_limits
      DEFAULT_MAX_VALIDATOR_COUNT_def DEFAULT_MINIMUM_VALIDATOR_COUNT_def
      DEFAULT_MAX_PENDING_WITHDRAWALS_PER_VALIDATOR_def)

theorem state_codec_witness:
  "state_of_checkpoint demo_crypto demo_wire (checkpoint_new demo_crypto demo_wire demo_state) =
     Inr (rebuild_ssz_tree demo_crypto demo_state)"
  using state_codec [OF demo_wire_ok demo_writable demo_state_fields(1,2)] by blast

text \<open>C11. A node that restarts agrees with its peers on the state root. Capturing the root of a state
  whose tree follows it and writing the state gives bytes from which exactly the captured state is
  read, with the same root, proof tree and proof keys. The same holds after any further changes of
  the live state that leave the captured snapshot alone, although the snapshot then differs from
  the state: only the live tree is rebuilt.\<close>

theorem restart_keeps_state_root:
  assumes "wire_ok c w" "zero_hashes_ok c" "committed c s"
    "state_writable c (s\<lparr>cs_captured_bytes := None\<rparr>)" "cs_encode_size (s\<lparr>cs_captured_bytes := None\<rparr>) < 2 ^ 32"
  shows "let s' = capture_state_root c w n s in
      decode (cs_read c w) (cs_write w s') = Inr s'
    \<and> (\<forall>u. state_writable c u \<longrightarrow> cs_captured_bytes u = cs_captured_bytes s' \<longrightarrow>
          cs_proof_tree u = cs_proof_tree s' \<longrightarrow> cs_state_root u = cs_state_root s' \<longrightarrow>
          cs_proof_validator_keys u = cs_proof_validator_keys s' \<longrightarrow>
          decode (cs_read c w) (cs_write w u) = Inr (u\<lparr>cs_ssz_tree := rebuild c (contents_of u)\<rparr>))"
proof -
  let ?s = "capture_state_root c w n s"
  obtain snap where f: "frozen c w snap ?s" and wr: "state_writable c ?s"
    and t: "cs_ssz_tree ?s = rebuild c (contents_of ?s)"
    using capture_frozen [of c s w n] assms by (auto simp: without_capture_def)
  have dec: "decode (cs_read c w) (cs_write w u) = Inr (u\<lparr>cs_ssz_tree := rebuild c (contents_of u)\<rparr>)"
    if "state_writable c u" "frozen c w snap u" for u
    using frozen_read [OF that(2,1) assms(1), of "[]"] by (simp add: decode_def)
  have "u\<lparr>cs_ssz_tree := cs_ssz_tree u\<rparr> = u" for u :: consensus_state by simp
  with dec [OF wr f] t have "decode (cs_read c w) (cs_write w ?s) = Inr ?s" by metis
  moreover have "frozen c w snap u" if "cs_captured_bytes u = cs_captured_bytes ?s" "cs_proof_tree u = cs_proof_tree ?s"
    "cs_state_root u = cs_state_root ?s" "cs_proof_validator_keys u = cs_proof_validator_keys ?s" for u
    using f that by (simp add: frozen_def)
  ultimately show ?thesis using dec unfolding Let_def by blast
qed

theorem restart_keeps_state_root_witness:
  "decode (cs_read demo_crypto demo_wire) (cs_write demo_wire (capture_state_root demo_crypto demo_wire 7 demo_state)) =
     Inr (capture_state_root demo_crypto demo_wire 7 demo_state)"
proof -
  have "demo_state\<lparr>cs_captured_bytes := None\<rparr> = demo_state" by (cases demo_state) (use demo_state_fields(1) in simp)
  moreover have "cs_encode_size demo_state < 2 ^ 32"
    by (simp add: cs_encode_size_def demo_state_fields wq_encode_size_def flat_encode_size_def wq_default_def
        de_encode_size_def de_new_def)
  ultimately show ?thesis
    using restart_keeps_state_root [of demo_crypto demo_wire demo_state 7] demo_wire_ok demo_writable demo_state_ok
    by (simp add: tree_ok_committed Let_def)
qed

text \<open>C13. Whatever bytes a state is read from, what is read is within the protocol: the withdrawal
  queue satisfies its invariant, accounts and schedule are in key order, keys decode, a pending
  checkpoint has the digest of its data, every parameter is within its bounds with the minimum
  validator count between one and the cap, the exit budget is at most the active set, and the live
  tree is the tree of the fields.\<close>

theorem decoded_state_ok:
  assumes "zero_hashes_ok c" "cs_read c w buf = Inr (s, rest)"
  shows "decoded_ok c s \<and> committed c s \<and> 1 \<le> cs_minimum_validator_count s
    \<and> cs_minimum_validator_count s \<le> cs_max_validator_count s \<and> cs_max_validator_count s \<le> 4096"
proof -
  have d: "decoded_ok c s" "cs_ssz_tree s = rebuild c (contents_of s)" using read_decoded [OF assms(2)] by simp_all
  have "(contents_of s)\<lparr>ct_dynamic_epoch_schedule := de_write (cs_epocher s)\<rparr> = contents_of s"
    by (simp add: contents_of_def)
  then have "committed c s" using d(2) unfolding committed_def by metis
  with d(1) show ?thesis by (auto simp: decoded_ok_def params_bounded_def within_def param_limits word_one_le)
qed

theorem decoded_state_ok_witness:
  "decoded_ok demo_crypto (rebuild_ssz_tree demo_crypto demo_state)"
  using decoded_state_ok [of demo_crypto demo_wire "cs_write demo_wire demo_state" "rebuild_ssz_tree demo_crypto demo_state" "[]"]
    plain_read [OF demo_writable demo_wire_ok demo_state_fields(1), of "[]"] by simp

end
