(* ===== verification/Block.thy ===== *)
theory Block
  imports Header Withdrawal
begin

text \<open>
  \<open>types/src/block.rs\<close>: a block is a header, the execution payload and the execution requests
  whose hashes the header commits to. The payload is the Engine API type of a library: the fields
  the program reads are named, the others are kept together in \<open>ep_other\<close>. Its SSZ encoding, that
  of the request list, the derived container of a block, and the \<open>extraData\<close> layout of
  \<open>reth_seismic_engine_types\<close> are arguments (\<open>block_wire\<close>, \<open>extra_data\<close>). Shown: decoding returns
  only blocks whose body is the one committed to, what is written is read back, and two decoded
  blocks with one digest are the same block up to an explicit hash collision.
\<close>

section \<open>Data\<close>

record exec_payload =
  ep_parent_hash :: bytes32
  ep_block_hash :: bytes32
  ep_prev_randao :: bytes32
  ep_fee_recipient :: address
  ep_block_number :: u64
  ep_gas_limit :: u64
  ep_timestamp :: u64
  ep_extra_data :: "u8 list"
  ep_transactions :: "u8 list list"
  ep_withdrawals :: "eip4895_withdrawal list"
  ep_blob_gas_used :: u64
  ep_other :: "u8 list"

record block =
  b_header :: header
  b_payload :: exec_payload
  b_execution_requests :: "u8 list list"

record block_wire =
  payload_as_ssz :: "exec_payload \<Rightarrow> u8 list"
  payload_from_ssz :: "u8 list \<Rightarrow> exec_payload option"
  requests_as_ssz :: "u8 list list \<Rightarrow> u8 list"
  requests_from_ssz :: "u8 list \<Rightarrow> u8 list list option"
  block_container :: "u8 list \<Rightarrow> u8 list \<Rightarrow> u8 list \<Rightarrow> u8 list"
  block_fields :: "u8 list \<Rightarrow> (u8 list \<times> u8 list \<times> u8 list) option"
  default_payload :: exec_payload

record extra_data =
  header_timestamp_millis :: "u64 \<Rightarrow> u8 list \<Rightarrow> string + u64"
  split_timestamp_millis :: "u64 \<Rightarrow> u64 \<times> u64"
  builder_extra_data :: "u8 list \<Rightarrow> u8 list"
  encode_extra_data :: "u64 \<Rightarrow> u8 list \<Rightarrow> string + u8 list"

section \<open>Operations\<close>

definition payload_timestamp_millis :: "extra_data \<Rightarrow> exec_payload \<Rightarrow> string + u64" where
  "payload_timestamp_millis x p = header_timestamp_millis x (ep_timestamp p) (ep_extra_data p)"

definition payload_with_timestamp_millis :: "extra_data \<Rightarrow> exec_payload \<Rightarrow> u64 \<Rightarrow> exec_payload option" where
  "payload_with_timestamp_millis x p timestamp_millis =
     (let (timestamp, part) = split_timestamp_millis x timestamp_millis
      in case encode_extra_data x part (builder_extra_data x (ep_extra_data p)) of
           Inl _ \<Rightarrow> None
         | Inr bytes \<Rightarrow> Some (p\<lparr>ep_timestamp := timestamp, ep_extra_data := bytes\<rparr>))"

definition block_digest :: "crypto \<Rightarrow> wire \<Rightarrow> block \<Rightarrow> digest" where
  "block_digest c w b = get_digest c w (b_header b)"

definition eth_block_hash :: "crypto \<Rightarrow> wire \<Rightarrow> block \<Rightarrow> bytes32" where
  "eth_block_hash c w b =
     (if h_height (b_header b) = 0 then get_digest c w (b_header b) else ep_block_hash (b_payload b))"

definition eth_parent_hash :: "block \<Rightarrow> bytes32" where
  "eth_parent_hash b = ep_parent_hash (b_payload b)"

definition execution_request_hash_of :: "crypto \<Rightarrow> block_wire \<Rightarrow> u8 list list \<Rightarrow> digest" where
  "execution_request_hash_of c bw rs = (if rs \<noteq> [] then sha256 c (requests_as_ssz bw rs) else 0)"

definition compute_digest ::
  "crypto \<Rightarrow> block_wire \<Rightarrow> digest \<Rightarrow> u64 \<Rightarrow> u64 \<Rightarrow> exec_payload \<Rightarrow> u8 list list \<Rightarrow> u64 \<Rightarrow> u64
     \<Rightarrow> digest option \<Rightarrow> digest \<Rightarrow> added_validator list \<Rightarrow> node_key list \<Rightarrow> bytes32 \<Rightarrow> block" where
  "compute_digest c bw parent height timestamp payload execution_requests epoch view checkpoint_hash
     prev_epoch_header_hash added_validators removed_validators parent_beacon_block_root =
     \<lparr>b_header = header_new parent height timestamp epoch view (sha256 c (payload_as_ssz bw payload))
        (execution_request_hash_of c bw execution_requests)
        (case checkpoint_hash of Some h \<Rightarrow> h | None \<Rightarrow> 0)
        prev_epoch_header_hash added_validators removed_validators parent_beacon_block_root,
      b_payload = payload, b_execution_requests = execution_requests\<rparr>"

datatype body_error = PayloadHashMismatch | ExecutionRequestHashMismatch

definition new_with_verify ::
  "crypto \<Rightarrow> block_wire \<Rightarrow> header \<Rightarrow> exec_payload \<Rightarrow> u8 list list \<Rightarrow> body_error + block" where
  "new_with_verify c bw h payload execution_requests =
     (if sha256 c (payload_as_ssz bw payload) \<noteq> h_payload_hash h then Inl PayloadHashMismatch
      else if execution_request_hash_of c bw execution_requests \<noteq> h_execution_request_hash h
           then Inl ExecutionRequestHashMismatch
      else Inr \<lparr>b_header = h, b_payload = payload, b_execution_requests = execution_requests\<rparr>)"

definition genesis_block :: "crypto \<Rightarrow> block_wire \<Rightarrow> bytes32 \<Rightarrow> block" where
  "genesis_block c bw genesis_hash =
     \<lparr>b_header = header_new_with_digest genesis_hash 0 0 0 1
        (sha256 c (payload_as_ssz bw (default_payload bw))) 0 0 0 [] [] 0 genesis_hash,
      b_payload = default_payload bw, b_execution_requests = []\<rparr>"

definition block_as_ssz :: "wire \<Rightarrow> block_wire \<Rightarrow> block \<Rightarrow> u8 list" where
  "block_as_ssz w bw b =
     block_container bw (header_as_ssz w (b_header b)) (payload_as_ssz bw (b_payload b))
       (requests_as_ssz bw (b_execution_requests b))"

datatype block_decode_error = Container_Malformed | Field_Malformed | Body_Unbound body_error

definition block_from_ssz_bytes :: "crypto \<Rightarrow> wire \<Rightarrow> block_wire \<Rightarrow> u8 list \<Rightarrow> block_decode_error + block" where
  "block_from_ssz_bytes c w bw bytes =
     (case block_fields bw bytes of
        None \<Rightarrow> Inl Container_Malformed
      | Some (hb, pb, rb) \<Rightarrow>
          (case header_from_ssz w hb of None \<Rightarrow> Inl Field_Malformed | Some h \<Rightarrow>
          (case payload_from_ssz bw pb of None \<Rightarrow> Inl Field_Malformed | Some payload \<Rightarrow>
          (case requests_from_ssz bw rb of None \<Rightarrow> Inl Field_Malformed | Some requests \<Rightarrow>
          (case new_with_verify c bw h payload requests of
             Inl e \<Rightarrow> Inl (Body_Unbound e)
           | Inr b \<Rightarrow> Inr b)))))"

definition block_encode_size :: "wire \<Rightarrow> block_wire \<Rightarrow> block \<Rightarrow> nat" where
  "block_encode_size w bw b = length (block_as_ssz w bw b) + BYTES_PER_LENGTH_OFFSET"

definition block_write :: "wire \<Rightarrow> block_wire \<Rightarrow> block \<Rightarrow> u8 list" where
  "block_write w bw b = prefixed (block_as_ssz w bw b)"

text \<open>The decoder reads from the contiguous chunk when it is long enough and from a copy
  otherwise; both see the same bytes.\<close>

definition block_read :: "crypto \<Rightarrow> wire \<Rightarrow> block_wire \<Rightarrow> block reader" where
  "block_read c w bw =
     rbind get_be (\<lambda>len :: u32.
     rbind (at_least (unat len) (Invalid ''Block'' ''improper encoded length'')) (\<lambda>_.
     rbind (take_bytes (unat len)) (\<lambda>payload.
     case block_from_ssz_bytes c w bw payload of
       Inl _ \<Rightarrow> fail (Invalid ''Block'' ''Unable to decode bytes for block'')
     | Inr b \<Rightarrow> ret b)))"

section \<open>What the libraries promise\<close>

definition block_wire_ok :: "block_wire \<Rightarrow> bool" where
  "block_wire_ok bw \<longleftrightarrow>
     (\<forall>p. length (payload_as_ssz bw p) < 2 ^ 32 \<longrightarrow> payload_from_ssz bw (payload_as_ssz bw p) = Some p) \<and>
     (\<forall>rs. length (requests_as_ssz bw rs) < 2 ^ 32 \<longrightarrow> requests_from_ssz bw (requests_as_ssz bw rs) = Some rs) \<and>
     (\<forall>a b d. length (block_container bw a b d) = 12 + length a + length b + length d) \<and>
     (\<forall>a b d. 12 + length a + length b + length d < 2 ^ 32 \<longrightarrow>
        block_fields bw (block_container bw a b d) = Some (a, b, d))"

lemma bw_payload:
    "block_wire_ok bw \<Longrightarrow> length (payload_as_ssz bw p) < 2 ^ 32 \<Longrightarrow>
       payload_from_ssz bw (payload_as_ssz bw p) = Some p"
  and bw_requests:
    "block_wire_ok bw \<Longrightarrow> length (requests_as_ssz bw rs) < 2 ^ 32 \<Longrightarrow>
       requests_from_ssz bw (requests_as_ssz bw rs) = Some rs"
  and bw_length: "block_wire_ok bw \<Longrightarrow> length (block_container bw a b d) = 12 + length a + length b + length d"
  and bw_fields:
    "block_wire_ok bw \<Longrightarrow> 12 + length a + length b + length d < 2 ^ 32 \<Longrightarrow>
       block_fields bw (block_container bw a b d) = Some (a, b, d)"
  unfolding block_wire_ok_def by blast+

text \<open>A block that fits its length prefix, with a header whose keys decode and the body that
  the header commits to.\<close>

definition block_ok :: "crypto \<Rightarrow> wire \<Rightarrow> block_wire \<Rightarrow> block \<Rightarrow> bool" where
  "block_ok c w bw b \<longleftrightarrow>
     header_keys_ok c (b_header b) \<and> length (block_as_ssz w bw b) < 2 ^ 32
     \<and> new_with_verify c bw (b_header b) (b_payload b) (b_execution_requests b) = Inr b"

definition without_cache :: "block \<Rightarrow> block" where
  "without_cache b = b\<lparr>b_header := (b_header b)\<lparr>h_digest := None\<rparr>\<rparr>"

lemma new_with_verify_Inr:
  "new_with_verify c bw h p rs = Inr b \<longleftrightarrow>
     b = \<lparr>b_header = h, b_payload = p, b_execution_requests = rs\<rparr>
     \<and> sha256 c (payload_as_ssz bw p) = h_payload_hash h
     \<and> execution_request_hash_of c bw rs = h_execution_request_hash h"
  by (auto simp: new_with_verify_def)

lemma compute_digest_verifies:
  assumes "b = compute_digest c bw parent height ts p rs e v ck prev added removed root"
  shows "new_with_verify c bw (b_header b) (b_payload b) (b_execution_requests b) = Inr b"
  using assms by (simp add: compute_digest_def new_with_verify_Inr header_new_def)

lemma block_decoded:
  assumes "block_read c w bw buf = Inr (b, rest)"
  shows "new_with_verify c bw (b_header b) (b_payload b) (b_execution_requests b) = Inr b"
proof -
  obtain bs where "block_from_ssz_bytes c w bw bs = Inr b"
    using assms by (auto simp: block_read_def reader_Inr case_sum_fail_Inr)
  then show ?thesis
    by (auto simp: block_from_ssz_bytes_def new_with_verify_Inr split: option.splits sum.splits)
qed

lemma block_sizes:
  assumes "block_wire_ok bw" "length (block_as_ssz w bw b) < 2 ^ 32"
  shows "12 + length (header_as_ssz w (b_header b)) + length (payload_as_ssz bw (b_payload b))
    + length (requests_as_ssz bw (b_execution_requests b)) < 2 ^ 32"
    "length (header_as_ssz w (b_header b)) < 2 ^ 32" "length (payload_as_ssz bw (b_payload b)) < 2 ^ 32"
    "length (requests_as_ssz bw (b_execution_requests b)) < 2 ^ 32"
  using assms by (simp_all add: block_as_ssz_def bw_length)

lemma block_reads:
  assumes w: "wire_ok c w" and bw: "block_wire_ok bw" and ok: "block_ok c w bw b"
  shows "reads (block_read c w bw) (without_cache b) (block_write w bw b)"
proof -
  have keys: "header_keys_ok c (b_header b)" and len: "length (block_as_ssz w bw b) < 2 ^ 32"
    and body: "new_with_verify c bw (b_header b) (b_payload b) (b_execution_requests b) = Inr b"
    using ok by (simp_all add: block_ok_def)
  note sizes = block_sizes [OF bw len]
  have "new_with_verify c bw ((b_header b)\<lparr>h_digest := None\<rparr>) (b_payload b) (b_execution_requests b)
      = Inr (without_cache b)"
    using body by (simp add: new_with_verify_Inr without_cache_def)
  then have "block_from_ssz_bytes c w bw (block_as_ssz w bw b) = Inr (without_cache b)"
    by (simp add: block_from_ssz_bytes_def block_as_ssz_def bw_fields [OF bw sizes(1)]
        wire_header [OF w keys sizes(2)] bw_payload [OF bw sizes(3)] bw_requests [OF bw sizes(4)])
  then show ?thesis
    by (simp add: reads_def block_read_def block_write_def prefixed_reads [OF len] ret_def)
qed

interpretation block_codec: codec "block_write w bw" "block_read c w bw"
  "\<lambda>b. wire_ok c w \<and> block_wire_ok bw \<and> block_ok c w bw b \<and> h_digest (b_header b) = None" for c w bw
proof
  fix b
  assume *: "wire_ok c w \<and> block_wire_ok bw \<and> block_ok c w bw b \<and> h_digest (b_header b) = None"
  then have "without_cache b = b" by (cases b, cases "b_header b") (simp add: without_cache_def)
  then show "reads (block_read c w bw) b (block_write w bw b)" using block_reads [of c w bw b] * by simp
qed

section \<open>Binding\<close>

definition collides :: "crypto \<Rightarrow> u8 list \<Rightarrow> u8 list \<Rightarrow> bool" where
  "collides c x y \<longleftrightarrow> x \<noteq> y \<and> sha256 c x = sha256 c y"

text \<open>The three hashed parts of a block: its header with the length prefix, its payload and its
  requests.\<close>

definition hashed_parts :: "wire \<Rightarrow> block_wire \<Rightarrow> block \<Rightarrow> u8 list list" where
  "hashed_parts w bw b =
     [header_write w (b_header b), payload_as_ssz bw (b_payload b), requests_as_ssz bw (b_execution_requests b)]"

lemma header_write_inj:
  assumes w: "wire_ok c w" and "header_keys_ok c h" "header_keys_ok c k"
    and "length (header_as_ssz w h) < 2 ^ 32" "length (header_as_ssz w k) < 2 ^ 32"
    and "header_write w h = header_write w k"
  shows "h\<lparr>h_digest := None\<rparr> = k\<lparr>h_digest := None\<rparr>"
  using readsD [OF header_reads [OF w assms(2,4)], of "[]"] readsD [OF header_reads [OF w assms(3,5)], of "[]"]
    assms(6) by simp

lemma payload_inj:
  assumes "block_wire_ok bw" "length (payload_as_ssz bw p) < 2 ^ 32" "payload_as_ssz bw p = payload_as_ssz bw q"
  shows "p = q"
  using bw_payload [OF assms(1,2)] bw_payload [OF assms(1), of q] assms(2,3) by simp

lemma requests_inj:
  assumes "block_wire_ok bw" "length (requests_as_ssz bw p) < 2 ^ 32" "requests_as_ssz bw p = requests_as_ssz bw q"
  shows "p = q"
  using bw_requests [OF assms(1,2)] bw_requests [OF assms(1), of q] assms(2,3) by simp

lemma request_hash_binds:
  assumes "block_wire_ok bw" "length (requests_as_ssz bw p) < 2 ^ 32"
    "execution_request_hash_of c bw p = execution_request_hash_of c bw q"
  shows "p = q \<or> collides c (requests_as_ssz bw p) (requests_as_ssz bw q)
    \<or> sha256 c (requests_as_ssz bw p) = 0 \<or> sha256 c (requests_as_ssz bw q) = 0"
  using requests_inj [OF assms(1,2), of q] assms(3)
  by (auto simp: execution_request_hash_of_def collides_def split: if_splits)

section \<open>An instance of the libraries\<close>

definition demo_withdrawal_bytes :: "eip4895_withdrawal \<Rightarrow> u8 list" where
  "demo_withdrawal_bytes x =
     to_be_bytes (w_index x) @ to_be_bytes (w_validator_index x) @ to_be_bytes (w_address x) @ to_be_bytes (w_amount x)"

definition demo_withdrawal_read :: "eip4895_withdrawal reader" where
  "demo_withdrawal_read =
     rbind get_be (\<lambda>i. rbind get_be (\<lambda>v. rbind get_be (\<lambda>a. rbind get_be (\<lambda>m.
     ret \<lparr>w_index = i, w_validator_index = v, w_address = a, w_amount = m\<rparr>))))"

interpretation demo_wd: codec demo_withdrawal_bytes demo_withdrawal_read "\<lambda>x. True"
  by standard (simp add: reads_def demo_withdrawal_bytes_def demo_withdrawal_read_def codec_reads)

interpretation demo_byte: codec "to_be_bytes :: u8 \<Rightarrow> u8 list" get_be "\<lambda>x. True"
  by standard (simp add: reads_get_be)

definition demo_blob :: "u8 list \<Rightarrow> u8 list" where "demo_blob = demo_list to_be_bytes"
definition demo_blob_read :: "u8 list reader" where "demo_blob_read = demo_list_read get_be"

lemma demo_blob_reads: "length xs < 2 ^ 32 \<Longrightarrow> reads demo_blob_read xs (demo_blob xs)"
  unfolding demo_blob_def demo_blob_read_def
  by (rule demo_list_reads [OF demo_byte.read_many_written]) (simp_all add: list.pred_True)

interpretation demo_blobs: codec demo_blob demo_blob_read "\<lambda>xs. length xs < 2 ^ 32"
  by standard (rule demo_blob_reads)

definition demo_payload_bytes :: "exec_payload \<Rightarrow> u8 list" where
  "demo_payload_bytes p =
     to_be_bytes (ep_parent_hash p) @ to_be_bytes (ep_block_hash p) @ to_be_bytes (ep_prev_randao p)
       @ to_be_bytes (ep_fee_recipient p) @ to_be_bytes (ep_block_number p) @ to_be_bytes (ep_gas_limit p)
       @ to_be_bytes (ep_timestamp p) @ demo_blob (ep_extra_data p) @ demo_list demo_blob (ep_transactions p)
       @ demo_list demo_withdrawal_bytes (ep_withdrawals p) @ to_be_bytes (ep_blob_gas_used p)
       @ demo_blob (ep_other p)"

definition demo_payload_read :: "exec_payload reader" where
  "demo_payload_read =
     rbind get_be (\<lambda>parent. rbind get_be (\<lambda>hash. rbind get_be (\<lambda>randao. rbind get_be (\<lambda>fee.
     rbind get_be (\<lambda>number. rbind get_be (\<lambda>gas. rbind get_be (\<lambda>ts. rbind demo_blob_read (\<lambda>extra.
     rbind (demo_list_read demo_blob_read) (\<lambda>txs. rbind (demo_list_read demo_withdrawal_read) (\<lambda>ws.
     rbind get_be (\<lambda>blob. rbind demo_blob_read (\<lambda>other.
     ret \<lparr>ep_parent_hash = parent, ep_block_hash = hash, ep_prev_randao = randao, ep_fee_recipient = fee,
       ep_block_number = number, ep_gas_limit = gas, ep_timestamp = ts, ep_extra_data = extra,
       ep_transactions = txs, ep_withdrawals = ws, ep_blob_gas_used = blob, ep_other = other\<rparr>))))))))))))"

lemma length_demo_blob: "length xs < length (demo_blob xs)"
  using length_concat_written [of "to_be_bytes :: u8 \<Rightarrow> u8 list" xs]
  by (simp add: demo_blob_def demo_list_def)

lemma demo_blobs_sizes:
  assumes "length (demo_list demo_blob xs) < n"
  shows "length xs < n" "\<forall>x\<in>set xs. length x < n"
proof -
  have "0 < length (demo_blob x)" for x using length_demo_blob [of x] by linarith
  then have "length xs \<le> length (concat (map demo_blob xs))" by (rule length_concat_written)
  then show "length xs < n" using assms by (simp add: demo_list_def)
  show "\<forall>x\<in>set xs. length x < n"
  proof
    fix x assume "x \<in> set xs"
    then have "length (demo_blob x) \<le> length (concat (map demo_blob xs))"
      by (induction xs) auto
    with length_demo_blob [of x] assms show "length x < n" by (simp add: demo_list_def)
  qed
qed

lemma demo_blob_list_reads:
  assumes "length (demo_list demo_blob xs) < 2 ^ 32"
  shows "reads (demo_list_read demo_blob_read) xs (demo_list demo_blob xs)"
  by (rule demo_list_reads [OF demo_blobs.read_many_written])
    (use demo_blobs_sizes [OF assms] in \<open>simp_all add: list_all_iff\<close>)

lemma demo_payload_reads:
  assumes "length (demo_payload_bytes p) < 2 ^ 32"
  shows "reads demo_payload_read p (demo_payload_bytes p)"
proof -
  have "length (ep_withdrawals p) \<le> length (concat (map demo_withdrawal_bytes (ep_withdrawals p)))"
    by (rule length_concat_written) (simp add: demo_withdrawal_bytes_def)
  then have sizes: "length (ep_withdrawals p) < 2 ^ 32" "length (demo_list demo_blob (ep_transactions p)) < 2 ^ 32"
    "length (ep_extra_data p) < 2 ^ 32" "length (ep_other p) < 2 ^ 32"
    using assms length_demo_blob [of "ep_extra_data p"] length_demo_blob [of "ep_other p"]
    by (simp_all add: demo_payload_bytes_def demo_list_def [of demo_withdrawal_bytes])
  note fields = reads_rbind [OF demo_list_reads [OF demo_wd.read_many_written sizes(1)]]
    reads_rbind [OF demo_blob_list_reads [OF sizes(2)]] reads_rbind [OF demo_blob_reads [OF sizes(3)]]
    reads_rbind [OF demo_blob_reads [OF sizes(4)]]
  show ?thesis
    by (simp add: reads_def demo_payload_bytes_def demo_payload_read_def codec_reads fields list.pred_True)
qed

definition demo_block_container :: "u8 list \<Rightarrow> u8 list \<Rightarrow> u8 list \<Rightarrow> u8 list" where
  "demo_block_container a b d =
     to_be_bytes (word_of_nat (length a) :: u32) @ to_be_bytes (word_of_nat (length b) :: u32)
       @ replicate 4 0 @ a @ b @ d"

definition demo_block_fields :: "u8 list \<Rightarrow> (u8 list \<times> u8 list \<times> u8 list) option" where
  "demo_block_fields bs =
     (let n = unat (from_be_bytes (take 4 bs) :: u32); k = unat (from_be_bytes (take 4 (drop 4 bs)) :: u32)
      in Some (take n (drop 12 bs), take k (drop (12 + n) bs), drop (12 + n + k) bs))"

definition demo_payload :: exec_payload where
  "demo_payload = \<lparr>ep_parent_hash = 0, ep_block_hash = 7, ep_prev_randao = 0, ep_fee_recipient = 0,
     ep_block_number = 0, ep_gas_limit = 0, ep_timestamp = 0, ep_extra_data = [], ep_transactions = [],
     ep_withdrawals = [], ep_blob_gas_used = 0, ep_other = []\<rparr>"

definition demo_block_wire :: block_wire where
  "demo_block_wire = \<lparr>
     payload_as_ssz = demo_payload_bytes,
     payload_from_ssz = (\<lambda>bs. case decode demo_payload_read bs of Inl _ \<Rightarrow> None | Inr p \<Rightarrow> Some p),
     requests_as_ssz = demo_list demo_blob,
     requests_from_ssz = (\<lambda>bs. case decode (demo_list_read demo_blob_read) bs of Inl _ \<Rightarrow> None | Inr p \<Rightarrow> Some p),
     block_container = demo_block_container, block_fields = demo_block_fields,
     default_payload = demo_payload \<rparr>"

lemma demo_block_wire_ok: "block_wire_ok demo_block_wire"
proof -
  have "demo_block_fields (demo_block_container a b d) = Some (a, b, d)"
    if "12 + length a + length b + length d < 2 ^ 32" for a b d
  proof -
    have "unat (word_of_nat (length a) :: u32) = length a" "unat (word_of_nat (length b) :: u32) = length b"
      by (rule unat_word_of_nat; use that in simp)+
    then show ?thesis by (simp add: demo_block_fields_def demo_block_container_def from_to_be_bytes Let_def)
  qed
  then show ?thesis
    by (simp add: block_wire_ok_def demo_block_wire_def reads_decode [OF demo_payload_reads]
        reads_decode [OF demo_blob_list_reads] demo_block_container_def)
qed

definition demo_block :: block where
  "demo_block = compute_digest demo_crypto demo_block_wire 0 1 0 demo_payload [[1, 2]] 0 1 None 0 [] [] 0"

section \<open>The codec of blocks\<close>

text \<open>C30. Blocks on the wire. Whatever bytes are decoded, the body of an accepted block is the
  one its header commits to; a block built by the proposer's constructor passes that check; a
  well-formed block is read back from the front of any buffer (with an empty digest cache, which
  equality ignores) in the announced number of bytes; and two accepted blocks with one digest have
  equal headers, payloads and requests, unless two different parts of them collide under SHA-256
  or one of their request lists hashes to zero.\<close>

theorem block_codec_binds:
  assumes w: "wire_ok c w" and bw: "block_wire_ok bw"
  shows "(\<forall>buf b rest. block_read c w bw buf = Inr (b, rest) \<longrightarrow>
            new_with_verify c bw (b_header b) (b_payload b) (b_execution_requests b) = Inr b)
    \<and> (\<forall>parent height ts p rs e v ck prev added removed root b.
         b = compute_digest c bw parent height ts p rs e v ck prev added removed root \<longrightarrow>
         new_with_verify c bw (b_header b) (b_payload b) (b_execution_requests b) = Inr b)
    \<and> (\<forall>b rest. block_ok c w bw b \<longrightarrow>
         block_read c w bw (block_write w bw b @ rest) = Inr (without_cache b, rest)
         \<and> header_eq (b_header (without_cache b)) (b_header b)
         \<and> length (block_write w bw b) = block_encode_size w bw b)
    \<and> (\<forall>b b'. block_ok c w bw b \<longrightarrow> block_ok c w bw b' \<longrightarrow>
         computed_digest c w (b_header b) = computed_digest c w (b_header b') \<longrightarrow>
         without_cache b = without_cache b'
         \<or> (\<exists>x\<in>set (hashed_parts w bw b). \<exists>y\<in>set (hashed_parts w bw b'). collides c x y)
         \<or> sha256 c (requests_as_ssz bw (b_execution_requests b)) = 0
         \<or> sha256 c (requests_as_ssz bw (b_execution_requests b')) = 0)"
proof (intro conjI allI impI)
  fix b b'
  assume b: "block_ok c w bw b" and b': "block_ok c w bw b'"
    and eq: "computed_digest c w (b_header b) = computed_digest c w (b_header b')"
  let ?collision = "\<exists>x\<in>set (hashed_parts w bw b). \<exists>y\<in>set (hashed_parts w bw b'). collides c x y"
  let ?zero = "sha256 c (requests_as_ssz bw (b_execution_requests b)) = 0
    \<or> sha256 c (requests_as_ssz bw (b_execution_requests b')) = 0"
  note sizes = block_sizes [OF bw, of w b] and sizes' = block_sizes [OF bw, of w b']
  show "without_cache b = without_cache b' \<or> ?collision \<or> ?zero"
  proof (cases "?collision \<or> ?zero")
    case False
    then have nc: "\<And>x y. x \<in> set (hashed_parts w bw b) \<Longrightarrow> y \<in> set (hashed_parts w bw b') \<Longrightarrow> \<not> collides c x y"
      by blast
    have "header_write w (b_header b) = header_write w (b_header b')"
      using nc [of "header_write w (b_header b)" "header_write w (b_header b')"] eq
      by (simp add: hashed_parts_def collides_def computed_digest_def)
    then have h: "(b_header b)\<lparr>h_digest := None\<rparr> = (b_header b')\<lparr>h_digest := None\<rparr>"
      using header_write_inj [OF w, of "b_header b" "b_header b'"] b b' sizes(2) sizes'(2)
      by (simp add: block_ok_def)
    have hashes: "sha256 c (payload_as_ssz bw (b_payload b)) = sha256 c (payload_as_ssz bw (b_payload b'))"
      "execution_request_hash_of c bw (b_execution_requests b) = execution_request_hash_of c bw (b_execution_requests b')"
      using b b' arg_cong [OF h, of h_payload_hash] arg_cong [OF h, of h_execution_request_hash]
      by (auto simp: block_ok_def new_with_verify_Inr)
    have p: "b_payload b = b_payload b'"
      using payload_inj [OF bw, of "b_payload b" "b_payload b'"] hashes(1) sizes(3) b
        nc [of "payload_as_ssz bw (b_payload b)" "payload_as_ssz bw (b_payload b')"]
      by (simp add: hashed_parts_def collides_def block_ok_def)
    have r: "b_execution_requests b = b_execution_requests b'"
      using request_hash_binds [OF bw _ hashes(2)] sizes(4) b False
        nc [of "requests_as_ssz bw (b_execution_requests b)" "requests_as_ssz bw (b_execution_requests b')"]
      by (simp add: hashed_parts_def block_ok_def)
    show ?thesis using h p r by (simp add: without_cache_def)
  qed simp
next
  fix b rest assume b: "block_ok c w bw b"
  show "block_read c w bw (block_write w bw b @ rest) = Inr (without_cache b, rest)"
    by (rule readsD [OF block_reads [OF w bw b]])
qed (auto simp: block_decoded compute_digest_verifies header_eq_def
    without_cache_def block_write_def prefixed_def block_encode_size_def BYTES_PER_LENGTH_OFFSET_def)

theorem block_codec_binds_witness:
  "block_read demo_crypto demo_wire demo_block_wire (block_write demo_wire demo_block_wire demo_block)
     = Inr (without_cache demo_block, [])"
proof -
  have "header_keys_ok demo_crypto (b_header demo_block)"
    by (simp add: header_keys_ok_def demo_block_def compute_digest_def header_new_def)
  moreover have "length (block_as_ssz demo_wire demo_block_wire demo_block) < 2 ^ 32"
    by (simp add: demo_block_def compute_digest_def header_new_def block_as_ssz_def demo_block_wire_def
        demo_block_container_def demo_wire_def demo_header_bytes_def demo_payload_bytes_def demo_payload_def
        demo_list_def demo_blob_def)
  ultimately have "block_ok demo_crypto demo_wire demo_block_wire demo_block"
    by (simp add: block_ok_def compute_digest_verifies [OF demo_block_def])
  then have "block_read demo_crypto demo_wire demo_block_wire (block_write demo_wire demo_block_wire demo_block @ [])
      = Inr (without_cache demo_block, [])"
    using block_codec_binds [of demo_crypto demo_wire demo_block_wire] demo_wire_ok demo_block_wire_ok by blast
  then show ?thesis by simp
qed

end
