(* ===== verification/Block_Execution.thy ===== *)
theory Block_Execution
  imports Consensus_Codec Lifecycle_Simulation Block
begin

text \<open>
  Block execution of \<open>finalizer/src/actor.rs\<close>: the gates in front of a state change
  (\<open>commit_forkchoice\<close>, \<open>execute_block\<close>), the state change itself (\<open>process_execution_requests\<close> and
  the rest of \<open>execute_block\<close>) and the epoch boundary of \<open>handle_finalized_block\<close>. The execution
  client is a service: it is the record \<open>engine\<close> of its two calls on a state of its own, and may
  answer anything. Shown: a state is changed only after every gate has passed, whatever the client
  answers; execution cannot reach the assertion on the payouts; and execution and the boundary keep
  the state tree equal to a rebuild.
\<close>

section \<open>The execution client\<close>

text \<open>\<open>INVALID\<close> and \<open>ACCEPTED\<close> are the statuses that are neither \<open>VALID\<close> nor \<open>SYNCING\<close>.\<close>

datatype payload_status = VALID | INVALID | SYNCING | ACCEPTED

type_synonym engine_error = string

record 'e engine =
  check_payload :: "'e \<Rightarrow> block \<Rightarrow> (engine_error + payload_status) \<times> 'e"
  commit_hash :: "'e \<Rightarrow> forkchoice_state \<Rightarrow> (engine_error + payload_status) \<times> 'e"

datatype execute_outcome = Applied | InvalidPayload | Syncing

definition commit_forkchoice ::
  "'e engine \<Rightarrow> forkchoice_state \<Rightarrow> 'e \<Rightarrow> (engine_error + execute_outcome) \<times> 'e" where
  "commit_forkchoice en fc es =
     (case commit_hash en es fc of
        (Inl e, es1) \<Rightarrow> (Inl e, es1)
      | (Inr status, es1) \<Rightarrow>
          (Inr (if status = SYNCING then Syncing else if status \<noteq> VALID then InvalidPayload else Applied), es1))"

section \<open>Executing a block\<close>

record protocol_consts =
  validator_num_warm_up_epochs :: u64
  validator_withdrawal_num_epochs :: u64

abbreviation penultimate :: "consensus_state \<Rightarrow> u64 \<Rightarrow> bool" where
  "penultimate s h \<equiv> is_penultimate_block_of_epoch (containing (cs_epocher s)) h"

abbreviation terminal :: "consensus_state \<Rightarrow> u64 \<Rightarrow> bool" where
  "terminal s h \<equiv> is_last_block_of_epoch (containing (cs_epocher s)) h"

definition process_execution_requests ::
  "crypto \<Rightarrow> protocol_consts \<Rightarrow> digest \<Rightarrow> block \<Rightarrow> u64 \<Rightarrow> consensus_state \<Rightarrow> consensus_state option" where
  "process_execution_requests c consts domain b new_height s =
     (let s1 = (if penultimate s new_height
                then enforce_minimum_stake c (process_buffered_requests c domain
                       (validator_num_warm_up_epochs consts) (validator_withdrawal_num_epochs consts) s)
                else s)
      in if terminal s1 new_height
         then apply_withdrawal_payouts c (cs_epoch s1) (ep_withdrawals (b_payload b)) s1
         else Some s1)"

text \<open>What \<open>execute_block\<close> does to the state once the client has adopted the block; \<open>None\<close> is a
  panic.\<close>

definition apply_block ::
  "crypto \<Rightarrow> wire \<Rightarrow> protocol_consts \<Rightarrow> digest \<Rightarrow> block \<Rightarrow> consensus_state \<Rightarrow> consensus_state option" where
  "apply_block c w consts domain b s =
     (let new_height = h_height (b_header b);
          s1 = set_forkchoice_head c (eth_block_hash c w b) s;
          s2 = buffer_execution_requests c (b_execution_requests b) s1
      in case process_execution_requests c consts domain b new_height s2 of
           None \<Rightarrow> None
         | Some s3 \<Rightarrow>
             let s4 = set_head_digest c (block_digest c w b)
                        (set_view c (h_view (b_header b)) (set_latest_height c new_height s3));
                 s5 = (if penultimate s4 new_height
                       then set_pending_checkpoint c (Some (checkpoint_new c w s4)) s4 else s4);
                 s6 = set_forkchoice_safe_and_finalized c (fc_head_block_hash (cs_forkchoice s5)) s5
             in Some (capture_state_root c w (ep_block_number (b_payload b)) s6))"

definition expected_withdrawals :: "block \<Rightarrow> consensus_state \<Rightarrow> eip4895_withdrawal list" where
  "expected_withdrawals b s =
     (if terminal s (h_height (b_header b)) then emit_withdrawal_payouts (cs_epoch s) s else [])"

text \<open>The block's forkchoice: \<open>fork_finalized\<close> is the canonical finalized hash on a fork, and
  absent on the canonical path.\<close>

definition block_forkchoice :: "crypto \<Rightarrow> wire \<Rightarrow> block \<Rightarrow> bytes32 option \<Rightarrow> forkchoice_state" where
  "block_forkchoice c w b fork_finalized =
     (let eth_hash = eth_block_hash c w b;
          safe_finalized = (case fork_finalized of Some finalized \<Rightarrow> finalized | None \<Rightarrow> eth_hash)
      in \<lparr>fc_head_block_hash = eth_hash, fc_safe_block_hash = safe_finalized,
          fc_finalized_block_hash = safe_finalized\<rparr>)"

definition execute_block ::
  "crypto \<Rightarrow> wire \<Rightarrow> 'e engine \<Rightarrow> protocol_consts \<Rightarrow> digest \<Rightarrow> block \<Rightarrow> bytes32 option \<Rightarrow> 'e \<Rightarrow> consensus_state
     \<Rightarrow> ((engine_error + execute_outcome) \<times> 'e \<times> consensus_state) option" where
  "execute_block c w en consts domain b fork_finalized es s =
     (if h_epoch (b_header b) \<noteq> cs_epoch s then Some (Inr InvalidPayload, es, s)
      else case check_payload en es b of
        (Inl e, es1) \<Rightarrow> Some (Inl e, es1, s)
      | (Inr payload_status, es1) \<Rightarrow>
          if payload_status = SYNCING then Some (Inr Syncing, es1, s)
          else if payload_status \<noteq> VALID then Some (Inr InvalidPayload, es1, s)
          else if ep_withdrawals (b_payload b) \<noteq> expected_withdrawals b s then Some (Inr InvalidPayload, es1, s)
          else case commit_forkchoice en (block_forkchoice c w b fork_finalized) es1 of
            (Inl e, es2) \<Rightarrow> Some (Inl e, es2, s)
          | (Inr Applied, es2) \<Rightarrow>
              (case apply_block c w consts domain b s of
                 None \<Rightarrow> None
               | Some s1 \<Rightarrow> Some (Inr Applied, es2, s1))
          | (Inr other, es2) \<Rightarrow> Some (Inr other, es2, s))"

section \<open>The epoch boundary\<close>

text \<open>The state changes of the last block of an epoch in \<open>handle_finalized_block\<close>: from the epoch
  counter to the capture of the new root, \<close>

definition enter_next_epoch :: "crypto \<Rightarrow> wire \<Rightarrow> block \<Rightarrow> consensus_state \<Rightarrow> consensus_state" where
  "enter_next_epoch c w b s =
     (let next_epoch = cs_epoch s + 1;
          s1 = set_view c 0 (set_epoch c next_epoch s);
          s2 = s1\<lparr>cs_epocher := advance_epoch next_epoch (cs_epocher s1)\<rparr>;
          s3 = set_epoch_genesis_hash c (block_digest c w b) s2;
          s4 = snd (remove_added_validators_for_epoch c next_epoch s3);
          s5 = (if cs_removed_validators s4 \<noteq> [] then clear_removed_validators c s4 else s4)
      in capture_state_root c w (ep_block_number (b_payload b)) s5)"

text \<open>and the whole boundary; the result also says whether this node left the committee, and gives
  the checkpoint to store. The parameter changes return no error.\<close>

definition cross_boundary ::
  "crypto \<Rightarrow> wire \<Rightarrow> node_key \<Rightarrow> block \<Rightarrow> consensus_state \<Rightarrow> (bool \<times> checkpoint option \<times> consensus_state) option" where
  "cross_boundary c w node_public_key b s =
     (case apply_protocol_parameter_changes c s of
        None \<Rightarrow> None
      | Some (_, s1) \<Rightarrow>
          (case apply_committee_transition c node_public_key s1 of
             None \<Rightarrow> None
           | Some (validator_exit, s2) \<Rightarrow>
               let (ck, s3) = take_pending_checkpoint c s2
               in Some (validator_exit, ck, enter_next_epoch c w b s3)))"

text \<open>The canonical state after a finalized block: execution, and at the last block of an epoch the
  boundary.\<close>

definition finalize_state ::
  "crypto \<Rightarrow> wire \<Rightarrow> node_key \<Rightarrow> block \<Rightarrow> consensus_state \<Rightarrow> (bool \<times> checkpoint option \<times> consensus_state) option" where
  "finalize_state c w node_public_key b s =
     (let s1 = set_forkchoice_safe_and_finalized c (fc_head_block_hash (cs_forkchoice s)) s
      in if terminal s1 (h_height (b_header b)) then cross_boundary c w node_public_key b s1
         else Some (False, None, s1))"

section \<open>Payouts do not depend on what execution writes first\<close>

lemma emit_loop_cong:
  "cs_validator_accounts s' = cs_validator_accounts s \<Longrightarrow> emit_loop n s' xs r = emit_loop n s xs r"
  by (induction xs arbitrary: r) (simp_all add: Let_def split: option.split)

lemma emit_cong:
  assumes "cs_validator_accounts s' = cs_validator_accounts s" "cs_withdrawal_queue s' = cs_withdrawal_queue s"
    "cs_protocol_param_changes s' = cs_protocol_param_changes s"
    "cs_validator_minimum_stake s' = cs_validator_minimum_stake s"
    "cs_max_withdrawals_per_epoch s' = cs_max_withdrawals_per_epoch s"
  shows "emit_withdrawal_payouts e s' = emit_withdrawal_payouts e s"
proof -
  have "prospective_minimum_stake s' = prospective_minimum_stake s" "due_entries s' e = due_entries s e"
    using assms by (simp_all add: prospective_minimum_stake_def due_entries_def)
  then show ?thesis by (simp add: emit_withdrawal_payouts_def emit_loop_cong [OF assms(1)])
qed

lemma not_both: "penultimate s h \<Longrightarrow> \<not> terminal s h"
  by (auto simp: is_penultimate_block_of_epoch_def is_last_block_of_epoch_def containing_def Let_def
      split: option.splits)

section \<open>The tree through a block\<close>

lemma buffer_tree_ok: "tree_ok c d w s \<Longrightarrow> tree_ok c d w (buffer_execution_requests c rs s)"
  unfolding buffer_execution_requests_def by (simp add: rebuilds_tree_ok(4))

lemma buffer_frame: "frame s0 s \<Longrightarrow> frame s0 (buffer_execution_requests c rs s)"
  unfolding buffer_execution_requests_def by (simp add: frame_primitives(7))

lemma capture_tree_ok:
  assumes "tree_ok c d wd s"
  shows "tree_ok c d wd (capture_state_root c w n s)"
proof -
  obtain ds q bs where *: "zero_hashes_ok c" "bt_ok (cs_validator_accounts s)" "\<not> d \<longrightarrow> ds = cs_deposit_queue s"
    "\<not> wd \<longrightarrow> iter_all q = iter_all (cs_withdrawal_queue s)" "in_sync c (tree_contents ds q bs s) (cs_ssz_tree s)"
    using assms by (auto simp: tree_ok_def)
  from scalar_setters_in_sync(18) [OF *(5), of "de_write (cs_epocher s)"] *(1-4) show ?thesis
    by (auto simp: tree_ok_def capture_state_root_def contents_defs Let_def)
qed

text \<open>The gate on the withdrawals makes the payouts applicable.\<close>

lemma frame_refl: "frame s s"
  by (simp add: frame_def)

lemma frame_epocher: "frame s s' \<Longrightarrow> cs_epocher s' = cs_epocher s"
  by (simp add: frame_def)

lemma process_requests_ok:
  assumes s: "tree_ok c False False s" and b: "ep_withdrawals (b_payload b) = expected_withdrawals b s"
    and h: "h = h_height (b_header b)"
  shows "\<exists>s'. process_execution_requests c consts domain b h s = Some s' \<and> tree_ok c False False s' \<and> frame s s'"
proof (cases "penultimate s h")
  case True
  define s' where "s' = enforce_minimum_stake c (process_buffered_requests c domain
    (validator_num_warm_up_epochs consts) (validator_withdrawal_num_epochs consts) s)"
  have "tree_ok c False False s \<and> frame s s" using s frame_refl by blast
  from framed.minimum_stake [OF framed.buffered [OF this]]
  have s': "tree_ok c False False s'" "frame s s'" unfolding s'_def by blast+
  have "\<not> terminal s' h" using not_both [OF True] by (simp add: frame_epocher [OF s'(2)])
  then have "process_execution_requests c consts domain b h s = Some s'"
    using True unfolding process_execution_requests_def Let_def s'_def [symmetric] by simp
  with s' show ?thesis by blast
next
  case False
  show ?thesis
  proof (cases "terminal s h")
    case True
    have "emit_withdrawal_payouts (cs_epoch s) s = ep_withdrawals (b_payload b)"
      using b h True by (simp add: expected_withdrawals_def)
    moreover have "tree_ok c False False s \<and> frame s s" using s frame_refl by blast
    ultimately obtain s' where "apply_withdrawal_payouts c (cs_epoch s) (ep_withdrawals (b_payload b)) s = Some s'"
      "tree_ok c False False s' \<and> frame s s'" using framed.payouts by blast
    with True False show ?thesis by (simp add: process_execution_requests_def)
  next
    case not_terminal: False
    with False s frame_refl show ?thesis by (simp add: process_execution_requests_def)
  qed
qed

lemmas buffered_defs = buffer_execution_requests_def set_pending_requests_def set_forkchoice_head_def on_tree_def

lemma expected_buffered:
  "expected_withdrawals b (buffer_execution_requests c rs (set_forkchoice_head c h s)) = expected_withdrawals b s"
  (is "expected_withdrawals b ?s = _")
proof -
  have "emit_withdrawal_payouts (cs_epoch s) ?s = emit_withdrawal_payouts (cs_epoch s) s"
    by (rule emit_cong) (simp_all add: buffered_defs)
  moreover have "cs_epoch ?s = cs_epoch s" "cs_epocher ?s = cs_epocher s" by (simp_all add: buffered_defs)
  ultimately show ?thesis by (simp add: expected_withdrawals_def)
qed

text \<open>What a block leaves behind.\<close>

definition positioned :: "crypto \<Rightarrow> wire \<Rightarrow> block \<Rightarrow> consensus_state \<Rightarrow> consensus_state \<Rightarrow> bool" where
  "positioned c w b s s' \<longleftrightarrow>
     cs_latest_height s' = h_height (b_header b) \<and> cs_view s' = h_view (b_header b)
   \<and> cs_head_digest s' = block_digest c w b \<and> cs_epoch s' = cs_epoch s \<and> cs_epocher s' = cs_epocher s
   \<and> cs_forkchoice s' = block_forkchoice c w b None \<and> cs_epoch_genesis_hash s' = cs_epoch_genesis_hash s"

lemma block_step_fields:
  "cs_epocher (set_head_digest c d (set_view c v (set_latest_height c h s))) = cs_epocher s"
  by (simp add: setter_defs on_tree_def)

lemma apply_block_ok:
  assumes s: "tree_ok c False False s" and b: "ep_withdrawals (b_payload b) = expected_withdrawals b s"
  shows "\<exists>s'. apply_block c w consts domain b s = Some s' \<and> tree_ok c False False s' \<and> positioned c w b s s'"
proof -
  define s2 where "s2 = buffer_execution_requests c (b_execution_requests b) (set_forkchoice_head c (eth_block_hash c w b) s)"
  let ?h = "h_height (b_header b)"
  have s2: "tree_ok c False False s2" unfolding s2_def by (intro buffer_tree_ok setters_tree_ok s)
  have "ep_withdrawals (b_payload b) = expected_withdrawals b s2"
    unfolding s2_def expected_buffered by (rule b)
  from process_requests_ok [OF s2 this refl] obtain s3
    where s3: "process_execution_requests c consts domain b ?h s2 = Some s3" "tree_ok c False False s3" "frame s2 s3"
    by blast
  define s4 where "s4 = set_head_digest c (block_digest c w b) (set_view c (h_view (b_header b)) (set_latest_height c ?h s3))"
  define s5 where "s5 = (if penultimate s4 ?h then set_pending_checkpoint c (Some (checkpoint_new c w s4)) s4 else s4)"
  define s6 where "s6 = set_forkchoice_safe_and_finalized c (fc_head_block_hash (cs_forkchoice s5)) s5"
  have eq: "apply_block c w consts domain b s = Some (capture_state_root c w (ep_block_number (b_payload b)) s6)"
    unfolding s6_def s5_def s4_def using s3(1) by (simp add: apply_block_def s2_def Let_def)
  have "tree_ok c False False s4" unfolding s4_def by (intro setters_tree_ok s3)
  then have "tree_ok c False False s6" unfolding s6_def s5_def by (simp add: setters_tree_ok forkchoice_tree_ok)
  then have tree: "tree_ok c False False (capture_state_root c w (ep_block_number (b_payload b)) s6)"
    by (rule capture_tree_ok)
  have "positioned c w b s (capture_state_root c w (ep_block_number (b_payload b)) s6)"
    using s3(3) by (simp add: positioned_def capture_state_root_def Let_def s6_def s5_def s4_def s2_def setter_defs
        on_tree_def frame_def buffer_execution_requests_def set_pending_requests_def block_forkchoice_def)
  then show ?thesis using eq tree by blast
qed

lemma epocher_tree_ok: "tree_ok c d wd s \<Longrightarrow> tree_ok c d wd (s\<lparr>cs_epocher := e\<rparr>)"
  by (simp add: tree_ok_def contents_defs)

lemma take_checkpoint_set: "snd (take_pending_checkpoint c s) = set_pending_checkpoint c None s"
  by (simp add: take_pending_checkpoint_def set_pending_checkpoint_def)

lemma enter_tree_ok:
  assumes s: "tree_ok c d wd s"
  shows "tree_ok c d wd (enter_next_epoch c w b s)"
proof -
  have removed: "tree_ok c d wd (snd (remove_added_validators_for_epoch c e t))" if "tree_ok c d wd t" for e t
    using that by (simp add: remove_added_validators_for_epoch_def rebuilds_tree_ok split: option.split)
  have cleared: "tree_ok c d wd (if b then clear_removed_validators c t else t)" if "tree_ok c d wd t" for b t
    using that by (simp add: clear_removed_validators_def rebuilds_tree_ok)
  show ?thesis
    unfolding enter_next_epoch_def Let_def
    by (intro capture_tree_ok cleared removed setters_tree_ok(17) epocher_tree_ok setters_tree_ok(1,2) s)
qed

lemma params_tree_ok:
  assumes "tree_ok c d wd s" "apply_protocol_parameter_changes c s = Some (ch, s')"
  shows "tree_ok c d wd s'"
  using assms(2) tree.reject [OF assms(1)] by (auto simp: apply_protocol_parameter_changes_def Let_def
      tree.set_params apply_params_tree_ok split: option.splits)

lemma cross_tree_ok:
  assumes s: "tree_ok c d wd s" and x: "cross_boundary c w nk b s = Some (ex, ck, s')"
  shows "tree_ok c d wd s'"
proof -
  obtain ch s1 s2 where *: "apply_protocol_parameter_changes c s = Some (ch, s1)"
    "apply_committee_transition c nk s1 = Some (ex, s2)"
    "s' = enter_next_epoch c w b (snd (take_pending_checkpoint c s2))"
    using x unfolding cross_boundary_def Let_def by (auto split: option.splits prod.splits)
  have "tree_ok c d wd s2" by (rule tree.transition [OF params_tree_ok [OF s *(1)] *(2)])
  then show ?thesis unfolding *(3) take_checkpoint_set by (intro enter_tree_ok setters_tree_ok)
qed

lemma finalize_tree_ok:
  assumes s: "tree_ok c d wd s" and f: "finalize_state c w nk b s = Some (ex, ck, s')"
  shows "tree_ok c d wd s'"
proof -
  define s1 where "s1 = set_forkchoice_safe_and_finalized c (fc_head_block_hash (cs_forkchoice s)) s"
  have s1: "tree_ok c d wd s1" unfolding s1_def by (rule forkchoice_tree_ok(2) [OF s])
  have "finalize_state c w nk b s =
      (if terminal s1 (h_height (b_header b)) then cross_boundary c w nk b s1 else Some (False, None, s1))"
    by (simp only: finalize_state_def Let_def s1_def)
  then show ?thesis using f s1 cross_tree_ok [OF s1, of w nk b ex ck s'] by (metis option.inject prod.inject)
qed

section \<open>The gates\<close>

lemma commit_forkchoice_cases:
  "fst (commit_forkchoice en fc es) = Inr Applied \<longleftrightarrow> fst (commit_hash en es fc) = Inr VALID"
  "snd (commit_forkchoice en fc es) = snd (commit_hash en es fc)"
  by (auto simp: commit_forkchoice_def split: prod.splits sum.splits)

definition gates_open :: "crypto \<Rightarrow> wire \<Rightarrow> 'e engine \<Rightarrow> block \<Rightarrow> bytes32 option \<Rightarrow> 'e \<Rightarrow> consensus_state \<Rightarrow> bool" where
  "gates_open c w en b ff es s \<longleftrightarrow>
     h_epoch (b_header b) = cs_epoch s \<and> fst (check_payload en es b) = Inr VALID
   \<and> ep_withdrawals (b_payload b) = expected_withdrawals b s
   \<and> fst (commit_hash en (snd (check_payload en es b)) (block_forkchoice c w b ff)) = Inr VALID"

lemma execute_closed:
  assumes "\<not> gates_open c w en b ff es s"
  shows "\<exists>r es'. execute_block c w en consts domain b ff es s = Some (r, es', s) \<and> r \<noteq> Inr Applied"
proof -
  have "fst (commit_forkchoice en (block_forkchoice c w b ff) es1) \<noteq> Inr Applied"
    if "check_payload en es b = (Inr VALID, es1)" "h_epoch (b_header b) = cs_epoch s"
      "ep_withdrawals (b_payload b) = expected_withdrawals b s" for es1
    using assms that by (simp add: gates_open_def commit_forkchoice_cases)
  then show ?thesis
    unfolding execute_block_def by (auto split: prod.split sum.split execute_outcome.split)
qed

lemma execute_open:
  assumes "gates_open c w en b ff es s"
  shows "execute_block c w en consts domain b ff es s =
    map_option (\<lambda>s'. (Inr Applied, snd (commit_hash en (snd (check_payload en es b)) (block_forkchoice c w b ff)), s'))
      (apply_block c w consts domain b s)"
proof -
  obtain es1 where c1: "check_payload en es b = (Inr VALID, es1)"
    using assms unfolding gates_open_def by (metis prod.collapse)
  have "fst (commit_forkchoice en (block_forkchoice c w b ff) es1) = Inr Applied"
    using assms c1 by (simp add: gates_open_def commit_forkchoice_cases)
  then have c2: "commit_forkchoice en (block_forkchoice c w b ff) es1
      = (Inr Applied, snd (commit_hash en es1 (block_forkchoice c w b ff)))"
    by (metis prod.collapse commit_forkchoice_cases(2))
  show ?thesis using assms unfolding execute_block_def gates_open_def
    by (simp add: c1 c2 split: option.split)
qed

text \<open>C29. Execution changes a state only behind its gates. Whatever the execution client answers,
  executing a block from a state in step with its tree returns, so no panic is reached; unless the
  block is of the state's epoch, the client calls both the payload and the forkchoice valid, and
  the block pays exactly the due withdrawals, the outcome is not \<open>Applied\<close> and the state is
  unchanged; and when all four hold the outcome is \<open>Applied\<close>, the new state stands at the block
  (height, view, digest, hashes of the execution block) in the same epoch, and its tree is again
  the one a rebuild gives.\<close>

theorem execution_gated:
  assumes "zero_hashes_ok c" "bt_ok (cs_validator_accounts s)" "committed c s"
  shows "\<exists>r es' s'. execute_block c w en consts domain b ff es s = Some (r, es', s')
    \<and> (r = Inr Applied \<longleftrightarrow> gates_open c w en b ff es s)
    \<and> (r \<noteq> Inr Applied \<longrightarrow> s' = s)
    \<and> (r = Inr Applied \<longrightarrow> positioned c w b s s' \<and> committed c s' \<and> bt_ok (cs_validator_accounts s'))"
proof -
  have t: "tree_ok c False False s" using assms by (simp add: tree_ok_committed)
  show ?thesis
  proof (cases "gates_open c w en b ff es s")
    case True
    then have "ep_withdrawals (b_payload b) = expected_withdrawals b s" by (simp add: gates_open_def)
    from apply_block_ok [OF t this] obtain s' where "apply_block c w consts domain b s = Some s'"
      "tree_ok c False False s'" "positioned c w b s s'" by blast
    then show ?thesis using execute_open [OF True, of "consts" domain] True by (auto simp: tree_ok_committed)
  next
    case False
    then show ?thesis using execute_closed [OF False, of "consts" domain] by blast
  qed
qed

definition demo_engine :: "nat engine" where
  "demo_engine = \<lparr>check_payload = (\<lambda>n b. (Inr VALID, n + 1)), commit_hash = (\<lambda>n fc. (Inr VALID, n + 1))\<rparr>"

definition demo_consts :: protocol_consts where
  "demo_consts = \<lparr>validator_num_warm_up_epochs = 2, validator_withdrawal_num_epochs = 2\<rparr>"

lemma demo_state_position: "cs_epoch demo_state = 0" "cs_latest_height demo_state = 0"
  "cs_withdrawal_queue demo_state = wq_default"
  by (simp_all add: demo_state_def consensus_state_default_def consensus_state_new_def rebuild_ssz_tree_def
      set_account_def on_tree_def Let_def)

lemma demo_open: "gates_open demo_crypto demo_wire demo_engine demo_block None 0 demo_state"
proof -
  have "due_entries demo_state e = []" for e
    by (simp add: due_entries_def demo_state_position wq_default_def get_for_epoch_with_total_cap_def Let_def)
  then have "expected_withdrawals demo_block demo_state = []"
    by (simp add: expected_withdrawals_def emit_withdrawal_payouts_def)
  then show ?thesis
    by (simp add: gates_open_def demo_engine_def demo_block_def compute_digest_def header_new_def demo_payload_def
        demo_state_position)
qed

theorem execution_gated_witness:
  "\<exists>es' s'. execute_block demo_crypto demo_wire demo_engine demo_consts 0 demo_block None 0 demo_state
     = Some (Inr Applied, es', s') \<and> cs_latest_height s' = 1"
proof -
  have "h_height (b_header demo_block) = 1" by (simp add: demo_block_def compute_digest_def header_new_def)
  then show ?thesis
    using execution_gated [of demo_crypto demo_state demo_wire demo_engine demo_consts 0 demo_block None 0]
      demo_state_ok demo_open by (auto simp: tree_ok_committed positioned_def)
qed

end
