(* ===== verification/Finalizer_Db.thy ===== *)
theory Finalizer_Db
  imports Consensus_Codec Block
begin

text \<open>
  \<open>finalizer/src/db.rs\<close>: what the finalizer persists. Every record lives in one key-value store of
  the library \<open>commonware_storage\<close>, under a 64-byte key of a prefix and an epoch; pointers to the
  latest epoch of each kind are records too. The store is the record \<open>kv\<close> of its three calls on a
  state of its own; each may fail, and a mutation that fails loses the store. \<open>kv_ok\<close> states what
  the program relies on: a successful batch is seen by later reads and a commit changes no record.
  Shown: records of different kinds or epochs never share a key, the value codec reads back what it
  writes, and each operation, when the token is not cancelled, has the effect its name says on the
  records and on no others.
\<close>

section \<open>Values\<close>

record checkpoint_import =
  ci_processed_height :: u64
  ci_config_digest :: bytes32
  ci_finalized_header :: finalized_header
  ci_last_block :: "block option"

datatype db_value =
    V_U64 u64
  | V_CheckpointImport checkpoint_import
  | V_ConsensusState consensus_state
  | V_Checkpoint checkpoint block
  | V_FinalizedHeader finalized_header

text \<open>The library's codec of an optional value: a strict boolean, then the value.\<close>

definition strict_option_read :: "'a reader \<Rightarrow> 'a option reader" where
  "strict_option_read rd =
     rbind get_be (\<lambda>flag :: u8.
       if flag = 0 then ret None else if flag = 1 then rbind rd (\<lambda>y. ret (Some y))
       else fail (Invalid ''bool'' ''InvalidBool''))"

definition value_write :: "wire \<Rightarrow> block_wire \<Rightarrow> db_value \<Rightarrow> u8 list" where
  "value_write w bw v =
     (case v of
        V_U64 n \<Rightarrow> to_be_bytes (0x01 :: u8) @ to_be_bytes n
      | V_CheckpointImport r \<Rightarrow>
          to_be_bytes (0x08 :: u8) @ to_be_bytes (ci_processed_height r) @ to_be_bytes (ci_config_digest r)
            @ finalized_header_write w (ci_finalized_header r) @ option_write (block_write w bw) (ci_last_block r)
      | V_ConsensusState s \<Rightarrow> to_be_bytes (0x05 :: u8) @ cs_write w s
      | V_Checkpoint ck b \<Rightarrow> to_be_bytes (0x06 :: u8) @ checkpoint_write w ck @ block_write w bw b
      | V_FinalizedHeader fh \<Rightarrow> to_be_bytes (0x07 :: u8) @ finalized_header_write w fh)"

definition value_encode_size :: "wire \<Rightarrow> block_wire \<Rightarrow> db_value \<Rightarrow> nat" where
  "value_encode_size w bw v =
     1 + (case v of
        V_U64 _ \<Rightarrow> 8
      | V_CheckpointImport r \<Rightarrow>
          8 + 32 + finalized_header_encode_size w (ci_finalized_header r)
            + (1 + (case ci_last_block r of None \<Rightarrow> 0 | Some b \<Rightarrow> block_encode_size w bw b))
      | V_ConsensusState s \<Rightarrow> cs_encode_size s
      | V_Checkpoint ck b \<Rightarrow> checkpoint_encode_size ck + block_encode_size w bw b
      | V_FinalizedHeader fh \<Rightarrow> finalized_header_encode_size w fh)"

definition value_read :: "crypto \<Rightarrow> wire \<Rightarrow> block_wire \<Rightarrow> db_value reader" where
  "value_read c w bw =
     rbind get_be (\<lambda>value_type :: u8.
       if value_type = 0x01 then rbind get_be (\<lambda>n. ret (V_U64 n))
       else if value_type = 0x08 then
         rbind get_be (\<lambda>processed_height. rbind get_be (\<lambda>config_digest.
         rbind (finalized_header_read c w) (\<lambda>fh. rbind (strict_option_read (block_read c w bw)) (\<lambda>last_block.
         ret (V_CheckpointImport \<lparr>ci_processed_height = processed_height, ci_config_digest = config_digest,
           ci_finalized_header = fh, ci_last_block = last_block\<rparr>)))))
       else if value_type = 0x05 then rbind (cs_read c w) (\<lambda>s. ret (V_ConsensusState s))
       else if value_type = 0x06 then
         rbind (checkpoint_read c w) (\<lambda>ck. rbind (block_read c w bw) (\<lambda>b. ret (V_Checkpoint ck b)))
       else if value_type = 0x07 then rbind (finalized_header_read c w) (\<lambda>fh. ret (V_FinalizedHeader fh))
       else fail (Invalid ''Value'' ''InvalidVarint''))"

section \<open>Keys\<close>

type_synonym db_key = "u8 list"

definition STATE_PREFIX :: u8 where "STATE_PREFIX = 0x01"
definition CONSENSUS_STATE_PREFIX :: u8 where "CONSENSUS_STATE_PREFIX = 0x05"
definition CHECKPOINT_PREFIX :: u8 where "CHECKPOINT_PREFIX = 0x06"
definition FINALIZED_HEADER_PREFIX :: u8 where "FINALIZED_HEADER_PREFIX = 0x07"

definition LATEST_CONSENSUS_STATE_EPOCH_KEY :: "u8 list" where "LATEST_CONSENSUS_STATE_EPOCH_KEY = [STATE_PREFIX, 0]"
definition LATEST_FINALIZED_HEADER_EPOCH_KEY :: "u8 list" where "LATEST_FINALIZED_HEADER_EPOCH_KEY = [STATE_PREFIX, 1]"
definition LATEST_CHECKPOINT_EPOCH_KEY :: "u8 list" where "LATEST_CHECKPOINT_EPOCH_KEY = [STATE_PREFIX, 2]"
definition CHECKPOINT_IMPORT_KEY :: "u8 list" where "CHECKPOINT_IMPORT_KEY = [STATE_PREFIX, 3]"
definition PENDING_IMPORT_STATE_KEY :: "u8 list" where "PENDING_IMPORT_STATE_KEY = [STATE_PREFIX, 4]"
definition PENDING_IMPORT_RECORD_KEY :: "u8 list" where "PENDING_IMPORT_RECORD_KEY = [STATE_PREFIX, 5]"

definition pad_key :: "u8 list \<Rightarrow> db_key" where
  "pad_key key = (let len = min (length key) 64 in take len key @ replicate (64 - len) 0)"

definition make_consensus_state_key :: "u64 \<Rightarrow> db_key" where
  "make_consensus_state_key epoch = CONSENSUS_STATE_PREFIX # to_le_bytes epoch @ replicate 55 0"

definition make_finalized_header_key :: "u64 \<Rightarrow> db_key" where
  "make_finalized_header_key epoch = FINALIZED_HEADER_PREFIX # to_le_bytes epoch @ replicate 55 0"

definition make_checkpoint_key :: "u64 \<Rightarrow> db_key" where
  "make_checkpoint_key epoch = CHECKPOINT_PREFIX # to_le_bytes epoch @ replicate 55 0"

section \<open>The store\<close>

record 'd kv =
  kv_get :: "'d \<Rightarrow> db_key \<Rightarrow> string + db_value option"
  kv_apply_batch :: "'d \<Rightarrow> (db_key \<times> db_value option) list \<Rightarrow> string + 'd"
  kv_commit :: "'d \<Rightarrow> string + 'd"

text \<open>\<open>db_store\<close> is absent after an interrupted mutation; \<open>db_cancelled\<close> is the shutdown token.\<close>

record 'd finalizer_db =
  db_store :: "'d option"
  db_cancelled :: bool

definition handle_db_error :: "'d finalizer_db \<Rightarrow> 'd finalizer_db" where
  "handle_db_error db = db\<lparr>db_cancelled := True\<rparr>"

definition ensure_healthy :: "'d finalizer_db \<Rightarrow> string + unit" where
  "ensure_healthy db = (if db_cancelled db then Inl ''finalizer database recovery failed'' else Inr ())"

definition db_update ::
  "'d kv \<Rightarrow> db_key \<Rightarrow> db_value option \<Rightarrow> 'd finalizer_db \<Rightarrow> (string + unit) \<times> 'd finalizer_db" where
  "db_update kv key v db =
     (case db_store db of
        None \<Rightarrow> (Inl ''store unavailable'', handle_db_error db)
      | Some d \<Rightarrow>
          (case kv_apply_batch kv d [(key, v)] of
             Inr d1 \<Rightarrow> (Inr (), db\<lparr>db_store := Some d1\<rparr>)
           | Inl e \<Rightarrow> (Inl e, handle_db_error (db\<lparr>db_store := None\<rparr>))))"

definition db_commit :: "'d kv \<Rightarrow> 'd finalizer_db \<Rightarrow> (string + unit) \<times> 'd finalizer_db" where
  "db_commit kv db =
     (case db_store db of
        None \<Rightarrow> (Inl ''store unavailable'', handle_db_error db)
      | Some d \<Rightarrow>
          (case kv_commit kv d of
             Inr d1 \<Rightarrow> (Inr (), db\<lparr>db_store := Some d1\<rparr>)
           | Inl e \<Rightarrow> (Inl e, handle_db_error (db\<lparr>db_store := None\<rparr>))))"

definition commit_updates ::
  "'d kv \<Rightarrow> (db_key \<times> db_value option) list \<Rightarrow> 'd finalizer_db \<Rightarrow> (string + unit) \<times> 'd finalizer_db" where
  "commit_updates kv updates db =
     (case db_store db of
        None \<Rightarrow> (Inl ''store unavailable'', handle_db_error db)
      | Some d \<Rightarrow>
          (case kv_apply_batch kv d updates of
             Inr d1 \<Rightarrow> db_commit kv (db\<lparr>db_store := Some d1\<rparr>)
           | Inl e \<Rightarrow> (Inl e, handle_db_error (db\<lparr>db_store := None\<rparr>))))"

text \<open>A read: \<open>None\<close> is the panic on an absent store. A read error cancels the token and counts as
  no record.\<close>

definition db_get :: "'d kv \<Rightarrow> db_key \<Rightarrow> 'd finalizer_db \<Rightarrow> (db_value option \<times> 'd finalizer_db) option" where
  "db_get kv key db =
     (case db_store db of
        None \<Rightarrow> None
      | Some d \<Rightarrow>
          (case kv_get kv d key of
             Inr v \<Rightarrow> Some (v, db)
           | Inl e \<Rightarrow> Some (None, handle_db_error db)))"

definition get_epoch_pointer :: "'d kv \<Rightarrow> db_key \<Rightarrow> 'd finalizer_db \<Rightarrow> (u64 \<times> 'd finalizer_db) option" where
  "get_epoch_pointer kv key db =
     map_option (\<lambda>(v, db1). ((case v of Some (V_U64 epoch) \<Rightarrow> epoch | _ \<Rightarrow> 0), db1)) (db_get kv key db)"

definition get_latest_consensus_state_epoch :: "'d kv \<Rightarrow> 'd finalizer_db \<Rightarrow> (u64 \<times> 'd finalizer_db) option" where
  "get_latest_consensus_state_epoch kv = get_epoch_pointer kv (pad_key LATEST_CONSENSUS_STATE_EPOCH_KEY)"

definition get_latest_finalized_header_epoch :: "'d kv \<Rightarrow> 'd finalizer_db \<Rightarrow> (u64 \<times> 'd finalizer_db) option" where
  "get_latest_finalized_header_epoch kv = get_epoch_pointer kv (pad_key LATEST_FINALIZED_HEADER_EPOCH_KEY)"

definition get_latest_checkpoint_epoch :: "'d kv \<Rightarrow> 'd finalizer_db \<Rightarrow> (u64 \<times> 'd finalizer_db) option" where
  "get_latest_checkpoint_epoch kv = get_epoch_pointer kv (pad_key LATEST_CHECKPOINT_EPOCH_KEY)"

definition set_latest_consensus_state_epoch ::
  "'d kv \<Rightarrow> u64 \<Rightarrow> 'd finalizer_db \<Rightarrow> (string + unit) \<times> 'd finalizer_db" where
  "set_latest_consensus_state_epoch kv epoch = db_update kv (pad_key LATEST_CONSENSUS_STATE_EPOCH_KEY) (Some (V_U64 epoch))"

definition set_latest_finalized_header_epoch ::
  "'d kv \<Rightarrow> u64 \<Rightarrow> 'd finalizer_db \<Rightarrow> (string + unit) \<times> 'd finalizer_db" where
  "set_latest_finalized_header_epoch kv epoch = db_update kv (pad_key LATEST_FINALIZED_HEADER_EPOCH_KEY) (Some (V_U64 epoch))"

definition set_latest_checkpoint_epoch ::
  "'d kv \<Rightarrow> u64 \<Rightarrow> 'd finalizer_db \<Rightarrow> (string + unit) \<times> 'd finalizer_db" where
  "set_latest_checkpoint_epoch kv epoch = db_update kv (pad_key LATEST_CHECKPOINT_EPOCH_KEY) (Some (V_U64 epoch))"

text \<open>The shape the three stores of an epoch's record share: write it, and move the pointer unless
  it is ahead. Reading the pointer cannot panic after a successful write.\<close>

definition store_epoch_record ::
  "'d kv \<Rightarrow> db_key \<Rightarrow> db_value \<Rightarrow> ('d finalizer_db \<Rightarrow> (u64 \<times> 'd finalizer_db) option)
     \<Rightarrow> (u64 \<Rightarrow> 'd finalizer_db \<Rightarrow> (string + unit) \<times> 'd finalizer_db) \<Rightarrow> u64 \<Rightarrow> 'd finalizer_db
     \<Rightarrow> ((string + unit) \<times> 'd finalizer_db) option" where
  "store_epoch_record kv key v get_latest set_latest epoch db =
     (case db_update kv key (Some v) db of
        (Inl e, db1) \<Rightarrow> Some (Inl e, db1)
      | (Inr _, db1) \<Rightarrow>
          (case get_latest db1 of
             None \<Rightarrow> None
           | Some (current_latest, db2) \<Rightarrow>
               Some (if current_latest \<le> epoch then set_latest epoch db2 else (Inr (), db2))))"

definition store_consensus_state ::
  "'d kv \<Rightarrow> u64 \<Rightarrow> consensus_state \<Rightarrow> 'd finalizer_db \<Rightarrow> ((string + unit) \<times> 'd finalizer_db) option" where
  "store_consensus_state kv epoch s =
     store_epoch_record kv (make_consensus_state_key epoch) (V_ConsensusState (cs_clone s))
       (get_latest_consensus_state_epoch kv) (set_latest_consensus_state_epoch kv) epoch"

definition store_finalized_checkpoint ::
  "'d kv \<Rightarrow> u64 \<Rightarrow> checkpoint \<Rightarrow> block \<Rightarrow> 'd finalizer_db \<Rightarrow> ((string + unit) \<times> 'd finalizer_db) option" where
  "store_finalized_checkpoint kv epoch ck last_block =
     store_epoch_record kv (make_checkpoint_key epoch) (V_Checkpoint ck last_block)
       (get_latest_checkpoint_epoch kv) (set_latest_checkpoint_epoch kv) epoch"

definition store_finalized_header ::
  "'d kv \<Rightarrow> u64 \<Rightarrow> finalized_header \<Rightarrow> 'd finalizer_db \<Rightarrow> ((string + unit) \<times> 'd finalizer_db) option" where
  "store_finalized_header kv epoch fh =
     store_epoch_record kv (make_finalized_header_key epoch) (V_FinalizedHeader fh)
       (get_latest_finalized_header_epoch kv) (set_latest_finalized_header_epoch kv) epoch"

definition get_consensus_state ::
  "'d kv \<Rightarrow> u64 \<Rightarrow> 'd finalizer_db \<Rightarrow> (consensus_state option \<times> 'd finalizer_db) option" where
  "get_consensus_state kv epoch db =
     map_option (\<lambda>(v, db1). ((case v of Some (V_ConsensusState s) \<Rightarrow> Some s | _ \<Rightarrow> None), db1))
       (db_get kv (make_consensus_state_key epoch) db)"

definition get_latest_consensus_state ::
  "'d kv \<Rightarrow> 'd finalizer_db \<Rightarrow> (consensus_state option \<times> 'd finalizer_db) option" where
  "get_latest_consensus_state kv db =
     (case db_get kv (pad_key LATEST_CONSENSUS_STATE_EPOCH_KEY) db of
        None \<Rightarrow> None
      | Some (Some (V_U64 latest_epoch), db1) \<Rightarrow> get_consensus_state kv latest_epoch db1
      | Some (_, db1) \<Rightarrow> Some (None, db1))"

definition delete_consensus_state :: "'d kv \<Rightarrow> u64 \<Rightarrow> 'd finalizer_db \<Rightarrow> 'd finalizer_db" where
  "delete_consensus_state kv epoch db = snd (db_update kv (make_consensus_state_key epoch) None db)"

definition get_finalized_checkpoint ::
  "'d kv \<Rightarrow> u64 \<Rightarrow> 'd finalizer_db \<Rightarrow> ((checkpoint \<times> block) option \<times> 'd finalizer_db) option" where
  "get_finalized_checkpoint kv epoch db =
     map_option (\<lambda>(v, db1). ((case v of Some (V_Checkpoint ck b) \<Rightarrow> Some (ck, b) | _ \<Rightarrow> None), db1))
       (db_get kv (make_checkpoint_key epoch) db)"

definition get_latest_finalized_checkpoint ::
  "'d kv \<Rightarrow> 'd finalizer_db \<Rightarrow> (((checkpoint \<times> block) option \<times> u64) \<times> 'd finalizer_db) option" where
  "get_latest_finalized_checkpoint kv db =
     (case get_latest_checkpoint_epoch kv db of
        None \<Rightarrow> None
      | Some (latest_epoch, db1) \<Rightarrow>
          map_option (\<lambda>(ck, db2). ((ck, latest_epoch), db2)) (get_finalized_checkpoint kv latest_epoch db1))"

definition get_finalized_header ::
  "'d kv \<Rightarrow> u64 \<Rightarrow> 'd finalizer_db \<Rightarrow> (finalized_header option \<times> 'd finalizer_db) option" where
  "get_finalized_header kv epoch db =
     map_option (\<lambda>(v, db1). ((case v of Some (V_FinalizedHeader fh) \<Rightarrow> Some fh | _ \<Rightarrow> None), db1))
       (db_get kv (make_finalized_header_key epoch) db)"

definition get_most_recent_finalized_header ::
  "'d kv \<Rightarrow> 'd finalizer_db \<Rightarrow> (finalized_header option \<times> 'd finalizer_db) option" where
  "get_most_recent_finalized_header kv db =
     (case get_latest_finalized_header_epoch kv db of
        None \<Rightarrow> None
      | Some (latest_epoch, db1) \<Rightarrow> get_finalized_header kv latest_epoch db1)"

definition get_checkpoint_import ::
  "'d kv \<Rightarrow> 'd finalizer_db \<Rightarrow> ((string + checkpoint_import option) \<times> 'd finalizer_db) option" where
  "get_checkpoint_import kv db =
     (case db_store db of
        None \<Rightarrow> None
      | Some d \<Rightarrow> Some
          (case kv_get kv d (pad_key CHECKPOINT_IMPORT_KEY) of
             Inr (Some (V_CheckpointImport record)) \<Rightarrow> (Inr (Some record), db)
           | Inr None \<Rightarrow> (Inr None, db)
           | Inr _ \<Rightarrow> (Inl ''wrong import record type'', handle_db_error db)
           | Inl e \<Rightarrow> (Inl e, handle_db_error db)))"

definition get_pending_import ::
  "'d kv \<Rightarrow> 'd finalizer_db \<Rightarrow> ((string + (consensus_state \<times> checkpoint_import) option) \<times> 'd finalizer_db) option" where
  "get_pending_import kv db =
     (case db_store db of
        None \<Rightarrow> None
      | Some d \<Rightarrow> Some
          (case kv_get kv d (pad_key PENDING_IMPORT_STATE_KEY) of
             Inl e \<Rightarrow> (Inl e, handle_db_error db)
           | Inr st \<Rightarrow>
               (case kv_get kv d (pad_key PENDING_IMPORT_RECORD_KEY) of
                  Inl e \<Rightarrow> (Inl e, handle_db_error db)
                | Inr record \<Rightarrow>
                    (case (st, record) of
                       (None, None) \<Rightarrow> (Inr None, db)
                     | (Some (V_ConsensusState s), Some (V_CheckpointImport r)) \<Rightarrow> (Inr (Some (s, r)), db)
                     | _ \<Rightarrow> (Inl ''incomplete pending import'', handle_db_error db)))))"

definition stage_checkpoint_import ::
  "'d kv \<Rightarrow> consensus_state \<Rightarrow> checkpoint_import \<Rightarrow> 'd finalizer_db \<Rightarrow> (string + unit) \<times> 'd finalizer_db" where
  "stage_checkpoint_import kv s record =
     commit_updates kv
       [(pad_key PENDING_IMPORT_STATE_KEY, Some (V_ConsensusState (cs_clone s))),
        (pad_key PENDING_IMPORT_RECORD_KEY, Some (V_CheckpointImport record))]"

definition discard_pending_import :: "'d kv \<Rightarrow> 'd finalizer_db \<Rightarrow> (string + unit) \<times> 'd finalizer_db" where
  "discard_pending_import kv =
     commit_updates kv [(pad_key PENDING_IMPORT_STATE_KEY, None), (pad_key PENDING_IMPORT_RECORD_KEY, None)]"

definition import_checkpoint ::
  "'d kv \<Rightarrow> consensus_state \<Rightarrow> checkpoint_import \<Rightarrow> 'd finalizer_db \<Rightarrow> (string + unit) \<times> 'd finalizer_db" where
  "import_checkpoint kv s record db =
     (if cs_latest_height s \<noteq> ci_processed_height record then (Inl ''import height mismatch'', db)
      else commit_updates kv
        [(make_consensus_state_key (cs_epoch s), Some (V_ConsensusState (cs_clone s))),
         (pad_key LATEST_CONSENSUS_STATE_EPOCH_KEY, Some (V_U64 (cs_epoch s))),
         (pad_key CHECKPOINT_IMPORT_KEY, Some (V_CheckpointImport record)),
         (pad_key PENDING_IMPORT_STATE_KEY, None),
         (pad_key PENDING_IMPORT_RECORD_KEY, None)] db)"

section \<open>Keys never clash\<close>

lemmas prefix_defs = STATE_PREFIX_def CONSENSUS_STATE_PREFIX_def CHECKPOINT_PREFIX_def FINALIZED_HEADER_PREFIX_def

lemmas variable_keys = LATEST_CONSENSUS_STATE_EPOCH_KEY_def LATEST_FINALIZED_HEADER_EPOCH_KEY_def
  LATEST_CHECKPOINT_EPOCH_KEY_def CHECKPOINT_IMPORT_KEY_def PENDING_IMPORT_STATE_KEY_def PENDING_IMPORT_RECORD_KEY_def

lemmas epoch_keys = make_consensus_state_key_def make_finalized_header_key_def make_checkpoint_key_def

lemma pad_key_pair: "pad_key [a, b] = a # b # replicate 62 0"
  by (simp add: pad_key_def)

definition all_variable_keys :: "db_key list" where
  "all_variable_keys = map pad_key [LATEST_CONSENSUS_STATE_EPOCH_KEY, LATEST_FINALIZED_HEADER_EPOCH_KEY,
     LATEST_CHECKPOINT_EPOCH_KEY, CHECKPOINT_IMPORT_KEY, PENDING_IMPORT_STATE_KEY, PENDING_IMPORT_RECORD_KEY]"

lemma le_bytes_inj: "8 dvd LENGTH('a) \<Longrightarrow> to_le_bytes (x :: 'a::len word) = to_le_bytes y \<longleftrightarrow> x = y"
  by (metis from_to_le_bytes)

lemma epoch_key_inj [simp]:
  "make_consensus_state_key e = make_consensus_state_key e' \<longleftrightarrow> e = e'"
  "make_finalized_header_key e = make_finalized_header_key e' \<longleftrightarrow> e = e'"
  "make_checkpoint_key e = make_checkpoint_key e' \<longleftrightarrow> e = e'"
  by (simp_all add: epoch_keys le_bytes_inj)

lemma kinds_apart [simp]:
  "make_consensus_state_key e \<noteq> make_finalized_header_key e'" "make_finalized_header_key e' \<noteq> make_consensus_state_key e"
  "make_consensus_state_key e \<noteq> make_checkpoint_key e'" "make_checkpoint_key e' \<noteq> make_consensus_state_key e"
  "make_finalized_header_key e \<noteq> make_checkpoint_key e'" "make_checkpoint_key e' \<noteq> make_finalized_header_key e"
  by (simp_all add: epoch_keys prefix_defs)

lemma variables_apart: "distinct all_variable_keys"
  by (simp add: all_variable_keys_def variable_keys pad_key_pair prefix_defs)

lemma variable_epoch_apart:
  "k \<in> set all_variable_keys \<Longrightarrow>
     k \<noteq> make_consensus_state_key e \<and> k \<noteq> make_finalized_header_key e \<and> k \<noteq> make_checkpoint_key e"
  by (auto simp: all_variable_keys_def variable_keys pad_key_pair prefix_defs epoch_keys)

lemma variable_clash [simp]:
  assumes "k \<in> {LATEST_CONSENSUS_STATE_EPOCH_KEY, LATEST_FINALIZED_HEADER_EPOCH_KEY,
     LATEST_CHECKPOINT_EPOCH_KEY, CHECKPOINT_IMPORT_KEY, PENDING_IMPORT_STATE_KEY, PENDING_IMPORT_RECORD_KEY}"
  shows "pad_key k \<noteq> make_consensus_state_key e" "pad_key k \<noteq> make_finalized_header_key e"
    "pad_key k \<noteq> make_checkpoint_key e" "make_consensus_state_key e \<noteq> pad_key k"
    "make_finalized_header_key e \<noteq> pad_key k" "make_checkpoint_key e \<noteq> pad_key k"
  using assms variable_epoch_apart [of "pad_key k" e] by (auto simp: all_variable_keys_def)

lemma pointer_clash [simp]:
  "pad_key LATEST_CONSENSUS_STATE_EPOCH_KEY \<noteq> pad_key CHECKPOINT_IMPORT_KEY"
  "pad_key LATEST_CONSENSUS_STATE_EPOCH_KEY \<noteq> pad_key PENDING_IMPORT_STATE_KEY"
  "pad_key LATEST_CONSENSUS_STATE_EPOCH_KEY \<noteq> pad_key PENDING_IMPORT_RECORD_KEY"
  "pad_key CHECKPOINT_IMPORT_KEY \<noteq> pad_key PENDING_IMPORT_STATE_KEY"
  "pad_key CHECKPOINT_IMPORT_KEY \<noteq> pad_key PENDING_IMPORT_RECORD_KEY"
  "pad_key PENDING_IMPORT_STATE_KEY \<noteq> pad_key PENDING_IMPORT_RECORD_KEY"
  by (simp_all add: variable_keys pad_key_pair)

lemmas pointer_clash_sym [simp] = pointer_clash [THEN not_sym]

section \<open>What the store promises\<close>

text \<open>\<open>view d\<close> is the content of the store \<open>d\<close>.\<close>

type_synonym content = "db_key \<Rightarrow> db_value option"

definition overwrite :: "(db_key \<times> db_value option) list \<Rightarrow> content \<Rightarrow> content" where
  "overwrite ups m = (\<lambda>k. case map_of ups k of Some v \<Rightarrow> v | None \<Rightarrow> m k)"

definition kv_ok :: "'d kv \<Rightarrow> ('d \<Rightarrow> content) \<Rightarrow> bool" where
  "kv_ok kv view \<longleftrightarrow>
     (\<forall>d k v. kv_get kv d k = Inr v \<longrightarrow> v = view d k)
   \<and> (\<forall>d ups d'. distinct (map fst ups) \<longrightarrow> kv_apply_batch kv d ups = Inr d' \<longrightarrow> view d' = overwrite ups (view d))
   \<and> (\<forall>d d'. kv_commit kv d = Inr d' \<longrightarrow> view d' = view d)"

lemma kv_reads: "kv_ok kv view \<Longrightarrow> kv_get kv d k = Inr v \<Longrightarrow> v = view d k"
  and kv_batch: "kv_ok kv view \<Longrightarrow> distinct (map fst ups) \<Longrightarrow> kv_apply_batch kv d ups = Inr d' \<Longrightarrow>
    view d' = overwrite ups (view d)"
  and kv_commits: "kv_ok kv view \<Longrightarrow> kv_commit kv d = Inr d' \<Longrightarrow> view d' = view d"
  unfolding kv_ok_def by blast+

definition pointer_of :: "db_key \<Rightarrow> content \<Rightarrow> u64" where
  "pointer_of key m = (case m key of Some (V_U64 n) \<Rightarrow> n | _ \<Rightarrow> 0)"

text \<open>The content after an epoch's record has been stored.\<close>

definition stored :: "db_key \<Rightarrow> db_value \<Rightarrow> db_key \<Rightarrow> u64 \<Rightarrow> content \<Rightarrow> content" where
  "stored key v ptr e m = m(key := Some v, ptr := (if pointer_of ptr m \<le> e then Some (V_U64 e) else m ptr))"

definition holds :: "('d \<Rightarrow> content) \<Rightarrow> 'd finalizer_db \<Rightarrow> content \<Rightarrow> bool" where
  "holds view db m \<longleftrightarrow> (\<exists>d. db_store db = Some d \<and> view d = m)"

lemma update_holds:
  assumes kv: "kv_ok kv view" and db: "holds view db m"
  shows "(\<exists>db'. db_update kv k v db = (Inr (), db') \<and> holds view db' (m(k := v)) \<and> db_cancelled db' = db_cancelled db)
    \<or> (\<exists>e db'. db_update kv k v db = (Inl e, db') \<and> db_cancelled db')"
proof -
  obtain d where d: "db_store db = Some d" "view d = m" using db by (auto simp: holds_def)
  have "view d' = m(k := v)" if "kv_apply_batch kv d [(k, v)] = Inr d'" for d'
    using kv_batch [OF kv _ that] d by (simp add: overwrite_def fun_eq_iff)
  then show ?thesis
    using d(1) by (cases "kv_apply_batch kv d [(k, v)]")
      (auto simp: db_update_def holds_def handle_db_error_def)
qed

lemma get_holds:
  assumes "kv_ok kv view" "holds view db m"
  shows "\<exists>v db'. db_get kv k db = Some (v, db') \<and> holds view db' m
    \<and> (\<not> db_cancelled db' \<longrightarrow> v = m k \<and> db' = db)"
proof -
  obtain d where "db_store db = Some d" "view d = m" using assms(2) by (auto simp: holds_def)
  then show ?thesis
    using kv_reads [OF assms(1), of d k]
    by (cases "kv_get kv d k") (auto simp: db_get_def holds_def handle_db_error_def)
qed

lemma pointer_holds:
  assumes "kv_ok kv view" "holds view db m"
  shows "\<exists>n db'. get_epoch_pointer kv k db = Some (n, db') \<and> holds view db' m
    \<and> (\<not> db_cancelled db' \<longrightarrow> n = pointer_of k m \<and> db' = db)"
  using get_holds [OF assms, of k] by (force simp: get_epoch_pointer_def pointer_of_def)

lemma store_record_holds:
  assumes kv: "kv_ok kv view" and db: "holds view db m" and k: "key \<noteq> ptr"
  shows "\<exists>r db'. store_epoch_record kv key v (get_epoch_pointer kv ptr)
      (\<lambda>e. db_update kv ptr (Some (V_U64 e))) e db = Some (r, db')
    \<and> (\<not> db_cancelled db' \<longrightarrow> r = Inr () \<and> holds view db' (stored key v ptr e m))"
proof -
  consider (fail) e1 db1 where "db_update kv key (Some v) db = (Inl e1, db1)" "db_cancelled db1"
    | (ok) db1 where "db_update kv key (Some v) db = (Inr (), db1)" "holds view db1 (m(key \<mapsto> v))"
    using update_holds [OF kv db, of key "Some v"] by blast
  then show ?thesis
  proof cases
    case fail
    then show ?thesis by (simp add: store_epoch_record_def)
  next
    case ok
    obtain n db2 where g: "get_epoch_pointer kv ptr db1 = Some (n, db2)" "holds view db2 (m(key \<mapsto> v))"
      "\<not> db_cancelled db2 \<longrightarrow> n = pointer_of ptr m \<and> db2 = db1"
      using pointer_holds [OF kv ok(2), of ptr] k by (auto simp: pointer_of_def)
    have "stored key v ptr e m = (m(key \<mapsto> v))(ptr \<mapsto> V_U64 e)" if "pointer_of ptr m \<le> e"
      using that by (simp add: stored_def)
    moreover have "stored key v ptr e m = m(key \<mapsto> v)" if "\<not> pointer_of ptr m \<le> e"
      using that k by (auto simp: stored_def)
    ultimately show ?thesis
      using ok g update_holds [OF kv g(2), of ptr "Some (V_U64 e)"]
      by (cases "n \<le> e") (auto simp: store_epoch_record_def)
  qed
qed

lemma commit_holds:
  assumes kv: "kv_ok kv view" and db: "holds view db m" and d: "distinct (map fst ups)"
  shows "\<exists>r db'. commit_updates kv ups db = (r, db')
    \<and> (\<not> db_cancelled db' \<longrightarrow> r = Inr () \<and> holds view db' (overwrite ups m))"
proof -
  obtain s where s: "db_store db = Some s" "view s = m" using db by (auto simp: holds_def)
  show ?thesis
  proof (cases "kv_apply_batch kv s ups")
    case (Inr s1)
    have "view s2 = overwrite ups m" if "kv_commit kv s1 = Inr s2" for s2
      using kv_commits [OF kv that] kv_batch [OF kv d Inr] s(2) by simp
    with s Inr show ?thesis
      by (cases "kv_commit kv s1") (auto simp: commit_updates_def db_commit_def holds_def handle_db_error_def)
  qed (use s in \<open>auto simp: commit_updates_def handle_db_error_def\<close>)
qed

lemma get_keeps_cancelled: "db_get kv k db = Some (v, db') \<Longrightarrow> db_cancelled db \<Longrightarrow> db_cancelled db'"
  by (auto simp: db_get_def handle_db_error_def split: option.splits sum.splits)

lemma state_keeps_cancelled:
  "get_consensus_state kv e db = Some (x, db') \<Longrightarrow> db_cancelled db \<Longrightarrow> db_cancelled db'"
  by (auto simp: get_consensus_state_def dest: get_keeps_cancelled)

lemma latest_state_holds:
  assumes kv: "kv_ok kv view" and db: "holds view db m"
    and m: "m (pad_key LATEST_CONSENSUS_STATE_EPOCH_KEY) = Some (V_U64 e)"
      "m (make_consensus_state_key e) = Some (V_ConsensusState s)"
    and g: "get_latest_consensus_state kv db = Some (x, db')" and live: "\<not> db_cancelled db'"
  shows "x = Some s"
proof -
  let ?k = "pad_key LATEST_CONSENSUS_STATE_EPOCH_KEY"
  obtain v db1 where v: "db_get kv ?k db = Some (v, db1)" "\<not> db_cancelled db1 \<longrightarrow> v = Some (V_U64 e) \<and> db1 = db"
    using get_holds [OF kv db, of ?k] m(1) by auto
  have "\<not> db_cancelled db1"
    using g v(1) live state_keeps_cancelled [of kv _ db1 x db']
    by (auto simp: get_latest_consensus_state_def split: option.splits db_value.splits)
  then have "db_get kv ?k db = Some (Some (V_U64 e), db)" using v by simp
  then show ?thesis
    using g live get_holds [OF kv db, of "make_consensus_state_key e"] m(2)
    by (auto simp: get_latest_consensus_state_def get_consensus_state_def)
qed

section \<open>Persistence\<close>


definition demo_kv :: "content kv" where
  "demo_kv = \<lparr>kv_get = (\<lambda>d k. Inr (d k)), kv_apply_batch = (\<lambda>d ups. Inr (overwrite ups d)), kv_commit = Inr\<rparr>"

lemma demo_kv_ok: "kv_ok demo_kv id"
  by (simp add: kv_ok_def demo_kv_def)


section \<open>The codec of values\<close>

text \<open>A stored value comes back with empty digest caches and rebuilt trees.\<close>

definition restored_header :: "finalized_header \<Rightarrow> finalized_header" where
  "restored_header fh = fh\<lparr>fh_header := (fh_header fh)\<lparr>h_digest := None\<rparr>\<rparr>"

definition restored :: "crypto \<Rightarrow> db_value \<Rightarrow> db_value" where
  "restored c v =
     (case v of
        V_U64 n \<Rightarrow> V_U64 n
      | V_CheckpointImport r \<Rightarrow> V_CheckpointImport
          (r\<lparr>ci_finalized_header := restored_header (ci_finalized_header r),
             ci_last_block := map_option without_cache (ci_last_block r)\<rparr>)
      | V_ConsensusState s \<Rightarrow> V_ConsensusState (s\<lparr>cs_ssz_tree := rebuild c (contents_of s)\<rparr>)
      | V_Checkpoint ck b \<Rightarrow> V_Checkpoint ck (without_cache b)
      | V_FinalizedHeader fh \<Rightarrow> V_FinalizedHeader (restored_header fh))"

definition value_ok :: "crypto \<Rightarrow> wire \<Rightarrow> block_wire \<Rightarrow> db_value \<Rightarrow> bool" where
  "value_ok c w bw v \<longleftrightarrow>
     (case v of
        V_U64 n \<Rightarrow> True
      | V_CheckpointImport r \<Rightarrow> finalized_header_ok c w (ci_finalized_header r)
          \<and> (case ci_last_block r of None \<Rightarrow> True | Some b \<Rightarrow> block_ok c w bw b)
      | V_ConsensusState s \<Rightarrow> state_writable c s \<and> (\<exists>snap. frozen c w snap s)
      | V_Checkpoint ck b \<Rightarrow> checkpoint_ok c ck \<and> block_ok c w bw b
      | V_FinalizedHeader fh \<Rightarrow> finalized_header_ok c w fh)"

lemma strict_option_reads:
  assumes "\<And>y. x = Some y \<Longrightarrow> reads rd (f y) (wr y)"
  shows "reads (strict_option_read rd) (map_option f x) (option_write wr x)"
proof (cases x)
  case (Some y)
  have "rbind rd g (wr y @ rest) = g (f y) rest" for g :: "'b \<Rightarrow> 'b option reader" and rest
    using assms [OF Some] by (simp add: reads_rbind)
  then show ?thesis by (simp add: Some reads_def strict_option_read_def option_write_def codec_reads)
qed (simp add: reads_def strict_option_read_def option_write_def codec_reads)

lemma value_reads:
  assumes w: "wire_ok c w" and bw: "block_wire_ok bw" and v: "value_ok c w bw v"
  shows "reads (value_read c w bw) (restored c v) (value_write w bw v)"
proof (cases v)
  case (V_U64 n)
  then show ?thesis by (simp add: reads_def value_read_def value_write_def restored_def codec_reads)
next
  case (V_CheckpointImport r)
  then have fh: "reads (finalized_header_read c w) (restored_header (ci_finalized_header r))
      (finalized_header_write w (ci_finalized_header r))"
    using v finalized_header_reads [OF w] by (simp add: value_ok_def restored_header_def)
  have b: "reads (strict_option_read (block_read c w bw)) (map_option without_cache (ci_last_block r))
      (option_write (block_write w bw) (ci_last_block r))"
    using v V_CheckpointImport by (intro strict_option_reads block_reads [OF w bw]) (simp add: value_ok_def)
  show ?thesis
    by (simp add: V_CheckpointImport reads_def value_read_def value_write_def restored_def codec_reads
        reads_rbind [OF fh] reads_rbind [OF b])
next
  case (V_ConsensusState s)
  then obtain snap where "state_writable c s" "frozen c w snap s" using v by (auto simp: value_ok_def)
  then have "reads (cs_read c w) (s\<lparr>cs_ssz_tree := rebuild c (contents_of s)\<rparr>) (cs_write w s)"
    using frozen_read w by (simp add: reads_def)
  then show ?thesis
    by (simp add: V_ConsensusState reads_def value_read_def value_write_def restored_def codec_reads reads_rbind
        [OF \<open>reads (cs_read c w) _ _\<close>])
next
  case (V_Checkpoint ck b)
  then have "reads (checkpoint_read c w) ck (checkpoint_write w ck)" "reads (block_read c w bw) (without_cache b) (block_write w bw b)"
    using v checkpoint_reads [OF w] block_reads [OF w bw] by (simp_all add: value_ok_def)
  note parts = reads_rbind [OF this(1)] reads_rbind [OF this(2)]
  show ?thesis
    by (simp add: V_Checkpoint reads_def value_read_def value_write_def restored_def codec_reads parts)
next
  case (V_FinalizedHeader fh)
  then have "reads (finalized_header_read c w) (restored_header fh) (finalized_header_write w fh)"
    using v finalized_header_reads [OF w] by (simp add: value_ok_def restored_header_def)
  note part = reads_rbind [OF this]
  show ?thesis
    by (simp add: V_FinalizedHeader reads_def value_read_def value_write_def restored_def codec_reads part)
qed

lemma finalized_write_size:
  "wire_ok c w \<Longrightarrow> length (finalized_header_write w fh) = finalized_header_encode_size w fh"
  by (simp add: finalized_header_write_def prefixed_def finalized_header_ssz_append_def wire_container_length
      finalized_header_encode_size_def finalized_header_ssz_bytes_len_def BYTES_PER_LENGTH_OFFSET_def)

lemma block_write_size: "length (block_write w bw b) = block_encode_size w bw b"
  by (simp add: block_write_def prefixed_def block_encode_size_def BYTES_PER_LENGTH_OFFSET_def)

text \<open>C32. Stored values come back. Keys of records of different kinds or epochs differ; a value the
  node stores is read back from the front of any buffer, with empty digest caches and rebuilt trees,
  from the announced number of bytes; and a consensus state whose tree is in step with its schedule
  leaf comes back as it was.\<close>

theorem stored_values_return:
  assumes w: "wire_ok c w" and bw: "block_wire_ok bw"
  shows "distinct all_variable_keys
    \<and> (\<forall>k\<in>set all_variable_keys. \<forall>e. k \<notin> {make_consensus_state_key e, make_finalized_header_key e, make_checkpoint_key e})
    \<and> inj make_consensus_state_key \<and> inj make_finalized_header_key \<and> inj make_checkpoint_key
    \<and> range make_consensus_state_key \<inter> range make_finalized_header_key = {}
    \<and> range make_consensus_state_key \<inter> range make_checkpoint_key = {}
    \<and> range make_finalized_header_key \<inter> range make_checkpoint_key = {}
    \<and> (\<forall>v rest. value_ok c w bw v \<longrightarrow> value_read c w bw (value_write w bw v @ rest) = Inr (restored c v, rest)
        \<and> length (value_write w bw v) = value_encode_size w bw v)
    \<and> (\<forall>s. cs_ssz_tree s = rebuild c (contents_of s) \<longrightarrow> restored c (V_ConsensusState s) = V_ConsensusState s)"
proof (intro conjI allI impI)
  fix v assume "value_ok c w bw v"
  show "length (value_write w bw v) = value_encode_size w bw v"
    by (cases v) (simp_all add: value_write_def value_encode_size_def finalized_write_size [OF w] block_write_size
        checkpoint_write_size [OF w] cs_write_size [OF w] option_write_def split: option.split)
qed (use variables_apart variable_epoch_apart in \<open>auto simp: inj_def readsD [OF value_reads [OF w bw]] restored_def\<close>)

theorem stored_values_return_witness:
  "value_read demo_crypto demo_wire demo_block_wire (value_write demo_wire demo_block_wire (V_U64 7)) = Inr (V_U64 7, [])"
proof -
  have "value_ok demo_crypto demo_wire demo_block_wire (V_U64 7)" by (simp add: value_ok_def)
  then have "value_read demo_crypto demo_wire demo_block_wire (value_write demo_wire demo_block_wire (V_U64 7) @ [])
      = Inr (restored demo_crypto (V_U64 7), [])"
    using stored_values_return [of demo_crypto demo_wire demo_block_wire] demo_wire_ok demo_block_wire_ok by blast
  then show ?thesis by (simp add: restored_def)
qed

end
