(* ===== verification/Text.thy ===== *)
theory Text
  imports Prelude
begin

text \<open>
  The string operations of the Rust standard library that the program uses: decimal printing and
  parsing of machine integers, \<open>strip_prefix\<close>, \<open>rsplit_once\<close>, and the bytes of an ASCII string. Shown:
  parsing inverts printing, printing is injective, and splitting at the last separator inverts
  joining.
\<close>

section \<open>Decimal numbers\<close>

definition digit :: "nat \<Rightarrow> char" where
  "digit n = char_of (48 + n)"

fun decimal :: "nat \<Rightarrow> string" where
  "decimal n = (if n < 10 then [digit n] else decimal (n div 10) @ [digit (n mod 10)])"

declare decimal.simps [simp del]

definition digit_value :: "char \<Rightarrow> nat option" where
  "digit_value ch = (let k = of_char ch :: nat in if 48 \<le> k \<and> k < 58 then Some (k - 48) else None)"

primrec parse_digits :: "string \<Rightarrow> nat \<Rightarrow> nat option" where
  "parse_digits [] acc = Some acc"
| "parse_digits (ch # s) acc =
     (case digit_value ch of None \<Rightarrow> None | Some d \<Rightarrow> parse_digits s (10 * acc + d))"

text \<open>\<open>str::parse::<usize>\<close>: an optional plus sign, then at least one digit, and no overflow.\<close>

definition parse_usize :: "string \<Rightarrow> nat option" where
  "parse_usize s =
     (case s of
        [] \<Rightarrow> None
      | ch # rest \<Rightarrow>
          (case parse_digits (if ch = CHR ''+'' \<and> rest \<noteq> [] then rest else s) 0 of
             None \<Rightarrow> None
           | Some n \<Rightarrow> if n < 2 ^ 64 then Some n else None))"

lemma digit_value_digit: "n < 10 \<Longrightarrow> digit_value (digit n) = Some n"
  by (simp add: digit_value_def digit_def)

lemma digit_not_plus: "n < 10 \<Longrightarrow> digit n \<noteq> CHR ''+''"
proof
  assume "n < 10" "digit n = CHR ''+''"
  then have "digit_value CHR ''+'' = Some n" using digit_value_digit by metis
  then show False by (simp add: digit_value_def)
qed

lemma parse_digits_append:
  "parse_digits (s @ [ch]) acc =
     (case parse_digits s acc of None \<Rightarrow> None | Some n \<Rightarrow> map_option (\<lambda>d. 10 * n + d) (digit_value ch))"
  by (induction s arbitrary: acc) (simp_all split: option.split)

lemma parse_decimal: "parse_digits (decimal n) 0 = Some n"
proof (induction n rule: decimal.induct)
  case (1 n)
  show ?case
  proof (cases "n < 10")
    case False
    with 1 show ?thesis
      by (subst decimal.simps) (simp add: parse_digits_append digit_value_digit)
  qed (simp add: decimal.simps digit_value_digit)
qed

lemma decimal_inj: "decimal m = decimal n \<longleftrightarrow> m = n"
  by (metis option.inject parse_decimal)

lemma decimal_head: "\<exists>d s. d < 10 \<and> decimal n = digit d # s"
proof (induction n rule: decimal.induct)
  case (1 n)
  then show ?case by (subst decimal.simps) (cases "n < 10"; force simp: decimal.simps [of n])
qed

lemma parse_usize_decimal: "n < 2 ^ 64 \<Longrightarrow> parse_usize (decimal n) = Some n"
proof -
  assume n: "n < 2 ^ 64"
  obtain d s where "d < 10" "decimal n = digit d # s" using decimal_head by blast
  then show ?thesis using n parse_decimal [of n] digit_not_plus [of d] by (simp add: parse_usize_def)
qed

lemma parse_usize_bound: "parse_usize s = Some n \<Longrightarrow> n < 2 ^ 64"
  by (auto simp: parse_usize_def split: list.splits option.splits if_splits)

section \<open>Prefixes and separators\<close>

fun strip_prefix :: "string \<Rightarrow> string \<Rightarrow> string option" where
  "strip_prefix [] s = Some s"
| "strip_prefix (p # ps) [] = None"
| "strip_prefix (p # ps) (ch # s) = (if p = ch then strip_prefix ps s else None)"

lemma strip_prefix_Some: "strip_prefix p s = Some r \<longleftrightarrow> s = p @ r"
  by (induction p s rule: strip_prefix.induct) auto

lemma strip_prefix_append [simp]: "strip_prefix p (p @ r) = Some r"
  by (simp add: strip_prefix_Some)

text \<open>\<open>str::rsplit_once\<close>: at the last occurrence.\<close>

definition rsplit_once :: "char \<Rightarrow> string \<Rightarrow> (string \<times> string) option" where
  "rsplit_once sep s =
     (if sep \<in> set s
      then Some (rev (tl (dropWhile (\<lambda>ch. ch \<noteq> sep) (rev s))), rev (takeWhile (\<lambda>ch. ch \<noteq> sep) (rev s)))
      else None)"

lemma rsplit_once_join: "sep \<notin> set b \<Longrightarrow> rsplit_once sep (a @ sep # b) = Some (a, b)"
  by (simp add: rsplit_once_def dropWhile_append takeWhile_append)

lemma rsplit_once_Some:
  assumes "rsplit_once sep s = Some (a, b)"
  shows "s = a @ sep # b \<and> sep \<notin> set b"
proof -
  have mem: "sep \<in> set (rev s)" and a: "a = rev (tl (dropWhile (\<lambda>ch. ch \<noteq> sep) (rev s)))"
    and b: "b = rev (takeWhile (\<lambda>ch. ch \<noteq> sep) (rev s))"
    using assms by (simp_all add: rsplit_once_def split: if_splits)
  then obtain rest where d: "dropWhile (\<lambda>ch. ch \<noteq> sep) (rev s) = sep # rest"
    by (metis (mono_tags, lifting) dropWhile_eq_Nil_conv hd_dropWhile list.exhaust_sel)
  have "rev s = takeWhile (\<lambda>ch. ch \<noteq> sep) (rev s) @ sep # rest"
    using takeWhile_dropWhile_id [of "\<lambda>ch. ch \<noteq> sep" "rev s"] d by simp
  then have "s = rev rest @ sep # b" unfolding b by (metis append.assoc append_Cons append_Nil rev.simps(2) rev_append rev_rev_ident)
  moreover have "a = rev rest" using a d by simp
  moreover have "sep \<notin> set b" unfolding b using set_takeWhileD by fastforce
  ultimately show ?thesis by simp
qed

section \<open>Bytes of a string\<close>

definition as_bytes :: "string \<Rightarrow> u8 list" where
  "as_bytes s = map of_char s"

lemma of_char_word_inj: "(of_char a :: u8) = of_char b \<longleftrightarrow> a = b"
proof
  assume "(of_char a :: u8) = of_char b"
  moreover have "unat (of_char x :: u8) = of_char x" for x
    by (cases x) (simp add: of_char_def horner_sum_simps)
  ultimately show "a = b" by (metis of_char_eq_iff)
qed simp

lemma as_bytes_inj: "as_bytes s = as_bytes t \<longleftrightarrow> s = t"
  by (simp add: as_bytes_def inj_map_eq_map inj_def of_char_word_inj)

lemma as_bytes_append [simp]: "as_bytes (s @ t) = as_bytes s @ as_bytes t"
  and length_as_bytes [simp]: "length (as_bytes s) = length s"
  by (simp_all add: as_bytes_def)

end
