(* ===== verification/Observer_Keys.thy ===== *)
theory Observer_Keys
  imports Crypto Text
begin

text \<open>
  \<open>types/src/ext_private_key.rs\<close>: the child keys of observers, derived from a validator's key by an
  additive tweak. Curve and scalar arithmetic (\<open>curve25519_dalek\<close>), SHA-512 and the message framing of
  the signature library are the record \<open>curve\<close>; \<open>curve_ok\<close> states the group laws and encodings the
  derivation relies on, and the key generation of the base key (RFC 8032). Keys are the words of their
  32 bytes. Shown: the public derivation gives the key of the derived signer, the signatures of a
  derived signer satisfy the Ed25519 equation, and derivations of different masters, namespaces or
  indexes hash different bytes.
\<close>

unbundle bit_operations_syntax

record ('s, 'p) curve =
  sc_add :: "'s \<Rightarrow> 's \<Rightarrow> 's"
  sc_mul :: "'s \<Rightarrow> 's \<Rightarrow> 's"
  from_bytes_mod_order :: "u8 list \<Rightarrow> 's"
  from_bytes_mod_order_wide :: "u8 list \<Rightarrow> 's"
  sc_as_bytes :: "'s \<Rightarrow> u8 list"
  sc_decode :: "u8 list \<Rightarrow> 's option"
  base_mul :: "'s \<Rightarrow> 'p"
  pt_add :: "'p \<Rightarrow> 'p \<Rightarrow> 'p"
  pt_mul :: "'s \<Rightarrow> 'p \<Rightarrow> 'p"
  compress :: "'p \<Rightarrow> bytes32"
  decompress :: "bytes32 \<Rightarrow> 'p option"
  sha512 :: "u8 list \<Rightarrow> u8 list"
  union_unique :: "u8 list \<Rightarrow> u8 list \<Rightarrow> u8 list"
  public_key_of :: "bytes32 \<Rightarrow> bytes32"

section \<open>Derivation\<close>

definition DERIVE_TAG :: "u8 list" where "DERIVE_TAG = as_bytes ''ed25519-additive-derive/tweak/v1''"
definition PREFIX_TAG :: "u8 list" where "PREFIX_TAG = as_bytes ''ed25519-additive-derive/prefix/v1''"

definition observer_path :: "u32 \<Rightarrow> u8 list" where
  "observer_path index = as_bytes (''m/seismic/observer/'' @ decimal (unat index))"

record 's ext_private_key =
  ek_scalar :: 's
  ek_prefix :: "u8 list"
  ek_index :: u32

definition expand_seed :: "('s, 'p) curve \<Rightarrow> bytes32 \<Rightarrow> 's \<times> u8 list" where
  "expand_seed g seed =
     (let h = sha512 g (to_be_bytes seed);
          a = take 32 h;
          a = a[0 := a ! 0 AND 248];
          a = a[31 := a ! 31 AND 127];
          a = a[31 := a ! 31 OR 64]
      in (from_bytes_mod_order g a, drop 32 h))"

definition tweak_input :: "bytes32 \<Rightarrow> u8 list \<Rightarrow> u8 list \<Rightarrow> u8 list" where
  "tweak_input master_pub namespace path =
     DERIVE_TAG @ to_be_bytes master_pub @ to_le_bytes (word_of_nat (length namespace) :: u64) @ namespace @ path"

definition compute_tweak :: "('s, 'p) curve \<Rightarrow> bytes32 \<Rightarrow> u8 list \<Rightarrow> u8 list \<Rightarrow> 's" where
  "compute_tweak g master_pub namespace path =
     from_bytes_mod_order_wide g (sha512 g (tweak_input master_pub namespace path))"

definition derive_child_signer :: "('s, 'p) curve \<Rightarrow> bytes32 \<Rightarrow> u8 list \<Rightarrow> u32 \<Rightarrow> 's ext_private_key" where
  "derive_child_signer g private_key namespace index =
     (let master_pub = public_key_of g private_key;
          (scalar, master_prefix) = expand_seed g private_key;
          t = compute_tweak g master_pub namespace (observer_path index);
          out = sha512 g (PREFIX_TAG @ master_prefix @ sc_as_bytes g t)
      in \<lparr>ek_scalar = sc_add g scalar t, ek_prefix = take 32 out, ek_index = index\<rparr>)"

text \<open>\<open>None\<close> is the failed expectation that a point's encoding decodes as a key.\<close>

definition ext_public_key :: "crypto \<Rightarrow> ('s, 'p) curve \<Rightarrow> 's ext_private_key \<Rightarrow> node_key option" where
  "ext_public_key c g key =
     (let bytes = compress g (base_mul g (ek_scalar key)) in if ed_key_ok c bytes then Some bytes else None)"

definition ext_sign ::
  "crypto \<Rightarrow> ('s, 'p) curve \<Rightarrow> 's ext_private_key \<Rightarrow> u8 list \<Rightarrow> u8 list \<Rightarrow> u8 list option" where
  "ext_sign c g key namespace msg =
     (let payload = union_unique g namespace msg
      in case ext_public_key c g key of
           None \<Rightarrow> None
         | Some pubkey \<Rightarrow>
             let r = from_bytes_mod_order_wide g (sha512 g (ek_prefix key @ payload));
                 r_point = compress g (base_mul g r);
                 k = from_bytes_mod_order_wide g (sha512 g (to_be_bytes r_point @ to_be_bytes pubkey @ payload));
                 s = sc_add g r (sc_mul g k (ek_scalar key))
             in Some (to_be_bytes r_point @ sc_as_bytes g s))"

definition derive_child_public ::
  "crypto \<Rightarrow> ('s, 'p) curve \<Rightarrow> node_key \<Rightarrow> u8 list \<Rightarrow> u32 \<Rightarrow> node_key option" where
  "derive_child_public c g master_pk namespace index =
     (case decompress g master_pk of
        None \<Rightarrow> None
      | Some a_point \<Rightarrow>
          let t = compute_tweak g master_pk namespace (observer_path index);
              bytes = compress g (pt_add g a_point (base_mul g t))
          in if ed_key_ok c bytes then Some bytes else None)"

primrec all_some :: "'a option list \<Rightarrow> 'a list option" where
  "all_some [] = Some []"
| "all_some (x # xs) = (case x of None \<Rightarrow> None | Some y \<Rightarrow> map_option ((#) y) (all_some xs))"

definition derive_observer_keys ::
  "crypto \<Rightarrow> ('s, 'p) curve \<Rightarrow> node_key list \<Rightarrow> u8 list \<Rightarrow> u32 \<Rightarrow> node_key list option" where
  "derive_observer_keys c g validator_pks namespace n =
     all_some (concat (map (\<lambda>pk. map (\<lambda>i. derive_child_public c g pk namespace (word_of_nat i)) [0 ..< unat n])
       validator_pks))"

section \<open>What the libraries promise\<close>

definition curve_ok :: "crypto \<Rightarrow> ('s, 'p) curve \<Rightarrow> bool" where
  "curve_ok c g \<longleftrightarrow>
     (\<forall>a b. base_mul g (sc_add g a b) = pt_add g (base_mul g a) (base_mul g b))
   \<and> (\<forall>k a. base_mul g (sc_mul g k a) = pt_mul g k (base_mul g a))
   \<and> (\<forall>p. decompress g (compress g p) = Some p) \<and> (\<forall>p. ed_key_ok c (compress g p))
   \<and> (\<forall>s. sc_decode g (sc_as_bytes g s) = Some s \<and> length (sc_as_bytes g s) = 32)
   \<and> (\<forall>seed. public_key_of g seed = compress g (base_mul g (fst (expand_seed g seed))))"

text \<open>The verification equation of RFC 8032.\<close>

definition ed25519_accepts :: "('s, 'p) curve \<Rightarrow> node_key \<Rightarrow> u8 list \<Rightarrow> u8 list \<Rightarrow> bool" where
  "ed25519_accepts g pk payload sig \<longleftrightarrow>
     (case (decompress g (from_be_bytes (take 32 sig)), decompress g pk, sc_decode g (drop 32 sig)) of
        (Some r, Some a, Some s) \<Rightarrow>
          base_mul g s = pt_add g r
            (pt_mul g (from_bytes_mod_order_wide g (sha512 g (take 32 sig @ to_be_bytes pk @ payload))) a)
      | _ \<Rightarrow> False)"

lemma child_scalar:
  "ek_scalar (derive_child_signer g seed ns i) =
     sc_add g (fst (expand_seed g seed)) (compute_tweak g (public_key_of g seed) ns (observer_path i))"
  by (simp add: derive_child_signer_def Let_def split: prod.split)

lemma child_public:
  assumes "curve_ok c g"
  shows "ext_public_key c g (derive_child_signer g seed ns i) = derive_child_public c g (public_key_of g seed) ns i"
    and "ext_public_key c g key = Some (compress g (base_mul g (ek_scalar key)))"
proof -
  have pub: "public_key_of g seed = compress g (base_mul g (fst (expand_seed g seed)))"
    and dec: "\<And>p. decompress g (compress g p) = Some p" and ok: "\<And>p. ed_key_ok c (compress g p)"
    and add: "\<And>a b. base_mul g (sc_add g a b) = pt_add g (base_mul g a) (base_mul g b)"
    using assms by (simp_all add: curve_ok_def)
  show "ext_public_key c g key = Some (compress g (base_mul g (ek_scalar key)))"
    by (simp add: ext_public_key_def ok)
  show "ext_public_key c g (derive_child_signer g seed ns i) = derive_child_public c g (public_key_of g seed) ns i"
    by (simp add: ext_public_key_def derive_child_public_def child_scalar pub dec ok add Let_def)
qed

lemma signature_accepted:
  assumes g: "curve_ok c g" and s: "ext_sign c g key ns msg = Some sig"
    and pk: "ext_public_key c g key = Some pk"
  shows "length sig = 64 \<and> ed25519_accepts g pk (union_unique g ns msg) sig"
proof -
  note pub = child_public(2) [OF g, of key]
  define r where "r = from_bytes_mod_order_wide g (sha512 g (ek_prefix key @ union_unique g ns msg))"
  let ?R = "compress g (base_mul g r)" and ?A = "compress g (base_mul g (ek_scalar key))"
  define k where "k = from_bytes_mod_order_wide g (sha512 g (to_be_bytes ?R @ to_be_bytes ?A @ union_unique g ns msg))"
  define t where "t = sc_add g r (sc_mul g k (ek_scalar key))"
  have sig: "sig = to_be_bytes ?R @ sc_as_bytes g t" and A: "pk = ?A"
    using s pk by (simp_all add: ext_sign_def pub r_def k_def t_def Let_def)
  have laws: "\<And>p. decompress g (compress g p) = Some p" "\<And>s. sc_decode g (sc_as_bytes g s) = Some s"
    "\<And>s. length (sc_as_bytes g s) = 32"
    "base_mul g t = pt_add g (base_mul g r) (pt_mul g k (base_mul g (ek_scalar key)))"
    using g by (simp_all add: curve_ok_def t_def)
  then show ?thesis
    by (simp add: sig A ed25519_accepts_def from_to_be_bytes k_def [symmetric])
qed

lemma tweak_input_inj:
  assumes "length ns < 2 ^ 64" "length ns' < 2 ^ 64" "tweak_input m ns (observer_path i) = tweak_input m' ns' (observer_path i')"
  shows "m = m' \<and> ns = ns' \<and> i = i'"
proof -
  let ?l = "to_le_bytes (word_of_nat (length ns) :: u64)" and ?l' = "to_le_bytes (word_of_nat (length ns') :: u64)"
  have "to_be_bytes m @ ?l @ ns @ observer_path i = to_be_bytes m' @ ?l' @ ns' @ observer_path i'"
    using assms(3) by (simp add: tweak_input_def)
  then have m: "to_be_bytes m = to_be_bytes m'" and "?l @ ns @ observer_path i = ?l' @ ns' @ observer_path i'"
    by (simp_all add: append_eq_append_conv)
  then have l: "?l = ?l'" and r: "ns @ observer_path i = ns' @ observer_path i'"
    by (simp_all add: append_eq_append_conv)
  have "m = m'" using arg_cong [OF m, of "from_be_bytes :: _ \<Rightarrow> bytes32"] by (simp add: from_to_be_bytes)
  have "(word_of_nat (length ns) :: u64) = word_of_nat (length ns')"
    using arg_cong [OF l, of "from_le_bytes :: _ \<Rightarrow> u64"] by (simp add: from_to_le_bytes)
  moreover have "unat (word_of_nat n :: u64) = n" if "n < 2 ^ 64" for n
    by (rule unat_word_of_nat) (use that in simp)
  ultimately have "length ns = length ns'" using assms(1,2) by metis
  with r have "ns = ns'" "observer_path i = observer_path i'" by simp_all
  moreover from this(2) have "i = i'"
    unfolding observer_path_def as_bytes_inj same_append_eq decimal_inj by (rule unsigned_word_eqI)
  ultimately show ?thesis using \<open>m = m'\<close> by simp
qed

lemma all_some_map: "(\<And>x. x \<in> set xs \<Longrightarrow> f x = Some (h x)) \<Longrightarrow> all_some (map f xs) = Some (map h xs)"
  by (induction xs) simp_all

lemma all_some_length: "all_some xs = Some ys \<Longrightarrow> length ys = length xs"
  by (induction xs arbitrary: ys) (auto split: option.splits)

text \<open>C36. Observer keys. The public derivation from a validator's key gives exactly the key of the
  signer derived from its private key, for every namespace and index; the signatures that signer
  makes satisfy the Ed25519 verification equation under that key; the tweaks of two derivations hash
  the same bytes only when master key, namespace and index are the same; and a validator set has
  exactly the configured number of observer keys per validator.\<close>

theorem observer_keys_match:
  assumes "curve_ok c g"
  shows "(\<forall>seed ns i. \<exists>pk. derive_child_public c g (public_key_of g seed) ns i = Some pk
        \<and> ext_public_key c g (derive_child_signer g seed ns i) = Some pk
        \<and> (\<forall>scope msg. \<exists>sig. ext_sign c g (derive_child_signer g seed ns i) scope msg = Some sig \<and> length sig = 64
             \<and> ed25519_accepts g pk (union_unique g scope msg) sig))
    \<and> (\<forall>m m' ns ns' i i'. length ns < 2 ^ 64 \<longrightarrow> length ns' < 2 ^ 64 \<longrightarrow>
        tweak_input m ns (observer_path i) = tweak_input m' ns' (observer_path i') \<longrightarrow> m = m' \<and> ns = ns' \<and> i = i')
    \<and> (\<forall>pks ns n keys. derive_observer_keys c g pks ns n = Some keys \<longrightarrow> length keys = length pks * unat n)"
proof (intro conjI allI impI)
  fix seed ns i
  let ?key = "derive_child_signer g seed ns i"
  let ?pk = "compress g (base_mul g (ek_scalar ?key))"
  note pub = child_public(1) [OF assms, of seed ns i] child_public(2) [OF assms, of ?key]
  have "\<exists>sig. ext_sign c g ?key scope msg = Some sig" for scope msg by (simp add: ext_sign_def pub(2) Let_def)
  then have "\<exists>sig. ext_sign c g ?key scope msg = Some sig \<and> length sig = 64
      \<and> ed25519_accepts g ?pk (union_unique g scope msg) sig" for scope msg
    using signature_accepted [OF assms _ pub(2)] by blast
  then show "\<exists>pk. derive_child_public c g (public_key_of g seed) ns i = Some pk
      \<and> ext_public_key c g ?key = Some pk
      \<and> (\<forall>scope msg. \<exists>sig. ext_sign c g ?key scope msg = Some sig \<and> length sig = 64
           \<and> ed25519_accepts g pk (union_unique g scope msg) sig)"
    using pub by (intro exI [of _ ?pk]) simp
next
  fix pks ns n keys assume "derive_observer_keys c g pks ns n = Some keys"
  then have "length keys = length (concat (map (\<lambda>pk. map (\<lambda>i. derive_child_public c g pk ns (word_of_nat i)) [0 ..< unat n]) pks))"
    unfolding derive_observer_keys_def by (rule all_some_length)
  then show "length keys = length pks * unat n" by (simp add: length_concat o_def sum_list_triv)
qed (use tweak_input_inj in blast)+

definition demo_curve :: "(bytes32, bytes32) curve" where
  "demo_curve = \<lparr>
     sc_add = (+), sc_mul = (*), from_bytes_mod_order = from_be_bytes, from_bytes_mod_order_wide = from_be_bytes,
     sc_as_bytes = to_be_bytes, sc_decode = (\<lambda>bs. Some (from_be_bytes bs)),
     base_mul = (\<lambda>s. 9 * s), pt_add = (+), pt_mul = (*), compress = id, decompress = Some,
     sha512 = (\<lambda>bs. replicate 64 (word_of_nat (length bs))), union_unique = (@),
     public_key_of = (\<lambda>seed. 9 * fst (expand_seed \<lparr>
       sc_add = (+), sc_mul = (*), from_bytes_mod_order = from_be_bytes, from_bytes_mod_order_wide = from_be_bytes,
       sc_as_bytes = to_be_bytes, sc_decode = (\<lambda>bs. Some (from_be_bytes bs)),
       base_mul = (\<lambda>s. 9 * s), pt_add = (+), pt_mul = (*), compress = id, decompress = Some,
       sha512 = (\<lambda>bs. replicate 64 (word_of_nat (length bs))), union_unique = (@), public_key_of = id\<rparr> seed))\<rparr>"

lemma demo_curve_ok: "curve_ok demo_crypto demo_curve"
  by (simp add: curve_ok_def demo_curve_def expand_seed_def Let_def from_to_be_bytes distrib_left)

theorem observer_keys_match_witness:
  "\<exists>pk. derive_child_public demo_crypto demo_curve (public_key_of demo_curve 3) [1] 0 = Some pk
     \<and> ext_public_key demo_crypto demo_curve (derive_child_signer demo_curve 3 [1] 0) = Some pk"
  using observer_keys_match [OF demo_curve_ok] by blast

end
