(* ===== verification/Finalizer.thy ===== *)
theory Finalizer
  imports Block_Execution Finalizer_Db Observer_Keys "HOL-Library.While_Combinator" "HOL-Library.Product_Lexorder"
begin

text \<open>
  The finalizer actor, \<open>finalizer/src/actor.rs\<close>: its state, one definition per handler, and the
  step of its event loop. What the actor sends (acknowledgements, answers to waiters, peer sets,
  messages to the orchestrator) is appended to \<open>f_outputs\<close> in the order the code sends it; a
  one-shot response channel is a number. The execution client, the key-value store, the curve and
  the certificate parser are arguments, gathered with the actor's configuration in the record
  \<open>setting\<close>. \<open>None\<close> is a panic; the loops over work lists are \<open>while_option\<close>, which is \<open>None\<close> for
  a loop that does not end. Clocks, metrics and logs are left out.
\<close>

section \<open>State\<close>

record fork_state =
  fs_block_digest :: digest
  fs_parent_digest :: digest
  fs_consensus_state :: consensus_state

record pending_finalized =
  pf_block :: block
  pf_finalization :: "finalization option"
  pf_ack :: nat

record block_aux_data =
  aux_epoch :: u64
  aux_withdrawals :: "eip4895_withdrawal list"
  aux_checkpoint_hash :: "digest option"
  aux_header_hash :: digest
  aux_added_validators :: "added_validator list"
  aux_removed_validators :: "node_key list"
  aux_forkchoice :: forkchoice_state
  aux_suggested_fee_recipient :: address
  aux_treasury_address :: address
  aux_state_root :: bytes32
  aux_allowed_timestamp_future_ms :: u64

datatype message =
    Acknowledged nat
  | Answered nat bool
  | Tracked u64 "node_key list" "node_key list"
  | Entered u64 "(node_key \<times> bls_key) list"
  | Exited u64
  | AuxData nat "block_aux_data option"
  | EpochGenesis nat "bytes32 option"

record ('e, 'd, 's, 'p) setting =
  st_crypto :: crypto
  st_wire :: wire
  st_engine :: "'e engine"
  st_kv :: "'d kv"
  st_curve :: "('s, 'p) curve"
  st_signers :: "finalization \<Rightarrow> nat"
  st_warn_threshold :: nat
  st_pending_notarized_max :: nat
  st_genesis_hash :: bytes32
  st_protocol_consts :: protocol_consts
  st_deposit_domain :: digest
  st_node_public_key :: node_key
  st_observer_domain :: "u8 list"

record ('e, 'd) finalizer =
  f_pending_height_notifys :: "(u64 \<times> digest, nat list) btree"
  f_engine :: 'e
  f_db :: "'d finalizer_db"
  f_canonical :: consensus_state
  f_fork_states :: "(u64, (digest, fork_state) btree) btree"
  f_dead :: "(u64 \<times> digest) set"
  f_orphans :: "(u64, (digest, block list) btree) btree"
  f_pending_finalized :: "pending_finalized list"
  f_pending_notarized :: "block list"
  f_pending_notarized_keys :: "digest set"
  f_pending_warn_active :: bool
  f_validator_exit :: bool
  f_stopped :: bool
  f_outputs :: "message list"

definition send :: "message list \<Rightarrow> ('e, 'd) finalizer \<Rightarrow> ('e, 'd) finalizer" where
  "send os f = f\<lparr>f_outputs := f_outputs f @ os\<rparr>"

definition answer :: "nat list \<Rightarrow> bool \<Rightarrow> ('e, 'd) finalizer \<Rightarrow> ('e, 'd) finalizer" where
  "answer senders v = send (map (\<lambda>i. Answered i v) senders)"

text \<open>\<open>f.fork_states.get(&h).and_then(|forks| forks.get(&d))\<close>, and the same for the orphans.\<close>

definition fork_at :: "('e, 'd) finalizer \<Rightarrow> u64 \<Rightarrow> digest \<Rightarrow> fork_state option" where
  "fork_at f h d = (case bt_get (f_fork_states f) h of None \<Rightarrow> None | Some forks \<Rightarrow> bt_get forks d)"

definition orphans_at :: "('e, 'd) finalizer \<Rightarrow> u64 \<Rightarrow> digest \<Rightarrow> block list" where
  "orphans_at f h d =
     (case bt_get (f_orphans f) h of
        None \<Rightarrow> []
      | Some children_map \<Rightarrow> (case bt_get children_map d of None \<Rightarrow> [] | Some children \<Rightarrow> children))"

definition entry_or_default :: "('k, ('a, 'b) btree) btree \<Rightarrow> 'k \<Rightarrow> ('a, 'b) btree" where
  "entry_or_default m k = (case bt_get m k of None \<Rightarrow> [] | Some v \<Rightarrow> v)"

definition finalizer_new ::
  "'d kv \<Rightarrow> 'e \<Rightarrow> 'd finalizer_db \<Rightarrow> consensus_state \<Rightarrow> ('e, 'd) finalizer option" where
  "finalizer_new kv es db initial_state =
     (case get_latest_consensus_state kv db of
        None \<Rightarrow> None
      | Some (loaded, db1) \<Rightarrow>
          Some \<lparr>f_pending_height_notifys = [], f_engine = es, f_db = db1,
            f_canonical = (case loaded of Some state \<Rightarrow> state | None \<Rightarrow> initial_state),
            f_fork_states = [], f_dead = {}, f_orphans = [], f_pending_finalized = [],
            f_pending_notarized = [], f_pending_notarized_keys = {}, f_pending_warn_active = False,
            f_validator_exit = False, f_stopped = False, f_outputs = []\<rparr>)"

section \<open>Waiters, pruning and the warning\<close>

definition height_notify_executed :: "u64 \<Rightarrow> digest \<Rightarrow> ('e, 'd) finalizer \<Rightarrow> ('e, 'd) finalizer" where
  "height_notify_executed height d f =
     (case bt_get (f_pending_height_notifys f) (height, d) of
        None \<Rightarrow> f
      | Some senders \<Rightarrow>
          answer senders True
            (f\<lparr>f_pending_height_notifys := bt_remove (height, d) (f_pending_height_notifys f)\<rparr>))"

primrec notify_walk ::
  "u64 \<Rightarrow> digest \<Rightarrow> ((u64 \<times> digest) \<times> nat list) list \<Rightarrow> ('e, 'd) finalizer \<Rightarrow> ('e, 'd) finalizer" where
  "notify_walk height d [] f = f"
| "notify_walk height d (p # pending) f =
     (let ((waiter_height, waiter_digest), senders) = p
      in notify_walk height d pending
           (if waiter_height > height
            then f\<lparr>f_pending_height_notifys :=
                     bt_insert (waiter_height, waiter_digest) senders (f_pending_height_notifys f)\<rparr>
            else answer senders (waiter_height = height \<and> waiter_digest = d) f))"

definition height_notify_finalized_up_to :: "u64 \<Rightarrow> digest \<Rightarrow> ('e, 'd) finalizer \<Rightarrow> ('e, 'd) finalizer" where
  "height_notify_finalized_up_to height d f =
     notify_walk height d (f_pending_height_notifys f) (f\<lparr>f_pending_height_notifys := []\<rparr>)"

text \<open>The walk over the fork heights, upwards: what stays, and the forks that died.\<close>

primrec prune_walk ::
  "digest set \<Rightarrow> (u64, (digest, fork_state) btree) btree
     \<Rightarrow> (u64, (digest, fork_state) btree) btree \<times> (u64 \<times> digest) list" where
  "prune_walk live_parents [] = ([], [])"
| "prune_walk live_parents (p # rest) =
     (let (fork_height, forks) = p;
          kept = filter (\<lambda>(_, fs). fs_parent_digest fs \<in> live_parents) forks;
          dead = filter (\<lambda>(_, fs). fs_parent_digest fs \<notin> live_parents) forks;
          (rest', dead') = prune_walk (fst ` set kept) rest
      in ((if kept = [] then rest' else (fork_height, kept) # rest'),
          map (\<lambda>(d, _). (fork_height, d)) dead @ dead'))"

definition bury :: "u64 \<times> digest \<Rightarrow> ('e, 'd) finalizer \<Rightarrow> ('e, 'd) finalizer" where
  "bury k f =
     (let f1 = f\<lparr>f_dead := insert k (f_dead f)\<rparr>
      in case bt_get (f_pending_height_notifys f1) k of
           None \<Rightarrow> f1
         | Some senders \<Rightarrow>
             answer senders False (f1\<lparr>f_pending_height_notifys := bt_remove k (f_pending_height_notifys f1)\<rparr>))"

definition prune_fork_states_not_descending_from ::
  "u64 \<Rightarrow> digest \<Rightarrow> ('e, 'd) finalizer \<Rightarrow> ('e, 'd) finalizer" where
  "prune_fork_states_not_descending_from height d f =
     (let above = filter (\<lambda>(h, _). height + 1 \<le> h) (f_fork_states f);
          below = filter (\<lambda>(h, _). \<not> height + 1 \<le> h) (f_fork_states f);
          (kept, dead) = prune_walk {d} above
      in fold bury dead (f\<lparr>f_fork_states := below @ kept\<rparr>))"

definition update_pending_warn :: "('e, 'd, 's, 'p) setting \<Rightarrow> ('e, 'd) finalizer \<Rightarrow> ('e, 'd) finalizer" where
  "update_pending_warn E f =
     (let over_threshold = (length (f_pending_finalized f) \<ge> st_warn_threshold E
                          \<or> length (f_pending_notarized f) \<ge> st_warn_threshold E)
      in if over_threshold \<and> \<not> f_pending_warn_active f then f\<lparr>f_pending_warn_active := True\<rparr>
         else if \<not> over_threshold \<and> f_pending_warn_active f then f\<lparr>f_pending_warn_active := False\<rparr>
         else f)"

section \<open>Notarized blocks\<close>

text \<open>One round of the work list: the block is dropped, kept for later, or executed into a fork, in
  which case the orphans waiting for it are the next blocks to process.\<close>

datatype visit = Dropped | Deferred | Executed "block list" | Halted string

definition defer_notarized ::
  "('e, 'd, 's, 'p) setting \<Rightarrow> block \<Rightarrow> ('e, 'd) finalizer \<Rightarrow> visit \<times> ('e, 'd) finalizer" where
  "defer_notarized E b f =
     (let d = block_digest (st_crypto E) (st_wire E) b
      in if d \<in> f_pending_notarized_keys f then (Deferred, f)
         else if length (f_pending_notarized f) \<ge> st_pending_notarized_max E
              then (Halted ''pending notarized buffer reached hard cap'', f)
         else (Deferred, update_pending_warn E
                 (f\<lparr>f_pending_notarized_keys := insert d (f_pending_notarized_keys f),
                    f_pending_notarized := f_pending_notarized f @ [b]\<rparr>)))"

definition keep_orphan :: "block \<Rightarrow> ('e, 'd) finalizer \<Rightarrow> ('e, 'd) finalizer" where
  "keep_orphan b f =
     (let height = h_height (b_header b); parent_digest = h_parent (b_header b);
          children_map = entry_or_default (f_orphans f) height
      in f\<lparr>f_orphans := bt_insert height
             (bt_insert parent_digest (orphans_at f height parent_digest @ [b]) children_map) (f_orphans f)\<rparr>)"

definition store_fork :: "u64 \<Rightarrow> fork_state \<Rightarrow> ('e, 'd) finalizer \<Rightarrow> ('e, 'd) finalizer" where
  "store_fork height fs f =
     f\<lparr>f_fork_states := bt_insert height
         (bt_insert (fs_block_digest fs) fs (entry_or_default (f_fork_states f) height)) (f_fork_states f)\<rparr>"

text \<open>The parent state of a block above the canonical height: \<open>None\<close> discards the block, \<open>Some None\<close>
  is a parent that is not known.\<close>

definition parent_state :: "('e, 'd) finalizer \<Rightarrow> block \<Rightarrow> consensus_state option option" where
  "parent_state f b =
     (let height = h_height (b_header b); parent_digest = h_parent (b_header b); s = f_canonical f
      in if height = cs_latest_height s + 1
         then (if cs_latest_height s > 0 \<and> parent_digest \<noteq> cs_head_digest s then None else Some (Some (cs_clone s)))
         else Some (map_option (\<lambda>fs. cs_clone (fs_consensus_state fs)) (fork_at f (height - 1) parent_digest)))"

definition visit_notarized ::
  "('e, 'd, 's, 'p) setting \<Rightarrow> block \<Rightarrow> ('e, 'd) finalizer \<Rightarrow> (visit \<times> ('e, 'd) finalizer) option" where
  "visit_notarized E b f =
     (let c = st_crypto E; w = st_wire E; height = h_height (b_header b); d = block_digest c w b
      in if height \<le> cs_latest_height (f_canonical f) then Some (Dropped, f)
         else if (height, d) \<in> f_dead f then Some (Dropped, f)
         else if fork_at f height d \<noteq> None then Some (Dropped, f)
         else case parent_state f b of
           None \<Rightarrow> Some (Dropped, f)
         | Some None \<Rightarrow> Some (Dropped, keep_orphan b f)
         | Some (Some s) \<Rightarrow>
             (case execute_block c w (st_engine E) (st_protocol_consts E) (st_deposit_domain E) b
                     (Some (fc_finalized_block_hash (cs_forkchoice (f_canonical f)))) (f_engine f) s of
                None \<Rightarrow> None
              | Some (Inl e, es, _) \<Rightarrow> Some (Halted e, f\<lparr>f_engine := es\<rparr>)
              | Some (Inr Syncing, es, _) \<Rightarrow> Some (defer_notarized E b (f\<lparr>f_engine := es\<rparr>))
              | Some (Inr InvalidPayload, es, _) \<Rightarrow> Some (Dropped, f\<lparr>f_engine := es\<rparr>)
              | Some (Inr Applied, es, s1) \<Rightarrow>
                  let f1 = store_fork height \<lparr>fs_block_digest = d, fs_parent_digest = h_parent (b_header b),
                             fs_consensus_state = cs_clone s1\<rparr> (f\<lparr>f_engine := es\<rparr>);
                      f2 = height_notify_executed height d f1
                  in Some (Executed (orphans_at f2 (height + 1) d), f2)))"

text \<open>The loop: the work list, the outcome so far (\<open>None\<close> for a panic) and the actor.\<close>

datatype note_outcome = NApplied | NBuffered

type_synonym ('e, 'd) note_state = "block list \<times> (string + note_outcome) option \<times> ('e, 'd) finalizer"

definition note_running :: "('e, 'd) note_state \<Rightarrow> bool" where
  "note_running st = (case st of (to_process, outcome, _) \<Rightarrow>
     to_process \<noteq> [] \<and> (case outcome of Some (Inr _) \<Rightarrow> True | _ \<Rightarrow> False))"

definition note_round :: "('e, 'd, 's, 'p) setting \<Rightarrow> ('e, 'd) note_state \<Rightarrow> ('e, 'd) note_state" where
  "note_round E st = (case st of (to_process, outcome, f) \<Rightarrow>
     (case visit_notarized E (last to_process) f of
        None \<Rightarrow> (butlast to_process, None, f)
      | Some (Dropped, f1) \<Rightarrow> (butlast to_process, outcome, f1)
      | Some (Deferred, f1) \<Rightarrow> (butlast to_process, Some (Inr NBuffered), f1)
      | Some (Executed children, f1) \<Rightarrow> (butlast to_process @ children, outcome, f1)
      | Some (Halted e, f1) \<Rightarrow> (butlast to_process, Some (Inl e), f1)))"

definition note_loop ::
  "('e, 'd, 's, 'p) setting \<Rightarrow> block \<Rightarrow> ('e, 'd) finalizer \<Rightarrow> ('e, 'd) note_state option" where
  "note_loop E b f = while_option note_running (note_round E) ([b], Some (Inr NApplied), f)"

definition handle_notarized_block ::
  "('e, 'd, 's, 'p) setting \<Rightarrow> block \<Rightarrow> ('e, 'd) finalizer
     \<Rightarrow> ((string + note_outcome) \<times> ('e, 'd) finalizer) option" where
  "handle_notarized_block E b f =
     (case note_loop E b f of
        Some (_, Some r, f1) \<Rightarrow> Some (r, f1)
      | _ \<Rightarrow> None)"

section \<open>Finalized blocks\<close>

text \<open>\<open>Inr None\<close> is \<open>Applied\<close>, \<open>Inr (Some entry)\<close> hands the deferred entry back.\<close>

type_synonym ('e, 'd) finalized_result = "((string + pending_finalized option) \<times> ('e, 'd) finalizer) option"

text \<open>Promotion of the block to the canonical state: the state of its fork when it was executed at
  notarization, execution otherwise. \<open>Inr True\<close> has promoted, \<open>Inr False\<close> is a client still syncing.\<close>

definition promote ::
  "('e, 'd, 's, 'p) setting \<Rightarrow> block \<Rightarrow> ('e, 'd) finalizer \<Rightarrow> ((string + bool) \<times> ('e, 'd) finalizer) option" where
  "promote E b f =
     (let c = st_crypto E; w = st_wire E; height = h_height (b_header b); d = block_digest c w b
      in case fork_at f height d of
           Some fs \<Rightarrow>
             if fs_block_digest fs \<noteq> d then None
             else Some (case commit_forkchoice (st_engine E) (block_forkchoice c w b None) (f_engine f) of
               (Inl e, es) \<Rightarrow> (Inl e, f\<lparr>f_engine := es\<rparr>)
             | (Inr Syncing, es) \<Rightarrow> (Inr False, f\<lparr>f_engine := es\<rparr>)
             | (Inr InvalidPayload, es) \<Rightarrow> (Inl ''non-valid finalized forkchoice'', f\<lparr>f_engine := es\<rparr>)
             | (Inr Applied, es) \<Rightarrow>
                 let live_epocher = replace_with (cs_epocher (fs_consensus_state fs)) (cs_epocher (f_canonical f))
                 in (Inr True, f\<lparr>f_engine := es,
                       f_canonical := clone_with_epocher live_epocher (fs_consensus_state fs)\<rparr>))
         | None \<Rightarrow>
             if h_parent (b_header b) \<noteq> cs_head_digest (f_canonical f)
             then Some (Inl ''does not extend canonical head'', f)
             else case execute_block c w (st_engine E) (st_protocol_consts E) (st_deposit_domain E) b None
                         (f_engine f) (f_canonical f) of
               None \<Rightarrow> None
             | Some (Inl e, es, s) \<Rightarrow> Some (Inl e, f\<lparr>f_engine := es, f_canonical := s\<rparr>)
             | Some (Inr Applied, es, s) \<Rightarrow> Some (Inr True, f\<lparr>f_engine := es, f_canonical := s\<rparr>)
             | Some (Inr Syncing, es, s) \<Rightarrow> Some (Inr False, f\<lparr>f_engine := es, f_canonical := s\<rparr>)
             | Some (Inr InvalidPayload, es, s) \<Rightarrow>
                 Some (Inl ''rejected by the execution client'', f\<lparr>f_engine := es, f_canonical := s\<rparr>))"

text \<open>From the promotion to the notification of the waiters.\<close>

definition settle :: "('e, 'd, 's, 'p) setting \<Rightarrow> block \<Rightarrow> ('e, 'd) finalizer \<Rightarrow> ('e, 'd) finalizer" where
  "settle E b f =
     (let height = h_height (b_header b); d = block_digest (st_crypto E) (st_wire E) b;
          f1 = f\<lparr>f_canonical := set_forkchoice_safe_and_finalized (st_crypto E)
                   (fc_head_block_hash (cs_forkchoice (f_canonical f))) (f_canonical f)\<rparr>;
          f2 = f1\<lparr>f_fork_states := filter (\<lambda>(h, _). h > height) (f_fork_states f1)\<rparr>;
          f3 = prune_fork_states_not_descending_from height d f2;
          f4 = f3\<lparr>f_dead := Set.filter (\<lambda>(h, _). h > height) (f_dead f3)\<rparr>;
          f5 = f4\<lparr>f_orphans := filter (\<lambda>(h, _). h > height) (f_orphans f4)\<rparr>
      in height_notify_finalized_up_to height d f5)"

text \<open>The peer set of an epoch: the active validators are primary, the joining ones and the
  observers of both secondary.\<close>

definition track_epoch :: "('e, 'd, 's, 'p) setting \<Rightarrow> consensus_state \<Rightarrow> message option" where
  "track_epoch E s =
     (case (get_active_validators (st_crypto E) s, get_active_or_joining_validators (st_crypto E) s) of
        (Some active, Some active_or_joining) \<Rightarrow>
          let active_node_keys = map fst active; active_or_joining_node_keys = map fst active_or_joining;
              joining_node_keys = filter (\<lambda>k. k \<notin> set active_node_keys) active_or_joining_node_keys
          in (case derive_observer_keys (st_crypto E) (st_curve E) active_or_joining_node_keys
                     (st_observer_domain E) (cs_observers_per_validator s) of
                None \<Rightarrow> None
              | Some observer_keys \<Rightarrow> Some (Tracked (cs_epoch s) active_node_keys (joining_node_keys @ observer_keys)))
      | _ \<Rightarrow> None)"

text \<open>After the commit of the boundary: acknowledge, publish the peer set, start the next epoch and
  stop the old one.\<close>

definition announce_epoch ::
  "('e, 'd, 's, 'p) setting \<Rightarrow> pending_finalized \<Rightarrow> ('e, 'd) finalizer \<Rightarrow> ('e, 'd) finalizer option" where
  "announce_epoch E entry f =
     (let s = f_canonical f
      in case (track_epoch E s, get_active_validators (st_crypto E) s) of
           (Some tracked, Some active) \<Rightarrow>
             Some (send [Acknowledged (pf_ack entry), tracked, Entered (cs_epoch s) active, Exited (cs_epoch s - 1)] f)
         | _ \<Rightarrow> None)"

text \<open>The writes of the boundary: the finalized header, the checkpoint when there is one, the state
  of the next epoch, and the commit. The first error ends it.\<close>

definition store_boundary ::
  "('e, 'd, 's, 'p) setting \<Rightarrow> block \<Rightarrow> ('e, 'd) finalizer \<Rightarrow> ((string + unit) \<times> ('e, 'd) finalizer) option" where
  "store_boundary E b f =
     (case take_pending_checkpoint (st_crypto E) (f_canonical f) of (ck, s3) \<Rightarrow>
      (case (case ck of
               None \<Rightarrow> Some (Inr (), f_db f)
             | Some checkpoint \<Rightarrow> store_finalized_checkpoint (st_kv E) (cs_epoch s3) checkpoint b (f_db f)) of
         None \<Rightarrow> None
       | Some (Inl e, db1) \<Rightarrow> Some (Inl e, f\<lparr>f_db := db1, f_canonical := s3\<rparr>)
       | Some (Inr _, db1) \<Rightarrow>
           let s4 = enter_next_epoch (st_crypto E) (st_wire E) b s3
           in (case store_consensus_state (st_kv E) (cs_epoch s4) s4 db1 of
                 None \<Rightarrow> None
               | Some (Inl e, db2) \<Rightarrow> Some (Inl e, f\<lparr>f_db := db2, f_canonical := s4\<rparr>)
               | Some (Inr _, db2) \<Rightarrow>
                   let (r, db3) = db_commit (st_kv E) db2
                   in Some (r, f\<lparr>f_db := db3, f_canonical := s4\<rparr>))))"

definition boundary ::
  "('e, 'd, 's, 'p) setting \<Rightarrow> pending_finalized \<Rightarrow> ('e, 'd) finalizer
     \<Rightarrow> ((string + unit) \<times> ('e, 'd) finalizer) option" where
  "boundary E entry f =
     (let c = st_crypto E; b = pf_block entry
      in case pf_finalization entry of
           None \<Rightarrow> None
         | Some fin \<Rightarrow>
             (case store_finalized_header (st_kv E) (cs_epoch (f_canonical f))
                     (finalized_header_new_unchecked (b_header b) fin (st_signers E fin)) (f_db f) of
                None \<Rightarrow> None
              | Some (Inl e, db1) \<Rightarrow> Some (Inl e, f\<lparr>f_db := db1\<rparr>)
              | Some (Inr _, db1) \<Rightarrow>
                  (case apply_protocol_parameter_changes c (f_canonical f) of
                     None \<Rightarrow> None
                   | Some (_, s1) \<Rightarrow>
                       (case apply_committee_transition c (st_node_public_key E) s1 of
                          None \<Rightarrow> None
                        | Some (validator_exit, s2) \<Rightarrow>
                            (case store_boundary E b (f\<lparr>f_db := db1, f_validator_exit := validator_exit,
                                                        f_canonical := s2\<rparr>) of
                               None \<Rightarrow> None
                             | Some (Inl e, f2) \<Rightarrow> Some (Inl e, f2)
                             | Some (Inr _, f2) \<Rightarrow> map_option (Pair (Inr ())) (announce_epoch E entry f2))))))"

text \<open>The orphans whose parent was just finalized, each handled as a notarized block.\<close>

definition take_orphans :: "u64 \<Rightarrow> digest \<Rightarrow> ('e, 'd) finalizer \<Rightarrow> block list \<times> ('e, 'd) finalizer" where
  "take_orphans height d f =
     (case bt_get (f_orphans f) height of
        None \<Rightarrow> ([], f)
      | Some children_map \<Rightarrow>
          let rest = bt_remove d children_map
          in (orphans_at f height d,
              f\<lparr>f_orphans := (if rest = [] then bt_remove height (f_orphans f)
                              else bt_insert height rest (f_orphans f))\<rparr>))"

primrec readopt ::
  "('e, 'd, 's, 'p) setting \<Rightarrow> block list \<Rightarrow> ('e, 'd) finalizer \<Rightarrow> ('e, 'd) finalized_result" where
  "readopt E [] f = Some (Inr None, f)"
| "readopt E (child # children) f =
     (case handle_notarized_block E child f of
        None \<Rightarrow> None
      | Some (Inl e, f1) \<Rightarrow> Some (Inl e, f1)
      | Some (Inr _, f1) \<Rightarrow> readopt E children f1)"

definition handle_finalized_block ::
  "('e, 'd, 's, 'p) setting \<Rightarrow> pending_finalized \<Rightarrow> ('e, 'd) finalizer \<Rightarrow> ('e, 'd) finalized_result" where
  "handle_finalized_block E entry f =
     (let b = pf_block entry; height = h_height (b_header b); d = block_digest (st_crypto E) (st_wire E) b;
          s = f_canonical f
      in if height \<le> cs_latest_height s
         then (if height = cs_latest_height s \<and> d \<noteq> cs_head_digest s
               then Some (Inl ''conflicting finalized block'', f)
               else Some (Inr None, send [Acknowledged (pf_ack entry)] f))
         else if (case pf_finalization entry of None \<Rightarrow> False | Some fin \<Rightarrow> d \<noteq> fin_payload fin)
              then Some (Inl ''finalized block/certificate digest mismatch'', f)
         else if height \<noteq> cs_latest_height s + 1 \<or> h_parent (b_header b) \<noteq> cs_head_digest s
              then Some (Inl ''does not extend canonical head'', f)
         else case promote E b f of
           None \<Rightarrow> None
         | Some (Inl e, f1) \<Rightarrow> Some (Inl e, f1)
         | Some (Inr False, f1) \<Rightarrow> Some (Inr (Some entry), f1)
         | Some (Inr True, f1) \<Rightarrow>
             let f2 = settle E b f1
             in (case (if terminal (f_canonical f2) height then boundary E entry f2
                       else Some (Inr (), send [Acknowledged (pf_ack entry)] f2)) of
                   None \<Rightarrow> None
                 | Some (Inl e, f3) \<Rightarrow> Some (Inl e, f3)
                 | Some (Inr _, f3) \<Rightarrow>
                     let (children, f4) = take_orphans (height + 1) d f3
                     in readopt E children f4))"

section \<open>Retrying deferred blocks\<close>

type_synonym ('e, 'd) drain_state = "(string + bool) option \<times> ('e, 'd) finalizer"

text \<open>\<open>Some (Inr True)\<close> goes on, \<open>Some (Inr False)\<close> has met a client that is still syncing.\<close>

definition drain_finalized_round :: "('e, 'd, 's, 'p) setting \<Rightarrow> ('e, 'd) drain_state \<Rightarrow> ('e, 'd) drain_state" where
  "drain_finalized_round E st = (case st of (_, f) \<Rightarrow>
     (case handle_finalized_block E (hd (f_pending_finalized f))
             (f\<lparr>f_pending_finalized := tl (f_pending_finalized f)\<rparr>) of
        None \<Rightarrow> (None, f)
      | Some (Inl e, f1) \<Rightarrow> (Some (Inl e), f1)
      | Some (Inr None, f1) \<Rightarrow> (Some (Inr True), f1)
      | Some (Inr (Some entry), f1) \<Rightarrow>
          (Some (Inr False), update_pending_warn E (f1\<lparr>f_pending_finalized := entry # f_pending_finalized f1\<rparr>))))"

definition drain_notarized_round :: "('e, 'd, 's, 'p) setting \<Rightarrow> ('e, 'd) drain_state \<Rightarrow> ('e, 'd) drain_state" where
  "drain_notarized_round E st = (case st of (_, f) \<Rightarrow>
     (let b = hd (f_pending_notarized f);
          f0 = f\<lparr>f_pending_notarized := tl (f_pending_notarized f),
                 f_pending_notarized_keys := f_pending_notarized_keys f - {block_digest (st_crypto E) (st_wire E) b}\<rparr>
      in case handle_notarized_block E b f0 of
           None \<Rightarrow> (None, f)
         | Some (Inl e, f1) \<Rightarrow> (Some (Inl e), f1)
         | Some (Inr NApplied, f1) \<Rightarrow> (Some (Inr True), f1)
         | Some (Inr NBuffered, f1) \<Rightarrow> (Some (Inr False), update_pending_warn E f1)))"

definition drain_finalized :: "('e, 'd, 's, 'p) setting \<Rightarrow> ('e, 'd) finalizer \<Rightarrow> ('e, 'd) drain_state option" where
  "drain_finalized E f =
     while_option (\<lambda>(r, f). r = Some (Inr True) \<and> f_pending_finalized f \<noteq> []) (drain_finalized_round E)
       (Some (Inr True), f)"

definition drain_notarized :: "('e, 'd, 's, 'p) setting \<Rightarrow> ('e, 'd) finalizer \<Rightarrow> ('e, 'd) drain_state option" where
  "drain_notarized E f =
     while_option (\<lambda>(r, f). r = Some (Inr True) \<and> f_pending_notarized f \<noteq> []) (drain_notarized_round E)
       (Some (Inr True), f)"

definition drain_pending ::
  "('e, 'd, 's, 'p) setting \<Rightarrow> ('e, 'd) finalizer \<Rightarrow> ((string + unit) \<times> ('e, 'd) finalizer) option" where
  "drain_pending E f =
     (case drain_finalized E f of
        Some (Some (Inl e), f1) \<Rightarrow> Some (Inl e, f1)
      | Some (Some (Inr False), f1) \<Rightarrow> Some (Inr (), f1)
      | Some (Some (Inr True), f1) \<Rightarrow>
          (case drain_notarized E f1 of
             Some (Some (Inl e), f2) \<Rightarrow> Some (Inl e, f2)
           | Some (Some (Inr False), f2) \<Rightarrow> Some (Inr (), f2)
           | Some (Some (Inr True), f2) \<Rightarrow> Some (Inr (), update_pending_warn E f2)
           | _ \<Rightarrow> None)
      | _ \<Rightarrow> None)"

section \<open>Requests of the application\<close>

definition notify_at_height :: "u64 \<Rightarrow> digest \<Rightarrow> nat \<Rightarrow> ('e, 'd) finalizer \<Rightarrow> ('e, 'd) finalizer" where
  "notify_at_height height d response f =
     (let s = f_canonical f
      in if cs_latest_height s > height then answer [response] False f
         else if height = cs_latest_height s then answer [response] (d = cs_head_digest s) f
         else if (height, d) \<in> f_dead f then answer [response] False f
         else if fork_at f height d \<noteq> None then answer [response] True f
         else f\<lparr>f_pending_height_notifys := bt_insert (height, d)
                  ((case bt_get (f_pending_height_notifys f) (height, d) of None \<Rightarrow> [] | Some senders \<Rightarrow> senders)
                     @ [response]) (f_pending_height_notifys f)\<rparr>)"

text \<open>The state a block on \<open>parent_digest\<close> builds on.\<close>

definition aux_parent_state :: "('e, 'd) finalizer \<Rightarrow> u64 \<Rightarrow> digest \<Rightarrow> consensus_state option" where
  "aux_parent_state f parent_height parent_digest =
     (case fork_at f parent_height parent_digest of
        Some fs \<Rightarrow> Some (fs_consensus_state fs)
      | None \<Rightarrow>
          if parent_height = cs_latest_height (f_canonical f) \<and> parent_digest = cs_head_digest (f_canonical f)
          then Some (f_canonical f) else None)"

definition fee_recipient :: "node_key \<Rightarrow> consensus_state \<Rightarrow> address" where
  "fee_recipient node_public_key s =
     (if cs_treasury_address s = 0
      then (case get_account s node_public_key of None \<Rightarrow> 0 | Some a \<Rightarrow> va_withdrawal_credentials a)
      else cs_treasury_address s)"

definition plain_aux_data ::
  "('e, 'd, 's, 'p) setting \<Rightarrow> ('e, 'd) finalizer \<Rightarrow> consensus_state \<Rightarrow> block_aux_data" where
  "plain_aux_data E f s =
     (let finalized = fc_finalized_block_hash (cs_forkchoice (f_canonical f))
      in \<lparr>aux_epoch = cs_epoch s, aux_withdrawals = [], aux_checkpoint_hash = None, aux_header_hash = 0,
          aux_added_validators = [], aux_removed_validators = [],
          aux_forkchoice = \<lparr>fc_head_block_hash = fc_head_block_hash (cs_forkchoice s),
            fc_safe_block_hash = finalized, fc_finalized_block_hash = finalized\<rparr>,
          aux_suggested_fee_recipient = fee_recipient (st_node_public_key E) s,
          aux_treasury_address = cs_treasury_address s, aux_state_root = cs_state_root s,
          aux_allowed_timestamp_future_ms = cs_allowed_timestamp_future_ms s\<rparr>)"

definition handle_aux_data_mailbox ::
  "('e, 'd, 's, 'p) setting \<Rightarrow> u64 \<Rightarrow> digest \<Rightarrow> nat \<Rightarrow> ('e, 'd) finalizer \<Rightarrow> ('e, 'd) finalizer option" where
  "handle_aux_data_mailbox E height parent_digest sender f =
     (case aux_parent_state f (height - 1) parent_digest of
        None \<Rightarrow> Some (send [AuxData sender None] f)
      | Some s \<Rightarrow>
          if \<not> terminal (f_canonical f) height
          then Some (send [AuxData sender (Some (plain_aux_data E f s))] f)
          else (case cs_pending_checkpoint s of
            None \<Rightarrow> Some (send [AuxData sender None] f)
          | Some checkpoint \<Rightarrow>
              (case get_most_recent_finalized_header (st_kv E) (f_db f) of
                 None \<Rightarrow> None
               | Some (recent, db1) \<Rightarrow>
                   Some (send [AuxData sender (Some ((plain_aux_data E f s)
                     \<lparr>aux_withdrawals := emit_withdrawal_payouts (cs_epoch s) s,
                      aux_checkpoint_hash := Some (ck_digest checkpoint),
                      aux_header_hash := (case recent of
                          Some fh \<Rightarrow> get_digest (st_crypto E) (st_wire E) (fh_header fh)
                        | None \<Rightarrow> st_genesis_hash E),
                      aux_added_validators :=
                        (case get_added_validators s (cs_epoch s + 1) of None \<Rightarrow> [] | Some vs \<Rightarrow> vs),
                      aux_removed_validators := cs_removed_validators s\<rparr>))] (f\<lparr>f_db := db1\<rparr>)))))"

definition get_epoch_genesis_hash ::
  "('e, 'd, 's, 'p) setting \<Rightarrow> u64 \<Rightarrow> nat \<Rightarrow> ('e, 'd) finalizer \<Rightarrow> ('e, 'd) finalizer option" where
  "get_epoch_genesis_hash E epoch response f =
     (let current = cs_epoch (f_canonical f)
      in if epoch = current
         then Some (send [EpochGenesis response (Some (cs_epoch_genesis_hash (f_canonical f)))] f)
         else if epoch = 0 then Some (send [EpochGenesis response (Some (st_genesis_hash E))] f)
         else if epoch < current
         then (case get_finalized_header (st_kv E) (epoch - 1) (f_db f) of
                 None \<Rightarrow> None
               | Some (fh, db1) \<Rightarrow>
                   Some (send [EpochGenesis response
                     (map_option (\<lambda>h. get_digest (st_crypto E) (st_wire E) (fh_header h)) fh)] (f\<lparr>f_db := db1\<rparr>)))
         else Some (send [EpochGenesis response None] f))"

section \<open>The event loop\<close>

datatype event =
    FinalizedBlock block "finalization option" nat
  | NotarizedBlock block
  | NotifyAtHeight u64 digest nat
  | GetAuxData u64 digest nat
  | GetEpochGenesisHash u64 nat
  | DrainTick
  | Cancelled

definition shut_down :: "('e, 'd) finalizer \<Rightarrow> ('e, 'd) finalizer" where
  "shut_down f = f\<lparr>f_stopped := True, f_db := (f_db f)\<lparr>db_cancelled := True\<rparr>\<rparr>"

definition on_finalized ::
  "('e, 'd, 's, 'p) setting \<Rightarrow> pending_finalized \<Rightarrow> ('e, 'd) finalizer \<Rightarrow> ('e, 'd) finalizer option" where
  "on_finalized E entry f =
     (if f_pending_finalized f \<noteq> []
      then Some (update_pending_warn E (f\<lparr>f_pending_finalized := f_pending_finalized f @ [entry]\<rparr>))
      else case handle_finalized_block E entry f of
        None \<Rightarrow> None
      | Some (Inl e, f1) \<Rightarrow> Some (shut_down f1)
      | Some (Inr None, f1) \<Rightarrow> Some f1
      | Some (Inr (Some entry1), f1) \<Rightarrow>
          Some (update_pending_warn E (f1\<lparr>f_pending_finalized := f_pending_finalized f1 @ [entry1]\<rparr>)))"

definition on_notarized ::
  "('e, 'd, 's, 'p) setting \<Rightarrow> block \<Rightarrow> ('e, 'd) finalizer \<Rightarrow> ('e, 'd) finalizer option" where
  "on_notarized E b f =
     (case handle_notarized_block E b f of
        None \<Rightarrow> None
      | Some (Inl e, f1) \<Rightarrow> Some (shut_down f1)
      | Some (Inr _, f1) \<Rightarrow> Some f1)"

definition on_drain :: "('e, 'd, 's, 'p) setting \<Rightarrow> ('e, 'd) finalizer \<Rightarrow> ('e, 'd) finalizer option" where
  "on_drain E f =
     (case drain_pending E f of
        None \<Rightarrow> None
      | Some (Inl e, f1) \<Rightarrow> Some (shut_down f1)
      | Some (Inr _, f1) \<Rightarrow> Some f1)"

text \<open>One turn of the loop: a validator that left the committee stops at the first block of the
  next epoch, otherwise the selected event is handled.\<close>

definition finalizer_step ::
  "('e, 'd, 's, 'p) setting \<Rightarrow> event \<Rightarrow> ('e, 'd) finalizer \<Rightarrow> ('e, 'd) finalizer option" where
  "finalizer_step E ev f =
     (if f_stopped f then Some f
      else if f_validator_exit f
              \<and> is_first_block_of_epoch (containing (cs_epocher (f_canonical f))) (cs_latest_height (f_canonical f))
           then Some (shut_down f)
      else case ev of
        FinalizedBlock b fin ack \<Rightarrow> on_finalized E \<lparr>pf_block = b, pf_finalization = fin, pf_ack = ack\<rparr> f
      | NotarizedBlock b \<Rightarrow> on_notarized E b f
      | NotifyAtHeight height d response \<Rightarrow> Some (notify_at_height height d response f)
      | GetAuxData height d sender \<Rightarrow> handle_aux_data_mailbox E height d sender f
      | GetEpochGenesisHash epoch response \<Rightarrow> get_epoch_genesis_hash E epoch response f
      | DrainTick \<Rightarrow> on_drain E f
      | Cancelled \<Rightarrow> Some (shut_down f))"

primrec finalizer_run ::
  "('e, 'd, 's, 'p) setting \<Rightarrow> event list \<Rightarrow> ('e, 'd) finalizer \<Rightarrow> ('e, 'd) finalizer option" where
  "finalizer_run E [] f = Some f"
| "finalizer_run E (ev # evs) f = (case finalizer_step E ev f of None \<Rightarrow> None | Some f1 \<Rightarrow> finalizer_run E evs f1)"

text \<open>What \<open>run\<close> does before the loop: the peers and the committee of the current epoch are
  announced and the client is told the head, unless there is none.\<close>

definition finalizer_start :: "('e, 'd, 's, 'p) setting \<Rightarrow> ('e, 'd) finalizer \<Rightarrow> ('e, 'd) finalizer option" where
  "finalizer_start E f =
     (let s = f_canonical f
      in case get_current_epoch_validators (st_crypto E) s of
           None \<Rightarrow> None
         | Some current_epoch_validators \<Rightarrow>
             let network_keys = map fst current_epoch_validators
             in (case derive_observer_keys (st_crypto E) (st_curve E) network_keys (st_observer_domain E)
                        (cs_observers_per_validator s) of
                   None \<Rightarrow> None
                 | Some observer_keys \<Rightarrow>
                     let f1 = send [Tracked (cs_epoch s) network_keys observer_keys,
                                    Entered (cs_epoch s) current_epoch_validators] f
                     in Some (if fc_head_block_hash (cs_forkchoice s) = 0 then f1
                              else case commit_hash (st_engine E) (f_engine f1) (cs_forkchoice s) of
                                (Inr status, es) \<Rightarrow>
                                  if status = VALID \<or> status = SYNCING then f1\<lparr>f_engine := es\<rparr>
                                  else shut_down (f1\<lparr>f_engine := es\<rparr>)
                              | (Inl e, es) \<Rightarrow> shut_down (f1\<lparr>f_engine := es\<rparr>))))"

end
