(* ===== verification/Finalizer_Loops.thy ===== *)
theory Finalizer_Loops
  imports Finalizer
begin

text \<open>
  The loops of the finalizer end. The work list of \<open>handle_notarized_block\<close> takes orphaned
  children without removing them from the buffer, so it is not the list that shrinks: every
  round either executes a block that had no fork state, out of the finitely many blocks at hand,
  or shortens the list. The loops of \<open>drain_pending\<close> end because a round either takes an entry
  from its buffer for good or stops.
\<close>

section \<open>What the helpers leave alone\<close>

lemma send_fields [simp]:
  "f_pending_height_notifys (send os f) = f_pending_height_notifys f" "f_engine (send os f) = f_engine f"
  "f_db (send os f) = f_db f" "f_canonical (send os f) = f_canonical f" "f_fork_states (send os f) = f_fork_states f"
  "f_dead (send os f) = f_dead f" "f_orphans (send os f) = f_orphans f"
  "f_pending_finalized (send os f) = f_pending_finalized f" "f_pending_notarized (send os f) = f_pending_notarized f"
  "f_pending_notarized_keys (send os f) = f_pending_notarized_keys f" "f_stopped (send os f) = f_stopped f"
  "f_validator_exit (send os f) = f_validator_exit f" "f_outputs (send os f) = f_outputs f @ os"
  by (simp_all add: send_def)

lemma answer_fields [simp]:
  "f_pending_height_notifys (answer is v f) = f_pending_height_notifys f" "f_engine (answer is v f) = f_engine f"
  "f_db (answer is v f) = f_db f" "f_canonical (answer is v f) = f_canonical f"
  "f_fork_states (answer is v f) = f_fork_states f" "f_dead (answer is v f) = f_dead f"
  "f_orphans (answer is v f) = f_orphans f" "f_pending_finalized (answer is v f) = f_pending_finalized f"
  "f_pending_notarized (answer is v f) = f_pending_notarized f"
  "f_pending_notarized_keys (answer is v f) = f_pending_notarized_keys f" "f_stopped (answer is v f) = f_stopped f"
  "f_validator_exit (answer is v f) = f_validator_exit f"
  "f_outputs (answer is v f) = f_outputs f @ map (\<lambda>i. Answered i v) is"
  by (simp_all add: answer_def)

lemma update_pending_warn_fields [simp]:
  "f_pending_height_notifys (update_pending_warn E f) = f_pending_height_notifys f"
  "f_engine (update_pending_warn E f) = f_engine f" "f_db (update_pending_warn E f) = f_db f"
  "f_canonical (update_pending_warn E f) = f_canonical f" "f_fork_states (update_pending_warn E f) = f_fork_states f"
  "f_dead (update_pending_warn E f) = f_dead f" "f_orphans (update_pending_warn E f) = f_orphans f"
  "f_pending_finalized (update_pending_warn E f) = f_pending_finalized f"
  "f_pending_notarized (update_pending_warn E f) = f_pending_notarized f"
  "f_pending_notarized_keys (update_pending_warn E f) = f_pending_notarized_keys f"
  "f_stopped (update_pending_warn E f) = f_stopped f" "f_validator_exit (update_pending_warn E f) = f_validator_exit f"
  "f_outputs (update_pending_warn E f) = f_outputs f"
  by (simp_all add: update_pending_warn_def Let_def)

lemma height_notify_executed_fields [simp]:
  "f_engine (height_notify_executed h d f) = f_engine f" "f_db (height_notify_executed h d f) = f_db f"
  "f_canonical (height_notify_executed h d f) = f_canonical f"
  "f_fork_states (height_notify_executed h d f) = f_fork_states f" "f_dead (height_notify_executed h d f) = f_dead f"
  "f_orphans (height_notify_executed h d f) = f_orphans f"
  "f_pending_finalized (height_notify_executed h d f) = f_pending_finalized f"
  "f_pending_notarized (height_notify_executed h d f) = f_pending_notarized f"
  "f_pending_notarized_keys (height_notify_executed h d f) = f_pending_notarized_keys f"
  "f_stopped (height_notify_executed h d f) = f_stopped f"
  "f_validator_exit (height_notify_executed h d f) = f_validator_exit f"
  by (simp_all add: height_notify_executed_def split: option.split)

lemma store_fork_fields [simp]:
  "f_pending_height_notifys (store_fork h fs f) = f_pending_height_notifys f"
  "f_engine (store_fork h fs f) = f_engine f" "f_db (store_fork h fs f) = f_db f"
  "f_canonical (store_fork h fs f) = f_canonical f" "f_dead (store_fork h fs f) = f_dead f"
  "f_orphans (store_fork h fs f) = f_orphans f" "f_pending_finalized (store_fork h fs f) = f_pending_finalized f"
  "f_pending_notarized (store_fork h fs f) = f_pending_notarized f"
  "f_pending_notarized_keys (store_fork h fs f) = f_pending_notarized_keys f"
  "f_stopped (store_fork h fs f) = f_stopped f" "f_outputs (store_fork h fs f) = f_outputs f"
  by (simp_all add: store_fork_def)

lemma keep_orphan_fields [simp]:
  "f_pending_height_notifys (keep_orphan b f) = f_pending_height_notifys f" "f_engine (keep_orphan b f) = f_engine f"
  "f_db (keep_orphan b f) = f_db f" "f_canonical (keep_orphan b f) = f_canonical f"
  "f_fork_states (keep_orphan b f) = f_fork_states f" "f_dead (keep_orphan b f) = f_dead f"
  "f_pending_finalized (keep_orphan b f) = f_pending_finalized f"
  "f_pending_notarized (keep_orphan b f) = f_pending_notarized f"
  "f_pending_notarized_keys (keep_orphan b f) = f_pending_notarized_keys f"
  "f_stopped (keep_orphan b f) = f_stopped f" "f_outputs (keep_orphan b f) = f_outputs f"
  by (simp_all add: keep_orphan_def Let_def)

lemma lookup_cong:
  "f_fork_states f' = f_fork_states f \<Longrightarrow> fork_at f' = fork_at f"
  "f_orphans f' = f_orphans f \<Longrightarrow> orphans_at f' = orphans_at f"
  by (auto simp: fork_at_def orphans_at_def fun_eq_iff)

lemma fork_at_store:
  "fork_at (store_fork h fs f) h' d' = (if h' = h \<and> d' = fs_block_digest fs then Some fs else fork_at f h' d')"
  by (auto simp: fork_at_def store_fork_def entry_or_default_def bt_get_insert bt_get_def [of "[]"] split: option.split)

section \<open>Blocks at hand\<close>

definition orphan_blocks :: "('e, 'd) finalizer \<Rightarrow> block set" where
  "orphan_blocks f = (\<Union>(h, children_map) \<in> set (f_orphans f). \<Union>(d, bs) \<in> set children_map. set bs)"

lemma finite_orphan_blocks: "finite (orphan_blocks f)"
  unfolding orphan_blocks_def by (intro finite_UN_I finite_set) (simp add: case_prod_unfold)

lemma orphan_blocks_cong: "f_orphans f' = f_orphans f \<Longrightarrow> orphan_blocks f' = orphan_blocks f"
  by (simp add: orphan_blocks_def)

lemma orphan_blocksI:
  "(h, m) \<in> set (f_orphans f) \<Longrightarrow> (d, bs) \<in> set m \<Longrightarrow> x \<in> set bs \<Longrightarrow> x \<in> orphan_blocks f"
  unfolding orphan_blocks_def by blast

lemma orphan_blocksE:
  assumes "x \<in> orphan_blocks f"
  obtains h m d bs where "(h, m) \<in> set (f_orphans f)" "(d, bs) \<in> set m" "x \<in> set bs"
  using assms unfolding orphan_blocks_def by blast

lemma bt_get_in: "bt_get m k = Some v \<Longrightarrow> (k, v) \<in> set m"
  by (simp add: bt_get_def map_of_SomeD)

lemma orphans_at_blocks: "set (orphans_at f h d) \<subseteq> orphan_blocks f"
proof
  fix x assume "x \<in> set (orphans_at f h d)"
  then obtain m bs where "bt_get (f_orphans f) h = Some m" "bt_get m d = Some bs" "x \<in> set bs"
    by (cases "bt_get (f_orphans f) h"; cases "bt_get (the (bt_get (f_orphans f) h)) d") (auto simp: orphans_at_def)
  then show "x \<in> orphan_blocks f" by (blast intro: orphan_blocksI dest: bt_get_in)
qed

lemma entry_or_default_in: "x \<in> set (entry_or_default m k) \<Longrightarrow> \<exists>v. (k, v) \<in> set m \<and> x \<in> set v"
  by (cases "bt_get m k") (auto simp: entry_or_default_def dest: bt_get_in)

lemma keep_orphan_blocks: "orphan_blocks (keep_orphan b f) \<subseteq> insert b (orphan_blocks f)"
proof
  fix x assume "x \<in> orphan_blocks (keep_orphan b f)"
  then obtain h m d bs where *: "(h, m) \<in> set (f_orphans (keep_orphan b f))" "(d, bs) \<in> set m" "x \<in> set bs"
    by (rule orphan_blocksE)
  let ?h = "h_height (b_header b)" and ?p = "h_parent (b_header b)"
  let ?new = "bt_insert ?p (orphans_at f ?h ?p @ [b]) (entry_or_default (f_orphans f) ?h)"
  have "(h, m) \<in> set (f_orphans f) \<or> m = ?new"
    using *(1) set_bt_insert [of ?h ?new "f_orphans f"] by (auto simp: keep_orphan_def Let_def)
  then show "x \<in> insert b (orphan_blocks f)"
  proof
    assume "(h, m) \<in> set (f_orphans f)" with *(2,3) show ?thesis by (blast intro: orphan_blocksI)
  next
    assume m: "m = ?new"
    from *(2) have "bs = orphans_at f ?h ?p @ [b] \<or> (d, bs) \<in> set (entry_or_default (f_orphans f) ?h)"
      unfolding m using set_bt_insert [of ?p "orphans_at f ?h ?p @ [b]" "entry_or_default (f_orphans f) ?h"] by blast
    then show ?thesis
      using *(3) orphans_at_blocks [of f ?h ?p] by (auto dest!: entry_or_default_in intro: orphan_blocksI)
  qed
qed

section \<open>One round\<close>

definition fresh :: "('e, 'd, 's, 'p) setting \<Rightarrow> block \<Rightarrow> ('e, 'd) finalizer \<Rightarrow> bool" where
  "fresh E b f \<longleftrightarrow>
     (let h = h_height (b_header b); d = block_digest (st_crypto E) (st_wire E) b
      in h > cs_latest_height (f_canonical f) \<and> (h, d) \<notin> f_dead f \<and> fork_at f h d = None)"

definition fork_of :: "('e, 'd, 's, 'p) setting \<Rightarrow> block \<Rightarrow> consensus_state \<Rightarrow> fork_state" where
  "fork_of E b s = \<lparr>fs_block_digest = block_digest (st_crypto E) (st_wire E) b,
     fs_parent_digest = h_parent (b_header b), fs_consensus_state = s\<rparr>"

definition execute_notarized ::
  "('e, 'd, 's, 'p) setting \<Rightarrow> block \<Rightarrow> ('e, 'd) finalizer \<Rightarrow> consensus_state
     \<Rightarrow> ((engine_error + execute_outcome) \<times> 'e \<times> consensus_state) option" where
  "execute_notarized E b f s =
     execute_block (st_crypto E) (st_wire E) (st_engine E) (st_protocol_consts E) (st_deposit_domain E) b
       (Some (fc_finalized_block_hash (cs_forkchoice (f_canonical f)))) (f_engine f) s"

text \<open>What a round can have done.\<close>

lemma visit_elim:
  assumes "visit_notarized E b f = Some (v, f1)"
  obtains (ignored) "v = Dropped" "f1 = f"
  | (orphaned) "v = Dropped" "f1 = keep_orphan b f" "fresh E b f" "parent_state f b = Some None"
  | (rejected) es where "v = Dropped" "f1 = f\<lparr>f_engine := es\<rparr>"
  | (failed) e es where "v = Halted e" "f1 = f\<lparr>f_engine := es\<rparr>"
  | (syncing) es where "(v, f1) = defer_notarized E b (f\<lparr>f_engine := es\<rparr>)" "fresh E b f"
  | (executed) es s s1 where "fresh E b f" "parent_state f b = Some (Some s)"
      "execute_notarized E b f s = Some (Inr Applied, es, s1)"
      "f1 = height_notify_executed (h_height (b_header b)) (block_digest (st_crypto E) (st_wire E) b)
         (store_fork (h_height (b_header b)) (fork_of E b s1) (f\<lparr>f_engine := es\<rparr>))"
      "v = Executed (orphans_at f1 (h_height (b_header b) + 1) (block_digest (st_crypto E) (st_wire E) b))"
proof (cases "fresh E b f")
  case False
  then have "h_height (b_header b) \<le> cs_latest_height (f_canonical f)
      \<or> (h_height (b_header b), block_digest (st_crypto E) (st_wire E) b) \<in> f_dead f
      \<or> fork_at f (h_height (b_header b)) (block_digest (st_crypto E) (st_wire E) b) \<noteq> None"
    by (simp add: fresh_def Let_def not_less)
  then have "visit_notarized E b f = Some (Dropped, f)"
    unfolding visit_notarized_def Let_def by (simp only: if_True if_False not_False_eq_True refl simp_thms
        split: if_split) blast
  then have "v = Dropped \<and> f1 = f" using assms by simp
  with ignored show thesis by blast
next
  case True
  then have n: "\<not> h_height (b_header b) \<le> cs_latest_height (f_canonical f)"
    "(h_height (b_header b), block_digest (st_crypto E) (st_wire E) b) \<notin> f_dead f"
    "fork_at f (h_height (b_header b)) (block_digest (st_crypto E) (st_wire E) b) = None"
    by (simp_all add: fresh_def Let_def not_le)
  have eq: "visit_notarized E b f = (case parent_state f b of
      None \<Rightarrow> Some (Dropped, f)
    | Some None \<Rightarrow> Some (Dropped, keep_orphan b f)
    | Some (Some s) \<Rightarrow> (case execute_notarized E b f s of
        None \<Rightarrow> None
      | Some (Inl e, es, _) \<Rightarrow> Some (Halted e, f\<lparr>f_engine := es\<rparr>)
      | Some (Inr Syncing, es, _) \<Rightarrow> Some (defer_notarized E b (f\<lparr>f_engine := es\<rparr>))
      | Some (Inr InvalidPayload, es, _) \<Rightarrow> Some (Dropped, f\<lparr>f_engine := es\<rparr>)
      | Some (Inr Applied, es, s1) \<Rightarrow>
          let f2 = height_notify_executed (h_height (b_header b)) (block_digest (st_crypto E) (st_wire E) b)
             (store_fork (h_height (b_header b)) (fork_of E b s1) (f\<lparr>f_engine := es\<rparr>))
          in Some (Executed (orphans_at f2 (h_height (b_header b) + 1) (block_digest (st_crypto E) (st_wire E) b)), f2)))"
    unfolding visit_notarized_def Let_def execute_notarized_def fork_of_def cs_clone_same
    by (simp only: n if_False not_True_eq_False simp_thms)
  show thesis
  proof (cases "parent_state f b")
    case None
    with eq assms ignored show thesis by simp
  next
    case (Some p)
    show thesis
    proof (cases p)
      case None
      with eq assms Some orphaned True show thesis by simp
    next
      case s: (Some s)
      then obtain r es s1 where x: "execute_notarized E b f s = Some (r, es, s1)"
        using eq assms Some by (cases "execute_notarized E b f s") auto
      show thesis
      proof (cases r)
        case (Inl e)
        with x eq assms Some s failed show thesis by simp
      next
        case (Inr out)
        note at = x [unfolded Inr] eq [unfolded Some s, simplified option.case, unfolded x Inr, simplified option.case
          prod.case sum.case, unfolded assms]
        show thesis
        proof (cases out)
          case Applied
          from at(2) [unfolded Applied, simplified execute_outcome.case Let_def] show thesis
            by (intro executed [OF True Some [unfolded s] at(1) [unfolded Applied]]) simp_all
        next
          case InvalidPayload
          from at(2) [unfolded InvalidPayload, simplified execute_outcome.case] show thesis by (intro rejected) simp_all
        next
          case Syncing
          from at(2) [unfolded Syncing, simplified execute_outcome.case] show thesis
            by (intro syncing [OF _ True]) (simp only: option.inject)
        qed
      qed
    qed
  qed
qed

section \<open>The work list ends\<close>

definition block_key :: "('e, 'd, 's, 'p) setting \<Rightarrow> block \<Rightarrow> u64 \<times> digest" where
  "block_key E b = (h_height (b_header b), block_digest (st_crypto E) (st_wire E) b)"

definition unexecuted :: "('e, 'd, 's, 'p) setting \<Rightarrow> block set \<Rightarrow> ('e, 'd) finalizer \<Rightarrow> (u64 \<times> digest) set" where
  "unexecuted E bs f = {k \<in> block_key E ` (bs \<union> orphan_blocks f). fork_at f (fst k) (snd k) = None}"

lemma finite_unexecuted: "finite bs \<Longrightarrow> finite (unexecuted E bs f)"
  by (simp add: unexecuted_def finite_orphan_blocks)

lemma unexecuted_mono:
  assumes "bs' \<union> orphan_blocks f' \<subseteq> bs \<union> orphan_blocks f" "\<And>h d. fork_at f' h d = None \<Longrightarrow> fork_at f h d = None"
  shows "unexecuted E bs' f' \<subseteq> unexecuted E bs f"
proof -
  have "block_key E ` (bs' \<union> orphan_blocks f') \<subseteq> block_key E ` (bs \<union> orphan_blocks f)"
    using assms(1) by (rule image_mono)
  with assms(2) show ?thesis unfolding unexecuted_def by (intro Collect_mono) auto
qed

definition round_decrease :: "('e, 'd, 's, 'p) setting \<Rightarrow> (('e, 'd) note_state \<times> ('e, 'd) note_state) set" where
  "round_decrease E = inv_image (less_than <*lex*> less_than)
     (\<lambda>(to_process, _, f). (card (unexecuted E (set to_process) f), length to_process))"

lemma defer_cases:
  assumes "(v, f1) = defer_notarized E b f"
  obtains "f1 = f" "v = Deferred" | e where "f1 = f" "v = Halted e"
  | "v = Deferred" "length (f_pending_notarized f) < st_pending_notarized_max E"
    "block_digest (st_crypto E) (st_wire E) b \<notin> f_pending_notarized_keys f"
    "f1 = update_pending_warn E
       (f\<lparr>f_pending_notarized_keys := insert (block_digest (st_crypto E) (st_wire E) b) (f_pending_notarized_keys f),
          f_pending_notarized := f_pending_notarized f @ [b]\<rparr>)"
  using assms unfolding defer_notarized_def Let_def by (simp only: prod.inject split: if_splits) (simp_all add: not_le)

lemma defer_frame:
  assumes "(v, f1) = defer_notarized E b f"
  shows "f_fork_states f1 = f_fork_states f" "f_orphans f1 = f_orphans f" "v \<noteq> Executed cs" "v \<noteq> Dropped"
    "f_canonical f1 = f_canonical f" "f_dead f1 = f_dead f" "f_outputs f1 = f_outputs f" "f_engine f1 = f_engine f"
    "f_pending_height_notifys f1 = f_pending_height_notifys f" "f_db f1 = f_db f" "f_stopped f1 = f_stopped f"
    "f_pending_finalized f1 = f_pending_finalized f"
  by (rule defer_cases [OF assms]; simp)+

lemma round_decreases:
  assumes run: "note_running st"
  shows "(note_round E st, st) \<in> round_decrease E"
proof -
  obtain ts r f where st: "st = (ts, r, f)" by (cases st)
  have ts: "ts \<noteq> []" using run by (simp add: st note_running_def)
  define b where "b = last ts"
  have b: "b \<in> set ts" "set (butlast ts) \<subseteq> set ts" unfolding b_def using ts by (auto dest: in_set_butlastD)
  have shorter: "((butlast ts, r', f'), st) \<in> round_decrease E"
    if "orphan_blocks f' \<subseteq> insert b (orphan_blocks f)" "f_fork_states f' = f_fork_states f" for r' f'
  proof -
    have "unexecuted E (set (butlast ts)) f' \<subseteq> unexecuted E (set ts) f"
      by (rule unexecuted_mono) (use that b lookup_cong(1) [OF that(2)] in auto)
    then have "card (unexecuted E (set (butlast ts)) f') \<le> card (unexecuted E (set ts) f)"
      by (rule card_mono [OF finite_unexecuted [OF finite_set]])
    then show ?thesis using ts by (auto simp: round_decrease_def st)
  qed
  show ?thesis
  proof (cases "visit_notarized E b f")
    case None
    then show ?thesis using shorter [of f] by (auto simp: note_round_def st b_def)
  next
    case (Some p)
    obtain v f1 where "p = (v, f1)" by (cases p)
    with Some have v: "visit_notarized E b f = Some (v, f1)" by simp
    then show ?thesis
    proof (cases rule: visit_elim)
      case ignored
      then show ?thesis using shorter [of f] v by (auto simp: note_round_def st b_def)
    next
      case orphaned
      then show ?thesis using shorter [OF keep_orphan_blocks] v by (simp add: note_round_def st b_def)
    next
      case (rejected es)
      then show ?thesis using shorter [of f1] v orphan_blocks_cong [of f1 f] by (auto simp: note_round_def st b_def)
    next
      case (failed e es)
      then show ?thesis using shorter [of f1] v orphan_blocks_cong [of f1 f] by (auto simp: note_round_def st b_def)
    next
      case (syncing es)
      note fr = defer_frame [OF syncing(1)]
      have "((butlast ts, r', f1), st) \<in> round_decrease E" for r'
        using shorter [of f1] fr(1,2) orphan_blocks_cong [of f1 f] by auto
      with v fr(3,4) show ?thesis by (cases v) (auto simp: note_round_def st b_def)
    next
      case (executed es s s1)
      let ?k = "block_key E b" and ?ts = "butlast ts @ orphans_at f1 (h_height (b_header b) + 1) (snd (block_key E b))"
      have o: "orphan_blocks f1 = orphan_blocks f" by (rule orphan_blocks_cong) (simp add: executed(4))
      have k: "fork_at f1 h d = (if (h, d) = ?k then Some (fork_of E b s1) else fork_at f h d)" for h d
        using lookup_cong(1) [of f1 "store_fork (h_height (b_header b)) (fork_of E b s1) (f\<lparr>f_engine := es\<rparr>)"]
          lookup_cong(1) [of "f\<lparr>f_engine := es\<rparr>" f]
        by (simp add: executed(4) fork_at_store fork_of_def block_key_def)
      have "unexecuted E (set ?ts) f1 \<subseteq> unexecuted E (set ts) f - {?k}"
        using orphans_at_blocks [of f1] b by (auto simp: unexecuted_def o k split: if_splits)
      moreover have "?k \<in> unexecuted E (set ts) f"
        using b executed(1) by (auto simp: unexecuted_def block_key_def fresh_def Let_def)
      ultimately have "card (unexecuted E (set ?ts) f1) < card (unexecuted E (set ts) f)"
        by (intro psubset_card_mono finite_unexecuted) auto
      then show ?thesis using v executed(5) by (auto simp: round_decrease_def note_round_def st b_def block_key_def)
    qed
  qed
qed

lemma wf_round_decrease: "wf (round_decrease E)"
  by (simp add: round_decrease_def wf_inv_image wf_lex_prod)

lemma note_loop_ends: "\<exists>st. note_loop E b f = Some st"
  unfolding note_loop_def
  by (rule wf_rel_while_option_Some [where R = "round_decrease E" and P = "\<lambda>_. True"])
    (simp_all add: round_decreases wf_round_decrease)

section \<open>Invariants of the work list\<close>

text \<open>What every round keeps, the handler keeps; the blocks of the rounds are the one handed in and
  orphans.\<close>

lemma note_loop_rule:
  assumes run: "note_loop E b f = Some (ts, r, f1)" and b: "b \<in> B" and init: "P (Some (Inr NApplied)) f"
    and orphans: "\<And>r f. P r f \<Longrightarrow> orphan_blocks f \<subseteq> B"
    and panic: "\<And>b f r. P r f \<Longrightarrow> b \<in> B \<Longrightarrow> visit_notarized E b f = None \<Longrightarrow> P None f"
    and round: "\<And>b f f1 r v. P r f \<Longrightarrow> b \<in> B \<Longrightarrow> visit_notarized E b f = Some (v, f1) \<Longrightarrow>
      P (case v of Deferred \<Rightarrow> Some (Inr NBuffered) | Halted e \<Rightarrow> Some (Inl e) | _ \<Rightarrow> r) f1"
  shows "P r f1"
proof -
  have "case (ts, r, f1) of (ts, r, f) \<Rightarrow> set ts \<subseteq> B \<and> P r f"
  proof (rule while_option_rule [OF _ run [unfolded note_loop_def]])
    fix st :: "('a, 'b) note_state"
    assume inv: "case st of (ts, r, f) \<Rightarrow> set ts \<subseteq> B \<and> P r f" and run: "note_running st"
    obtain ts r f where st: "st = (ts, r, f)" by (cases st)
    have inv: "set ts \<subseteq> B" "P r f" and ts: "ts \<noteq> []" using inv run by (simp_all add: st note_running_def)
    have last: "last ts \<in> B" and rest: "set (butlast ts) \<subseteq> B" using inv(1) ts by (auto dest: in_set_butlastD)
    show "case note_round E st of (ts, r, f) \<Rightarrow> set ts \<subseteq> B \<and> P r f"
    proof (cases "visit_notarized E (last ts) f")
      case None
      then show ?thesis using panic [OF inv(2) last None] rest by (simp add: note_round_def st)
    next
      case (Some p)
      obtain v f2 where p: "p = (v, f2)" by (cases p)
      note v = Some [unfolded p] and P = round [OF inv(2) last Some [unfolded p]]
      have "set cs \<subseteq> B" if "v = Executed cs" for cs
        using v [unfolded that]
      proof (cases rule: visit_elim)
        case (executed es s s1)
        then have "set cs \<subseteq> orphan_blocks f2" using orphans_at_blocks by simp
        also have "\<dots> \<subseteq> B" using orphans [OF P] .
        finally show ?thesis .
      next
        case (syncing es)
        with defer_frame(3) show ?thesis by blast
      qed simp_all
      then show ?thesis using P rest by (cases v) (simp_all add: note_round_def st v)
    qed
  qed (use b init in simp)
  then show ?thesis by simp
qed

lemma notarized_loop:
  assumes "handle_notarized_block E b f = Some (r, f1)"
  obtains ts where "note_loop E b f = Some (ts, Some r, f1)"
  using assms by (auto simp: handle_notarized_block_def split: option.splits prod.splits)

lemma notarized_invariant:
  assumes run: "handle_notarized_block E b f = Some (r, f1)" and b: "b \<in> B" and init: "I f"
    and orphans: "\<And>f. I f \<Longrightarrow> orphan_blocks f \<subseteq> B"
    and round: "\<And>b f f1 v. I f \<Longrightarrow> b \<in> B \<Longrightarrow> visit_notarized E b f = Some (v, f1) \<Longrightarrow> I f1"
  shows "I f1"
proof -
  obtain ts where "note_loop E b f = Some (ts, Some r, f1)" by (rule notarized_loop [OF run])
  then show ?thesis by (rule note_loop_rule [where P = "\<lambda>_. I", OF _ b init orphans _ round]) simp_all
qed

lemma notarized_invariant':
  assumes "handle_notarized_block E b f = Some (r, f1)" "I f"
    "\<And>b f f1 v. I f \<Longrightarrow> visit_notarized E b f = Some (v, f1) \<Longrightarrow> I f1"
  shows "I f1"
  by (rule notarized_invariant [where B = UNIV and I = I, OF assms(1) _ assms(2)]) (use assms(3) in auto)

text \<open>The handler leaves the finalized buffer alone, and the notarized one too unless it reports a
  deferred block.\<close>

lemma visit_frame:
  assumes "visit_notarized E b f = Some (v, f1)"
  shows "f_pending_finalized f1 = f_pending_finalized f" "f_canonical f1 = f_canonical f" "f_dead f1 = f_dead f"
    "f_db f1 = f_db f" "f_stopped f1 = f_stopped f"
    "v \<noteq> Deferred \<Longrightarrow> f_pending_notarized f1 = f_pending_notarized f
       \<and> f_pending_notarized_keys f1 = f_pending_notarized_keys f"
  using assms by (cases rule: visit_elim; auto simp: defer_frame elim: defer_cases)+

lemma notify_walk_fields [simp]:
  "f_engine (notify_walk h d ps f) = f_engine f" "f_db (notify_walk h d ps f) = f_db f"
  "f_canonical (notify_walk h d ps f) = f_canonical f" "f_fork_states (notify_walk h d ps f) = f_fork_states f"
  "f_dead (notify_walk h d ps f) = f_dead f" "f_orphans (notify_walk h d ps f) = f_orphans f"
  "f_pending_finalized (notify_walk h d ps f) = f_pending_finalized f"
  "f_pending_notarized (notify_walk h d ps f) = f_pending_notarized f"
  "f_pending_notarized_keys (notify_walk h d ps f) = f_pending_notarized_keys f"
  "f_stopped (notify_walk h d ps f) = f_stopped f" "f_validator_exit (notify_walk h d ps f) = f_validator_exit f"
  by (induction ps arbitrary: f) (simp_all add: Let_def case_prod_unfold)

lemma bury_fields [simp]:
  "f_engine (bury k f) = f_engine f" "f_db (bury k f) = f_db f" "f_canonical (bury k f) = f_canonical f"
  "f_fork_states (bury k f) = f_fork_states f" "f_dead (bury k f) = insert k (f_dead f)"
  "f_orphans (bury k f) = f_orphans f" "f_pending_finalized (bury k f) = f_pending_finalized f"
  "f_pending_notarized (bury k f) = f_pending_notarized f"
  "f_pending_notarized_keys (bury k f) = f_pending_notarized_keys f" "f_stopped (bury k f) = f_stopped f"
  "f_validator_exit (bury k f) = f_validator_exit f"
  by (simp_all add: bury_def Let_def split: option.split)

lemma fold_bury_fields [simp]:
  "f_engine (fold bury ks f) = f_engine f" "f_db (fold bury ks f) = f_db f"
  "f_canonical (fold bury ks f) = f_canonical f" "f_fork_states (fold bury ks f) = f_fork_states f"
  "f_dead (fold bury ks f) = set ks \<union> f_dead f" "f_orphans (fold bury ks f) = f_orphans f"
  "f_pending_finalized (fold bury ks f) = f_pending_finalized f"
  "f_pending_notarized (fold bury ks f) = f_pending_notarized f"
  "f_pending_notarized_keys (fold bury ks f) = f_pending_notarized_keys f"
  "f_stopped (fold bury ks f) = f_stopped f" "f_validator_exit (fold bury ks f) = f_validator_exit f"
  by (induction ks arbitrary: f) auto

lemma settle_fields [simp]:
  "f_engine (settle E b f) = f_engine f" "f_db (settle E b f) = f_db f"
  "f_canonical (settle E b f) = set_forkchoice_safe_and_finalized (st_crypto E)
     (fc_head_block_hash (cs_forkchoice (f_canonical f))) (f_canonical f)"
  "f_orphans (settle E b f) = filter (\<lambda>(h, _). h > h_height (b_header b)) (f_orphans f)"
  "f_pending_finalized (settle E b f) = f_pending_finalized f"
  "f_pending_notarized (settle E b f) = f_pending_notarized f"
  "f_pending_notarized_keys (settle E b f) = f_pending_notarized_keys f"
  "f_stopped (settle E b f) = f_stopped f" "f_validator_exit (settle E b f) = f_validator_exit f"
  by (simp_all add: settle_def Let_def prune_fork_states_not_descending_from_def height_notify_finalized_up_to_def
      case_prod_unfold)

lemma take_orphans_fields [simp]:
  "f_engine (snd (take_orphans h d f)) = f_engine f" "f_db (snd (take_orphans h d f)) = f_db f"
  "f_canonical (snd (take_orphans h d f)) = f_canonical f"
  "f_pending_height_notifys (snd (take_orphans h d f)) = f_pending_height_notifys f"
  "f_fork_states (snd (take_orphans h d f)) = f_fork_states f" "f_dead (snd (take_orphans h d f)) = f_dead f"
  "f_pending_finalized (snd (take_orphans h d f)) = f_pending_finalized f"
  "f_pending_notarized (snd (take_orphans h d f)) = f_pending_notarized f"
  "f_pending_notarized_keys (snd (take_orphans h d f)) = f_pending_notarized_keys f"
  "f_stopped (snd (take_orphans h d f)) = f_stopped f"
  "f_validator_exit (snd (take_orphans h d f)) = f_validator_exit f"
  "f_outputs (snd (take_orphans h d f)) = f_outputs f"
  by (simp_all add: take_orphans_def Let_def split: option.split)

lemma readopt_invariant:
  assumes run: "readopt E cs f = Some (r, f1)" and cs: "set cs \<subseteq> B" and init: "I f"
    and round: "\<And>b f f1 r. I f \<Longrightarrow> b \<in> B \<Longrightarrow> handle_notarized_block E b f = Some (r, f1) \<Longrightarrow> I f1"
  shows "I f1"
  using run cs init
proof (induction cs arbitrary: f)
  case Nil
  then show ?case by simp
next
  case (Cons b cs)
  obtain r' f' where h: "handle_notarized_block E b f = Some (r', f')"
    using Cons.prems(1) by (cases "handle_notarized_block E b f") auto
  have "I f'" using round [OF Cons.prems(3) _ h] Cons.prems(2) by simp
  then show ?case using Cons.IH [of f'] Cons.prems(1,2) h by (cases r') auto
qed

section \<open>A finalized block\<close>

lemma replace_with_eq: "replace_with other e = other"
  by (cases other, cases e) (simp add: replace_with_def)

lemma clone_own: "clone_with_epocher (cs_epocher s) s = s"
  by (simp add: clone_with_epocher_def)

lemma execute_unapplied:
  assumes x: "execute_block c w en consts domain b ff es s = Some (r, es1, s1)" and r: "r \<noteq> Inr Applied"
  shows "s1 = s"
proof (cases "gates_open c w en b ff es s")
  case True
  from x execute_open [OF True, of "consts" domain] r show ?thesis by auto
next
  case False
  from x execute_closed [OF False, of "consts" domain] show ?thesis by auto
qed

lemma execute_applied:
  assumes x: "execute_block c w en consts domain b ff es s = Some (Inr Applied, es1, s1)"
  shows "gates_open c w en b ff es s" "apply_block c w consts domain b s = Some s1"
proof -
  show gates: "gates_open c w en b ff es s"
    using x execute_closed [of c w en b ff es s "consts" domain] by (cases "gates_open c w en b ff es s") auto
  from x execute_open [OF gates, of "consts" domain] show "apply_block c w consts domain b s = Some s1" by auto
qed

definition execute_finalized ::
  "('e, 'd, 's, 'p) setting \<Rightarrow> block \<Rightarrow> ('e, 'd) finalizer
     \<Rightarrow> ((engine_error + execute_outcome) \<times> 'e \<times> consensus_state) option" where
  "execute_finalized E b f = execute_block (st_crypto E) (st_wire E) (st_engine E) (st_protocol_consts E)
     (st_deposit_domain E) b None (f_engine f) (f_canonical f)"

lemma promote_elim:
  assumes p: "promote E b f = Some (r, f1)"
  obtains (failed) e es where "r = Inl e" "f1 = f\<lparr>f_engine := es\<rparr>"
  | (waiting) es where "r = Inr False" "f1 = f\<lparr>f_engine := es\<rparr>"
  | (reused) fs es where "r = Inr True" "f1 = f\<lparr>f_engine := es, f_canonical := fs_consensus_state fs\<rparr>"
      "fork_at f (h_height (b_header b)) (block_digest (st_crypto E) (st_wire E) b) = Some fs"
  | (executed) es s where "r = Inr True" "f1 = f\<lparr>f_engine := es, f_canonical := s\<rparr>"
      "fork_at f (h_height (b_header b)) (block_digest (st_crypto E) (st_wire E) b) = None"
      "execute_finalized E b f = Some (Inr Applied, es, s)"
proof (cases "fork_at f (h_height (b_header b)) (block_digest (st_crypto E) (st_wire E) b)")
  case (Some fs)
  obtain x es where c: "commit_forkchoice (st_engine E) (block_forkchoice (st_crypto E) (st_wire E) b None)
      (f_engine f) = (x, es)" by (cases "commit_forkchoice (st_engine E) (block_forkchoice (st_crypto E) (st_wire E) b None)
      (f_engine f)")
  note eq = p [unfolded promote_def Let_def Some option.case c prod.case replace_with_eq clone_own]
  from eq have q: "(case x of Inl e \<Rightarrow> (Inl e, f\<lparr>f_engine := es\<rparr>)
     | Inr Applied \<Rightarrow> (Inr True, f\<lparr>f_engine := es, f_canonical := fs_consensus_state fs\<rparr>)
     | Inr InvalidPayload \<Rightarrow> (Inl ''non-valid finalized forkchoice'', f\<lparr>f_engine := es\<rparr>)
     | Inr Syncing \<Rightarrow> (Inr False, f\<lparr>f_engine := es\<rparr>)) = (r, f1)"
    by (simp split: if_splits)
  show thesis
  proof (cases x)
    case (Inl e)
    with q failed show thesis by (metis prod.inject sum.case(1))
  next
    case (Inr out)
    with q have q: "(r, f1) = (case out of
        Applied \<Rightarrow> (Inr True, f\<lparr>f_engine := es, f_canonical := fs_consensus_state fs\<rparr>)
      | InvalidPayload \<Rightarrow> (Inl ''non-valid finalized forkchoice'', f\<lparr>f_engine := es\<rparr>)
      | Syncing \<Rightarrow> (Inr False, f\<lparr>f_engine := es\<rparr>))" by simp
    then show thesis using failed waiting reused [OF _ _ Some] by (cases out) simp_all
  qed
next
  case None
  show thesis
  proof (cases "h_parent (b_header b) = cs_head_digest (f_canonical f)")
    case False
    with p None have "r = Inl ''does not extend canonical head''" "f1 = f" by (simp_all add: promote_def Let_def)
    then show thesis using failed [of _ "f_engine f"] by simp
  next
    case True
    note eq = p [unfolded promote_def Let_def None option.case execute_finalized_def [symmetric]]
    obtain x es s where x: "execute_finalized E b f = Some (x, es, s)"
      using eq True by (cases "execute_finalized E b f") auto
    have s: "x \<noteq> Inr Applied \<Longrightarrow> s = f_canonical f"
      using execute_unapplied [OF x [unfolded execute_finalized_def]] .
    have f: "f\<lparr>f_engine := es, f_canonical := f_canonical f\<rparr> = f\<lparr>f_engine := es\<rparr>" by simp
    show thesis
    proof (cases x)
      case (Inl e)
      with eq True x s f have "(r, f1) = (Inl e, f\<lparr>f_engine := es\<rparr>)" by simp
      with failed show thesis by simp
    next
      case (Inr out)
      with eq True x s f have "(r, f1) = (case out of
          Applied \<Rightarrow> (Inr True, f\<lparr>f_engine := es, f_canonical := s\<rparr>)
        | InvalidPayload \<Rightarrow> (Inl ''rejected by the execution client'', f\<lparr>f_engine := es\<rparr>)
        | Syncing \<Rightarrow> (Inr False, f\<lparr>f_engine := es\<rparr>))" by (cases out) simp_all
      then show thesis using failed waiting executed [OF _ _ None] x Inr by (cases out) simp_all
    qed
  qed
qed

definition extends :: "('e, 'd) finalizer \<Rightarrow> block \<Rightarrow> bool" where
  "extends f b \<longleftrightarrow> h_height (b_header b) > cs_latest_height (f_canonical f)
     \<and> h_height (b_header b) = cs_latest_height (f_canonical f) + 1
     \<and> h_parent (b_header b) = cs_head_digest (f_canonical f)"

text \<open>The end of a finalization, up to the orphans: the boundary on the last block of an epoch, the
  acknowledgement otherwise.\<close>

definition close_block ::
  "('e, 'd, 's, 'p) setting \<Rightarrow> pending_finalized \<Rightarrow> ('e, 'd) finalizer
     \<Rightarrow> ((string + unit) \<times> ('e, 'd) finalizer) option" where
  "close_block E entry f =
     (if terminal (f_canonical f) (h_height (b_header (pf_block entry))) then boundary E entry f
      else Some (Inr (), send [Acknowledged (pf_ack entry)] f))"

lemma finalized_elim:
  assumes run: "handle_finalized_block E entry f = Some (r, f2)"
  obtains (refused) e where "r = Inl e" "f2 = f"
  | (duplicate) "r = Inr None" "f2 = send [Acknowledged (pf_ack entry)] f"
      "h_height (b_header (pf_block entry)) \<le> cs_latest_height (f_canonical f)"
  | (failed) e es where "r = Inl e" "f2 = f\<lparr>f_engine := es\<rparr>"
  | (waiting) es where "r = Inr (Some entry)" "f2 = f\<lparr>f_engine := es\<rparr>" "extends f (pf_block entry)"
  | (unstored) e f1 where "r = Inl e" "extends f (pf_block entry)" "promote E (pf_block entry) f = Some (Inr True, f1)"
      "close_block E entry (settle E (pf_block entry) f1) = Some (Inl e, f2)"
  | (finalized) f1 f3 cs f4 where "extends f (pf_block entry)" "promote E (pf_block entry) f = Some (Inr True, f1)"
      "close_block E entry (settle E (pf_block entry) f1) = Some (Inr (), f3)"
      "take_orphans (h_height (b_header (pf_block entry)) + 1)
         (block_digest (st_crypto E) (st_wire E) (pf_block entry)) f3 = (cs, f4)"
      "readopt E cs f4 = Some (r, f2)"
proof -
  let ?b = "pf_block entry" and ?s = "f_canonical f"
  let ?h = "h_height (b_header ?b)" and ?d = "block_digest (st_crypto E) (st_wire E) ?b"
  note eq = run [unfolded handle_finalized_block_def Let_def]
  show thesis
  proof (cases "?h \<le> cs_latest_height ?s")
    case True
    then have "(r, f2) = (if ?h = cs_latest_height ?s \<and> ?d \<noteq> cs_head_digest ?s
        then (Inl ''conflicting finalized block'', f) else (Inr None, send [Acknowledged (pf_ack entry)] f))"
      using eq by (auto split: if_splits)
    with True refused duplicate show thesis by (simp split: if_splits)
  next
    case new: False
    show thesis
    proof (cases "(case pf_finalization entry of None \<Rightarrow> False | Some fin \<Rightarrow> ?d \<noteq> fin_payload fin)
        \<or> ?h \<noteq> cs_latest_height ?s + 1 \<or> h_parent (b_header ?b) \<noteq> cs_head_digest ?s")
      case True
      then have "\<exists>e. r = Inl e \<and> f2 = f" using eq new by (auto split: if_splits)
      with refused show thesis by blast
    next
      case False
      then have ext: "extends f ?b" using new by (simp add: extends_def)
      from eq new False obtain x f1 where p: "promote E ?b f = Some (x, f1)"
        by (cases "promote E ?b f") auto
      have eq': "(case x of Inl e \<Rightarrow> Some (Inl e, f1) | Inr False \<Rightarrow> Some (Inr (Some entry), f1)
        | Inr True \<Rightarrow>
            (case close_block E entry (settle E ?b f1) of
               None \<Rightarrow> None
             | Some (Inl e, f3) \<Rightarrow> Some (Inl e, f3)
             | Some (Inr _, f3) \<Rightarrow> (case take_orphans (?h + 1) ?d f3 of (cs, f4) \<Rightarrow> readopt E cs f4))) = Some (r, f2)"
        unfolding close_block_def using eq new False p by simp
      have promoted: thesis if x: "x = Inr True"
      proof -
        from eq' x obtain y f3 where y: "close_block E entry (settle E ?b f1) = Some (y, f3)"
          by (cases "close_block E entry (settle E ?b f1)") auto
        obtain cs f4 where t: "take_orphans (?h + 1) ?d f3 = (cs, f4)" by (cases "take_orphans (?h + 1) ?d f3")
        show thesis
        proof (cases y)
          case (Inl e)
          from eq' x y Inl have "r = Inl e" "f3 = f2" by auto
          then show thesis using unstored [OF _ ext, of e f1] p x y Inl by simp
        next
          case (Inr u)
          then show thesis using finalized [OF ext _ _ t] p x y eq' t by simp
        qed
      qed
      from p show thesis
      proof (cases rule: promote_elim)
        case (failed e es)
        with eq' have "r = Inl e" "f2 = f\<lparr>f_engine := es\<rparr>" by auto
        with that(3) show thesis by blast
      next
        case (waiting es)
        with eq' have "r = Inr (Some entry)" "f2 = f\<lparr>f_engine := es\<rparr>" by auto
        with ext that(4) show thesis by blast
      qed (simp_all add: promoted)
    qed
  qed
qed

text \<open>The boundary, in terms of \<open>cross_boundary\<close>; only the database, the canonical state, the exit
  flag and the messages change.\<close>

definition silent :: "message list \<Rightarrow> bool" where
  "silent os \<longleftrightarrow> (\<forall>i v. Answered i v \<notin> set os)"

lemma track_silent:
  assumes "track_epoch E s = Some m"
  shows "m \<noteq> Answered i v" "m \<noteq> Acknowledged i"
proof -
  obtain e ps ks where "m = Tracked e ps ks"
    using assms unfolding track_epoch_def Let_def by (auto split: option.split_asm)
  then show "m \<noteq> Answered i v" "m \<noteq> Acknowledged i" by simp_all
qed

lemma announce_elim:
  assumes "announce_epoch E entry f = Some f1"
  obtains os where "f1 = send os f" "silent os" "Acknowledged (pf_ack entry) \<in> set os"
proof -
  let ?s = "f_canonical f"
  obtain m vs where m: "track_epoch E ?s = Some m" "get_active_validators (st_crypto E) ?s = Some vs"
    using assms unfolding announce_epoch_def Let_def
    by (cases "track_epoch E ?s"; cases "get_active_validators (st_crypto E) ?s") auto
  then have f1: "f1 = send [Acknowledged (pf_ack entry), m, Entered (cs_epoch ?s) vs, Exited (cs_epoch ?s - 1)] f"
    using assms unfolding announce_epoch_def Let_def by simp
  show thesis by (rule that [OF f1]) (simp_all add: silent_def track_silent [OF m(1), THEN not_sym])
qed

lemma store_boundary_elim:
  assumes "store_boundary E b f = Some (r, f1)"
  obtains db s where "f1 = f\<lparr>f_db := db, f_canonical := s\<rparr>"
    "r = Inr () \<Longrightarrow> s = enter_next_epoch (st_crypto E) (st_wire E) b (snd (take_pending_checkpoint (st_crypto E) (f_canonical f)))"
proof -
  obtain ck s3 where ck: "take_pending_checkpoint (st_crypto E) (f_canonical f) = (ck, s3)"
    by (cases "take_pending_checkpoint (st_crypto E) (f_canonical f)")
  define stored where "stored = (case ck of None \<Rightarrow> Some (Inr (), f_db f)
    | Some checkpoint \<Rightarrow> store_finalized_checkpoint (st_kv E) (cs_epoch s3) checkpoint b (f_db f))"
  note eq = assms [unfolded store_boundary_def Let_def ck prod.case, folded stored_def]
  obtain x db1 where x: "stored = Some (x, db1)" using eq by (cases stored) auto
  show thesis
  proof (cases x)
    case (Inl e)
    with eq x have "(r, f1) = (Inl e, f\<lparr>f_db := db1, f_canonical := s3\<rparr>)" by simp
    then show thesis by (intro that [of s3 db1]) simp_all
  next
    case (Inr u)
    define s4 where "s4 = enter_next_epoch (st_crypto E) (st_wire E) b s3"
    define y where "y = store_consensus_state (st_kv E) (cs_epoch s4) s4 db1"
    note eq' = eq [unfolded x Inr option.case prod.case sum.case, folded s4_def, folded y_def]
    obtain z db2 where z: "y = Some (z, db2)" using eq' by (cases y) auto
    obtain q db3 where q: "db_commit (st_kv E) db2 = (q, db3)" by (cases "db_commit (st_kv E) db2")
    have "f1 = f\<lparr>f_db := db2, f_canonical := s4\<rparr> \<or> f1 = f\<lparr>f_db := db3, f_canonical := s4\<rparr>"
      using eq' z q by (cases z) simp_all
    then show thesis using that [of s4] by (auto simp: s4_def ck)
  qed
qed

lemma boundary_elim:
  assumes "boundary E entry f = Some (r, f1)"
  obtains db s ex os where "f1 = send os (f\<lparr>f_db := db, f_validator_exit := ex, f_canonical := s\<rparr>)" "silent os"
    "r = Inr () \<Longrightarrow> \<exists>ck. cross_boundary (st_crypto E) (st_wire E) (st_node_public_key E) (pf_block entry)
       (f_canonical f) = Some (ex, ck, s) \<and> Acknowledged (pf_ack entry) \<in> set os"
proof -
  let ?b = "pf_block entry"
  note eq = assms [unfolded boundary_def Let_def]
  obtain fin where fin: "pf_finalization entry = Some fin" using eq by (cases "pf_finalization entry") auto
  let ?h = "store_finalized_header (st_kv E) (cs_epoch (f_canonical f))
    (finalized_header_new_unchecked (b_header ?b) fin (st_signers E fin)) (f_db f)"
  obtain x db1 where h: "?h = Some (x, db1)" using eq fin by (cases ?h) auto
  show thesis
  proof (cases x)
    case (Inl e)
    with eq fin h have "r = Inl e" "f1 = f\<lparr>f_db := db1\<rparr>" by auto
    then show thesis using that [of "[]" "f_canonical f" "f_validator_exit f" db1] by (simp add: send_def silent_def)
  next
    case (Inr u)
    from eq fin h Inr obtain ch s1 where s1: "apply_protocol_parameter_changes (st_crypto E) (f_canonical f) = Some (ch, s1)"
      by (cases "apply_protocol_parameter_changes (st_crypto E) (f_canonical f)") auto
    from eq fin h Inr s1 obtain ex s2 where s2: "apply_committee_transition (st_crypto E) (st_node_public_key E) s1 = Some (ex, s2)"
      by (cases "apply_committee_transition (st_crypto E) (st_node_public_key E) s1") auto
    let ?f = "f\<lparr>f_db := db1, f_validator_exit := ex, f_canonical := s2\<rparr>"
    from eq fin h Inr s1 s2 obtain y f2 where y: "store_boundary E ?b ?f = Some (y, f2)"
      by (cases "store_boundary E ?b ?f") auto
    obtain db s where f2: "f2 = ?f\<lparr>f_db := db, f_canonical := s\<rparr>"
      "y = Inr () \<Longrightarrow> s = enter_next_epoch (st_crypto E) (st_wire E) ?b (snd (take_pending_checkpoint (st_crypto E) s2))"
      by (rule store_boundary_elim [OF y]) simp
    have f2': "f2 = f\<lparr>f_db := db, f_validator_exit := ex, f_canonical := s\<rparr>" by (simp add: f2(1))
    show thesis
    proof (cases y)
      case (Inl e)
      with eq fin h Inr s1 s2 y have "r = Inl e" "f1 = f2" by auto
      then show thesis using that [of "[]" s ex db] f2' by (simp add: send_def silent_def)
    next
      case y': (Inr v)
      from eq fin h Inr s1 s2 y y' obtain r: "announce_epoch E entry f2 = Some f1" by auto
      then obtain os where os: "f1 = send os f2" "silent os" "Acknowledged (pf_ack entry) \<in> set os"
        by (rule announce_elim)
      obtain ck s3 where ck: "take_pending_checkpoint (st_crypto E) s2 = (ck, s3)"
        by (cases "take_pending_checkpoint (st_crypto E) s2")
      have "cross_boundary (st_crypto E) (st_wire E) (st_node_public_key E) ?b (f_canonical f) = Some (ex, ck, s)"
        using s1 s2 f2(2) y' ck by (simp add: cross_boundary_def)
      then show thesis using that [of os s ex db] os f2' by blast
    qed
  qed
qed

section \<open>The drain loops end\<close>

lemma close_elim:
  assumes "close_block E entry f = Some (r, f1)"
  obtains db s ex os where "f1 = send os (f\<lparr>f_db := db, f_validator_exit := ex, f_canonical := s\<rparr>)" "silent os"
    "r = Inr () \<Longrightarrow> Acknowledged (pf_ack entry) \<in> set os \<and>
       (if terminal (f_canonical f) (h_height (b_header (pf_block entry)))
        then \<exists>ck. cross_boundary (st_crypto E) (st_wire E) (st_node_public_key E) (pf_block entry)
               (f_canonical f) = Some (ex, ck, s)
        else s = f_canonical f)"
proof (cases "terminal (f_canonical f) (h_height (b_header (pf_block entry)))")
  case True
  with assms have "boundary E entry f = Some (r, f1)" by (simp add: close_block_def)
  then show thesis by (rule boundary_elim) (use that True in auto)
next
  case False
  with assms have "f1 = send [Acknowledged (pf_ack entry)] f" by (auto simp: close_block_def)
  then show thesis
    using False that [of "[Acknowledged (pf_ack entry)]" "f_canonical f" "f_validator_exit f" "f_db f"]
    by (simp add: silent_def)
qed

lemma notarized_keeps_finalized:
  "handle_notarized_block E b f = Some (r, f1) \<Longrightarrow> f_pending_finalized f1 = f_pending_finalized f"
  by (rule notarized_invariant' [where I = "\<lambda>f1. f_pending_finalized f1 = f_pending_finalized f"])
    (simp_all, metis visit_frame(1))

lemma notarized_keeps_notarized:
  assumes "handle_notarized_block E b f = Some (Inr NApplied, f1)"
  shows "f_pending_notarized f1 = f_pending_notarized f \<and> f_pending_notarized_keys f1 = f_pending_notarized_keys f"
proof -
  obtain ts where "note_loop E b f = Some (ts, Some (Inr NApplied), f1)" by (rule notarized_loop [OF assms])
  then have "Some (Inr NApplied) = Some (Inr NApplied :: string + note_outcome) \<longrightarrow>
      f_pending_notarized f1 = f_pending_notarized f \<and> f_pending_notarized_keys f1 = f_pending_notarized_keys f"
    by (rule note_loop_rule [where P = "\<lambda>r f1. r = Some (Inr NApplied) \<longrightarrow>
        f_pending_notarized f1 = f_pending_notarized f \<and> f_pending_notarized_keys f1 = f_pending_notarized_keys f"
        and B = UNIV])
      (auto dest: visit_frame(6) split: visit.splits)
  then show ?thesis by simp
qed

lemma finalized_keeps_finalized:
  assumes "handle_finalized_block E entry f = Some (r, f1)"
  shows "f_pending_finalized f1 = f_pending_finalized f"
  using assms
proof (cases rule: finalized_elim)
  case (unstored e f2)
  then show ?thesis
    by (auto elim!: close_elim promote_elim)
next
  case (finalized f2 f3 cs f4)
  have "f_pending_finalized f2 = f_pending_finalized f" using finalized(2) by (auto elim!: promote_elim)
  moreover have "f_pending_finalized f3 = f_pending_finalized (settle E (pf_block entry) f2)"
    using finalized(3) by (auto elim!: close_elim)
  moreover have "f_pending_finalized f4 = f_pending_finalized f3" using finalized(4) by (metis snd_conv take_orphans_fields(7))
  ultimately have "f_pending_finalized f4 = f_pending_finalized f" by simp
  then show ?thesis
    by (rule readopt_invariant [where B = UNIV and I = "\<lambda>f1. f_pending_finalized f1 = f_pending_finalized f", OF finalized(5), rotated])
      (simp_all add: notarized_keeps_finalized)
qed simp_all

lemma drain_finalized_ends: "\<exists>st. drain_finalized E f = Some st"
  unfolding drain_finalized_def
proof (rule measure_while_option_Some [where P = "\<lambda>_. True" and f = "\<lambda>(r, f). (if r = Some (Inr True) then 1 else 0) + length (f_pending_finalized f)"])
  fix st :: "('a, 'b) drain_state"
  assume run: "case st of (r, f) \<Rightarrow> r = Some (Inr True) \<and> f_pending_finalized f \<noteq> []"
  obtain r f where st: "st = (r, f)" by (cases st)
  let ?f0 = "f\<lparr>f_pending_finalized := tl (f_pending_finalized f)\<rparr>"
  let ?m = "\<lambda>(r, f). (if r = Some (Inr True) then 1 else 0) + length (f_pending_finalized f)"
  have f: "r = Some (Inr True)" "length (tl (f_pending_finalized f)) < length (f_pending_finalized f)"
    using run by (simp_all add: st)
  have "?m (drain_finalized_round E st) < ?m st"
  proof (cases "handle_finalized_block E (hd (f_pending_finalized f)) ?f0")
    case None
    with f show ?thesis by (simp add: st drain_finalized_round_def)
  next
    case (Some p)
    obtain x f1 where p: "p = (x, f1)" by (cases p)
    have k: "f_pending_finalized f1 = tl (f_pending_finalized f)"
      using finalized_keeps_finalized [OF Some [unfolded p]] by simp
    have *: "drain_finalized_round E st = (case x of Inl e \<Rightarrow> (Some (Inl e), f1) | Inr None \<Rightarrow> (Some (Inr True), f1)
      | Inr (Some entry) \<Rightarrow> (Some (Inr False), update_pending_warn E (f1\<lparr>f_pending_finalized := entry # f_pending_finalized f1\<rparr>)))"
      using Some p by (simp add: st drain_finalized_round_def)
    show ?thesis unfolding * using f k by (auto simp: st split: sum.split option.split)
  qed
  then show "True \<and> ?m (drain_finalized_round E st) < ?m st" by simp
qed simp

lemma drain_notarized_ends: "\<exists>st. drain_notarized E f = Some st"
  unfolding drain_notarized_def
proof (rule measure_while_option_Some [where P = "\<lambda>_. True" and f = "\<lambda>(r, f). if r = Some (Inr True) then Suc (length (f_pending_notarized f)) else 0"])
  fix st :: "('a, 'b) drain_state"
  assume run: "case st of (r, f) \<Rightarrow> r = Some (Inr True) \<and> f_pending_notarized f \<noteq> []"
  obtain r f where st: "st = (r, f)" by (cases st)
  let ?b = "hd (f_pending_notarized f)"
  let ?f0 = "f\<lparr>f_pending_notarized := tl (f_pending_notarized f),
    f_pending_notarized_keys := f_pending_notarized_keys f - {block_digest (st_crypto E) (st_wire E) ?b}\<rparr>"
  let ?m = "\<lambda>(r, f). if r = Some (Inr True) then Suc (length (f_pending_notarized f)) else 0"
  have f: "r = Some (Inr True)" "length (tl (f_pending_notarized f)) < length (f_pending_notarized f)"
    using run by (simp_all add: st)
  have "?m (drain_notarized_round E st) < ?m st"
  proof (cases "handle_notarized_block E ?b ?f0")
    case None
    with f show ?thesis by (simp add: st drain_notarized_round_def Let_def)
  next
    case (Some p)
    obtain x f1 where p: "p = (x, f1)" by (cases p)
    have k: "x = Inr NApplied \<Longrightarrow> f_pending_notarized f1 = tl (f_pending_notarized f)"
      using notarized_keeps_notarized Some p by fastforce
    have *: "drain_notarized_round E st = (case x of Inl e \<Rightarrow> (Some (Inl e), f1) | Inr NApplied \<Rightarrow> (Some (Inr True), f1)
      | Inr NBuffered \<Rightarrow> (Some (Inr False), update_pending_warn E f1))"
      using Some p by (simp add: st drain_notarized_round_def Let_def)
    show ?thesis unfolding * using f k by (auto simp: st split: sum.split note_outcome.split)
  qed
  then show "True \<and> ?m (drain_notarized_round E st) < ?m st" by simp
qed simp

text \<open>C8. The finalizer never gets stuck in a loop. Whatever the execution client answers and
  whatever is buffered, the work list of \<open>handle_notarized_block\<close>, which queues orphaned children
  without removing them from the orphan buffer, runs out after finitely many rounds, and so do
  both retry loops of \<open>drain_pending\<close>.\<close>

theorem finalizer_loops_end:
  "(\<exists>st. note_loop E b f = Some st) \<and> (\<exists>st. drain_finalized E f = Some st) \<and> (\<exists>st. drain_notarized E f = Some st)"
  using note_loop_ends drain_finalized_ends drain_notarized_ends by blast

end
