(* ===== verification/Finalizer_Invariant.thy ===== *)
theory Finalizer_Invariant
  imports Finalizer_Waiters
begin

text \<open>
  The invariant of the finalizer. The forks stand above the canonical height, each under the digest
  of its block and next to a parent that is canonical or itself a fork; every state held is in step
  with its state tree; orphans and tombstones are above the canonical height; the buffer of
  notarized blocks has no duplicates and keeps its bound; waiters wait for what is still undecided.
  Every turn of the event loop keeps it.
\<close>

section \<open>Nested maps\<close>

definition in2 :: "('k, ('a, 'v) btree) btree \<Rightarrow> 'k \<Rightarrow> 'a \<Rightarrow> 'v \<Rightarrow> bool" where
  "in2 m h d v \<longleftrightarrow> (\<exists>x. (h, x) \<in> set m \<and> (d, v) \<in> set x)"

definition wf2 :: "('k::linorder, ('a::linorder, 'v) btree) btree \<Rightarrow> bool" where
  "wf2 m \<longleftrightarrow> bt_ok m \<and> (\<forall>(h, x) \<in> set m. bt_ok x \<and> x \<noteq> [])"

lemma wf2_Cons: "wf2 ((h, x) # m) \<longleftrightarrow> bt_ok x \<and> x \<noteq> [] \<and> (\<forall>e \<in> set m. h < fst e) \<and> wf2 m"
  by (auto simp: wf2_def)

lemma in2_Cons: "in2 ((h', x) # m) h d v \<longleftrightarrow> (h = h' \<and> (d, v) \<in> set x) \<or> in2 m h d v"
  by (auto simp: in2_def)

lemma in2_Nil [simp]: "\<not> in2 [] h d v"
  by (simp add: in2_def)

lemma wf2_filter: "wf2 m \<Longrightarrow> wf2 (filter P m)"
  by (induction m) (auto simp: wf2_def)

lemma in2_filter: "in2 (filter (\<lambda>(h, _). P h) m) h d v \<longleftrightarrow> P h \<and> in2 m h d v"
  by (auto simp: in2_def)

lemma in2_get:
  assumes "wf2 m"
  shows "in2 m h d v \<longleftrightarrow> (\<exists>x. bt_get m h = Some x \<and> bt_get x d = Some v)"
proof -
  have "bt_get m h = Some x \<longleftrightarrow> (h, x) \<in> set m" for x using assms by (simp add: wf2_def bt_get_iff)
  moreover have "bt_get x d = Some v \<longleftrightarrow> (d, v) \<in> set x" if "(h, x) \<in> set m" for x
    using assms that by (intro bt_get_iff) (auto simp: wf2_def)
  ultimately show ?thesis by (auto simp: in2_def)
qed

lemma fork_at_in2: "wf2 (f_fork_states f) \<Longrightarrow> fork_at f h d = Some fs \<longleftrightarrow> in2 (f_fork_states f) h d fs"
  unfolding fork_at_def by (simp add: in2_get split: option.split)

lemma wf2_insert:
  assumes "wf2 m"
  shows "wf2 (bt_insert h (bt_insert d v (entry_or_default m h)) m)"
proof -
  have inner: "bt_ok (bt_insert d v (entry_or_default m h))" "bt_insert d v (entry_or_default m h) \<noteq> []"
    using assms bt_get_in [of m h] fst_bt_insert [of d v "entry_or_default m h"]
    by (auto simp: entry_or_default_def wf2_def intro!: bt_ok_insert split: option.split)
  then show ?thesis
    using assms set_bt_insert [of h "bt_insert d v (entry_or_default m h)" m]
    by (auto simp: wf2_def intro: bt_ok_insert)
qed

lemma in2_insert:
  assumes "wf2 m"
  shows "in2 (bt_insert h (bt_insert d v (entry_or_default m h)) m) h' d' v' \<longleftrightarrow>
    (if h' = h \<and> d' = d then v' = v else in2 m h' d' v')"
proof (cases "h' = h")
  case True
  then show ?thesis unfolding in2_get [OF assms] in2_get [OF wf2_insert [OF assms]]
    by (cases "bt_get m h") (auto simp: bt_get_insert entry_or_default_def bt_get_def [of "[]"] bt_get_def [of "[(d, v)]"] split: if_splits)
next
  case False
  then show ?thesis unfolding in2_get [OF assms] in2_get [OF wf2_insert [OF assms]] by (simp add: bt_get_insert)
qed

section \<open>Pruning\<close>

lemma filter_bt_ok: "bt_ok x \<Longrightarrow> bt_ok (filter P x)"
  by (induction x) auto

lemma prune_walk_wf: "wf2 m \<Longrightarrow> prune_walk lp m = (kept, dead) \<Longrightarrow> wf2 kept \<and> fst ` set kept \<subseteq> fst ` set m"
proof (induction m arbitrary: lp kept dead)
  case (Cons p m)
  obtain h x where p: "p = (h, x)" by (cases p)
  define good where "good = filter (\<lambda>(_, fs). fs_parent_digest fs \<in> lp) x"
  obtain kept' dead' where w: "prune_walk (fst ` set good) m = (kept', dead')" by (cases "prune_walk (fst ` set good) m")
  have k: "kept = (if good = [] then kept' else (h, good) # kept')"
    using Cons.prems(2) w by (auto simp: p Let_def good_def)
  have m: "bt_ok x" "\<forall>e \<in> set m. h < fst e" "wf2 m" using Cons.prems(1) by (simp_all add: p wf2_Cons)
  note IH = Cons.IH [OF m(3) w]
  have "\<forall>e \<in> set kept'. h < fst e" using m(2) IH by fastforce
  then show ?case using IH m by (auto simp: k p wf2_Cons good_def filter_bt_ok)
qed (simp add: wf2_def)

lemma prune_walk_in2:
  assumes "wf2 m" "prune_walk lp m = (kept, dead)"
  shows "in2 kept h d fs \<longrightarrow> in2 m h d fs" "in2 m h d fs \<longrightarrow> in2 kept h d fs \<or> (h, d) \<in> set dead"
    "(h, d) \<in> set dead \<longrightarrow> (\<exists>fs. in2 m h d fs) \<and> \<not> in2 kept h d fs"
proof -
  have "(in2 kept h d fs \<longrightarrow> in2 m h d fs) \<and> (in2 m h d fs \<longrightarrow> in2 kept h d fs \<or> (h, d) \<in> set dead)
    \<and> ((h, d) \<in> set dead \<longrightarrow> (\<exists>fs. in2 m h d fs) \<and> \<not> in2 kept h d fs)"
    using assms
  proof (induction m arbitrary: lp kept dead)
    case (Cons p m)
    obtain h' x where p: "p = (h', x)" by (cases p)
    define good where "good = filter (\<lambda>(_, fs). fs_parent_digest fs \<in> lp) x"
    define bad where "bad = filter (\<lambda>(_, fs). fs_parent_digest fs \<notin> lp) x"
    obtain kept' dead' where w: "prune_walk (fst ` set good) m = (kept', dead')" by (cases "prune_walk (fst ` set good) m")
    have k: "kept = (if good = [] then kept' else (h', good) # kept')" "dead = map (\<lambda>(d, _). (h', d)) bad @ dead'"
      using Cons.prems(2) w by (auto simp: p Let_def good_def bad_def)
    have m: "bt_ok x" "\<forall>e \<in> set m. h' < fst e" "wf2 m" using Cons.prems(1) by (simp_all add: p wf2_Cons)
    note IH = Cons.IH [OF m(3) w] and wf = prune_walk_wf [OF m(3) w]
    have in_kept: "in2 kept h d fs \<longleftrightarrow> (h = h' \<and> (d, fs) \<in> set good) \<or> in2 kept' h d fs" for h d fs
      by (auto simp: k in2_Cons)
    have other: "\<not> in2 kept' h' d fs" "\<not> in2 m h' d fs" for d fs
      using m(2) wf by (fastforce simp: in2_def)+
    have one: "fs = fs'" if "(d, fs) \<in> set x" "(d, fs') \<in> set x" for fs'
      using that bt_get_iff [OF m(1)] by (metis option.inject)
    show ?case
    proof (cases "h = h'")
      case True
      have d: "\<And>d fs. in2 m h d fs = False" "\<And>d fs. in2 kept' h d fs = False" using other True by blast+
      have dead': "(h, d) \<notin> set dead'" using IH d by blast
      have bad: "(h, d) \<in> set dead \<longleftrightarrow> (\<exists>fs. (d, fs) \<in> set bad)" using dead' True by (auto simp: k)
      have split: "(d, fs) \<in> set x \<longleftrightarrow> (d, fs) \<in> set good \<or> (d, fs) \<in> set bad" for fs by (auto simp: good_def bad_def)
      have apart: "(d, fs) \<in> set good \<Longrightarrow> (d, fs') \<notin> set bad" for fs'
        using one [of fs'] by (auto simp: good_def bad_def)
      show ?thesis unfolding in_kept p in2_Cons d bad using True split apart by blast
    next
      case False
      then show ?thesis using IH by (auto simp: in_kept p in2_Cons k)
    qed
  qed simp
  then show "in2 kept h d fs \<longrightarrow> in2 m h d fs" "in2 m h d fs \<longrightarrow> in2 kept h d fs \<or> (h, d) \<in> set dead"
    "(h, d) \<in> set dead \<longrightarrow> (\<exists>fs. in2 m h d fs) \<and> \<not> in2 kept h d fs" by blast+
qed

text \<open>When the heights follow each other, what stays hangs on what stays.\<close>

primrec contiguous :: "u64 \<Rightarrow> u64 list \<Rightarrow> bool" where
  "contiguous h [] = True"
| "contiguous h (k # ks) = (k = h \<and> contiguous (h + 1) ks)"

lemma contiguousI:
  assumes "sorted_wrt (<) ks" "\<forall>k \<in> set ks. l < k" "\<forall>k \<in> set ks. k = l + 1 \<or> k - 1 \<in> set ks"
  shows "contiguous (l + 1) ks"
  using assms
proof (induction ks arbitrary: l)
  case (Cons k ks)
  have k: "\<not> k - 1 \<in> set (k # ks)" "k - 1 < k"
  proof -
    have "k \<noteq> 0" using Cons.prems(2) by auto
    then show "k - 1 < k" by (simp add: word_less_nat_alt measure_unat)
    then show "\<not> k - 1 \<in> set (k # ks)" using Cons.prems(1) by auto
  qed
  then have kl: "k = l + 1" using Cons.prems(3) by auto
  have "contiguous (l + 1 + 1) ks"
  proof (rule Cons.IH)
    show "sorted_wrt (<) ks" "\<forall>j \<in> set ks. l + 1 < j" using Cons.prems(1) kl by auto
    then show "\<forall>j \<in> set ks. j = l + 1 + 1 \<or> j - 1 \<in> set ks"
      using Cons.prems(3) kl by (auto simp: eq_diff_eq)
  qed
  with kl show ?case by simp
qed simp

lemma prune_walk_linked:
  assumes "wf2 m" "prune_walk lp m = (kept, dead)" "contiguous l (map fst m)" "in2 kept h d fs"
  shows "(h = l \<and> fs_parent_digest fs \<in> lp) \<or> (l < h \<and> (\<exists>p. in2 kept (h - 1) (fs_parent_digest fs) p))"
  using assms
proof (induction m arbitrary: lp kept dead l)
  case (Cons e m)
  obtain x where e: "e = (l, x)" using Cons.prems(3) by (cases e) auto
  define good where "good = filter (\<lambda>(_, fs). fs_parent_digest fs \<in> lp) x"
  obtain kept' dead' where w: "prune_walk (fst ` set good) m = (kept', dead')" by (cases "prune_walk (fst ` set good) m")
  have k: "kept = (if good = [] then kept' else (l, good) # kept')"
    using Cons.prems(2) w by (auto simp: e Let_def good_def)
  have m: "wf2 m" "contiguous (l + 1) (map fst m)" "\<forall>e \<in> set m. l < fst e"
    using Cons.prems(1,3) by (simp_all add: e wf2_Cons)
  have sub: "in2 kept' h d fs \<Longrightarrow> in2 kept h d fs" for h d fs by (auto simp: k in2_Cons)
  from Cons.prems(4) consider "h = l" "(d, fs) \<in> set good" | "in2 kept' h d fs" by (auto simp: k in2_Cons split: if_splits)
  then show ?case
  proof cases
    case 1
    then show ?thesis by (auto simp: good_def)
  next
    case 2
    have "l < h" using 2 prune_walk_wf [OF m(1) w] m(3) by (fastforce simp: in2_def)
    moreover have "\<exists>p. in2 kept (h - 1) (fs_parent_digest fs) p"
      using Cons.IH [OF m(1) w m(2) 2]
    proof
      assume "h = l + 1 \<and> fs_parent_digest fs \<in> fst ` set good"
      then show ?thesis by (auto simp: k in2_Cons)
    next
      assume "l + 1 < h \<and> (\<exists>p. in2 kept' (h - 1) (fs_parent_digest fs) p)"
      with sub show ?thesis by blast
    qed
    ultimately show ?thesis by blast
  qed
qed simp

section \<open>The invariant\<close>

definition fork_ok :: "('e, 'd, 's, 'p) setting \<Rightarrow> ('e, 'd) finalizer \<Rightarrow> u64 \<Rightarrow> digest \<Rightarrow> fork_state \<Rightarrow> bool" where
  "fork_ok E f h d fs \<longleftrightarrow>
     fs_block_digest fs = d \<and> (h, d) \<notin> f_dead f \<and> cs_latest_height (f_canonical f) < h
   \<and> tree_ok (st_crypto E) False False (fs_consensus_state fs)
   \<and> cs_latest_height (fs_consensus_state fs) = h \<and> cs_head_digest (fs_consensus_state fs) = d
   \<and> (if h = cs_latest_height (f_canonical f) + 1
      then cs_latest_height (f_canonical f) = 0 \<or> fs_parent_digest fs = cs_head_digest (f_canonical f)
      else \<exists>p. fork_at f (h - 1) (fs_parent_digest fs) = Some p)"

definition forks_ok :: "('e, 'd, 's, 'p) setting \<Rightarrow> ('e, 'd) finalizer \<Rightarrow> bool" where
  "forks_ok E f \<longleftrightarrow> tree_ok (st_crypto E) False False (f_canonical f) \<and> wf2 (f_fork_states f)
   \<and> (\<forall>h d fs. fork_at f h d = Some fs \<longrightarrow> fork_ok E f h d fs)
   \<and> (\<forall>(h, d) \<in> f_dead f. cs_latest_height (f_canonical f) < h)"

definition orphans_ok :: "('e, 'd) finalizer \<Rightarrow> bool" where
  "orphans_ok f \<longleftrightarrow> wf2 (f_orphans f)
   \<and> (\<forall>h d bs. in2 (f_orphans f) h d bs \<longrightarrow> cs_latest_height (f_canonical f) < h
        \<and> (\<forall>b \<in> set bs. h_height (b_header b) = h \<and> h_parent (b_header b) = d))"

definition pending_ok :: "('e, 'd, 's, 'p) setting \<Rightarrow> ('e, 'd) finalizer \<Rightarrow> bool" where
  "pending_ok E f \<longleftrightarrow> distinct (map (block_digest (st_crypto E) (st_wire E)) (f_pending_notarized f))
   \<and> f_pending_notarized_keys f = block_digest (st_crypto E) (st_wire E) ` set (f_pending_notarized f)
   \<and> length (f_pending_notarized f) \<le> st_pending_notarized_max E"

definition finalizer_ok :: "('e, 'd, 's, 'p) setting \<Rightarrow> ('e, 'd) finalizer \<Rightarrow> bool" where
  "finalizer_ok E f \<longleftrightarrow> forks_ok E f \<and> orphans_ok f \<and> pending_ok E f \<and> waiters_ok f"

lemma forks_ok_cong:
  "f_canonical f' = f_canonical f \<Longrightarrow> f_fork_states f' = f_fork_states f \<Longrightarrow> f_dead f' = f_dead f \<Longrightarrow>
   forks_ok E f' = forks_ok E f"
  using lookup_cong(1) [of f' f] by (simp add: forks_ok_def fork_ok_def)

lemma orphans_ok_cong:
  "f_canonical f' = f_canonical f \<Longrightarrow> f_orphans f' = f_orphans f \<Longrightarrow> orphans_ok f' = orphans_ok f"
  by (simp add: orphans_ok_def)

lemma pending_ok_cong:
  "f_pending_notarized f' = f_pending_notarized f \<Longrightarrow> f_pending_notarized_keys f' = f_pending_notarized_keys f \<Longrightarrow>
   pending_ok E f' = pending_ok E f"
  by (simp add: pending_ok_def)

lemma waiters_ok_cong:
  "f_canonical f' = f_canonical f \<Longrightarrow> f_fork_states f' = f_fork_states f \<Longrightarrow> f_dead f' = f_dead f \<Longrightarrow>
   f_pending_height_notifys f' = f_pending_height_notifys f \<Longrightarrow> waiters_ok f' = waiters_ok f"
  using lookup_cong(1) [of f' f] by (simp add: waiters_ok_def)

lemmas part_cong = forks_ok_cong orphans_ok_cong pending_ok_cong waiters_ok_cong

lemma finalizer_ok_cong:
  "f_canonical f' = f_canonical f \<Longrightarrow> f_fork_states f' = f_fork_states f \<Longrightarrow> f_dead f' = f_dead f \<Longrightarrow>
   f_orphans f' = f_orphans f \<Longrightarrow> f_pending_notarized f' = f_pending_notarized f \<Longrightarrow>
   f_pending_notarized_keys f' = f_pending_notarized_keys f \<Longrightarrow>
   f_pending_height_notifys f' = f_pending_height_notifys f \<Longrightarrow> finalizer_ok E f' = finalizer_ok E f"
  by (simp add: finalizer_ok_def part_cong [of f' f])

lemma engine_ok [simp]:
  "finalizer_ok E (f\<lparr>f_engine := es\<rparr>) = finalizer_ok E f" "tidy f (f\<lparr>f_engine := es\<rparr>)"
  by (rule finalizer_ok_cong, simp_all) (rule tidy_cong, simp_all)

section \<open>Notarized blocks keep it\<close>

lemma keep_orphan_ok:
  assumes o: "orphans_ok f" and h: "cs_latest_height (f_canonical f) < h_height (b_header b)"
  shows "orphans_ok (keep_orphan b f)"
proof -
  let ?h = "h_height (b_header b)" and ?p = "h_parent (b_header b)"
  let ?m = "f_orphans f" and ?new = "orphans_at f ?h ?p @ [b]"
  have wf: "wf2 ?m" using o by (simp add: orphans_ok_def)
  then have wf': "wf2 (f_orphans (keep_orphan b f))" by (simp add: keep_orphan_def Let_def wf2_insert)
  have new: "h_height (b_header x) = ?h \<and> h_parent (b_header x) = ?p" if "x \<in> set ?new" for x
  proof (cases "x = b")
    case False
    then have x: "x \<in> set (orphans_at f ?h ?p)" using that by simp
    then obtain m bs where "bt_get ?m ?h = Some m" "bt_get m ?p = Some bs" "x \<in> set bs"
      by (cases "bt_get ?m ?h"; cases "bt_get (the (bt_get ?m ?h)) ?p") (auto simp: orphans_at_def)
    then have "in2 ?m ?h ?p bs" "x \<in> set bs" using in2_get [OF wf] by auto
    with o show ?thesis unfolding orphans_ok_def by blast
  qed simp
  have "f_orphans (keep_orphan b f) = bt_insert ?h (bt_insert ?p ?new (entry_or_default ?m ?h)) ?m"
    by (simp add: keep_orphan_def Let_def)
  note at = in2_insert [OF wf, of ?h ?p ?new, folded this]
  show ?thesis unfolding orphans_ok_def keep_orphan_fields
  proof (intro conjI allI impI wf')
    fix h d bs assume *: "in2 (f_orphans (keep_orphan b f)) h d bs"
    have "cs_latest_height (f_canonical f) < h \<and> (\<forall>b \<in> set bs. h_height (b_header b) = h \<and> h_parent (b_header b) = d)"
    proof (cases "h = ?h \<and> d = ?p")
      case True
      then have "bs = ?new" using * at by simp
      then show ?thesis using True assms(2) new by blast
    next
      case False
      then have "in2 ?m h d bs" using * at by simp
      then show ?thesis using o unfolding orphans_ok_def by blast
    qed
    then show "cs_latest_height (f_canonical f) < h" "\<forall>b \<in> set bs. h_height (b_header b) = h \<and> h_parent (b_header b) = d"
      by blast+
  qed
qed

lemma parent_state_ok:
  assumes f: "forks_ok E f" and p: "parent_state f b = Some (Some s)"
    and h: "cs_latest_height (f_canonical f) < h_height (b_header b)"
  shows "tree_ok (st_crypto E) False False s"
    "if h_height (b_header b) = cs_latest_height (f_canonical f) + 1
     then s = f_canonical f \<and> (cs_latest_height (f_canonical f) = 0 \<or> h_parent (b_header b) = cs_head_digest (f_canonical f))
     else \<exists>fs. fork_at f (h_height (b_header b) - 1) (h_parent (b_header b)) = Some fs \<and> s = fs_consensus_state fs"
proof -
  show *: "if h_height (b_header b) = cs_latest_height (f_canonical f) + 1
     then s = f_canonical f \<and> (cs_latest_height (f_canonical f) = 0 \<or> h_parent (b_header b) = cs_head_digest (f_canonical f))
     else \<exists>fs. fork_at f (h_height (b_header b) - 1) (h_parent (b_header b)) = Some fs \<and> s = fs_consensus_state fs"
    using p by (auto simp: parent_state_def Let_def cs_clone_same word_gt_0 split: if_splits)
  then show "tree_ok (st_crypto E) False False s"
    using f by (auto simp: forks_ok_def fork_ok_def split: if_splits)
qed

text \<open>Execution at notarization: the new state, whatever fork it comes from.\<close>

lemma execute_notarized_ok:
  assumes "tree_ok (st_crypto E) False False s" "execute_notarized E b f s = Some (Inr Applied, es, s1)"
  shows "tree_ok (st_crypto E) False False s1" "positioned (st_crypto E) (st_wire E) b s s1"
    "h_epoch (b_header b) = cs_epoch s"
    "apply_block (st_crypto E) (st_wire E) (st_protocol_consts E) (st_deposit_domain E) b s = Some s1"
proof -
  note x = execute_applied [OF assms(2) [unfolded execute_notarized_def]]
  have "ep_withdrawals (b_payload b) = expected_withdrawals b s" "h_epoch (b_header b) = cs_epoch s"
    using x(1) by (simp_all add: gates_open_def)
  with apply_block_ok [OF assms(1), of b "st_wire E" "st_protocol_consts E" "st_deposit_domain E"] x(2)
  show "tree_ok (st_crypto E) False False s1" "positioned (st_crypto E) (st_wire E) b s s1"
    "h_epoch (b_header b) = cs_epoch s" "apply_block (st_crypto E) (st_wire E) (st_protocol_consts E)
      (st_deposit_domain E) b s = Some s1" by auto
qed

lemma store_fork_ok:
  assumes f: "forks_ok E f" and fresh: "fresh E b f" and p: "parent_state f b = Some (Some s)"
    and x: "execute_notarized E b f s = Some (Inr Applied, es, s1)"
    and f1: "f_canonical f1 = f_canonical f" "f_dead f1 = f_dead f"
      "f_fork_states f1 = f_fork_states (store_fork (h_height (b_header b)) (fork_of E b s1) f)"
  shows "forks_ok E f1"
proof -
  let ?h = "h_height (b_header b)" and ?d = "block_digest (st_crypto E) (st_wire E) b"
  have h: "cs_latest_height (f_canonical f) < ?h" "(?h, ?d) \<notin> f_dead f" using fresh by (simp_all add: fresh_def Let_def)
  note ps = parent_state_ok [OF f p h(1)] and xo = execute_notarized_ok [OF parent_state_ok(1) [OF f p h(1)] x]
  have at: "fork_at f1 h' d' = (if h' = ?h \<and> d' = ?d then Some (fork_of E b s1) else fork_at f h' d')" for h' d'
    using lookup_cong(1) [OF f1(3)] by (simp add: fork_at_store fork_of_def)
  have wf: "wf2 (f_fork_states f1)" using f by (simp add: f1 store_fork_def wf2_insert forks_ok_def)
  have "fork_ok E f1 ?h ?d (fork_of E b s1)"
    using ps(2) xo(1,2) h by (auto simp: fork_ok_def fork_of_def f1 positioned_def at)
  moreover have "fork_ok E f1 h' d' fs" if "fork_at f h' d' = Some fs" for h' d' fs
    using f that by (auto simp: forks_ok_def fork_ok_def f1 at)
  ultimately show ?thesis using f wf by (auto simp: forks_ok_def f1 at split: if_splits)
qed

lemma defer_ok:
  assumes "finalizer_ok E f" "(v, f1) = defer_notarized E b f"
  shows "finalizer_ok E f1"
  using assms(2)
proof (cases rule: defer_cases)
  case 3
  have "pending_ok E f1" using assms(1) 3 by (auto simp: finalizer_ok_def pending_ok_def)
  moreover have "forks_ok E f1 = forks_ok E f" "orphans_ok f1 = orphans_ok f" "waiters_ok f1 = waiters_ok f"
    by (rule part_cong; simp add: 3)+
  ultimately show ?thesis using assms(1) by (simp add: finalizer_ok_def)
qed (use assms(1) in simp_all)

lemma store_fork_engine: "f_fork_states (store_fork h fs (f\<lparr>f_engine := es\<rparr>)) = f_fork_states (store_fork h fs f)"
  by (simp add: store_fork_def)

lemma executed_fork_at:
  "fork_at (height_notify_executed h0 d0 (store_fork h fs (f\<lparr>f_engine := es\<rparr>))) h' d' =
     (if h' = h \<and> d' = fs_block_digest fs then Some fs else fork_at f h' d')"
proof -
  have "fork_at (height_notify_executed h0 d0 (store_fork h fs (f\<lparr>f_engine := es\<rparr>))) = fork_at (store_fork h fs f)"
    by (rule lookup_cong(1)) (simp only: height_notify_executed_fields store_fork_engine)
  then show ?thesis by (simp add: fork_at_store)
qed

lemma visit_ok:
  assumes ok: "finalizer_ok E f" and v: "visit_notarized E b f = Some (v, f1)"
  shows "finalizer_ok E f1 \<and> tidy f f1"
  using v
proof (cases rule: visit_elim)
  case orphaned
  have "forks_ok E f1 = forks_ok E f" "pending_ok E f1 = pending_ok E f" "waiters_ok f1 = waiters_ok f"
    by (rule part_cong; simp add: orphaned)+
  moreover have "tidy f f1" by (rule tidy_cong) (simp_all add: orphaned)
  ultimately show ?thesis using ok keep_orphan_ok [of f b] orphaned(3)
    by (simp add: finalizer_ok_def fresh_def Let_def orphaned(2))
next
  case (syncing es)
  have "finalizer_ok E (f\<lparr>f_engine := es\<rparr>)" using ok by simp
  then have "finalizer_ok E f1" using syncing(1) by (rule defer_ok)
  moreover have "tidy f f1" by (rule tidy_cong) (simp_all add: defer_frame [OF syncing(1)])
  ultimately show ?thesis by blast
next
  case (executed es s s1)
  have f: "forks_ok E f" "bt_ok (f_pending_height_notifys f)" using ok by (simp_all add: finalizer_ok_def waiters_ok_def)
  have "forks_ok E f1"
    by (rule store_fork_ok [OF f(1) executed(1,2,3)])
      (simp_all only: executed(4) height_notify_executed_fields store_fork_fields store_fork_engine, simp_all)
  moreover have "orphans_ok f1 = orphans_ok f" "pending_ok E f1 = pending_ok E f"
    by (rule part_cong; simp add: executed(4))+
  moreover have "waiters_ok f1"
  proof -
    have n: "bt_get (f_pending_height_notifys f1) k =
        (if k = block_key E b then None else bt_get (f_pending_height_notifys f) k)" for k
      by (simp add: executed(4) executed_notifys block_key_def bt_get_remove [OF f(2)])
    have at: "fork_at f1 h d = (if (h, d) = block_key E b then Some (fork_of E b s1) else fork_at f h d)" for h d
      unfolding executed(4) executed_fork_at by (simp add: block_key_def fork_of_def)
    have "bt_ok (f_pending_height_notifys f1)" by (simp add: executed(4) executed_notifys bt_ok_remove [OF f(2)])
    moreover have "f_canonical f1 = f_canonical f" "f_dead f1 = f_dead f" by (simp_all add: executed(4))
    ultimately show ?thesis using ok unfolding finalizer_ok_def waiters_ok_def n at by simp
  qed
  moreover have "tidy f f1"
  proof -
    have "tidy f (store_fork (h_height (b_header b)) (fork_of E b s1) (f\<lparr>f_engine := es\<rparr>))" by (rule tidy_cong) simp_all
    also have "tidy \<dots> f1" unfolding executed(4) by (rule tidy_executed) (simp add: f(2))
    finally show ?thesis .
  qed
  ultimately show ?thesis using ok by (simp add: finalizer_ok_def)
qed (use ok in simp_all)

lemma notarized_ok:
  assumes "finalizer_ok E f" "handle_notarized_block E b f = Some (r, f1)"
  shows "finalizer_ok E f1 \<and> tidy f f1"
proof (rule notarized_invariant' [where I = "\<lambda>f1. finalizer_ok E f1 \<and> tidy f f1", OF assms(2)])
  fix b' f' f1' v assume "finalizer_ok E f' \<and> tidy f f'" "visit_notarized E b' f' = Some (v, f1')"
  then show "finalizer_ok E f1' \<and> tidy f f1'" using visit_ok [of E f' b' v f1'] by (metis tidy_trans)
qed (simp add: assms(1))

section \<open>Finalized blocks keep it\<close>

text \<open>The forks a finalization leaves, and those it kills.\<close>

definition pruning :: "u64 \<Rightarrow> digest \<Rightarrow> ('e, 'd) finalizer \<Rightarrow> (u64, (digest, fork_state) btree) btree \<times> (u64 \<times> digest) list" where
  "pruning h d f = prune_walk {d} (filter (\<lambda>(fh, _). fh > h) (f_fork_states f))"

lemma above_no_overflow: "(h :: u64) < h' \<Longrightarrow> h + 1 \<le> h'"
  by (rule inc_le)

lemma gap_above:
  assumes "(h :: u64) < k"
  shows "k = h + 1 \<or> h < k - 1"
proof -
  have "1 + h \<noteq> 0" 
  proof
    assume "1 + h = 0"
    then have "h = - 1" by (metis add.commute eq_neg_iff_add_eq_0)
    with assms show False by (simp add: word_order.extremum_strict)
  qed
  then have "unat (1 + h) = Suc (unat h)" by (rule unatSuc)
  moreover have "unat (k - 1) = unat k - 1" using assms by (intro unat_minus_one) auto
  moreover have "unat h < unat k" using assms by (simp add: word_less_nat_alt)
  ultimately show ?thesis by (auto simp: word_less_nat_alt add.commute word_unat_eq_iff)
qed

lemma prune_above:
  assumes "\<forall>(h', x) \<in> set (f_fork_states f). h < h'"
  shows "prune_fork_states_not_descending_from h d f =
    (case prune_walk {d} (f_fork_states f) of (kept, dead) \<Rightarrow> fold bury dead (f\<lparr>f_fork_states := kept\<rparr>))"
proof -
  have "filter (\<lambda>(h', _). h + 1 \<le> h') (f_fork_states f) = f_fork_states f"
    "filter (\<lambda>(h', _). \<not> h + 1 \<le> h') (f_fork_states f) = []"
    using assms by (auto simp: filter_id_conv filter_empty_conv above_no_overflow)
  then show ?thesis by (simp add: prune_fork_states_not_descending_from_def Let_def)
qed

lemma bury_outputs:
  "f_outputs (bury k f) = f_outputs f @ map (\<lambda>i. Answered i False)
     (case bt_get (f_pending_height_notifys f) k of None \<Rightarrow> [] | Some js \<Rightarrow> js)"
  by (simp add: bury_def Let_def split: option.split)

lemma fold_bury_same:
  "f_pending_height_notifys g = f_pending_height_notifys g' \<Longrightarrow> f_outputs g = f_outputs g' \<Longrightarrow>
   f_pending_height_notifys (fold bury ks g) = f_pending_height_notifys (fold bury ks g')
   \<and> f_outputs (fold bury ks g) = f_outputs (fold bury ks g')"
proof (induction ks arbitrary: g g')
  case (Cons k ks)
  have "f_pending_height_notifys (bury k g) = f_pending_height_notifys (bury k g')" "f_outputs (bury k g) = f_outputs (bury k g')"
    using Cons.prems by (simp_all only: bury_notifys bury_outputs)
  from Cons.IH [OF this] show ?case by simp
qed simp

lemma settle_prune:
  assumes h: "h = h_height (b_header b)" and d: "d = block_digest (st_crypto E) (st_wire E) b"
  shows "f_fork_states (settle E b f) = fst (pruning h d f)"
    "f_dead (settle E b f) = {k \<in> set (snd (pruning h d f)) \<union> f_dead f. fst k > h}"
    "\<exists>f'. f_pending_height_notifys f' = f_pending_height_notifys (fold bury (snd (pruning h d f)) f)
       \<and> f_outputs f' = f_outputs (fold bury (snd (pruning h d f)) f)
       \<and> settle E b f = height_notify_finalized_up_to h d f'"
proof -
  define f2 where "f2 = f\<lparr>f_canonical := set_forkchoice_safe_and_finalized (st_crypto E)
    (fc_head_block_hash (cs_forkchoice (f_canonical f))) (f_canonical f),
    f_fork_states := filter (\<lambda>(fh, _). fh > h) (f_fork_states f)\<rparr>"
  obtain kept dead where p: "pruning h d f = (kept, dead)" by (cases "pruning h d f")
  have pr: "prune_fork_states_not_descending_from h d f2 = fold bury dead (f2\<lparr>f_fork_states := kept\<rparr>)"
    using p by (subst prune_above) (auto simp: f2_def pruning_def)
  define g where "g = (fold bury dead (f2\<lparr>f_fork_states := kept\<rparr>))
    \<lparr>f_dead := Set.filter (\<lambda>(h', _). h' > h) (set dead \<union> f_dead f),
     f_orphans := filter (\<lambda>(h', _). h' > h) (f_orphans f)\<rparr>"
  have eq: "settle E b f = height_notify_finalized_up_to h d g"
    using pr unfolding settle_def Let_def h [symmetric] d [symmetric] by (simp add: f2_def g_def)
  show "f_fork_states (settle E b f) = fst (pruning h d f)"
    "f_dead (settle E b f) = {k \<in> set (snd (pruning h d f)) \<union> f_dead f. fst k > h}"
    by (auto simp: eq g_def p height_notify_finalized_up_to_def)
  show "\<exists>f'. f_pending_height_notifys f' = f_pending_height_notifys (fold bury (snd (pruning h d f)) f)
       \<and> f_outputs f' = f_outputs (fold bury (snd (pruning h d f)) f)
       \<and> settle E b f = height_notify_finalized_up_to h d f'"
    using fold_bury_same [of "f2\<lparr>f_fork_states := kept\<rparr>" f dead] eq
    by (intro exI [of _ g]) (simp add: p f2_def g_def)
qed

lemma apply_params_position:
  "apply_params c ps s = Some s' \<Longrightarrow> cs_latest_height s' = cs_latest_height s \<and> cs_head_digest s' = cs_head_digest s"
proof (induction ps arbitrary: s)
  case (Cons p ps)
  obtain s1 where s1: "apply_param c p s = Some s1" "apply_params c ps s1 = Some s'"
    using Cons.prems by (auto split: option.splits)
  have "cs_latest_height s1 = cs_latest_height s \<and> cs_head_digest s1 = cs_head_digest s"
    using s1(1) by (cases p) (auto simp: apply_param_def setter_defs on_tree_def split: if_splits sum.splits)
  with Cons.IH [OF s1(2)] show ?case by simp
qed simp

lemma enter_position:
  "cs_latest_height (enter_next_epoch c w b t) = cs_latest_height t
    \<and> cs_head_digest (enter_next_epoch c w b t) = cs_head_digest t"
proof -
  have removed: "cs_latest_height (snd (remove_added_validators_for_epoch c e u)) = cs_latest_height u"
    "cs_head_digest (snd (remove_added_validators_for_epoch c e u)) = cs_head_digest u" for e u
    by (simp_all add: remove_added_validators_for_epoch_def set_added_validators_def on_tree_def split: option.split)
  have cleared: "cs_latest_height (clear_removed_validators c u) = cs_latest_height u"
    "cs_head_digest (clear_removed_validators c u) = cs_head_digest u" for u
    by (simp_all add: clear_removed_validators_def set_removed_validators_def on_tree_def)
  have captured: "cs_latest_height (capture_state_root c w n u) = cs_latest_height u"
    "cs_head_digest (capture_state_root c w n u) = cs_head_digest u" for n u
    by (simp_all add: capture_state_root_def Let_def)
  show ?thesis
    unfolding enter_next_epoch_def Let_def captured by (simp add: removed cleared setter_defs on_tree_def)
qed

lemma cross_position:
  assumes s: "tree_ok c False False s" and x: "cross_boundary c w nk b s = Some (ex, ck, s')"
  shows "tree_ok c False False s'" "cs_latest_height s' = cs_latest_height s" "cs_head_digest s' = cs_head_digest s"
proof -
  show "tree_ok c False False s'" by (rule cross_tree_ok [OF s x])
  obtain ch s1 s2 where *: "apply_protocol_parameter_changes c s = Some (ch, s1)"
    "apply_committee_transition c nk s1 = Some (ex, s2)"
    "s' = enter_next_epoch c w b (snd (take_pending_checkpoint c s2))"
    using x unfolding cross_boundary_def Let_def by (auto split: option.splits prod.splits)
  have "tree_ok c False False s1" by (rule params_tree_ok [OF s *(1)])
  then have "frame s1 s2" using framed.transition [OF _ *(2), of False False s1] frame_refl by blast
  moreover have "cs_latest_height s1 = cs_latest_height s \<and> cs_head_digest s1 = cs_head_digest s"
  proof -
    let ?r = "reject_invalid_validator_count_changes c s"
    obtain s3 where "apply_params c (cs_protocol_param_changes ?r) ?r = Some s3" "s1 = set_param_changes c [] s3"
      using *(1) by (auto simp: apply_protocol_parameter_changes_def Let_def split: option.splits)
    moreover have "cs_latest_height ?r = cs_latest_height s \<and> cs_head_digest ?r = cs_head_digest s"
      by (simp add: reject_invalid_validator_count_changes_def Let_def set_param_changes_def on_tree_def)
    ultimately show ?thesis by (auto simp: set_param_changes_def on_tree_def dest: apply_params_position)
  qed
  moreover have "cs_latest_height (enter_next_epoch c w b t) = cs_latest_height t
      \<and> cs_head_digest (enter_next_epoch c w b t) = cs_head_digest t" for t
    by (rule enter_position)
  moreover have "cs_latest_height (snd (take_pending_checkpoint c s2)) = cs_latest_height s2
      \<and> cs_head_digest (snd (take_pending_checkpoint c s2)) = cs_head_digest s2"
    by (simp add: take_pending_checkpoint_def on_tree_def)
  ultimately show "cs_latest_height s' = cs_latest_height s" "cs_head_digest s' = cs_head_digest s"
    by (simp_all add: *(3) frame_def)
qed

lemma settle_waiters:
  assumes w: "waiters_ok f" and h: "h = h_height (b_header b)" and d: "d = block_digest (st_crypto E) (st_wire E) b"
    and f1: "f_pending_height_notifys f1 = f_pending_height_notifys f" "f_outputs f1 = f_outputs f"
  shows "bt_ok (f_pending_height_notifys (settle E b f1))"
    "bt_get (f_pending_height_notifys (settle E b f1)) k =
       (if fst k > h \<and> k \<notin> set (snd (pruning h d f1)) then bt_get (f_pending_height_notifys f) k else None)"
    "served i (settle E b f1) = served i f"
proof -
  let ?g = "fold bury (snd (pruning h d f1)) f1"
  obtain f' where f': "f_pending_height_notifys f' = f_pending_height_notifys ?g" "f_outputs f' = f_outputs ?g"
    "settle E b f1 = height_notify_finalized_up_to h d f'"
    using settle_prune(3) [OF h d] by blast
  have ok: "bt_ok (f_pending_height_notifys f1)" using w by (simp add: f1 waiters_ok_def)
  note b = fold_bury_ok [OF ok, where ks = "snd (pruning h d f1)"]
  have ok': "bt_ok (f_pending_height_notifys f')" by (simp add: f' b)
  define g0 where "g0 = f'\<lparr>f_pending_height_notifys := []\<rparr>"
  have g0: "bt_ok (f_pending_height_notifys g0)" "bt_get (f_pending_height_notifys g0) k = None" for k
    by (simp_all add: g0_def bt_get_def)
  note n = notify_walk_served [OF ok' g0]
  have eq: "settle E b f1 = notify_walk h d (f_pending_height_notifys f') g0"
    by (simp add: f'(3) height_notify_finalized_up_to_def g0_def)
  show "bt_ok (f_pending_height_notifys (settle E b f1))" by (simp add: eq n)
  show "bt_get (f_pending_height_notifys (settle E b f1)) k =
       (if fst k > h \<and> k \<notin> set (snd (pruning h d f1)) then bt_get (f_pending_height_notifys f) k else None)"
  proof -
    have "bt_get (f_pending_height_notifys (settle E b f1)) k =
        (case bt_get (f_pending_height_notifys f') k of Some js \<Rightarrow> if fst k > h then Some js else None | None \<Rightarrow> None)"
      by (simp add: eq n) (simp add: g0 split: option.split)
    then show ?thesis by (simp add: f'(1) b f1 split: option.split)
  qed
  have "served i (settle E b f1) = served i f'"
    by (simp add: eq n) (simp add: served_def answers_def waiting_def g0_def)
  also have "\<dots> = served i ?g" by (rule served_cong) (simp_all add: f')
  also have "\<dots> = served i f" by (simp add: b) (rule served_cong [OF f1(2,1)])
  finally show "served i (settle E b f1) = served i f" .
qed

text \<open>The forks above a finalized height follow each other without gaps.\<close>

lemma forks_contiguous:
  assumes f: "forks_ok E f" and h: "h = cs_latest_height (f_canonical f) + 1" "cs_latest_height (f_canonical f) < h"
  shows "contiguous (h + 1) (map fst (filter (\<lambda>(fh, _). fh > h) (f_fork_states f)))"
proof (rule contiguousI)
  let ?l = "cs_latest_height (f_canonical f)" and ?m = "f_fork_states f"
  have wf: "wf2 ?m" using f by (simp add: forks_ok_def)
  then have "wf2 (filter (\<lambda>(fh, _). fh > h) ?m)" by (rule wf2_filter)
  then show "sorted_wrt (<) (map fst (filter (\<lambda>(fh, _). fh > h) ?m))" by (simp add: wf2_def bt_ok_def)
  show "\<forall>k \<in> set (map fst (filter (\<lambda>(fh, _). fh > h) ?m)). h < k" by auto
  show "\<forall>k \<in> set (map fst (filter (\<lambda>(fh, _). fh > h) ?m)). k = h + 1 \<or> k - 1 \<in> set (map fst (filter (\<lambda>(fh, _). fh > h) ?m))"
  proof
    fix k assume "k \<in> set (map fst (filter (\<lambda>(fh, _). fh > h) ?m))"
    then obtain x where x: "(k, x) \<in> set ?m" "h < k" by auto
    then have "x \<noteq> []" using wf by (auto simp: wf2_def)
    then obtain d fs where "(d, fs) \<in> set x" by (metis list.set_intros(1) neq_Nil_conv surj_pair)
    with x(1) have "in2 ?m k d fs" by (auto simp: in2_def)
    then have "fork_ok E f k d fs" using f fork_at_in2 [OF wf] by (auto simp: forks_ok_def)
    moreover have "k \<noteq> ?l + 1" using x(2) h by auto
    ultimately obtain p where "fork_at f (k - 1) (fs_parent_digest fs) = Some p" by (auto simp: fork_ok_def)
    then have "\<exists>y. (k - 1, y) \<in> set ?m" using fork_at_in2 [OF wf] by (auto simp: in2_def)
    moreover have "k = h + 1 \<or> h < k - 1" using x(2) by (rule gap_above)
    ultimately show "k = h + 1 \<or> k - 1 \<in> set (map fst (filter (\<lambda>(fh, _). fh > h) ?m))" by force
  qed
qed

lemma settle_ok:
  assumes ok: "finalizer_ok E f" and ext: "extends f b" and s: "tree_ok (st_crypto E) False False s"
    "cs_latest_height s = h_height (b_header b)" "cs_head_digest s = block_digest (st_crypto E) (st_wire E) b"
  shows "finalizer_ok E (settle E b (f\<lparr>f_engine := es, f_canonical := s\<rparr>))"
    "tidy f (settle E b (f\<lparr>f_engine := es, f_canonical := s\<rparr>))"
proof -
  define h d where "h = h_height (b_header b)" and "d = block_digest (st_crypto E) (st_wire E) b"
  define f1 where "f1 = f\<lparr>f_engine := es, f_canonical := s\<rparr>"
  obtain kept dead where p: "pruning h d f1 = (kept, dead)" by (cases "pruning h d f1")
  let ?m = "filter (\<lambda>(fh, _). fh > h) (f_fork_states f)"
  define f2 where "f2 = settle E b f1"
  have f: "forks_ok E f" "orphans_ok f" "pending_ok E f" "waiters_ok f" using ok by (simp_all add: finalizer_ok_def)
  have wf: "wf2 (f_fork_states f)" using f(1) by (simp add: forks_ok_def)
  have w: "prune_walk {d} ?m = (kept, dead)" using p by (simp add: pruning_def f1_def)
  note pw = prune_walk_wf [OF wf2_filter [OF wf] w] and pi = prune_walk_in2 [OF wf2_filter [OF wf] w]
  have h: "h = cs_latest_height (f_canonical f) + 1" "cs_latest_height (f_canonical f) < h"
    using ext by (auto simp: extends_def h_def)
  note pl = prune_walk_linked [OF wf2_filter [OF wf] w forks_contiguous [OF f(1) h]]
  have forks: "f_fork_states f2 = kept" and dead: "f_dead f2 = {k \<in> set dead \<union> f_dead f. fst k > h}"
    using settle_prune(1,2) [OF h_def d_def, of f1] p by (simp_all add: f1_def f2_def)
  have can: "tree_ok (st_crypto E) False False (f_canonical f2)" "cs_latest_height (f_canonical f2) = h"
    "cs_head_digest (f_canonical f2) = d"
    using s forkchoice_tree_ok(2) [OF s(1)]
    by (simp_all add: f2_def f1_def h_def d_def) (simp_all add: set_forkchoice_safe_and_finalized_def on_tree_def)
  have at: "fork_at f2 h' d' = Some fs \<longleftrightarrow> in2 kept h' d' fs" for h' d' fs
    using fork_at_in2 [of f2] pw by (simp add: forks)
  have old: "fork_at f h' d' = Some fs \<and> h < h'" if "in2 kept h' d' fs" for h' d' fs
    using pi(1) that fork_at_in2 [OF wf] in2_filter [where P = "\<lambda>fh. h < fh" and m = "f_fork_states f"] by blast
  have fork: "fork_ok E f2 h' d' fs" if k: "in2 kept h' d' fs" for h' d' fs
  proof -
    have o: "fork_ok E f h' d' fs" "h < h'" using old [OF k] f(1) by (auto simp: forks_ok_def)
    have "(h', d') \<notin> f_dead f2" using pi(3) k o by (auto simp: dead fork_ok_def)
    moreover have "if h' = h + 1 then fs_parent_digest fs = d else \<exists>p. fork_at f2 (h' - 1) (fs_parent_digest fs) = Some p"
      using pl [OF k] at by auto
    ultimately show ?thesis using o by (simp add: fork_ok_def can)
  qed
  then have "forks_ok E f2" using pw can by (auto simp: forks_ok_def at forks dead)
  moreover have "orphans_ok f2"
  proof -
    have "f_orphans f2 = filter (\<lambda>(fh, _). fh > h) (f_orphans f)" by (simp add: f2_def f1_def h_def)
    then show ?thesis using f(2) by (auto simp: orphans_ok_def wf2_filter in2_filter can)
  qed
  moreover have "pending_ok E f2 = pending_ok E f" by (rule pending_ok_cong) (simp_all add: f2_def f1_def)
  moreover have "waiters_ok f2"
  proof -
    note n = settle_waiters [OF f(4) h_def d_def, of f1, folded f2_def]
    have "h' > h \<and> (h', d') \<notin> f_dead f2 \<and> fork_at f2 h' d' = None" if "bt_get (f_pending_height_notifys f2) (h', d') \<noteq> None" for h' d'
    proof -
      have o: "h < h'" "(h', d') \<notin> set dead" "bt_get (f_pending_height_notifys f) (h', d') \<noteq> None"
        using that n(2) [of "(h', d')"] p by (auto simp: f1_def split: if_splits)
      then have "(h', d') \<notin> f_dead f" "fork_at f h' d' = None" using f(4) unfolding waiters_ok_def by blast+
      then show ?thesis using o old [of h' d'] at [of h' d'] by (cases "fork_at f2 h' d'") (auto simp: dead)
    qed
    then show ?thesis using n(1) by (simp add: waiters_ok_def can) (simp add: f1_def)
  qed
  ultimately show "finalizer_ok E (settle E b (f\<lparr>f_engine := es, f_canonical := s\<rparr>))"
    using f(3) by (simp add: finalizer_ok_def f2_def f1_def)
  show "tidy f (settle E b (f\<lparr>f_engine := es, f_canonical := s\<rparr>))"
    using settle_waiters(2,3) [OF f(4) h_def d_def, of f1] by (simp add: f1_def tidy_def)
qed

text \<open>A canonical state at the same block can replace the canonical state.\<close>

lemma replace_canonical_ok:
  assumes "finalizer_ok E f" "tree_ok (st_crypto E) False False s"
    "cs_latest_height s = cs_latest_height (f_canonical f)" "cs_head_digest s = cs_head_digest (f_canonical f)"
  shows "finalizer_ok E (f\<lparr>f_db := db, f_validator_exit := ex, f_canonical := s\<rparr>)" (is "finalizer_ok E ?f")
proof -
  have at: "fork_at ?f = fork_at f" by (rule lookup_cong) simp
  have "forks_ok E ?f" "orphans_ok ?f" "pending_ok E ?f" "waiters_ok ?f"
    using assms by (simp_all add: finalizer_ok_def forks_ok_def fork_ok_def at orphans_ok_def pending_ok_def waiters_ok_def)
  then show ?thesis by (simp add: finalizer_ok_def)
qed

lemma send_ok: "finalizer_ok E (send os f) = finalizer_ok E f"
  by (rule finalizer_ok_cong) simp_all

lemma close_ok:
  assumes ok: "finalizer_ok E f" and c: "close_block E entry f = Some (Inr u, f1)"
  shows "finalizer_ok E f1" "tidy f f1"
proof -
  let ?b = "pf_block entry"
  have t: "tree_ok (st_crypto E) False False (f_canonical f)" using ok by (simp add: finalizer_ok_def forks_ok_def)
  obtain db s ex os where f1: "f1 = send os (f\<lparr>f_db := db, f_validator_exit := ex, f_canonical := s\<rparr>)" "silent os"
    and s: "if terminal (f_canonical f) (h_height (b_header ?b))
        then \<exists>ck. cross_boundary (st_crypto E) (st_wire E) (st_node_public_key E) ?b (f_canonical f) = Some (ex, ck, s)
        else s = f_canonical f"
    by (rule close_elim [OF c]) simp
  have "tree_ok (st_crypto E) False False s" "cs_latest_height s = cs_latest_height (f_canonical f)"
    "cs_head_digest s = cs_head_digest (f_canonical f)"
    using s t cross_position [OF t] by (auto split: if_splits)
  then show "finalizer_ok E f1" unfolding f1(1) send_ok by (rule replace_canonical_ok [OF ok])
  show "tidy f f1" unfolding f1(1)
    by (rule tidy_trans [OF _ tidy_silent [OF f1(2)]]) (rule tidy_cong, simp_all)
qed

lemma take_orphans_wf:
  assumes wf: "wf2 (f_orphans f)"
  shows "wf2 (f_orphans (snd (take_orphans h d f)))
    \<and> (\<forall>h' d' bs. in2 (f_orphans (snd (take_orphans h d f))) h' d' bs \<longrightarrow> in2 (f_orphans f) h' d' bs)"
proof (cases "bt_get (f_orphans f) h")
  case None
  then show ?thesis using wf by (simp add: take_orphans_def)
next
  case (Some m)
  let ?rest = "bt_remove d m" and ?o = "f_orphans f"
  have m: "(h, m) \<in> set ?o" "bt_ok m" using bt_get_in [OF Some] wf by (auto simp: wf2_def)
  show ?thesis
  proof (cases "?rest = []")
    case True
    then have o: "f_orphans (snd (take_orphans h d f)) = bt_remove h ?o" by (simp add: take_orphans_def Some)
    show ?thesis unfolding o using wf set_bt_remove [of h ?o] by (auto simp: wf2_def bt_ok_remove in2_def)
  next
    case False
    then have o: "f_orphans (snd (take_orphans h d f)) = bt_insert h ?rest ?o" by (simp add: take_orphans_def Some)
    have sub: "set (bt_insert h ?rest ?o) \<subseteq> insert (h, ?rest) (set ?o)" "set ?rest \<subseteq> set m"
      by (rule set_bt_insert, rule set_bt_remove)
    have "wf2 (bt_insert h ?rest ?o)" using wf sub(1) False m(2) by (auto simp: wf2_def bt_ok_insert bt_ok_remove)
    moreover have "in2 ?o h' d' bs" if k: "in2 (bt_insert h ?rest ?o) h' d' bs" for h' d' bs
    proof -
      obtain x where "(h', x) \<in> set (bt_insert h ?rest ?o)" "(d', bs) \<in> set x" using k unfolding in2_def by blast
      then show ?thesis using sub m(1) unfolding in2_def by blast
    qed
    ultimately show ?thesis unfolding o by blast
  qed
qed

lemma take_orphans_ok:
  assumes "finalizer_ok E f"
  shows "finalizer_ok E (snd (take_orphans h d f))" "tidy f (snd (take_orphans h d f))"
proof -
  let ?f = "snd (take_orphans h d f)"
  have o: "orphans_ok f" and wf: "wf2 (f_orphans f)" using assms by (simp_all add: finalizer_ok_def orphans_ok_def)
  have "wf2 (f_orphans ?f) \<and> (\<forall>h' d' bs. in2 (f_orphans ?f) h' d' bs \<longrightarrow> in2 (f_orphans f) h' d' bs)"
    by (rule take_orphans_wf [OF wf])
  then have "orphans_ok ?f" using o unfolding orphans_ok_def take_orphans_fields by blast
  moreover have "forks_ok E ?f = forks_ok E f" "pending_ok E ?f = pending_ok E f" "waiters_ok ?f = waiters_ok f"
    by (rule part_cong; simp)+
  ultimately show "finalizer_ok E ?f" using assms by (simp add: finalizer_ok_def)
  show "tidy f ?f" by (rule tidy_cong) simp_all
qed

lemma readopt_ok:
  assumes "finalizer_ok E f" "readopt E cs f = Some (r, f1)"
  shows "finalizer_ok E f1 \<and> tidy f f1"
proof (rule readopt_invariant [where B = UNIV and I = "\<lambda>f1. finalizer_ok E f1 \<and> tidy f f1", OF assms(2)])
  fix b' f' f1' r assume "finalizer_ok E f' \<and> tidy f f'" "handle_notarized_block E b' f' = Some (r, f1')"
  then show "finalizer_ok E f1' \<and> tidy f f1'" using notarized_ok [of E f' b' r f1'] by (metis tidy_trans)
qed (simp_all add: assms(1))

lemma execute_finalized_ok:
  assumes "tree_ok (st_crypto E) False False (f_canonical f)" "execute_finalized E b f = Some (Inr Applied, es, s1)"
  shows "tree_ok (st_crypto E) False False s1" "positioned (st_crypto E) (st_wire E) b (f_canonical f) s1"
    "h_epoch (b_header b) = cs_epoch (f_canonical f)"
    "apply_block (st_crypto E) (st_wire E) (st_protocol_consts E) (st_deposit_domain E) b (f_canonical f) = Some s1"
proof -
  note x = execute_applied [OF assms(2) [unfolded execute_finalized_def]]
  have "ep_withdrawals (b_payload b) = expected_withdrawals b (f_canonical f)" "h_epoch (b_header b) = cs_epoch (f_canonical f)"
    using x(1) by (simp_all add: gates_open_def)
  with apply_block_ok [OF assms(1), of b "st_wire E" "st_protocol_consts E" "st_deposit_domain E"] x(2)
  show "tree_ok (st_crypto E) False False s1" "positioned (st_crypto E) (st_wire E) b (f_canonical f) s1"
    "h_epoch (b_header b) = cs_epoch (f_canonical f)" "apply_block (st_crypto E) (st_wire E) (st_protocol_consts E)
      (st_deposit_domain E) b (f_canonical f) = Some s1" by auto
qed

lemma promote_settle_ok:
  assumes ok: "finalizer_ok E f" and ext: "extends f b" and p: "promote E b f = Some (Inr True, f1)"
  shows "finalizer_ok E (settle E b f1)" "tidy f (settle E b f1)"
proof -
  have t: "tree_ok (st_crypto E) False False (f_canonical f)" using ok by (simp add: finalizer_ok_def forks_ok_def)
  have "\<exists>es s. f1 = f\<lparr>f_engine := es, f_canonical := s\<rparr> \<and> tree_ok (st_crypto E) False False s
    \<and> cs_latest_height s = h_height (b_header b) \<and> cs_head_digest s = block_digest (st_crypto E) (st_wire E) b"
    using p
  proof (cases rule: promote_elim)
    case (reused fs es)
    have "fork_ok E f (h_height (b_header b)) (block_digest (st_crypto E) (st_wire E) b) fs"
      using ok reused(3) by (simp add: finalizer_ok_def forks_ok_def)
    then show ?thesis unfolding fork_ok_def using reused(2) by blast
  next
    case (executed es s)
    then show ?thesis using execute_finalized_ok [OF t executed(4)] by (auto simp: positioned_def)
  qed simp_all
  then show "finalizer_ok E (settle E b f1)" "tidy f (settle E b f1)"
    using settle_ok [OF ok ext] by blast+
qed

lemma finalized_ok:
  assumes ok: "finalizer_ok E f" and run: "handle_finalized_block E entry f = Some (Inr r, f1)"
  shows "finalizer_ok E f1 \<and> tidy f f1"
  using run
proof (cases rule: finalized_elim)
  case duplicate
  then show ?thesis using ok by (simp add: send_ok tidy_silent silent_def)
next
  case (finalized f2 f3 cs f4)
  note s = promote_settle_ok [OF ok finalized(1,2)]
  note c = close_ok [OF s(1) finalized(3)]
  note t = take_orphans_ok [OF c(1), where h = "h_height (b_header (pf_block entry)) + 1" and
      d = "block_digest (st_crypto E) (st_wire E) (pf_block entry)", unfolded finalized(4) snd_conv]
  show ?thesis using readopt_ok [OF t(1) finalized(5)] t(2) c(2) s(2) by (metis tidy_trans)
qed (use ok in simp_all)

section \<open>Every turn keeps it\<close>

lemma pop_finalized_ok: "finalizer_ok E (f\<lparr>f_pending_finalized := ps\<rparr>) = finalizer_ok E f"
  "tidy f0 (f\<lparr>f_pending_finalized := ps\<rparr>) = tidy f0 f"
  by (rule finalizer_ok_cong, simp_all) (rule tidy_right_cong, simp_all)

lemma warn_ok: "finalizer_ok E (update_pending_warn E' f) = finalizer_ok E f"
  "tidy f0 (update_pending_warn E' f) = tidy f0 f"
  by (rule finalizer_ok_cong, simp_all) (rule tidy_right_cong, simp_all)

lemma pop_notarized_ok:
  assumes ok: "finalizer_ok E f" and ne: "f_pending_notarized f \<noteq> []"
  shows "finalizer_ok E (f\<lparr>f_pending_notarized := tl (f_pending_notarized f), f_pending_notarized_keys :=
      f_pending_notarized_keys f - {block_digest (st_crypto E) (st_wire E) (hd (f_pending_notarized f))}\<rparr>)"
    (is "finalizer_ok E ?f")
proof -
  obtain b bs where f: "f_pending_notarized f = b # bs" using ne by (cases "f_pending_notarized f") auto
  have "pending_ok E ?f" using ok f by (auto simp: finalizer_ok_def pending_ok_def)
  moreover have "forks_ok E ?f = forks_ok E f" "orphans_ok ?f = orphans_ok f" "waiters_ok ?f = waiters_ok f"
    by (rule part_cong; simp)+
  ultimately show ?thesis using ok by (simp add: finalizer_ok_def)
qed

text \<open>A drain, as long as it meets no error.\<close>

definition drained :: "('e, 'd, 's, 'p) setting \<Rightarrow> ('e, 'd) finalizer \<Rightarrow> ('e, 'd) drain_state \<Rightarrow> bool" where
  "drained E f0 st = (case st of (r, f) \<Rightarrow> (case r of Some (Inr _) \<Rightarrow> finalizer_ok E f \<and> tidy f0 f | _ \<Rightarrow> True))"

lemma drain_finalized_ok:
  assumes ok: "finalizer_ok E f0" and run: "drain_finalized E f0 = Some st"
  shows "drained E f0 st"
proof (rule while_option_rule [OF _ run [unfolded drain_finalized_def]])
  fix st :: "('a, 'b) drain_state"
  assume inv: "drained E f0 st" and go: "case st of (r, f) \<Rightarrow> r = Some (Inr True) \<and> f_pending_finalized f \<noteq> []"
  obtain r f where st: "st = (r, f)" by (cases st)
  let ?f = "f\<lparr>f_pending_finalized := tl (f_pending_finalized f)\<rparr>"
  have f: "finalizer_ok E ?f" "tidy f0 ?f" using inv go by (simp_all add: st drained_def pop_finalized_ok)
  show "drained E f0 (drain_finalized_round E st)"
  proof (cases "handle_finalized_block E (hd (f_pending_finalized f)) ?f")
    case None
    then show ?thesis by (simp add: st drain_finalized_round_def drained_def)
  next
    case (Some p)
    obtain x f1 where p: "p = (x, f1)" by (cases p)
    have "finalizer_ok E f1 \<and> tidy f0 f1" if "x = Inr y" for y
      using finalized_ok [OF f(1) Some [unfolded p that]] tidy_trans [OF f(2)] by blast
    moreover have "drain_finalized_round E st = (case x of Inl e \<Rightarrow> (Some (Inl e), f1) | Inr None \<Rightarrow> (Some (Inr True), f1)
      | Inr (Some entry) \<Rightarrow> (Some (Inr False), update_pending_warn E (f1\<lparr>f_pending_finalized := entry # f_pending_finalized f1\<rparr>)))"
      using Some p by (simp add: st drain_finalized_round_def)
    ultimately show ?thesis by (simp add: drained_def pop_finalized_ok warn_ok split: sum.split option.split)
  qed
qed (simp add: drained_def ok)

lemma drain_notarized_ok:
  assumes ok: "finalizer_ok E f0" and run: "drain_notarized E f0 = Some st"
  shows "drained E f0 st"
proof (rule while_option_rule [OF _ run [unfolded drain_notarized_def]])
  fix st :: "('a, 'b) drain_state"
  assume inv: "drained E f0 st" and go: "case st of (r, f) \<Rightarrow> r = Some (Inr True) \<and> f_pending_notarized f \<noteq> []"
  obtain r f where st: "st = (r, f)" by (cases st)
  let ?b = "hd (f_pending_notarized f)"
  let ?f = "f\<lparr>f_pending_notarized := tl (f_pending_notarized f),
    f_pending_notarized_keys := f_pending_notarized_keys f - {block_digest (st_crypto E) (st_wire E) ?b}\<rparr>"
  have f: "finalizer_ok E ?f" "tidy f0 ?f"
  proof -
    have i: "finalizer_ok E f" "tidy f0 f" "f_pending_notarized f \<noteq> []" using inv go by (simp_all add: st drained_def)
    show "finalizer_ok E ?f" by (rule pop_notarized_ok [OF i(1,3)])
    have "tidy f0 ?f = tidy f0 f" by (rule tidy_right_cong) simp_all
    with i(2) show "tidy f0 ?f" by simp
  qed
  show "drained E f0 (drain_notarized_round E st)"
  proof (cases "handle_notarized_block E ?b ?f")
    case None
    then show ?thesis by (simp add: st drain_notarized_round_def drained_def Let_def)
  next
    case (Some p)
    obtain x f1 where p: "p = (x, f1)" by (cases p)
    have "finalizer_ok E f1 \<and> tidy f0 f1" using notarized_ok [OF f(1) Some [unfolded p]] tidy_trans [OF f(2)] by blast
    moreover have "drain_notarized_round E st = (case x of Inl e \<Rightarrow> (Some (Inl e), f1) | Inr NApplied \<Rightarrow> (Some (Inr True), f1)
      | Inr NBuffered \<Rightarrow> (Some (Inr False), update_pending_warn E f1))"
      using Some p by (simp add: st drain_notarized_round_def Let_def)
    ultimately show ?thesis by (simp add: drained_def warn_ok split: sum.split note_outcome.split)
  qed
qed (simp add: drained_def ok)

text \<open>The count of a request changes only when it is made.\<close>

definition asked :: "nat \<Rightarrow> event \<Rightarrow> nat" where
  "asked i ev = (case ev of NotifyAtHeight _ _ j \<Rightarrow> if j = i then 1 else 0 | _ \<Rightarrow> 0)"

definition kept :: "('e, 'd, 's, 'p) setting \<Rightarrow> event \<Rightarrow> ('e, 'd) finalizer \<Rightarrow> ('e, 'd) finalizer \<Rightarrow> bool" where
  "kept E ev f f1 \<longleftrightarrow> f_stopped f1 \<or> (finalizer_ok E f1 \<and> (\<forall>i. served i f1 = served i f + asked i ev)
     \<and> (\<forall>k js i. bt_get (f_pending_height_notifys f1) k = Some js \<longrightarrow> i \<in> set js \<longrightarrow>
          ev = NotifyAtHeight (fst k) (snd k) i \<or>
          (\<exists>js. bt_get (f_pending_height_notifys f) k = Some js \<and> i \<in> set js)))"

lemma shut_down_stopped [simp]: "f_stopped (shut_down f)"
  by (simp add: shut_down_def)

lemma tidy_kept: "finalizer_ok E f1 \<Longrightarrow> tidy f f1 \<Longrightarrow> (\<And>i. asked i ev = 0) \<Longrightarrow> kept E ev f f1"
  by (auto simp: kept_def tidy_def)

lemma stopped_kept: "kept E ev f (shut_down f1)"
  by (simp add: kept_def)

lemma on_finalized_kept:
  assumes ok: "finalizer_ok E f" and run: "on_finalized E entry f = Some f1" and ev: "\<And>i. asked i ev = 0"
  shows "kept E ev f f1"
proof (cases "f_pending_finalized f = []")
  case False
  then have "f1 = update_pending_warn E (f\<lparr>f_pending_finalized := f_pending_finalized f @ [entry]\<rparr>)"
    using run by (simp add: on_finalized_def)
  then show ?thesis by (intro tidy_kept [OF _ _ ev]) (simp_all add: warn_ok pop_finalized_ok ok)
next
  case True
  obtain x f2 where x: "handle_finalized_block E entry f = Some (x, f2)"
    using run True by (cases "handle_finalized_block E entry f") (auto simp: on_finalized_def)
  show ?thesis
  proof (cases x)
    case (Inl e)
    then have "f1 = shut_down f2" using run True x by (simp add: on_finalized_def)
    then show ?thesis by (simp add: stopped_kept)
  next
    case (Inr y)
    then have "f1 = f2 \<or> (\<exists>ps. f1 = update_pending_warn E (f2\<lparr>f_pending_finalized := ps\<rparr>))"
      using run True x by (cases y) (auto simp: on_finalized_def)
    moreover have "finalizer_ok E f2" "tidy f f2" using finalized_ok [OF ok x [unfolded Inr]] by blast+
    ultimately show ?thesis by (intro tidy_kept [OF _ _ ev]) (auto simp: warn_ok pop_finalized_ok)
  qed
qed

lemma on_notarized_kept:
  assumes ok: "finalizer_ok E f" and run: "on_notarized E b f = Some f1" and ev: "\<And>i. asked i ev = 0"
  shows "kept E ev f f1"
proof -
  obtain x f2 where x: "handle_notarized_block E b f = Some (x, f2)"
    using run by (cases "handle_notarized_block E b f") (auto simp: on_notarized_def)
  then have "f1 = shut_down f2 \<or> f1 = f2" using run by (cases x) (auto simp: on_notarized_def)
  then show ?thesis using notarized_ok [OF ok x] tidy_kept [OF _ _ ev] stopped_kept by blast
qed

lemma on_drain_kept:
  assumes ok: "finalizer_ok E f" and run: "on_drain E f = Some f1" and ev: "\<And>i. asked i ev = 0"
  shows "kept E ev f f1"
proof -
  obtain r g where a: "drain_finalized E f = Some (r, g)" using drain_finalized_ends [of E f] by (metis surj_pair)
  obtain q g' where b: "drain_notarized E g = Some (q, g')" using drain_notarized_ends [of E g] by (metis surj_pair)
  have ga: "finalizer_ok E g \<and> tidy f g" if "r = Some (Inr v)" for v
    using drain_finalized_ok [OF ok a] that by (simp add: drained_def)
  have gb: "finalizer_ok E g' \<and> tidy f g'" if "r = Some (Inr v)" "q = Some (Inr v')" for v v'
  proof -
    have "finalizer_ok E g' \<and> tidy g g'" using drain_notarized_ok [OF _ b] ga [OF that(1)] that(2) by (simp add: drained_def)
    then show ?thesis using ga [OF that(1)] tidy_trans by blast
  qed
  show ?thesis
  proof (cases "r = Some (Inr True)")
    case True
    then have "(\<exists>e. q = Some (Inl e) \<and> f1 = shut_down g') \<or> (\<exists>v. q = Some (Inr v) \<and> (f1 = g' \<or> f1 = update_pending_warn E g'))"
      using run a b by (cases q; cases "the q") (auto simp: on_drain_def drain_pending_def split: bool.splits)
    then show ?thesis using gb [OF True] by (elim disjE exE conjE)
      (simp_all add: stopped_kept tidy_kept [OF _ _ ev] warn_ok)
  next
    case False
    then have "(\<exists>e. r = Some (Inl e) \<and> f1 = shut_down g) \<or> (\<exists>v. r = Some (Inr v) \<and> f1 = g)"
      using run a by (cases r; cases "the r") (auto simp: on_drain_def drain_pending_def split: bool.splits)
    then show ?thesis using ga by (elim disjE exE conjE) (simp_all add: stopped_kept tidy_kept [OF _ _ ev])
  qed
qed

lemma answered_kept:
  assumes "finalizer_ok E f"
  shows "kept E (NotifyAtHeight h d j) f (answer [j] v f)"
proof -
  have "answers i (answer [j] v f) = answers i f + asked i (NotifyAtHeight h d j)" for i
    by (simp add: answers_answer asked_def)
  then have "served i (answer [j] v f) = served i f + asked i (NotifyAtHeight h d j)" for i
    by (simp add: served_def waiting_def)
  moreover have "finalizer_ok E (answer [j] v f)" unfolding answer_def send_ok by (rule assms)
  ultimately show ?thesis by (auto simp: kept_def)
qed

lemma enqueued_kept:
  assumes ok: "finalizer_ok E f"
    and new: "h > cs_latest_height (f_canonical f) \<and> (h, d) \<notin> f_dead f \<and> fork_at f h d = None"
  defines "js \<equiv> case bt_get (f_pending_height_notifys f) (h, d) of None \<Rightarrow> [] | Some senders \<Rightarrow> senders"
  shows "kept E (NotifyAtHeight h d j) f
    (f\<lparr>f_pending_height_notifys := bt_insert (h, d) (js @ [j]) (f_pending_height_notifys f)\<rparr>)" (is "kept E _ f ?f")
proof -
  let ?n = "f_pending_height_notifys f"
  have n: "bt_ok ?n" "waiters_ok f" using ok by (simp_all add: finalizer_ok_def waiters_ok_def)
  have "waiting i ?f = waiting i f + asked i (NotifyAtHeight h d j)" for i
    using bt_sum_insert [OF n(1), of "\<lambda>e. count_list (snd e) i" "(h, d)" "js @ [j]"]
    by (cases "bt_get ?n (h, d)") (simp_all add: waiting_def asked_def js_def)
  then have "served i ?f = served i f + asked i (NotifyAtHeight h d j)" for i by (simp add: served_def answers_def)
  moreover have "finalizer_ok E ?f"
  proof -
    have at: "fork_at ?f = fork_at f" by (rule lookup_cong) simp
    have "waiters_ok ?f" using n new unfolding waiters_ok_def at by (simp add: bt_ok_insert bt_get_insert)
    moreover have "forks_ok E ?f = forks_ok E f" "orphans_ok ?f = orphans_ok f" "pending_ok E ?f = pending_ok E f"
      by (rule part_cong; simp)+
    ultimately show ?thesis using ok by (simp add: finalizer_ok_def)
  qed
  moreover have "NotifyAtHeight h d j = NotifyAtHeight (fst k) (snd k) i \<or> (\<exists>js. bt_get ?n k = Some js \<and> i \<in> set js)"
    if "bt_get (f_pending_height_notifys ?f) k = Some js'" "i \<in> set js'" for k js' i
    using that by (cases "k = (h, d)"; cases "bt_get ?n (h, d)") (auto simp: bt_get_insert js_def)
  ultimately show ?thesis by (auto simp: kept_def)
qed

lemma notify_kept:
  assumes ok: "finalizer_ok E f"
  shows "kept E (NotifyAtHeight h d j) f (notify_at_height h d j f)"
proof (cases "h > cs_latest_height (f_canonical f) \<and> (h, d) \<notin> f_dead f \<and> fork_at f h d = None")
  case True
  then have "\<not> cs_latest_height (f_canonical f) > h" "h \<noteq> cs_latest_height (f_canonical f)" by auto
  then show ?thesis using enqueued_kept [OF ok True] True by (simp add: notify_at_height_def Let_def)
next
  case False
  then have "\<exists>v. notify_at_height h d j f = answer [j] v f" by (auto simp: notify_at_height_def Let_def)
  then show ?thesis using answered_kept [OF ok] by auto
qed

lemma silent_kept:
  assumes ok: "finalizer_ok E f" and ev: "\<And>i. asked i ev = 0" and os: "silent os"
  shows "kept E ev f (send os f)" "kept E ev f (send os (f\<lparr>f_db := db\<rparr>))"
proof -
  have db: "finalizer_ok E (f\<lparr>f_db := db\<rparr>) = finalizer_ok E f" by (rule finalizer_ok_cong) simp_all
  have "tidy f (f\<lparr>f_db := db\<rparr>)" by (rule tidy_cong) simp_all
  from tidy_trans [OF this tidy_silent [OF os]] show "kept E ev f (send os (f\<lparr>f_db := db\<rparr>))"
    by (intro tidy_kept [OF _ _ ev]) (simp_all add: send_ok db ok)
  show "kept E ev f (send os f)" by (intro tidy_kept [OF _ tidy_silent [OF os] ev]) (simp add: send_ok ok)
qed

lemma aux_kept:
  assumes ok: "finalizer_ok E f" and ev: "\<And>i. asked i ev = 0"
    and run: "handle_aux_data_mailbox E h d j f = Some f1"
  shows "kept E ev f f1"
proof -
  have "\<exists>a db. f1 = send [AuxData j a] f \<or> f1 = send [AuxData j a] (f\<lparr>f_db := db\<rparr>)"
    using run unfolding handle_aux_data_mailbox_def by (auto split: option.split_asm if_split_asm)
  then show ?thesis using silent_kept [OF ok ev] by (auto simp: silent_def)
qed

lemma genesis_kept:
  assumes ok: "finalizer_ok E f" and ev: "\<And>i. asked i ev = 0"
    and run: "get_epoch_genesis_hash E e j f = Some f1"
  shows "kept E ev f f1"
proof -
  have "\<exists>a db. f1 = send [EpochGenesis j a] f \<or> f1 = send [EpochGenesis j a] (f\<lparr>f_db := db\<rparr>)"
    using run unfolding get_epoch_genesis_hash_def Let_def by (auto split: option.split_asm if_split_asm)
  then show ?thesis using silent_kept [OF ok ev] by (auto simp: silent_def)
qed

lemma step_kept:
  assumes ok: "finalizer_ok E f" and live: "\<not> f_stopped f" and run: "finalizer_step E ev f = Some f1"
  shows "kept E ev f f1"
proof (cases "f_validator_exit f
    \<and> is_first_block_of_epoch (containing (cs_epocher (f_canonical f))) (cs_latest_height (f_canonical f))")
  case True
  then have "f1 = shut_down f" using run live by (simp add: finalizer_step_def)
  then show ?thesis by (simp add: stopped_kept)
next
  case False
  note step = run [unfolded finalizer_step_def, simplified live False if_False if_True]
  show ?thesis
  proof (cases ev)
    case (FinalizedBlock b fin ack)
    then show ?thesis using step by (intro on_finalized_kept [OF ok]) (auto simp: asked_def)
  next
    case (NotarizedBlock b)
    then show ?thesis using step by (intro on_notarized_kept [OF ok]) (auto simp: asked_def)
  next
    case (NotifyAtHeight h d j)
    then show ?thesis using step notify_kept [OF ok, of h d j] by auto
  next
    case (GetAuxData h d j)
    then show ?thesis using step by (intro aux_kept [OF ok]) (auto simp: asked_def)
  next
    case (GetEpochGenesisHash e j)
    then show ?thesis using step by (intro genesis_kept [OF ok]) (auto simp: asked_def)
  next
    case DrainTick
    then show ?thesis using step by (intro on_drain_kept [OF ok]) (auto simp: asked_def)
  next
    case Cancelled
    then show ?thesis using step by (auto simp: stopped_kept)
  qed
qed

lemma stopped_run: "f_stopped f \<Longrightarrow> finalizer_run E evs f = Some f"
  by (induction evs) (simp_all add: finalizer_step_def)

text \<open>Whole runs that have not stopped.\<close>

lemma run_kept:
  assumes "finalizer_ok E f" "finalizer_run E evs f = Some f1" "\<not> f_stopped f1"
  shows "finalizer_ok E f1 \<and> served i f1 = served i f + (\<Sum>ev\<leftarrow>evs. asked i ev)
    \<and> (\<forall>k js. bt_get (f_pending_height_notifys f1) k = Some js \<longrightarrow> i \<in> set js \<longrightarrow>
         NotifyAtHeight (fst k) (snd k) i \<in> set evs \<or> (\<exists>js. bt_get (f_pending_height_notifys f) k = Some js \<and> i \<in> set js))"
  using assms
proof (induction evs arbitrary: f)
  case (Cons ev evs)
  obtain f2 where f2: "finalizer_step E ev f = Some f2" "finalizer_run E evs f2 = Some f1"
    using Cons.prems(2) by (auto split: option.splits)
  have live: "\<not> f_stopped f2" "\<not> f_stopped f"
    using Cons.prems(3) f2 stopped_run [of f2 E evs] by (auto simp: finalizer_step_def)
  have k: "finalizer_ok E f2" "\<And>i. served i f2 = served i f + asked i ev"
    "\<And>k js i. bt_get (f_pending_height_notifys f2) k = Some js \<Longrightarrow> i \<in> set js \<Longrightarrow> ev = NotifyAtHeight (fst k) (snd k) i \<or>
      (\<exists>js. bt_get (f_pending_height_notifys f) k = Some js \<and> i \<in> set js)"
    using step_kept [OF Cons.prems(1) live(2) f2(1)] live(1) unfolding kept_def by blast+
  note IH = Cons.IH [OF k(1) f2(2) Cons.prems(3)]
  have "NotifyAtHeight (fst k) (snd k) i \<in> set (ev # evs) \<or> (\<exists>js. bt_get (f_pending_height_notifys f) k = Some js \<and> i \<in> set js)"
    if w: "bt_get (f_pending_height_notifys f1) k = Some js" "i \<in> set js" for k js
  proof (cases "NotifyAtHeight (fst k) (snd k) i \<in> set evs")
    case False
    then obtain js' where "bt_get (f_pending_height_notifys f2) k = Some js'" "i \<in> set js'" using IH w by blast
    from k(3) [OF this] show ?thesis by auto
  qed simp
  then show ?case using IH k(2) by simp
qed simp

section \<open>From the start of the actor\<close>

lemma new_ok:
  assumes n: "finalizer_new kv es db s0 = Some f" and t: "tree_ok (st_crypto E) False False (f_canonical f)"
  shows "finalizer_ok E f" "f_pending_height_notifys f = []" "f_outputs f = []"
proof -
  have f: "f_pending_height_notifys f = []" "f_fork_states f = []" "f_dead f = {}" "f_orphans f = []"
    "f_pending_notarized f = []" "f_pending_notarized_keys f = {}" "f_outputs f = []"
    using n by (auto simp: finalizer_new_def split: option.splits)
  have e: "wf2 []" "fork_at f h d = None" for h d by (simp_all add: wf2_def fork_at_def f bt_get_def)
  then show "finalizer_ok E f"
    using t by (simp add: finalizer_ok_def forks_ok_def orphans_ok_def pending_ok_def waiters_ok_def f bt_get_def wf2_def)
  show "f_pending_height_notifys f = []" "f_outputs f = []" by (fact f)+
qed

lemma start_ok:
  assumes s: "finalizer_start E f = Some f1" and live: "\<not> f_stopped f1"
  shows "finalizer_ok E f1 = finalizer_ok E f" "tidy f f1" "f_canonical f1 = f_canonical f"
proof -
  let ?s = "f_canonical f"
  obtain vs where vs: "get_current_epoch_validators (st_crypto E) ?s = Some vs"
    using s by (cases "get_current_epoch_validators (st_crypto E) ?s") (auto simp: finalizer_start_def Let_def)
  let ?keys = "derive_observer_keys (st_crypto E) (st_curve E) (map fst vs) (st_observer_domain E) (cs_observers_per_validator ?s)"
  obtain ks where ks: "?keys = Some ks" using s vs by (cases ?keys) (auto simp: finalizer_start_def Let_def)
  define os where "os = [Tracked (cs_epoch ?s) (map fst vs) ks, Entered (cs_epoch ?s) vs]"
  define es where "es = snd (commit_hash (st_engine E) (f_engine f) (cs_forkchoice ?s))"
  have "f1 = send os f \<or> f1 = (send os f)\<lparr>f_engine := es\<rparr> \<or> f1 = shut_down ((send os f)\<lparr>f_engine := es\<rparr>)"
    using s by (auto simp: finalizer_start_def Let_def vs ks os_def es_def split: if_splits prod.splits sum.splits)
  with live have f1: "f1 = send os f \<or> f1 = (send os f)\<lparr>f_engine := es\<rparr>" "silent os" by (auto simp: os_def silent_def)
  then show "finalizer_ok E f1 = finalizer_ok E f" by (auto simp: send_ok)
  have "tidy (send os f) ((send os f)\<lparr>f_engine := es\<rparr>)" by simp
  then show "tidy f f1" using f1 tidy_silent [OF f1(2)] tidy_trans by blast
  show "f_canonical f1 = f_canonical f" using f1 by auto
qed

lemma waiting_ended:
  assumes ok: "finalizer_ok E f"
    and old: "\<And>k js. bt_get (f_pending_height_notifys f) k = Some js \<Longrightarrow> i \<in> set js \<Longrightarrow> fst k \<le> cs_latest_height (f_canonical f)"
  shows "waiting i f = 0"
proof -
  have w: "waiters_ok f" "bt_ok (f_pending_height_notifys f)" using ok by (simp_all add: finalizer_ok_def waiters_ok_def)
  have "count_list (snd e) i = 0" if e: "e \<in> set (f_pending_height_notifys f)" for e
  proof -
    obtain h d js where p: "e = ((h, d), js)" by (metis prod.collapse)
    have g: "bt_get (f_pending_height_notifys f) (h, d) = Some js" using e w(2) by (simp add: bt_get_iff p)
    then have "cs_latest_height (f_canonical f) < h" using w(1) unfolding waiters_ok_def by blast
    then have "i \<notin> set js" using old [OF g] by auto
    then show ?thesis by (simp add: p count_list_0_iff)
  qed
  then show ?thesis by (simp add: waiting_def sum_list_eq_0_iff)
qed

end
