(* ===== verification/Finalizer_Run.thy ===== *)
theory Finalizer_Run
  imports Finalizer_Invariant
begin

text \<open>
  Runs of the finalizer actor from its start: the invariant in every state of a run, and the answers
  to the waiters.
\<close>

section \<open>A concrete actor\<close>

definition demo_genesis :: consensus_state where
  "demo_genesis = consensus_state_new demo_crypto
     \<lparr>fc_head_block_hash = 0, fc_safe_block_hash = 0, fc_finalized_block_hash = 0\<rparr>
     32000000000 10 1000 0 3 16 0 128 1 0 8"

definition demo_setting :: "(nat, content, bytes32, bytes32) setting" where
  "demo_setting = \<lparr>st_crypto = demo_crypto, st_wire = demo_wire, st_engine = demo_engine, st_kv = demo_kv,
     st_curve = demo_curve, st_signers = (\<lambda>_. 4), st_warn_threshold = 16, st_pending_notarized_max = 64,
     st_genesis_hash = 0, st_protocol_consts = demo_consts, st_deposit_domain = 0,
     st_node_public_key = 5, st_observer_domain = []\<rparr>"

definition demo_db :: "content finalizer_db" where
  "demo_db = \<lparr>db_store = Some (\<lambda>_. None), db_cancelled = False\<rparr>"

definition demo_actor :: "(nat, content) finalizer" where
  "demo_actor = \<lparr>f_pending_height_notifys = [], f_engine = 0, f_db = demo_db, f_canonical = demo_genesis,
     f_fork_states = [], f_dead = {}, f_orphans = [], f_pending_finalized = [], f_pending_notarized = [],
     f_pending_notarized_keys = {}, f_pending_warn_active = False, f_validator_exit = False,
     f_stopped = False, f_outputs = []\<rparr>"

lemma demo_genesis_ok: "tree_ok demo_crypto False False demo_genesis"
  unfolding demo_genesis_def consensus_state_new_def by (intro rebuild_tree_ok) simp_all

lemma demo_genesis_fields [simp]: "cs_latest_height demo_genesis = 0" "cs_epoch demo_genesis = 0"
  "cs_head_digest demo_genesis = 0" "cs_validator_accounts demo_genesis = []" "cs_observers_per_validator demo_genesis = 0"
  "cs_forkchoice demo_genesis = \<lparr>fc_head_block_hash = 0, fc_safe_block_hash = 0, fc_finalized_block_hash = 0\<rparr>"
  "cs_epocher demo_genesis = de_new 10" "cs_withdrawal_queue demo_genesis = wq_default"
  by (simp_all add: demo_genesis_def consensus_state_new_def rebuild_ssz_tree_def Let_def)

lemma demo_setting_fields [simp]: "st_crypto demo_setting = demo_crypto" "st_wire demo_setting = demo_wire"
  "st_engine demo_setting = demo_engine" "st_kv demo_setting = demo_kv" "st_curve demo_setting = demo_curve"
  "st_protocol_consts demo_setting = demo_consts" "st_deposit_domain demo_setting = 0"
  "st_pending_notarized_max demo_setting = 64" "st_node_public_key demo_setting = 5"
  "st_observer_domain demo_setting = []"
  by (simp_all add: demo_setting_def)

lemma demo_actor_fields [simp]: "f_pending_height_notifys demo_actor = []" "f_engine demo_actor = 0"
  "f_db demo_actor = demo_db" "f_canonical demo_actor = demo_genesis" "f_fork_states demo_actor = []"
  "f_dead demo_actor = {}" "f_orphans demo_actor = []" "f_pending_finalized demo_actor = []"
  "f_pending_notarized demo_actor = []" "f_validator_exit demo_actor = False" "f_stopped demo_actor = False"
  "f_outputs demo_actor = []"
  by (simp_all add: demo_actor_def)

lemma demo_new: "finalizer_new demo_kv 0 demo_db demo_genesis = Some demo_actor"
  by (simp add: finalizer_new_def get_latest_consensus_state_def db_get_def demo_kv_def demo_db_def demo_actor_def)

definition demo_started :: "(nat, content) finalizer" where
  "demo_started = send [Tracked 0 [] [], Entered 0 []] demo_actor"

lemma demo_start: "finalizer_start demo_setting demo_actor = Some demo_started"
  by (simp add: finalizer_start_def get_current_epoch_validators_def keys_where_def derive_observer_keys_def demo_started_def)

lemma demo_conditions: "zero_hashes_ok (st_crypto demo_setting)" "bt_ok (cs_validator_accounts (f_canonical demo_actor))"
  "committed (st_crypto demo_setting) (f_canonical demo_actor)"
  "finalizer_new (st_kv demo_setting) 0 demo_db demo_genesis = Some demo_actor"
  "finalizer_start demo_setting demo_actor = Some demo_started"
  using demo_genesis_ok demo_new demo_start by (simp_all add: tree_ok_committed)

section \<open>Every state of a run\<close>

lemma launch_kept:
  assumes t: "zero_hashes_ok (st_crypto E)" "bt_ok (cs_validator_accounts (f_canonical f0))"
      "committed (st_crypto E) (f_canonical f0)"
    and n: "finalizer_new (st_kv E) es db s0 = Some f0" and s: "finalizer_start E f0 = Some f1"
    and r: "finalizer_run E evs f1 = Some f" and live: "\<not> f_stopped f"
  shows "finalizer_ok E f" "served i f = (\<Sum>ev\<leftarrow>evs. asked i ev)"
    "bt_get (f_pending_height_notifys f) k = Some js \<Longrightarrow> i \<in> set js \<Longrightarrow> NotifyAtHeight (fst k) (snd k) i \<in> set evs"
proof -
  have t: "tree_ok (st_crypto E) False False (f_canonical f0)" using t by (simp add: tree_ok_committed)
  have live1: "\<not> f_stopped f1" using r live stopped_run [of f1 E evs] by auto
  note n = new_ok [OF n t] and s = start_ok [OF s live1]
  have s0: "served i f1 = 0" "\<not> (\<exists>js. bt_get (f_pending_height_notifys f1) k = Some js)" for i k
    using s(2) n(2,3) by (cases k; auto simp: tidy_def served_def answers_def waiting_def bt_get_def)+
  have "finalizer_ok E f1" using s(1) n(1) by simp
  note k = run_kept [OF this r live, of i]
  show "finalizer_ok E f" "served i f = (\<Sum>ev\<leftarrow>evs. asked i ev)" using k s0 by simp_all
  show "bt_get (f_pending_height_notifys f) k = Some js \<Longrightarrow> i \<in> set js \<Longrightarrow> NotifyAtHeight (fst k) (snd k) i \<in> set evs"
    using k s0(2) by blast
qed

text \<open>C6. The finalizer keeps its invariant. From any start on a state in step with its tree, and
  for any sequence of finalized and notarized blocks, requests, retries and answers of the execution
  client and of the store, as long as the actor has not shut down: every fork lies above the
  canonical height under the digest of its block, next to a parent that is canonical or a fork, and
  is not buried; the canonical state and every fork state have the tree a rebuild gives; orphans and
  tombstones lie above the canonical height; the buffer of notarized blocks has no two blocks of one
  digest and never exceeds its bound; nobody waits for a decided block.\<close>

theorem finalizer_invariant:
  assumes "zero_hashes_ok (st_crypto E)" "bt_ok (cs_validator_accounts (f_canonical f0))"
    "committed (st_crypto E) (f_canonical f0)"
    and "finalizer_new (st_kv E) es db s0 = Some f0" "finalizer_start E f0 = Some f1"
    and "finalizer_run E evs f1 = Some f" "\<not> f_stopped f"
  shows "finalizer_ok E f"
  by (rule launch_kept [OF assms])

definition demo_events :: "event list" where
  "demo_events = [NotifyAtHeight 3 5 7, NotifyAtHeight 0 5 6, GetAuxData 9 9 8]"

definition demo_after :: "(nat, content) finalizer" where
  "demo_after = send [AuxData 8 None] (answer [6] False (demo_started\<lparr>f_pending_height_notifys := [((3, 5), [7])]\<rparr>))"

lemma demo_run: "finalizer_run demo_setting demo_events demo_started = Some demo_after" "\<not> f_stopped demo_after"
  by (simp_all add: demo_events_def demo_after_def finalizer_step_def notify_at_height_def Let_def demo_started_def
      fork_at_def bt_get_def handle_aux_data_mailbox_def aux_parent_state_def)

theorem finalizer_invariant_witness:
  "finalizer_run demo_setting demo_events demo_started = Some demo_after \<and> finalizer_ok demo_setting demo_after"
  using demo_run(1) finalizer_invariant [OF demo_conditions demo_run] by blast

section \<open>Waiters are answered\<close>

text \<open>C7. A proposer that asks to be told about a block is answered, once. In every run of the actor
  that has not shut down, the requests made under a response channel are exactly those answered and
  those still waiting; and once the canonical chain has reached the heights asked for, none is
  waiting: each has been answered exactly once, whether its block was executed, finalized, or died
  on an abandoned fork.\<close>

theorem requests_answered_once:
  assumes "zero_hashes_ok (st_crypto E)" "bt_ok (cs_validator_accounts (f_canonical f0))"
    "committed (st_crypto E) (f_canonical f0)"
    and "finalizer_new (st_kv E) es db s0 = Some f0" "finalizer_start E f0 = Some f1"
    and "finalizer_run E evs f1 = Some f" "\<not> f_stopped f"
  shows "answers i f + waiting i f = (\<Sum>ev\<leftarrow>evs. asked i ev)
    \<and> ((\<forall>h d. NotifyAtHeight h d i \<in> set evs \<longrightarrow> h \<le> cs_latest_height (f_canonical f)) \<longrightarrow>
       waiting i f = 0 \<and> answers i f = (\<Sum>ev\<leftarrow>evs. asked i ev))"
proof -
  note k = launch_kept [OF assms]
  have "waiting i f = 0" if "\<forall>h d. NotifyAtHeight h d i \<in> set evs \<longrightarrow> h \<le> cs_latest_height (f_canonical f)"
    by (rule waiting_ended [OF k(1)]) (use k(3) that in blast)
  then show ?thesis using k(2) [of i] by (auto simp: served_def)
qed

theorem requests_answered_once_witness:
  "waiting 6 demo_after = 0 \<and> answers 6 demo_after = 1 \<and> answers 7 demo_after + waiting 7 demo_after = 1"
proof -
  note r = requests_answered_once [OF demo_conditions demo_run]
  have "f_canonical demo_after = demo_genesis" by (simp add: demo_after_def demo_started_def)
  then have "waiting 6 demo_after = 0 \<and> answers 6 demo_after = (\<Sum>ev\<leftarrow>demo_events. asked 6 ev)"
    using r [of 6] by (auto simp: demo_events_def)
  then show ?thesis using r [of 7] by (simp add: demo_events_def asked_def)
qed

end
