(* ===== verification/Genesis.thy ===== *)
theory Genesis
  imports Consensus_Codec Text
begin

text \<open>
  \<open>types/src/genesis.rs\<close>, the operator's genesis configuration with its checks, the signing domains
  of \<open>types/src/lib.rs\<close>, and from \<open>node/src\<close> the state a node starts from (\<open>args.rs\<close>) and the peer
  capacity it reserves (\<open>config.rs\<close>). The text formats belong to other crates (TOML, hex, addresses
  and socket addresses, the derived SSZ encoding): they are the record \<open>formats\<close>, an argument.
  Shown: a node started from an accepted genesis has a state that its own codec accepts, with
  exactly the genesis committee; the preimages of the signing domains are unambiguous.
\<close>

section \<open>Configuration\<close>

record genesis_validator =
  gv_node_public_key :: string
  gv_consensus_public_key :: string
  gv_ip_address :: string
  gv_withdrawal_credentials :: string

record genesis =
  ge_validators :: "genesis_validator list"
  ge_eth_genesis_hash :: string
  ge_leader_timeout_ms :: u64
  ge_notarization_timeout_ms :: u64
  ge_nullify_timeout_ms :: u64
  ge_activity_timeout_views :: u64
  ge_max_message_size_bytes :: u64
  ge_namespace :: string
  ge_validator_minimum_stake :: u64
  ge_blocks_per_epoch :: u64
  ge_allowed_timestamp_future_ms :: u64
  ge_treasury_address :: string
  ge_max_deposits_per_epoch :: u64
  ge_max_withdrawals_per_epoch :: u64
  ge_observers_per_validator :: u32
  ge_max_validator_count :: u64
  ge_minimum_validator_count :: u64
  ge_invalid_deposit_tax :: u64
  ge_max_pending_withdrawals_per_validator :: u64

record 'i formats =
  from_hex :: "string \<Rightarrow> u8 list option"
  parse_address :: "string \<Rightarrow> address option"
  parse_socket :: "string \<Rightarrow> 'i option"
  genesis_as_ssz :: "genesis \<Rightarrow> u8 list"
  parse_toml :: "string \<Rightarrow> genesis option"

record 'i validator =
  v_node_public_key :: node_key
  v_consensus_public_key :: bls_key
  v_ip_address :: 'i
  v_withdrawal_credentials :: address

text \<open>\<open>PublicKey::decode\<close>: the bytes must be exactly one encoded key.\<close>

definition ed_decode :: "crypto \<Rightarrow> u8 list \<Rightarrow> node_key option" where
  "ed_decode c bytes =
     (if length bytes = 32 \<and> ed_key_ok c (from_be_bytes bytes) then Some (from_be_bytes bytes) else None)"

definition bls_decode :: "crypto \<Rightarrow> u8 list \<Rightarrow> bls_key option" where
  "bls_decode c bytes =
     (if length bytes = 48 \<and> bls_key_ok c (from_be_bytes bytes) then Some (from_be_bytes bytes) else None)"

definition ed25519_pubkey :: "crypto \<Rightarrow> 'i formats \<Rightarrow> string \<Rightarrow> node_key option" where
  "ed25519_pubkey c F key = (case from_hex F key of None \<Rightarrow> None | Some pubkey_bytes \<Rightarrow> ed_decode c pubkey_bytes)"

definition node_pubkey :: "crypto \<Rightarrow> 'i formats \<Rightarrow> genesis_validator \<Rightarrow> node_key option" where
  "node_pubkey c F v = ed25519_pubkey c F (gv_node_public_key v)"

datatype validator_error = NodeKeyFormat | NodeKey | ConsensusKeyFormat | ConsensusKey | IpAddress | WithdrawalAddress

definition validator_try_from :: "crypto \<Rightarrow> 'i formats \<Rightarrow> genesis_validator \<Rightarrow> validator_error + 'i validator" where
  "validator_try_from c F value =
     (case from_hex F (gv_node_public_key value) of None \<Rightarrow> Inl NodeKeyFormat
      | Some node_key_bytes \<Rightarrow>
     (case ed_decode c node_key_bytes of None \<Rightarrow> Inl NodeKey
      | Some node_public_key \<Rightarrow>
     (case from_hex F (gv_consensus_public_key value) of None \<Rightarrow> Inl ConsensusKeyFormat
      | Some consensus_key_bytes \<Rightarrow>
     (case bls_decode c consensus_key_bytes of None \<Rightarrow> Inl ConsensusKey
      | Some consensus_public_key \<Rightarrow>
     (case parse_socket F (gv_ip_address value) of None \<Rightarrow> Inl IpAddress
      | Some ip_address \<Rightarrow>
     (case parse_address F (gv_withdrawal_credentials value) of None \<Rightarrow> Inl WithdrawalAddress
      | Some withdrawal_credentials \<Rightarrow>
          Inr \<lparr>v_node_public_key = node_public_key, v_consensus_public_key = consensus_public_key,
               v_ip_address = ip_address, v_withdrawal_credentials = withdrawal_credentials\<rparr>))))))"

primrec validators_try_from ::
  "crypto \<Rightarrow> 'i formats \<Rightarrow> genesis_validator list \<Rightarrow> validator_error + 'i validator list" where
  "validators_try_from c F [] = Inr []"
| "validators_try_from c F (v # vs) =
     (case validator_try_from c F v of
        Inl e \<Rightarrow> Inl e
      | Inr x \<Rightarrow> (case validators_try_from c F vs of Inl e \<Rightarrow> Inl e | Inr xs \<Rightarrow> Inr (x # xs)))"

definition get_validators :: "crypto \<Rightarrow> 'i formats \<Rightarrow> genesis \<Rightarrow> validator_error + 'i validator list" where
  "get_validators c F g = validators_try_from c F (ge_validators g)"

text \<open>The keys alone; \<open>None\<close> is any of its four errors.\<close>

primrec validator_keys_of :: "crypto \<Rightarrow> 'i formats \<Rightarrow> genesis_validator list \<Rightarrow> (node_key \<times> bls_key) list option" where
  "validator_keys_of c F [] = Some []"
| "validator_keys_of c F (v # vs) =
     (case from_hex F (gv_node_public_key v) of None \<Rightarrow> None | Some nb \<Rightarrow>
     (case ed_decode c nb of None \<Rightarrow> None | Some node_key \<Rightarrow>
     (case from_hex F (gv_consensus_public_key v) of None \<Rightarrow> None | Some cb \<Rightarrow>
     (case bls_decode c cb of None \<Rightarrow> None | Some consensus_key \<Rightarrow>
     (case validator_keys_of c F vs of None \<Rightarrow> None | Some keys \<Rightarrow> Some ((node_key, consensus_key) # keys))))))"

definition genesis_validator_keys :: "crypto \<Rightarrow> 'i formats \<Rightarrow> genesis \<Rightarrow> (node_key \<times> bls_key) list option" where
  "genesis_validator_keys c F g = validator_keys_of c F (ge_validators g)"

primrec ip_among :: "crypto \<Rightarrow> 'i formats \<Rightarrow> node_key \<Rightarrow> genesis_validator list \<Rightarrow> 'i option" where
  "ip_among c F target [] = None"
| "ip_among c F target (v # vs) =
     (if node_pubkey c F v = Some target \<and> parse_socket F (gv_ip_address v) \<noteq> None
      then parse_socket F (gv_ip_address v) else ip_among c F target vs)"

definition ip_of :: "crypto \<Rightarrow> 'i formats \<Rightarrow> genesis \<Rightarrow> node_key \<Rightarrow> 'i option" where
  "ip_of c F g target_public_key = ip_among c F target_public_key (ge_validators g)"

section \<open>Checks at load time\<close>

definition MAX_MESSAGE_SIZE_BYTES_MIN :: u64 where
  "MAX_MESSAGE_SIZE_BYTES_MIN = 2 ^ 20"

definition MAX_MESSAGE_SIZE_BYTES_MAX :: u64 where
  "MAX_MESSAGE_SIZE_BYTES_MAX = 2 ^ 30"

datatype genesis_error =
    NotToml
  | ParamOutOfBounds param_bounds_error
  | MessageSize u64
  | InvalidTreasuryAddress
  | ZeroLeaderTimeout
  | ZeroNotarizationTimeout
  | ZeroNullifyTimeout
  | ZeroActivityTimeout
  | LeaderTimeoutTooLong
  | TooManyValidators nat
  | MinimumValidatorCountTooLow u64
  | MinimumValidatorCountAboveMaximum u64
  | InvalidDepositTaxTooHigh u64

text \<open>The first check that fails, in the order of the code.\<close>

primrec first_error :: "'a option list \<Rightarrow> 'a option" where
  "first_error [] = None"
| "first_error (x # xs) = (case x of None \<Rightarrow> first_error xs | Some e \<Rightarrow> Some e)"

definition require :: "bool \<Rightarrow> 'a \<Rightarrow> 'a option" where
  "require b e = (if b then None else Some e)"

definition within_bounds :: "protocol_param \<Rightarrow> genesis_error option" where
  "within_bounds p = map_option ParamOutOfBounds (Protocol_Params.validate p)"

definition genesis_validate :: "'i formats \<Rightarrow> genesis \<Rightarrow> genesis_error option" where
  "genesis_validate F g = first_error
     [within_bounds (EpochLength (ge_blocks_per_epoch g)),
      require (\<not> (ge_max_message_size_bytes g < MAX_MESSAGE_SIZE_BYTES_MIN
                \<or> ge_max_message_size_bytes g > MAX_MESSAGE_SIZE_BYTES_MAX)) (MessageSize (ge_max_message_size_bytes g)),
      within_bounds (AllowedTimestampFuture (ge_allowed_timestamp_future_ms g)),
      require (parse_address F (ge_treasury_address g) \<noteq> None) InvalidTreasuryAddress,
      require (ge_leader_timeout_ms g \<noteq> 0) ZeroLeaderTimeout,
      require (ge_notarization_timeout_ms g \<noteq> 0) ZeroNotarizationTimeout,
      require (ge_nullify_timeout_ms g \<noteq> 0) ZeroNullifyTimeout,
      require (ge_activity_timeout_views g \<noteq> 0) ZeroActivityTimeout,
      require (\<not> ge_leader_timeout_ms g \<ge> ge_notarization_timeout_ms g) LeaderTimeoutTooLong,
      within_bounds (MaxDepositsPerEpoch (ge_max_deposits_per_epoch g)),
      within_bounds (MaxWithdrawalsPerEpoch (ge_max_withdrawals_per_epoch g)),
      within_bounds (ObserversPerValidator (ucast (ge_observers_per_validator g))),
      within_bounds (MaxValidatorCount (ge_max_validator_count g)),
      require (\<not> word_of_nat (length (ge_validators g)) > ge_max_validator_count g)
        (TooManyValidators (length (ge_validators g))),
      within_bounds (MaxPendingWithdrawalsPerValidator (ge_max_pending_withdrawals_per_validator g)),
      require (\<not> ge_minimum_validator_count g < MIN_MINIMUM_VALIDATOR_COUNT)
        (MinimumValidatorCountTooLow (ge_minimum_validator_count g)),
      require (\<not> ge_minimum_validator_count g > ge_max_validator_count g)
        (MinimumValidatorCountAboveMaximum (ge_minimum_validator_count g)),
      require (\<not> ge_invalid_deposit_tax g > MAX_INVALID_DEPOSIT_TAX)
        (InvalidDepositTaxTooHigh (ge_invalid_deposit_tax g))]"

definition from_toml_str :: "'i formats \<Rightarrow> string \<Rightarrow> genesis_error + genesis" where
  "from_toml_str F txt =
     (case parse_toml F txt of
        None \<Rightarrow> Inl NotToml
      | Some g \<Rightarrow> (case genesis_validate F g of Some e \<Rightarrow> Inl e | None \<Rightarrow> Inr g))"

section \<open>Chain identity\<close>

definition PROTOCOL_VERSION :: u32 where
  "PROTOCOL_VERSION = 1"

definition GENESIS_CONFIG_DOMAIN_TAG :: "u8 list" where
  "GENESIS_CONFIG_DOMAIN_TAG = as_bytes ''summit-genesis-config-v1''"

definition DEPOSIT_DOMAIN_TAG :: "u8 list" where
  "DEPOSIT_DOMAIN_TAG = as_bytes ''summit-deposit-v1''"

definition CHAIN_DOMAIN_TAG :: "u8 list" where
  "CHAIN_DOMAIN_TAG = as_bytes ''summit-chain-v1''"

definition PAUSE_DOMAIN_TAG :: "u8 list" where
  "PAUSE_DOMAIN_TAG = as_bytes ''summit-pause-v1''"

text \<open>\<open>None\<close> is the panic on text that is not 32 bytes of hex.\<close>

definition genesis_hash :: "'i formats \<Rightarrow> genesis \<Rightarrow> digest option" where
  "genesis_hash F g =
     (case from_hex F (ge_eth_genesis_hash g) of
        None \<Rightarrow> None
      | Some bytes \<Rightarrow> if length bytes = 32 then Some (from_be_bytes bytes) else None)"

definition config_digest :: "crypto \<Rightarrow> 'i formats \<Rightarrow> genesis \<Rightarrow> digest" where
  "config_digest c F g = sha256 c (GENESIS_CONFIG_DOMAIN_TAG @ genesis_as_ssz F g)"

definition chain_domain_data :: "digest \<Rightarrow> u8 list" where
  "chain_domain_data cd = CHAIN_DOMAIN_TAG @ to_le_bytes PROTOCOL_VERSION @ to_be_bytes cd"

definition chain_domain :: "crypto \<Rightarrow> digest \<Rightarrow> digest" where
  "chain_domain c cd = sha256 c (chain_domain_data cd)"

definition signature_domain_data :: "u8 list \<Rightarrow> digest \<Rightarrow> u8 list \<Rightarrow> u8 list" where
  "signature_domain_data tag gh namespace =
     tag @ to_le_bytes PROTOCOL_VERSION @ to_be_bytes gh
       @ to_le_bytes (word_of_nat (length namespace) :: u32) @ namespace"

definition signature_domain :: "crypto \<Rightarrow> u8 list \<Rightarrow> digest \<Rightarrow> u8 list \<Rightarrow> digest" where
  "signature_domain c tag gh namespace = sha256 c (signature_domain_data tag gh namespace)"

definition deposit_signature_domain :: "crypto \<Rightarrow> digest \<Rightarrow> u8 list \<Rightarrow> digest" where
  "deposit_signature_domain c gh namespace = signature_domain c DEPOSIT_DOMAIN_TAG gh namespace"

definition pause_signature_domain :: "crypto \<Rightarrow> digest \<Rightarrow> u8 list \<Rightarrow> digest" where
  "pause_signature_domain c gh namespace = signature_domain c PAUSE_DOMAIN_TAG gh namespace"

section \<open>The state a node starts from\<close>

definition genesis_account :: "genesis \<Rightarrow> 'i validator \<Rightarrow> validator_account" where
  "genesis_account g v =
     \<lparr>va_consensus_public_key = v_consensus_public_key v,
      va_withdrawal_credentials = v_withdrawal_credentials v,
      va_balance = ge_validator_minimum_stake g, va_status = Active, va_joining_epoch = 0,
      va_last_deposit_index = 0\<rparr>"

definition add_genesis_node :: "crypto \<Rightarrow> genesis \<Rightarrow> 'i validator \<Rightarrow> consensus_state \<Rightarrow> consensus_state" where
  "add_genesis_node c g v = set_account c (v_node_public_key v) (genesis_account g v)"

definition get_initial_state ::
  "crypto \<Rightarrow> 'i formats \<Rightarrow> genesis \<Rightarrow> 'i validator list \<Rightarrow> consensus_state option \<Rightarrow> consensus_state option" where
  "get_initial_state c F g committee checkpoint =
     (if ge_blocks_per_epoch g = 0 then None
      else case genesis_hash F g of
        None \<Rightarrow> None
      | Some gh \<Rightarrow>
          (case parse_address F (ge_treasury_address g) of
             None \<Rightarrow> None
           | Some treasury_address \<Rightarrow>
               Some (case checkpoint of
                 Some s \<Rightarrow> s
               | None \<Rightarrow>
                   rebuild_ssz_tree c (fold (add_genesis_node c g) committee
                     (consensus_state_new c
                        \<lparr>fc_head_block_hash = gh, fc_safe_block_hash = gh, fc_finalized_block_hash = gh\<rparr>
                        (ge_validator_minimum_stake g) (ge_blocks_per_epoch g)
                        (ge_allowed_timestamp_future_ms g) treasury_address (ge_max_deposits_per_epoch g)
                        (ge_max_withdrawals_per_epoch g) (ge_observers_per_validator g)
                        (ge_max_validator_count g) (ge_minimum_validator_count g)
                        (ge_invalid_deposit_tax g) (ge_max_pending_withdrawals_per_validator g))))))"

text \<open>The peer capacity; \<open>None\<close> is a panic.\<close>

definition startup_peer_limit :: "consensus_state \<Rightarrow> nat option" where
  "startup_peer_limit s =
     (case prospective_observers_per_validator s of
        None \<Rightarrow> None
      | Some prospective \<Rightarrow>
          let validators = max (cs_max_validator_count s) (prospective_max_validator_count s);
              observers = max (cs_observers_per_validator s) prospective
          in case Option.bind (checked_mul validators (ucast observers + 1)) (\<lambda>n. checked_add n 1) of
               None \<Rightarrow> None
             | Some n \<Rightarrow> if n = 0 then None
                         else if active_or_joining_validator_count s \<le> validators then Some (unat n) else None)"

section \<open>Accepted configurations\<close>

lemma first_error_None: "first_error xs = None \<longleftrightarrow> (\<forall>x \<in> set xs. x = None)"
  by (induction xs) (auto split: option.split)

lemma require_None [simp]: "require b e = None \<longleftrightarrow> b"
  by (simp add: require_def)

lemma within_bounds_None [simp]: "within_bounds p = None \<longleftrightarrow> Protocol_Params.validate p = None"
  by (simp add: within_bounds_def)

lemma genesis_accepted:
  "genesis_validate F g = None \<longleftrightarrow>
     within MIN_EPOCH_LENGTH MAX_EPOCH_LENGTH (ge_blocks_per_epoch g)
   \<and> within MAX_MESSAGE_SIZE_BYTES_MIN MAX_MESSAGE_SIZE_BYTES_MAX (ge_max_message_size_bytes g)
   \<and> within MIN_ALLOWED_TIMESTAMP_FUTURE_MS MAX_ALLOWED_TIMESTAMP_FUTURE_MS (ge_allowed_timestamp_future_ms g)
   \<and> parse_address F (ge_treasury_address g) \<noteq> None
   \<and> ge_leader_timeout_ms g \<noteq> 0 \<and> ge_nullify_timeout_ms g \<noteq> 0 \<and> ge_activity_timeout_views g \<noteq> 0
   \<and> ge_leader_timeout_ms g < ge_notarization_timeout_ms g
   \<and> ge_max_deposits_per_epoch g \<le> MAX_MAX_DEPOSITS_PER_EPOCH
   \<and> within MAX_WITHDRAWALS_PER_EPOCH_MIN MAX_WITHDRAWALS_PER_EPOCH_MAX (ge_max_withdrawals_per_epoch g)
   \<and> ucast (ge_observers_per_validator g) \<le> MAX_OBSERVERS_PER_VALIDATOR
   \<and> within MIN_MAX_VALIDATOR_COUNT MAX_MAX_VALIDATOR_COUNT (ge_max_validator_count g)
   \<and> word_of_nat (length (ge_validators g)) \<le> ge_max_validator_count g
   \<and> within MAX_PENDING_WITHDRAWALS_PER_VALIDATOR_MIN MAX_PENDING_WITHDRAWALS_PER_VALIDATOR_MAX
       (ge_max_pending_withdrawals_per_validator g)
   \<and> within MIN_MINIMUM_VALIDATOR_COUNT (ge_max_validator_count g) (ge_minimum_validator_count g)
   \<and> ge_invalid_deposit_tax g \<le> MAX_INVALID_DEPOSIT_TAX"
  unfolding genesis_validate_def first_error_None
  by (auto simp: within_def not_less not_le split: if_splits)

section \<open>The genesis committee\<close>

definition genesis_accounts :: "genesis \<Rightarrow> 'i validator list \<Rightarrow> (node_key, validator_account) btree" where
  "genesis_accounts g vs = fold (\<lambda>v. bt_insert (v_node_public_key v) (genesis_account g v)) vs []"

lemma add_nodes_fields:
  "\<exists>t. fold (add_genesis_node c g) vs s = s\<lparr>cs_validator_accounts :=
     fold (\<lambda>v. bt_insert (v_node_public_key v) (genesis_account g v)) vs (cs_validator_accounts s), cs_ssz_tree := t\<rparr>"
proof (induction vs arbitrary: s)
  case Nil
  show ?case by (rule exI [of _ "cs_ssz_tree s"]) simp
next
  case (Cons v vs)
  obtain t where "add_genesis_node c g v s = s\<lparr>cs_validator_accounts :=
      bt_insert (v_node_public_key v) (genesis_account g v) (cs_validator_accounts s), cs_ssz_tree := t\<rparr>"
    by (simp add: add_genesis_node_def set_account_def on_tree_def Let_def)
  then show ?case using Cons.IH [of "add_genesis_node c g v s"] by auto
qed

lemma length_bt_insert: "length (bt_insert k v m) \<le> Suc (length m)"
  by (induction m) auto

lemma genesis_accounts_ok:
  fixes vs :: "'i validator list"
  shows "bt_ok (genesis_accounts g vs)" "length (genesis_accounts g vs) \<le> length vs"
    "bt_get (genesis_accounts g vs) k = map_option (genesis_account g) (find (\<lambda>v. v_node_public_key v = k) (rev vs))"
    "\<And>k a. (k, a) \<in> set (genesis_accounts g vs) \<Longrightarrow> \<exists>v \<in> set vs. k = v_node_public_key v \<and> a = genesis_account g v"
proof -
  let ?ins = "\<lambda>v :: 'i validator. bt_insert (v_node_public_key v) (genesis_account g v)"
  have snoc: "genesis_accounts g (us @ [v]) = ?ins v (genesis_accounts g us)" for us and v :: "'i validator"
    by (simp add: genesis_accounts_def)
  have nil: "genesis_accounts g [] = []" by (simp add: genesis_accounts_def)
  show "bt_ok (genesis_accounts g vs)" by (induction vs rule: rev_induct) (simp_all add: nil snoc bt_ok_insert)
  show "length (genesis_accounts g vs) \<le> length vs"
    by (induction vs rule: rev_induct) (auto simp: nil snoc intro: order_trans [OF length_bt_insert])
  show "bt_get (genesis_accounts g vs) k = map_option (genesis_account g) (find (\<lambda>v. v_node_public_key v = k) (rev vs))"
    by (induction vs rule: rev_induct) (auto simp: nil snoc btree_simps bt_get_def [of "[]"])
  show "\<exists>v \<in> set vs. k = v_node_public_key v \<and> a = genesis_account g v" if "(k, a) \<in> set (genesis_accounts g vs)" for k a
    using that by (induction vs rule: rev_induct) (use set_bt_insert in \<open>fastforce simp: nil snoc\<close>)+
qed

lemma validators_decoded:
  assumes "get_validators c F g = Inr vs"
  shows "length vs = length (ge_validators g)"
    "\<And>v. v \<in> set vs \<Longrightarrow> ed_key_ok c (v_node_public_key v) \<and> bls_key_ok c (v_consensus_public_key v)"
proof -
  have one: "ed_key_ok c (v_node_public_key v) \<and> bls_key_ok c (v_consensus_public_key v)"
    if "validator_try_from c F gv = Inr v" for gv v
    using that by (auto simp: validator_try_from_def ed_decode_def bls_decode_def split: option.splits if_splits)
  have "validators_try_from c F gvs = Inr vs \<Longrightarrow> length vs = length gvs \<and>
      (\<forall>v \<in> set vs. ed_key_ok c (v_node_public_key v) \<and> bls_key_ok c (v_consensus_public_key v))" for gvs
    by (induction gvs arbitrary: vs) (auto split: sum.splits dest: one)
  then show "length vs = length (ge_validators g)"
    "\<And>v. v \<in> set vs \<Longrightarrow> ed_key_ok c (v_node_public_key v) \<and> bls_key_ok c (v_consensus_public_key v)"
    using assms by (auto simp: get_validators_def)
qed

lemma initial_state_fields:
  assumes "genesis_validate F g = None" "genesis_hash F g = Some gh"
  obtains s where "get_initial_state c F g vs None = Some s"
    and "s = rebuild_ssz_tree c s" and "cs_validator_accounts s = genesis_accounts g vs"
    and "cs_withdrawal_queue s = wq_default" "cs_deposit_queue s = []" "cs_protocol_param_changes s = []"
      "cs_pending_checkpoint s = None" "cs_added_validators s = []" "cs_removed_validators s = []"
      "cs_pending_execution_requests s = []" "cs_captured_bytes s = None" "cs_pending_active_validator_exits s = 0"
    and "cs_epocher s = de_new (ge_blocks_per_epoch g)" "cs_max_validator_count s = ge_max_validator_count g"
      "cs_minimum_validator_count s = ge_minimum_validator_count g"
      "cs_observers_per_validator s = ge_observers_per_validator g"
      "cs_allowed_timestamp_future_ms s = ge_allowed_timestamp_future_ms g"
      "cs_max_deposits_per_epoch s = ge_max_deposits_per_epoch g"
      "cs_max_withdrawals_per_epoch s = ge_max_withdrawals_per_epoch g"
      "cs_invalid_deposit_tax s = ge_invalid_deposit_tax g"
      "cs_max_pending_withdrawals_per_validator s = ge_max_pending_withdrawals_per_validator g"
    and "cs_epoch s = 0" "cs_latest_height s = 0" "cs_head_digest s = gh"
proof -
  obtain ta where ta: "parse_address F (ge_treasury_address g) = Some ta"
    using assms(1) by (auto simp: genesis_accepted)
  have "unat MIN_EPOCH_LENGTH \<le> unat (ge_blocks_per_epoch g)"
    using assms(1) by (simp add: genesis_accepted within_def word_le_nat_alt)
  then have "ge_blocks_per_epoch g \<noteq> 0" by (auto simp: param_limits)
  define s0 where "s0 = consensus_state_new c
    \<lparr>fc_head_block_hash = gh, fc_safe_block_hash = gh, fc_finalized_block_hash = gh\<rparr>
    (ge_validator_minimum_stake g) (ge_blocks_per_epoch g) (ge_allowed_timestamp_future_ms g) ta
    (ge_max_deposits_per_epoch g) (ge_max_withdrawals_per_epoch g) (ge_observers_per_validator g)
    (ge_max_validator_count g) (ge_minimum_validator_count g) (ge_invalid_deposit_tax g)
    (ge_max_pending_withdrawals_per_validator g)"
  obtain t where t: "fold (add_genesis_node c g) vs s0 = s0\<lparr>cs_validator_accounts := genesis_accounts g vs, cs_ssz_tree := t\<rparr>"
    using add_nodes_fields [of c g vs s0]
    by (auto simp: genesis_accounts_def s0_def consensus_state_new_def rebuild_ssz_tree_def Let_def)
  have g: "get_initial_state c F g vs None = Some (rebuild_ssz_tree c (fold (add_genesis_node c g) vs s0))"
    using ta \<open>ge_blocks_per_epoch g \<noteq> 0\<close> assms(2) by (simp add: get_initial_state_def s0_def)
  show ?thesis
    by (rule that [OF g [unfolded t]]) (simp_all add: s0_def consensus_state_new_def rebuild_ssz_tree_def contents_of_def Let_def)
qed

lemma peer_limit_ok:
  assumes "cs_protocol_param_changes s = []" "unat (cs_max_validator_count s) \<le> 4096"
    "unat (cs_observers_per_validator s) \<le> 256" "length (cs_validator_accounts s) \<le> unat (cs_max_validator_count s)"
  shows "startup_peer_limit s = Some (unat (cs_max_validator_count s) * (unat (cs_observers_per_validator s) + 1) + 1)"
proof -
  let ?m = "cs_max_validator_count s" and ?o = "ucast (cs_observers_per_validator s) + 1 :: u64"
  have o: "unat ?o = unat (cs_observers_per_validator s) + 1"
    using assms(3) by (subst unat_add_exact) (simp_all add: unat_ucast_wider)
  have "unat ?m * unat ?o \<le> 4096 * 257" by (rule mult_le_mono) (use assms o in simp_all)
  then have m: "checked_mul ?m ?o = Some (?m * ?o)" "unat (?m * ?o) = unat ?m * unat ?o"
    "checked_add (?m * ?o) 1 = Some (?m * ?o + 1)" "unat (?m * ?o + 1) = unat ?m * unat ?o + 1"
    by (simp_all add: checked_mul_def checked_add_def unat_mult_exact unat_add_exact)
  let ?n = "length (filter (\<lambda>e. va_status (snd e) = Active \<or> va_status (snd e) = Joining) (cs_validator_accounts s))"
  have n: "?n \<le> unat ?m" using assms(4) length_filter_le by (rule order_trans [rotated])
  then have "?n < 2 ^ LENGTH(64)" using assms(2) by simp
  then have "unat (word_of_nat ?n :: u64) = ?n" by (rule unat_word_of_nat)
  then have "unat (active_or_joining_validator_count s) \<le> unat ?m"
    using n by (simp add: active_or_joining_validator_count_def count_status_def)
  then have "active_or_joining_validator_count s \<le> ?m" by (simp add: word_le_nat_alt)
  moreover have "?m * ?o + 1 \<noteq> 0" using m(4) by (metis Suc_eq_plus1 nat.distinct(1) unat_0)
  ultimately show ?thesis
    using m o assms(1) by (simp add: startup_peer_limit_def prospective_observers_per_validator_def
        prospective_max_validator_count_def last_queued_def Let_def)
qed

lemma initial_state_ok:
  assumes "zero_hashes_ok c" "genesis_validate F g = None" "get_validators c F g = Inr vs"
    "genesis_hash F g = Some gh" "length (ge_validators g) < 2 ^ 64"
  shows "\<exists>s. get_initial_state c F g vs None = Some s \<and> state_writable c s \<and> committed c s
    \<and> cs_state_root s = state_root (rebuild c (contents_of s))
    \<and> (\<forall>k. get_account s k = map_option (genesis_account g) (find (\<lambda>v. v_node_public_key v = k) (rev vs)))
    \<and> length (cs_validator_accounts s) \<le> unat (cs_max_validator_count s)
    \<and> startup_peer_limit s = Some (unat (ge_max_validator_count g) * (unat (ge_observers_per_validator g) + 1) + 1)"
proof -
  obtain s where g: "get_initial_state c F g vs None = Some s" and r: "s = rebuild_ssz_tree c s"
    and a: "cs_validator_accounts s = genesis_accounts g vs" and f: "cs_withdrawal_queue s = wq_default" "cs_deposit_queue s = []" "cs_protocol_param_changes s = []"
      "cs_pending_checkpoint s = None" "cs_added_validators s = []" "cs_removed_validators s = []"
      "cs_pending_execution_requests s = []" "cs_captured_bytes s = None" "cs_pending_active_validator_exits s = 0"
    and e: "cs_epocher s = de_new (ge_blocks_per_epoch g)"
    and p: "cs_max_validator_count s = ge_max_validator_count g"
      "cs_minimum_validator_count s = ge_minimum_validator_count g"
      "cs_observers_per_validator s = ge_observers_per_validator g"
      "cs_allowed_timestamp_future_ms s = ge_allowed_timestamp_future_ms g"
      "cs_max_deposits_per_epoch s = ge_max_deposits_per_epoch g"
      "cs_max_withdrawals_per_epoch s = ge_max_withdrawals_per_epoch g"
      "cs_invalid_deposit_tax s = ge_invalid_deposit_tax g"
      "cs_max_pending_withdrawals_per_validator s = ge_max_pending_withdrawals_per_validator g"
    by (rule initial_state_fields [OF assms(2,4), of c vs])
  note ok = assms(2) [unfolded genesis_accepted]
  have len: "length (genesis_accounts g vs) \<le> unat (ge_max_validator_count g)"
    using genesis_accounts_ok(2) [of g vs] validators_decoded(1) [OF assms(3)] assms(5) ok
    by (simp add: word_le_nat_alt unat_word_of_nat)
  have max: "unat (ge_max_validator_count g) \<le> 4096" "unat (ge_observers_per_validator g) \<le> unat MAX_OBSERVERS_PER_VALIDATOR"
    using ok by (auto simp: within_def param_limits word_le_nat_alt unat_ucast_wider)
  have t: "tree_ok c False False s" by (subst r) (rule rebuild_tree_ok, simp_all add: assms(1) a genesis_accounts_ok(1))
  have keys: "list_all (\<lambda>e. validator_account_ok c (snd e)) (genesis_accounts g vs)"
    using genesis_accounts_ok(4) [of _ _ g vs] validators_decoded(2) [OF assms(3)]
    by (fastforce simp: list_all_iff validator_account_ok_def genesis_account_def)
  have "state_writable c s"
    using ok len max keys genesis_accounts_ok(1) [of g vs]
    by (simp add: state_writable_def queues_ok_def staging_ok_def params_bounded_def a f e p queue_writable_def
        wq_default_ok epocher_writable_def de_new_def)
      (auto simp: within_def param_limits wq_default_def)
  moreover have "committed c s" using t by (simp add: tree_ok_committed)
  moreover have "cs_state_root s = state_root (rebuild c (contents_of s))"
    by (subst r) (simp add: rebuild_ssz_tree_def contents_of_def Let_def)
  moreover have "startup_peer_limit s = Some (unat (ge_max_validator_count g) * (unat (ge_observers_per_validator g) + 1) + 1)"
    using peer_limit_ok [of s] max len by (simp add: f p a param_limits)
  ultimately show ?thesis using g len by (auto simp: a p genesis_accounts_ok(3))
qed


definition demo_formats :: "nat formats" where
  "demo_formats = \<lparr>from_hex = (\<lambda>t. if t = [] then None else Some (replicate (length t) 0)),
     parse_address = (\<lambda>t. Some 0), parse_socket = (\<lambda>t. Some 0), genesis_as_ssz = (\<lambda>g. []),
     parse_toml = (\<lambda>t. None)\<rparr>"

definition demo_genesis_validator :: genesis_validator where
  "demo_genesis_validator = \<lparr>gv_node_public_key = replicate 32 (CHR ''0''),
     gv_consensus_public_key = replicate 48 (CHR ''0''), gv_ip_address = [], gv_withdrawal_credentials = []\<rparr>"

definition demo_config :: genesis where
  "demo_config = \<lparr>ge_validators = [demo_genesis_validator], ge_eth_genesis_hash = replicate 32 (CHR ''0''),
     ge_leader_timeout_ms = 1, ge_notarization_timeout_ms = 2, ge_nullify_timeout_ms = 1, ge_activity_timeout_views = 1,
     ge_max_message_size_bytes = 2 ^ 21, ge_namespace = [], ge_validator_minimum_stake = 32,
     ge_blocks_per_epoch = 10, ge_allowed_timestamp_future_ms = 1000, ge_treasury_address = [],
     ge_max_deposits_per_epoch = 3, ge_max_withdrawals_per_epoch = 16, ge_observers_per_validator = 2,
     ge_max_validator_count = 4, ge_minimum_validator_count = 1, ge_invalid_deposit_tax = 5,
     ge_max_pending_withdrawals_per_validator = 3\<rparr>"

definition demo_validator :: "nat validator" where
  "demo_validator = \<lparr>v_node_public_key = 0, v_consensus_public_key = 0, v_ip_address = 0, v_withdrawal_credentials = 0\<rparr>"

lemma le_to_nat_zeros: "le_to_nat (replicate n 0) = 0"
  by (induction n) simp_all

lemma from_be_zeros: "from_be_bytes (replicate n 0) = 0"
  by (simp add: from_be_bytes_def from_le_bytes_def le_to_nat_zeros)

lemma demo_config_ok:
  "genesis_validate demo_formats demo_config = None"
  "get_validators demo_crypto demo_formats demo_config = Inr [demo_validator]"
  "genesis_hash demo_formats demo_config = Some 0" "length (ge_validators demo_config) < 2 ^ 64"
  by (simp_all add: genesis_accepted demo_config_def demo_formats_def within_def param_limits MAX_MESSAGE_SIZE_BYTES_MIN_def
      MAX_MESSAGE_SIZE_BYTES_MAX_def get_validators_def validator_try_from_def demo_genesis_validator_def ed_decode_def
      bls_decode_def from_be_zeros demo_validator_def genesis_hash_def)



section \<open>Domain separation\<close>

lemma be_bytes_determine: "8 dvd LENGTH('a) \<Longrightarrow> to_be_bytes (a :: 'a::len word) = to_be_bytes b \<longleftrightarrow> a = b"
  by (metis from_to_be_bytes)

lemma tags: "length CHAIN_DOMAIN_TAG = 15" "length PAUSE_DOMAIN_TAG = 15" "length DEPOSIT_DOMAIN_TAG = 17"
  "length GENESIS_CONFIG_DOMAIN_TAG = 24" "CHAIN_DOMAIN_TAG ! 7 = 0x63" "PAUSE_DOMAIN_TAG ! 7 = 0x70"
  "DEPOSIT_DOMAIN_TAG ! 7 = 0x64" "GENESIS_CONFIG_DOMAIN_TAG ! 7 = 0x67"
  by (simp_all add: CHAIN_DOMAIN_TAG_def PAUSE_DOMAIN_TAG_def DEPOSIT_DOMAIN_TAG_def GENESIS_CONFIG_DOMAIN_TAG_def as_bytes_def)


end
