(* ===== verification/Checkpoint_Chain.thy ===== *)
theory Checkpoint_Chain
  imports Genesis "HOL-Library.Multiset"
begin

text \<open>
  \<open>types/src/checkpoint.rs\<close>, the verification of a checkpoint before it is imported. The finalized
  headers, one per epoch from genesis, are walked with the committee they determine, the chain is tied to a
  trusted digest, and the checkpoint is bound to the last header. Certificates and the bijective participant
  map belong to \<open>commonware\<close>: they are the record \<open>scheme\<close>, an argument. The texts inside errors are left
  out. Shown: the verifier accepts exactly the checkpoints of a declarative specification, and two
  histories that pass the same trusted header agree on it and on everything before it.
\<close>

section \<open>Errors and parameters\<close>

datatype checkpoint_verification_error =
    NoHeaders
  | NonContiguousEpochs u64 u64
  | SignatureVerificationFailed u64
  | CheckpointHashMismatch
  | PrevEpochHeaderHashMismatch u64
  | InvalidGenesisHash string
  | WeakSubjectivityEpochUnavailable u64 u64
  | WeakSubjectivityHeaderDigestMismatch u64 digest digest
  | WeakSubjectivityCheckpointTooOld u64 u64 u64
  | ValidatorSetMismatch
  | ValidatorSetError
  | HeaderPayloadDigestMismatch u64
  | CheckpointStatePositionMismatch
  | CheckpointTransitionQueueMismatch
  | CheckpointConsensusKeyMismatch

record weak_subjectivity_header_digest =
  ws_epoch :: u64
  ws_header_digest :: digest

definition WEAK_SUBJECTIVITY_MAX_AGE_EPOCHS :: u64 where
  "WEAK_SUBJECTIVITY_MAX_AGE_EPOCHS = 5"

type_synonym participants = "(node_key \<times> bls_key) list"

text \<open>The participant map rejects lists that are not bijective; a certificate is verified under a domain
  by the participants.\<close>

record 'm scheme =
  participant_map :: "participants \<Rightarrow> 'm option"
  finalization_verify :: "digest \<Rightarrow> 'm \<Rightarrow> finalization \<Rightarrow> bool"

section \<open>The walk over the finalized headers\<close>

definition genesis_participants :: "'i validator list \<Rightarrow> participants" where
  "genesis_participants validators =
     sort_key fst (map (\<lambda>v. (v_node_public_key v, v_consensus_public_key v)) validators)"

definition next_participants :: "header \<Rightarrow> participants \<Rightarrow> participants" where
  "next_participants h participants =
     (let pushed = participants @ map (\<lambda>added. (av_node_key added, av_consensus_key added)) (h_added_validators h);
          retained = fold (\<lambda>removed. filter (\<lambda>(pk, _). pk \<noteq> removed)) (h_removed_validators h) pushed
      in sort_key fst retained)"

text \<open>One turn of the loop, the committee it leaves for the next epoch.\<close>

definition check_header ::
  "crypto \<Rightarrow> wire \<Rightarrow> 'm scheme \<Rightarrow> digest \<Rightarrow> nat \<Rightarrow> digest \<Rightarrow> participants \<Rightarrow> finalized_header
     \<Rightarrow> checkpoint_verification_error + participants" where
  "check_header c w S namespace i expected_prev participants fh =
     (let expected_epoch = word_of_nat i; h = fh_header fh
      in if computed_digest c w h \<noteq> fin_payload (fh_finalization fh)
         then Inl (HeaderPayloadDigestMismatch (word_of_nat i))
         else if h_epoch h \<noteq> expected_epoch then Inl (NonContiguousEpochs expected_epoch (h_epoch h))
         else if h_prev_epoch_header_hash h \<noteq> expected_prev then Inl (PrevEpochHeaderHashMismatch expected_epoch)
         else case participant_map S participants of
           None \<Rightarrow> Inl ValidatorSetError
         | Some bimap \<Rightarrow>
             if \<not> finalization_verify S namespace bimap (fh_finalization fh)
             then Inl (SignatureVerificationFailed expected_epoch)
             else Inr (next_participants h participants))"

primrec walk_headers ::
  "crypto \<Rightarrow> wire \<Rightarrow> 'm scheme \<Rightarrow> digest \<Rightarrow> nat \<Rightarrow> digest \<Rightarrow> participants \<Rightarrow> participants \<Rightarrow> finalized_header list
     \<Rightarrow> checkpoint_verification_error + participants" where
  "walk_headers c w S namespace i expected_prev participants signing_set [] = Inr signing_set"
| "walk_headers c w S namespace i expected_prev participants signing_set (fh # fhs) =
     (case check_header c w S namespace i expected_prev participants fh of
        Inl e \<Rightarrow> Inl e
      | Inr participants' \<Rightarrow>
          walk_headers c w S namespace (Suc i) (get_digest c w (fh_header fh)) participants' participants fhs)"

section \<open>The trusted header\<close>

definition check_anchor ::
  "crypto \<Rightarrow> wire \<Rightarrow> finalized_header list \<Rightarrow> weak_subjectivity_header_digest option
     \<Rightarrow> checkpoint_verification_error option" where
  "check_anchor c w finalized_headers weak_subjectivity =
     (case weak_subjectivity of
        None \<Rightarrow> None
      | Some ws \<Rightarrow>
          let highest = word_of_nat (length finalized_headers) - 1; anchor_index = unat (ws_epoch ws)
          in if anchor_index \<ge> length finalized_headers
             then Some (WeakSubjectivityEpochUnavailable (ws_epoch ws) highest)
             else let anchor_header = fh_header (finalized_headers ! anchor_index)
             in if get_digest c w anchor_header \<noteq> ws_header_digest ws
                then Some (WeakSubjectivityHeaderDigestMismatch (ws_epoch ws) (ws_header_digest ws)
                       (get_digest c w anchor_header))
                else if highest - ws_epoch ws > WEAK_SUBJECTIVITY_MAX_AGE_EPOCHS
                     then Some (WeakSubjectivityCheckpointTooOld highest (ws_epoch ws) WEAK_SUBJECTIVITY_MAX_AGE_EPOCHS)
                     else None)"

section \<open>The state in the checkpoint\<close>

definition check_signer :: "consensus_state \<Rightarrow> node_key \<times> bls_key \<Rightarrow> checkpoint_verification_error option" where
  "check_signer s e =
     (case get_account s (fst e) of
        None \<Rightarrow> Some ValidatorSetMismatch
      | Some account \<Rightarrow>
          if va_status account \<noteq> Active \<and> va_status account \<noteq> SubmittedExitRequest then Some ValidatorSetMismatch
          else if va_consensus_public_key account \<noteq> snd e then Some CheckpointConsensusKeyMismatch
          else None)"

definition check_active :: "(node_key, bls_key) btree \<Rightarrow> node_key \<times> validator_account \<Rightarrow> checkpoint_verification_error option" where
  "check_active accumulated e =
     (if va_status (snd e) = Active \<and> bt_get accumulated (fst e) = None then Some ValidatorSetMismatch else None)"

definition check_position :: "header \<Rightarrow> consensus_state \<Rightarrow> checkpoint_verification_error option" where
  "check_position terminal s =
     (if h_height terminal \<noteq> saturating_add (cs_latest_height s) 1 then Some CheckpointStatePositionMismatch
      else if cs_epoch s \<noteq> h_epoch terminal then Some CheckpointStatePositionMismatch
      else if cs_head_digest s \<noteq> h_parent terminal then Some CheckpointStatePositionMismatch
      else case epoch_bounds (cs_epocher s) (cs_epoch s) of
        None \<Rightarrow> Some CheckpointStatePositionMismatch
      | Some (start, stop) \<Rightarrow>
          if cs_latest_height s < start \<or> cs_latest_height s > stop then Some CheckpointStatePositionMismatch else None)"

definition check_joining :: "consensus_state \<Rightarrow> added_validator \<Rightarrow> checkpoint_verification_error option" where
  "check_joining s added =
     (case get_account s (av_node_key added) of
        None \<Rightarrow> Some ValidatorSetMismatch
      | Some account \<Rightarrow>
          if va_consensus_public_key account \<noteq> av_consensus_key added then Some CheckpointConsensusKeyMismatch else None)"

definition check_transition :: "header \<Rightarrow> consensus_state \<Rightarrow> checkpoint_verification_error option" where
  "check_transition terminal s =
     (let next_epoch = cs_epoch s + 1;
          checkpoint_added = sort_key av_node_key (case get_added_validators s next_epoch of None \<Rightarrow> [] | Some vs \<Rightarrow> vs);
          header_added = sort_key av_node_key (h_added_validators terminal)
      in if checkpoint_added \<noteq> header_added then Some CheckpointTransitionQueueMismatch
         else first_error (map (check_joining s) header_added
                @ [require (sort (cs_removed_validators s) = sort (h_removed_validators terminal))
                     CheckpointTransitionQueueMismatch]))"

definition check_state :: "header \<Rightarrow> participants \<Rightarrow> consensus_state \<Rightarrow> checkpoint_verification_error option" where
  "check_state terminal signing_set s =
     (let accumulated = collect_map signing_set
      in first_error (map (check_signer s) accumulated @ map (check_active accumulated) (cs_validator_accounts s)
           @ [check_position terminal s, check_transition terminal s]))"

section \<open>Verification\<close>

definition verify_checkpoint_chain_with_weak_subjectivity ::
  "crypto \<Rightarrow> wire \<Rightarrow> 'i formats \<Rightarrow> 'm scheme \<Rightarrow> genesis \<Rightarrow> finalized_header list \<Rightarrow> checkpoint
     \<Rightarrow> weak_subjectivity_header_digest option \<Rightarrow> checkpoint_verification_error option" where
  "verify_checkpoint_chain_with_weak_subjectivity c w F S g finalized_headers checkpoint weak_subjectivity =
     (if finalized_headers = [] then Some NoHeaders
      else case genesis_hash F g of
        None \<Rightarrow> Some (InvalidGenesisHash (ge_eth_genesis_hash g))
      | Some gh \<Rightarrow>
     (case get_validators c F g of
        Inl e \<Rightarrow> Some ValidatorSetError
      | Inr validators \<Rightarrow>
     (let namespace = chain_domain c (config_digest c F g); participants = genesis_participants validators
      in case walk_headers c w S namespace 0 gh participants participants finalized_headers of
        Inl e \<Rightarrow> Some e
      | Inr signing_set \<Rightarrow>
     (case check_anchor c w finalized_headers weak_subjectivity of
        Some e \<Rightarrow> Some e
      | None \<Rightarrow>
     (let terminal = fh_header (last finalized_headers)
      in if h_checkpoint_hash terminal \<noteq> sha256 c (ck_data checkpoint) then Some CheckpointHashMismatch
         else case state_of_checkpoint c w checkpoint of
           Inl e \<Rightarrow> Some ValidatorSetError
         | Inr s \<Rightarrow> check_state terminal signing_set s)))))"

definition verify_checkpoint_chain ::
  "crypto \<Rightarrow> wire \<Rightarrow> 'i formats \<Rightarrow> 'm scheme \<Rightarrow> genesis \<Rightarrow> finalized_header list \<Rightarrow> checkpoint
     \<Rightarrow> checkpoint_verification_error option" where
  "verify_checkpoint_chain c w F S g finalized_headers checkpoint =
     verify_checkpoint_chain_with_weak_subjectivity c w F S g finalized_headers checkpoint None"

section \<open>What is accepted\<close>

text \<open>The committee of an epoch, by the headers before it.\<close>

definition committee_at :: "participants \<Rightarrow> finalized_header list \<Rightarrow> nat \<Rightarrow> participants" where
  "committee_at participants fhs i = fold (\<lambda>fh. next_participants (fh_header fh)) (take i fhs) participants"

definition header_linked ::
  "crypto \<Rightarrow> wire \<Rightarrow> 'm scheme \<Rightarrow> digest \<Rightarrow> nat \<Rightarrow> digest \<Rightarrow> participants \<Rightarrow> finalized_header \<Rightarrow> bool" where
  "header_linked c w S namespace i prev participants fh \<longleftrightarrow>
     fin_payload (fh_finalization fh) = computed_digest c w (fh_header fh)
   \<and> h_epoch (fh_header fh) = word_of_nat i \<and> h_prev_epoch_header_hash (fh_header fh) = prev
   \<and> (\<exists>m. participant_map S participants = Some m \<and> finalization_verify S namespace m (fh_finalization fh))"

definition chain_linked ::
  "crypto \<Rightarrow> wire \<Rightarrow> 'm scheme \<Rightarrow> digest \<Rightarrow> digest \<Rightarrow> participants \<Rightarrow> finalized_header list \<Rightarrow> bool" where
  "chain_linked c w S namespace gh participants fhs \<longleftrightarrow>
     (\<forall>i < length fhs. header_linked c w S namespace i
        (if i = 0 then gh else get_digest c w (fh_header (fhs ! (i - 1)))) (committee_at participants fhs i) (fhs ! i))"

text \<open>The chain passes through the trusted header, which is at most five epochs old.\<close>

definition anchored :: "crypto \<Rightarrow> wire \<Rightarrow> finalized_header list \<Rightarrow> weak_subjectivity_header_digest \<Rightarrow> bool" where
  "anchored c w fhs ws \<longleftrightarrow> unat (ws_epoch ws) < length fhs \<and> length fhs \<le> unat (ws_epoch ws) + 6
   \<and> get_digest c w (fh_header (fhs ! unat (ws_epoch ws))) = ws_header_digest ws"

text \<open>The accounts of the state are those of the committee: each member signs with the key of its
  account, and nobody else is active.\<close>

definition committee_matches :: "participants \<Rightarrow> consensus_state \<Rightarrow> bool" where
  "committee_matches committee s \<longleftrightarrow>
     (\<forall>k b. bt_get (collect_map committee) k = Some b \<longrightarrow>
        (\<exists>a. get_account s k = Some a \<and> is_current_epoch_signer (va_status a) \<and> va_consensus_public_key a = b))
   \<and> (\<forall>k a. get_account s k = Some a \<longrightarrow> va_status a = Active \<longrightarrow> bt_get (collect_map committee) k \<noteq> None)"

text \<open>The state stands one block before the terminal header, inside the epoch of its schedule, and
  stages exactly the committee changes the header commits to.\<close>

definition positioned_before :: "header \<Rightarrow> consensus_state \<Rightarrow> bool" where
  "positioned_before terminal s \<longleftrightarrow>
     h_height terminal = saturating_add (cs_latest_height s) 1 \<and> h_epoch terminal = cs_epoch s
   \<and> h_parent terminal = cs_head_digest s
   \<and> (\<exists>start stop. epoch_bounds (cs_epocher s) (cs_epoch s) = Some (start, stop)
        \<and> start \<le> cs_latest_height s \<and> cs_latest_height s \<le> stop)"

definition transition_matches :: "header \<Rightarrow> consensus_state \<Rightarrow> bool" where
  "transition_matches terminal s \<longleftrightarrow>
     sort_key av_node_key (case get_added_validators s (cs_epoch s + 1) of None \<Rightarrow> [] | Some vs \<Rightarrow> vs)
       = sort_key av_node_key (h_added_validators terminal)
   \<and> (\<forall>v \<in> set (h_added_validators terminal).
        \<exists>a. get_account s (av_node_key v) = Some a \<and> va_consensus_public_key a = av_consensus_key v)
   \<and> mset (cs_removed_validators s) = mset (h_removed_validators terminal)"

lemma check_header_Inr:
  "check_header c w S namespace i prev ps fh = Inr ps' \<longleftrightarrow>
     header_linked c w S namespace i prev ps fh \<and> ps' = next_participants (fh_header fh) ps"
  by (auto simp: check_header_def header_linked_def Let_def split: option.splits if_splits)

lemma committee_at_simps [simp]:
  "committee_at ps fhs 0 = ps"
  "committee_at ps (fh # fhs) (Suc i) = committee_at (next_participants (fh_header fh) ps) fhs i"
  by (simp_all add: committee_at_def)

lemma walk_headers_Inr:
  "walk_headers c w S namespace k prev ps sg fhs = Inr r \<longleftrightarrow>
     (\<forall>i < length fhs. header_linked c w S namespace (k + i)
        (if i = 0 then prev else get_digest c w (fh_header (fhs ! (i - 1)))) (committee_at ps fhs i) (fhs ! i))
     \<and> r = (if fhs = [] then sg else committee_at ps fhs (length fhs - 1))"
proof (induction fhs arbitrary: k prev ps sg)
  case (Cons fh fhs)
  let ?ps = "next_participants (fh_header fh) ps" and ?d = "get_digest c w (fh_header fh)"
  have prev: "(if i = 0 then ?d else get_digest c w (fh_header (fhs ! (i - 1)))) = get_digest c w (fh_header ((fh # fhs) ! i))" for i
    by (cases i) simp_all
  have last: "(if fhs = [] then ps else committee_at ?ps fhs (length fhs - 1)) = committee_at ps (fh # fhs) (length fhs)"
    by (cases fhs) simp_all
  have "walk_headers c w S namespace k prev ps sg (fh # fhs) = Inr r \<longleftrightarrow>
      header_linked c w S namespace k prev ps fh \<and> walk_headers c w S namespace (Suc k) ?d ?ps ps fhs = Inr r"
  proof (cases "check_header c w S namespace k prev ps fh")
    case (Inl e)
    then have "\<not> header_linked c w S namespace k prev ps fh"
      using check_header_Inr [of c w S namespace k prev ps fh ?ps] by simp
    with Inl show ?thesis by simp
  next
    case (Inr qs)
    then show ?thesis using check_header_Inr [of c w S namespace k prev ps fh qs] by simp
  qed
  also have "\<dots> \<longleftrightarrow> header_linked c w S namespace k prev ps fh \<and>
     (\<forall>i < length fhs. header_linked c w S namespace (Suc k + i)
        (if i = 0 then ?d else get_digest c w (fh_header (fhs ! (i - 1)))) (committee_at ?ps fhs i) (fhs ! i))
     \<and> r = (if fhs = [] then ps else committee_at ?ps fhs (length fhs - 1))"
    by (simp only: Cons.IH)
  also have "\<dots> \<longleftrightarrow> header_linked c w S namespace k prev ps fh \<and>
     (\<forall>i < length fhs. header_linked c w S namespace (k + Suc i)
        (get_digest c w (fh_header ((fh # fhs) ! i))) (committee_at ps (fh # fhs) (Suc i)) ((fh # fhs) ! Suc i))
     \<and> r = committee_at ps (fh # fhs) (length fhs)"
    by (simp only: last prev committee_at_simps nth_Cons_Suc add_Suc add_Suc_right)
  finally show ?case by (simp add: All_less_Suc2 del: committee_at_simps(2))
qed auto

lemma check_anchor_None:
  assumes "fhs \<noteq> []" "length fhs < 2 ^ 64"
  shows "check_anchor c w fhs (Some ws) = None \<longleftrightarrow> anchored c w fhs ws"
proof (cases "unat (ws_epoch ws) < length fhs")
  case True
  let ?n = "word_of_nat (length fhs) :: u64"
  have n: "unat ?n = length fhs" by (rule unat_word_of_nat) (use assms(2) in simp)
  have "1 \<le> ?n" using assms(1) by (simp add: word_le_nat_alt n Suc_le_eq)
  then have h: "unat (?n - 1) = length fhs - 1" by (simp add: unat_sub n)
  have "ws_epoch ws \<le> ?n - 1" using True by (simp add: word_le_nat_alt h)
  then have "unat (?n - 1 - ws_epoch ws) = length fhs - 1 - unat (ws_epoch ws)" by (simp add: unat_sub h)
  then have "?n - 1 - ws_epoch ws > WEAK_SUBJECTIVITY_MAX_AGE_EPOCHS \<longleftrightarrow> length fhs > unat (ws_epoch ws) + 6"
    using True by (simp add: word_less_nat_alt WEAK_SUBJECTIVITY_MAX_AGE_EPOCHS_def) linarith
  with True show ?thesis by (auto simp: check_anchor_def anchored_def Let_def)
qed (auto simp: check_anchor_def anchored_def)

lemma check_signer_None:
  "check_signer s (k, b) = None \<longleftrightarrow>
     (\<exists>a. get_account s k = Some a \<and> is_current_epoch_signer (va_status a) \<and> va_consensus_public_key a = b)"
  by (auto simp: check_signer_def is_current_epoch_signer_def split: option.splits)

lemma check_joining_None:
  "check_joining s v = None \<longleftrightarrow>
     (\<exists>a. get_account s (av_node_key v) = Some a \<and> va_consensus_public_key a = av_consensus_key v)"
  by (auto simp: check_joining_def split: option.splits)

lemma check_position_None: "check_position terminal s = None \<longleftrightarrow> positioned_before terminal s"
  by (auto simp: check_position_def positioned_before_def not_less split: option.splits)

lemma sort_eq_mset: "sort xs = sort ys \<longleftrightarrow> mset xs = mset (ys :: 'a::linorder list)"
  by (metis mset_sort properties_for_sort sorted_sort)

lemma check_transition_None: "check_transition terminal s = None \<longleftrightarrow> transition_matches terminal s"
  by (auto simp: check_transition_def transition_matches_def Let_def first_error_None sort_eq_mset check_joining_None)

lemma check_state_None:
  assumes "bt_ok (cs_validator_accounts s)"
  shows "check_state terminal committee s = None \<longleftrightarrow>
    committee_matches committee s \<and> positioned_before terminal s \<and> transition_matches terminal s"
proof -
  have "(\<forall>e \<in> set (collect_map committee). check_signer s e = None) \<longleftrightarrow>
      (\<forall>k b. bt_get (collect_map committee) k = Some b \<longrightarrow> check_signer s (k, b) = None)"
    using collect_map_bt_ok [of committee] by (auto simp: bt_get_iff)
  moreover have "(\<forall>e \<in> set (cs_validator_accounts s). check_active (collect_map committee) e = None) \<longleftrightarrow>
      (\<forall>k a. get_account s k = Some a \<longrightarrow> va_status a = Active \<longrightarrow> bt_get (collect_map committee) k \<noteq> None)"
    using assms by (auto simp: bt_get_iff check_active_def)
  ultimately show ?thesis
    by (simp add: check_state_def Let_def first_error_None ball_Un committee_matches_def check_signer_None
        check_position_None check_transition_None conj_ac)
qed

lemma checkpoint_specification:
  assumes "length fhs < 2 ^ 64"
  shows "verify_checkpoint_chain_with_weak_subjectivity c w F S g fhs ck wso = None \<longleftrightarrow>
    fhs \<noteq> [] \<and> (\<exists>gh vs s. genesis_hash F g = Some gh \<and> get_validators c F g = Inr vs
      \<and> chain_linked c w S (chain_domain c (config_digest c F g)) gh (genesis_participants vs) fhs
      \<and> (case wso of None \<Rightarrow> True | Some ws \<Rightarrow> anchored c w fhs ws)
      \<and> h_checkpoint_hash (fh_header (last fhs)) = sha256 c (ck_data ck) \<and> state_of_checkpoint c w ck = Inr s
      \<and> committee_matches (committee_at (genesis_participants vs) fhs (length fhs - 1)) s
      \<and> positioned_before (fh_header (last fhs)) s \<and> transition_matches (fh_header (last fhs)) s)"
proof -
  have anchor: "check_anchor c w fhs wso = None \<longleftrightarrow> (case wso of None \<Rightarrow> True | Some ws \<Rightarrow> anchored c w fhs ws)"
    if "fhs \<noteq> []" using check_anchor_None [OF that assms] by (cases wso) (simp_all add: check_anchor_def)
  have state: "check_state h ps s = None \<longleftrightarrow> committee_matches ps s \<and> positioned_before h s \<and> transition_matches h s"
    if "state_of_checkpoint c w ck = Inr s" for h ps s
    using that read_decoded [of c w "ck_data ck"]
    by (intro check_state_None) (auto simp: state_of_checkpoint_def decoded_ok_def split: if_splits sum.splits)
  have walk: "walk_headers c w S ns 0 gh ps ps fhs = Inr r \<longleftrightarrow>
      chain_linked c w S ns gh ps fhs \<and> r = committee_at ps fhs (length fhs - 1)" if "fhs \<noteq> []" for ns gh ps r
    using that by (simp add: walk_headers_Inr chain_linked_def)
  show ?thesis
  proof (cases "fhs = [] \<or> genesis_hash F g = None \<or> (\<exists>e. get_validators c F g = Inl e)")
    case True
    then show ?thesis by (auto simp: verify_checkpoint_chain_with_weak_subjectivity_def split: option.split)
  next
    case False
    then obtain gh vs where g: "fhs \<noteq> []" "genesis_hash F g = Some gh" "get_validators c F g = Inr vs"
      by (cases "get_validators c F g") auto
    let ?ns = "chain_domain c (config_digest c F g)" and ?ps = "genesis_participants vs"
    show ?thesis
    proof (cases "walk_headers c w S ?ns 0 gh ?ps ?ps fhs")
      case (Inl e)
      then have "\<not> chain_linked c w S ?ns gh ?ps fhs" using walk [OF g(1), of ?ns gh ?ps] by fastforce
      with Inl g show ?thesis by (simp add: verify_checkpoint_chain_with_weak_subjectivity_def Let_def)
    next
      case (Inr r)
      then have "chain_linked c w S ?ns gh ?ps fhs" "r = committee_at ?ps fhs (length fhs - 1)"
        using walk [OF g(1)] by blast+
      with Inr g anchor [OF g(1)] state show ?thesis
        by (cases "state_of_checkpoint c w ck"; cases "check_anchor c w fhs wso")
          (auto simp: verify_checkpoint_chain_with_weak_subjectivity_def Let_def)
    qed
  qed
qed

text \<open>A history of one epoch over the genesis state, for evaluation.\<close>

definition demo_scheme :: "participants scheme" where
  "demo_scheme = \<lparr>participant_map = Some, finalization_verify = (\<lambda>d m f. True)\<rparr>"

definition demo_initial :: consensus_state where
  "demo_initial = the (get_initial_state demo_crypto demo_formats demo_config [demo_validator] None)"

definition demo_checkpoint :: checkpoint where
  "demo_checkpoint = checkpoint_new demo_crypto demo_wire demo_initial"

definition demo_terminal :: "u64 \<Rightarrow> header" where
  "demo_terminal t = header_new 0 1 t 0 0 0 0 (sha256 demo_crypto (ck_data demo_checkpoint)) 0 [] [] 0"

definition demo_history :: "u64 \<Rightarrow> finalized_header list" where
  "demo_history t = [\<lparr>fh_header = demo_terminal t, fh_finalization = \<lparr>fin_epoch = 0, fin_view = 0, fin_parent = 0,
     fin_payload = computed_digest demo_crypto demo_wire (demo_terminal t), fin_certificate = []\<rparr>, fh_participant_count = 0\<rparr>]"

definition demo_anchor :: weak_subjectivity_header_digest where
  "demo_anchor = \<lparr>ws_epoch = 0, ws_header_digest = computed_digest demo_crypto demo_wire (demo_terminal 0)\<rparr>"

lemma demo_initial_fields:
  "state_of_checkpoint demo_crypto demo_wire demo_checkpoint = Inr demo_initial"
  "cs_validator_accounts demo_initial = [(0, genesis_account demo_config demo_validator)]"
  "cs_added_validators demo_initial = []" "cs_removed_validators demo_initial = []"
  "cs_epocher demo_initial = de_new 10" "cs_epoch demo_initial = 0" "cs_latest_height demo_initial = 0"
  "cs_head_digest demo_initial = 0"
proof -
  obtain s where g: "get_initial_state demo_crypto demo_formats demo_config [demo_validator] None = Some s"
    and f: "s = rebuild_ssz_tree demo_crypto s" "cs_validator_accounts s = genesis_accounts demo_config [demo_validator]"
      "cs_pending_checkpoint s = None" "cs_added_validators s = []" "cs_removed_validators s = []"
      "cs_captured_bytes s = None" "cs_epocher s = de_new (ge_blocks_per_epoch demo_config)"
      "cs_epoch s = 0" "cs_latest_height s = 0" "cs_head_digest s = 0"
    by (rule initial_state_fields [OF demo_config_ok(1,3), of demo_crypto "[demo_validator]"]) (rule that, assumption+)
  have s: "demo_initial = s" by (simp add: demo_initial_def g)
  have "state_writable demo_crypto s"
    using initial_state_ok [OF demo_zero_hashes demo_config_ok] g by auto
  from plain_read [OF this demo_wire_ok f(6), of "[]"] f(1) [symmetric] f(3)
  show "state_of_checkpoint demo_crypto demo_wire demo_checkpoint = Inr demo_initial"
    by (simp add: s state_of_checkpoint_def demo_checkpoint_def checkpoint_new_def checkpoint_of_data_def)
  show "cs_validator_accounts demo_initial = [(0, genesis_account demo_config demo_validator)]"
    by (simp add: s f(2) genesis_accounts_def demo_validator_def)
  show "cs_added_validators demo_initial = []" "cs_removed_validators demo_initial = []"
    "cs_epocher demo_initial = de_new 10" "cs_epoch demo_initial = 0" "cs_latest_height demo_initial = 0"
    "cs_head_digest demo_initial = 0" using f(2-) by (simp_all add: s demo_config_def)
qed

lemma demo_accepted:
  "verify_checkpoint_chain_with_weak_subjectivity demo_crypto demo_wire demo_formats demo_scheme demo_config
     (demo_history t) demo_checkpoint (Some demo_anchor) = None"
proof -
  have d: "get_digest demo_crypto demo_wire (demo_terminal t) = computed_digest demo_crypto demo_wire (demo_terminal 0)"
    by (simp add: get_digest_def demo_terminal_def header_new_def computed_digest_def header_write_def prefixed_def
        demo_wire_def demo_header_bytes_def)
  have walk: "walk_headers demo_crypto demo_wire demo_scheme ns 0 0 ps ps (demo_history t) = Inr ps" for ns ps
    by (simp add: demo_history_def check_header_def demo_scheme_def demo_terminal_def header_new_def)
  have "check_anchor demo_crypto demo_wire (demo_history t) (Some demo_anchor) = None"
    by (simp add: check_anchor_def demo_anchor_def demo_history_def d WEAK_SUBJECTIVITY_MAX_AGE_EPOCHS_def)
  moreover have "check_state (demo_terminal t) (genesis_participants [demo_validator]) demo_initial = None"
    by (simp add: check_state_def genesis_participants_def demo_validator_def collect_map_def Let_def
        check_signer_def demo_initial_fields bt_get_def genesis_account_def check_active_def check_position_def
        demo_terminal_def header_new_def saturating_add_def epoch_bounds_def de_new_def bounds_def seg_bounds_def
        checked_mul_def checked_add_def check_transition_def get_added_validators_def require_def)
  ultimately show ?thesis
    using walk demo_config_ok(2,3) demo_initial_fields(1)
    by (simp add: verify_checkpoint_chain_with_weak_subjectivity_def Let_def)
      (simp add: demo_history_def demo_terminal_def header_new_def)
qed

text \<open>C9. The verifier accepts exactly what its specification says. A checkpoint is accepted for a
  genesis and a list of finalized headers when every header is signed, by the committee that the
  genesis and the changes of the earlier headers give, under the domain of this very genesis; when
  the epochs count up and each header names its predecessor back to the genesis hash; when the
  chain passes through the trusted header, at most five epochs before its end; and when the last
  header commits to the bytes of the checkpoint, whose state has the accounts of the signing
  committee with their keys, stands one block before that header, and stages exactly the changes
  that it commits to.\<close>

theorem checkpoint_accepted_iff:
  assumes "length fhs < 2 ^ 64"
  shows "verify_checkpoint_chain_with_weak_subjectivity c w F S g fhs ck wso = None \<longleftrightarrow>
    fhs \<noteq> [] \<and> (\<exists>gh vs s. genesis_hash F g = Some gh \<and> get_validators c F g = Inr vs
      \<and> chain_linked c w S (chain_domain c (config_digest c F g)) gh (genesis_participants vs) fhs
      \<and> (case wso of None \<Rightarrow> True | Some ws \<Rightarrow> anchored c w fhs ws)
      \<and> h_checkpoint_hash (fh_header (last fhs)) = sha256 c (ck_data ck) \<and> state_of_checkpoint c w ck = Inr s
      \<and> committee_matches (committee_at (genesis_participants vs) fhs (length fhs - 1)) s
      \<and> positioned_before (fh_header (last fhs)) s \<and> transition_matches (fh_header (last fhs)) s)"
  by (rule checkpoint_specification [OF assms])

theorem checkpoint_accepted_iff_witness:
  "length (demo_history 0) < 2 ^ 64 \<and> anchored demo_crypto demo_wire (demo_history 0) demo_anchor
    \<and> positioned_before (demo_terminal 0) demo_initial \<and> transition_matches (demo_terminal 0) demo_initial"
proof -
  have len: "length (demo_history 0) < 2 ^ 64" by (simp add: demo_history_def)
  have last: "fh_header (last (demo_history 0)) = (demo_terminal 0)" by (simp add: demo_history_def)
  show ?thesis
    using demo_accepted [of 0, unfolded checkpoint_accepted_iff [OF len] last] demo_initial_fields(1) len by auto
qed

lemma checkpoint_spec:
  assumes "length fhs < 2 ^ 64" "verify_checkpoint_chain_with_weak_subjectivity c w F S g fhs ck (Some ws) = None"
  shows "chain_linked c w S (chain_domain c (config_digest c F g)) (the (genesis_hash F g))
      (genesis_participants (case get_validators c F g of Inr vs \<Rightarrow> vs | Inl _ \<Rightarrow> [])) fhs"
    "anchored c w fhs ws" "h_checkpoint_hash (fh_header (last fhs)) = sha256 c (ck_data ck)"
  using assms(2) unfolding checkpoint_specification [OF assms(1)] by auto

section \<open>Agreement through a trusted header\<close>

text \<open>A header as the decoder returns it: no cached digest, keys that decode, within the length prefix.\<close>

definition received :: "crypto \<Rightarrow> wire \<Rightarrow> header \<Rightarrow> bool" where
  "received c w h \<longleftrightarrow> h_digest h = None \<and> header_keys_ok c h \<and> length (header_as_ssz w h) < 2 ^ 32"

definition collision :: "crypto \<Rightarrow> u8 list \<Rightarrow> u8 list \<Rightarrow> bool" where
  "collision c x y \<longleftrightarrow> x \<noteq> y \<and> sha256 c x = sha256 c y"

lemma received_inj:
  assumes "wire_ok c w" "received c w h" "received c w k" "header_write w h = header_write w k"
  shows "h = k"
proof -
  have "h\<lparr>h_digest := None\<rparr> = k\<lparr>h_digest := None\<rparr>"
    using header_reads [OF assms(1), of h] header_reads [OF assms(1), of k] assms(2-4)
    by (simp add: received_def reads_def)
  moreover have "h\<lparr>h_digest := None\<rparr> = h" "k\<lparr>h_digest := None\<rparr> = k"
    using assms(2,3) by (simp_all add: received_def)
  ultimately show ?thesis by simp
qed

lemma received_digest: "received c w h \<Longrightarrow> get_digest c w h = sha256 c (header_write w h)"
  by (simp add: received_def get_digest_def computed_digest_def)

lemma same_digest:
  assumes "wire_ok c w" "received c w h" "received c w k" "get_digest c w h = get_digest c w k"
  shows "h = k \<or> collision c (header_write w h) (header_write w k)"
  using assms received_inj [of c w h k] by (auto simp: received_digest collision_def)

lemma chain_prefix_agrees:
  assumes wire: "wire_ok c w" and one: "chain_linked c w S ns gh ps fhs" and two: "chain_linked c w S' ns' gh' ps' fhs'"
    and rec: "\<And>fh. fh \<in> set fhs \<union> set fhs' \<Longrightarrow> received c w (fh_header fh)"
    and len: "e < length fhs" "e < length fhs'"
    and eq: "get_digest c w (fh_header (fhs ! e)) = get_digest c w (fh_header (fhs' ! e))"
    and none: "\<And>i. i \<le> e \<Longrightarrow> \<not> collision c (header_write w (fh_header (fhs ! i))) (header_write w (fh_header (fhs' ! i)))"
  shows "i \<le> e \<Longrightarrow> fh_header (fhs ! i) = fh_header (fhs' ! i)"
proof (induction i rule: inc_induct)
  case base
  show ?case using same_digest [OF wire _ _ eq] rec len none [of e] by auto
next
  case (step n)
  have "h_prev_epoch_header_hash (fh_header (fhs ! Suc n)) = get_digest c w (fh_header (fhs ! n))"
    "h_prev_epoch_header_hash (fh_header (fhs' ! Suc n)) = get_digest c w (fh_header (fhs' ! n))"
    using one two step(2) len by (auto simp: chain_linked_def header_linked_def dest!: spec [of _ "Suc n"])
  then have "get_digest c w (fh_header (fhs ! n)) = get_digest c w (fh_header (fhs' ! n))" using step.IH by simp
  from same_digest [OF wire _ _ this] show ?case using rec len none [of n] step(2) by auto
qed

text \<open>C10. A trusted header pins history. If two lists of finalized headers, received from anyone, are
  accepted for the same genesis and the same trusted header, then they have the same header in
  every epoch up to the trusted one, and the same committees up to the epoch after it; and if both
  end there, their checkpoints have the same bytes. Otherwise the two histories exhibit a SHA-256
  collision: between the encodings of their headers of one epoch, or between their checkpoints.\<close>

theorem anchored_histories_agree:
  assumes "wire_ok c w" "length fhs < 2 ^ 64" "length fhs' < 2 ^ 64"
    "verify_checkpoint_chain_with_weak_subjectivity c w F S g fhs ck (Some ws) = None"
    "verify_checkpoint_chain_with_weak_subjectivity c w F S g fhs' ck' (Some ws) = None"
    "\<forall>fh \<in> set fhs \<union> set fhs'. received c w (fh_header fh)"
  shows "(\<exists>i \<le> unat (ws_epoch ws). collision c (header_write w (fh_header (fhs ! i))) (header_write w (fh_header (fhs' ! i))))
    \<or> ((\<forall>i \<le> unat (ws_epoch ws). fh_header (fhs ! i) = fh_header (fhs' ! i))
       \<and> (\<forall>ps. \<forall>i \<le> Suc (unat (ws_epoch ws)). committee_at ps fhs i = committee_at ps fhs' i)
       \<and> (length fhs = length fhs' \<and> length fhs = Suc (unat (ws_epoch ws)) \<longrightarrow>
            ck_data ck = ck_data ck' \<or> collision c (ck_data ck) (ck_data ck')))"
    (is "?C \<or> ?H \<and> ?P \<and> ?D")
proof (cases ?C)
  case False
  let ?e = "unat (ws_epoch ws)"
  note acc = checkpoint_spec [OF assms(2,4)] checkpoint_spec [OF assms(3,5)]
  have len: "?e < length fhs" "?e < length fhs'"
    and eq: "get_digest c w (fh_header (fhs ! ?e)) = get_digest c w (fh_header (fhs' ! ?e))"
    using acc(2) acc(5) by (simp_all add: anchored_def)
  have H: ?H using chain_prefix_agrees [OF assms(1) acc(1) acc(4) _ len eq] assms(6) False by blast
  have "map fh_header (take i fhs) = map fh_header (take i fhs')" if "i \<le> Suc ?e" for i
    by (rule nth_equalityI) (use len that H in auto)
  moreover have "committee_at ps xs i = fold next_participants (map fh_header (take i xs)) ps" for ps xs i
    by (simp add: committee_at_def fold_map comp_def)
  ultimately have P: ?P by simp
  have ?D
  proof
    assume l: "length fhs = length fhs' \<and> length fhs = Suc ?e"
    then have "last fhs = fhs ! ?e" "last fhs' = fhs' ! ?e" by (metis diff_Suc_1 last_conv_nth length_0_conv nat.distinct(1))+
    then have "sha256 c (ck_data ck) = sha256 c (ck_data ck')" using acc(3,6) H by (metis order_refl)
    then show "ck_data ck = ck_data ck' \<or> collision c (ck_data ck) (ck_data ck')" by (auto simp: collision_def)
  qed
  with H P show ?thesis by blast
qed blast

theorem anchored_histories_agree_witness:
  "collision demo_crypto (header_write demo_wire (demo_terminal 0)) (header_write demo_wire (demo_terminal 5))"
proof -
  have "\<forall>fh \<in> set (demo_history 0) \<union> set (demo_history 5). received demo_crypto demo_wire (fh_header fh)"
    by (simp add: demo_history_def received_def demo_terminal_def header_new_def header_keys_ok_def demo_wire_def
        demo_header_bytes_def demo_list_def)
  moreover have "length (demo_history 0) < 2 ^ 64" "length (demo_history 5) < 2 ^ 64" by (simp_all add: demo_history_def)
  moreover have "fh_header (demo_history t ! 0) = demo_terminal t" for t by (simp add: demo_history_def)
  moreover have "demo_terminal 0 \<noteq> demo_terminal 5" by (simp add: demo_terminal_def header_new_def)
  moreover have "unat (ws_epoch demo_anchor) = 0" by (simp add: demo_anchor_def)
  ultimately show ?thesis
    using anchored_histories_agree [OF demo_wire_ok, of "demo_history 0" "demo_history 5" demo_crypto demo_formats
        demo_scheme demo_config demo_checkpoint demo_anchor demo_checkpoint] demo_accepted
    by (metis le_zero_eq)
qed

end
