(* ===== verification/Spec2Isabelle.thy ===== *)
theory Spec2Isabelle
  imports Buffer Ordered_Map Ssz_Proofs Withdrawal Dynamic_Epocher Protocol_Params Header
    Payouts Lifecycle_Simulation Consensus_Codec Block_Execution Finalizer_Db Observer_Keys
    Finalizer_Run Checkpoint_Chain
begin

text \<open>
  A verification library for Summit, the consensus client of Seismic: a proof-of-stake committee
  runs the Simplex protocol over blocks whose payloads are executed by an Ethereum execution
  client. The library models the deterministic core of the program, the part on which all nodes
  must agree bit by bit: the consensus state and its Merkle commitment, the execution of blocks,
  the staking rules applied at epoch boundaries, the codecs of everything persisted or sent, and
  the actor that orders finalized and notarized blocks.

  \<^bold>\<open>How the parts interact.\<close> The syncer delivers notarized and finalized blocks to the finalizer
  (\<open>finalizer/src/actor.rs\<close>). The finalizer executes each block against a consensus state
  (\<open>types/src/consensus_state/mod.rs\<close>) behind the gates of the execution client: notarized blocks
  into fork states, finalized ones into the canonical state. Execution requests of a block
  (\<open>execution_request.rs\<close>) are buffered and turned into deposits, withdrawals
  (\<open>withdrawal.rs\<close>), and parameter changes (\<open>protocol_params.rs\<close>) at the penultimate block of an
  epoch; the last block pays withdrawals out and changes the committee. Every change of the state
  is mirrored in a state tree (\<open>ssz_state_tree.rs\<close> over \<open>ssz_tree.rs\<close>), whose root the next block
  commits to and against which proofs are served. States, checkpoints and finalized headers are
  persisted (\<open>finalizer/src/db.rs\<close>) and read back at a restart.

  \<^bold>\<open>Theories.\<close> Paths are under \<open>src/\<close>; definitions have the names of the Rust items, with a prefix
  where two types have an operation of the same name (\<open>wq_\<close> withdrawal queue, \<open>cs_\<close> consensus state,
  \<open>de_\<close> dynamic epocher, \<open>tree_\<close> state tree). A struct is a record, an enum a datatype.

  \<^item> \<open>Prelude\<close>, \<open>Buffer\<close>, \<open>Ordered_Map\<close>, \<open>Text\<close>: the standard library. Machine integers are words of
    their width, so \<open>+\<close> wraps, with \<open>checked_\<close> and \<open>saturating_\<close> operations written out. Readers over
    a buffer with the locale \<open>codec\<close> (what is written is read back). \<open>BTreeMap\<close> as a sorted list
    behind the locale \<open>ordered_map\<close>. Decimal text.
  \<^item> \<open>Crypto\<close>: hashing, keys and signatures as a record of functions, an argument of the model.
  \<^item> \<open>Ssz_Tree\<close>, \<open>Ssz_Blocks\<close>, \<open>Ssz_Hash\<close>, \<open>Ssz_State_Tree\<close>, \<open>Ssz_Collections\<close>, \<open>Ssz_Sync\<close>,
    \<open>Ssz_Proofs\<close>: the array-based Merkle tree, hash tree roots, the two-level state tree with its
    incremental updates, and proofs. Shown: each incremental update equals a rebuild; every
    generated proof verifies; a proof accepted with another leaf yields a hash collision, which is
    computed from the two branches. No injectivity of the hash is assumed anywhere.
  \<^item> \<open>Execution_Request\<close>, \<open>Withdrawal\<close>, \<open>Account\<close>, \<open>Protocol_Params\<close>, \<open>Dynamic_Epocher\<close>, \<open>Header\<close>,
    \<open>Checkpoint\<close>, \<open>Block\<close>, \<open>Observer_Keys\<close>: one data type of \<open>types/src\<close> each, with every operation
    and codec. Shown: invariants, exact characterisations of what decoders accept, round trips, and
    the functional behaviour of the queue, of the epoch schedule and of key derivation.
  \<^item> \<open>Consensus_State\<close>, \<open>Epoch_Processing\<close>, \<open>Payouts\<close>, \<open>Lifecycle\<close>, \<open>Lifecycle_Simulation\<close>,
    \<open>Consensus_Codec\<close>: the state of \<open>consensus_state/mod.rs\<close>, the staking rules and the codec. Shown:
    the tree stays equal to a rebuild under all processing; payouts conserve balances and respect
    the minimum stake; the handlers refine an abstract lifecycle machine whose invariant is proved by
    rule induction; decoded states are well formed and a restart keeps the state root.
  \<^item> \<open>Genesis\<close>, \<open>Checkpoint_Chain\<close>: the two ways a node gets its first state. The genesis configuration
    (\<open>genesis.rs\<close>, the signing domains of \<open>types/src/lib.rs\<close>, \<open>get_initial_state\<close> of \<open>node/src/args.rs\<close>), and the
    verification of a checkpoint (\<open>checkpoint.rs\<close>). Shown: an accepted genesis gives a well-formed state
    with the genesis committee; the domains are unambiguous; the verifier equals its declarative
    specification, and two histories accepted through one trusted header agree up to it.
  \<^item> \<open>Block_Execution\<close>, \<open>Finalizer_Db\<close>: \<open>execute_block\<close> and its helpers, and the database. Shown: a
    block changes the state only behind all gates; the contract of each database operation.
  \<^item> \<open>Finalizer\<close>, \<open>Finalizer_Loops\<close>, \<open>Finalizer_Waiters\<close>, \<open>Finalizer_Invariant\<close>, \<open>Finalizer_Run\<close>: the
    actor. Its state is the record \<open>finalizer\<close>, one turn of its \<open>select\<close> loop is \<open>finalizer_step\<close>, and
    what it sends is appended to \<open>f_outputs\<close>. Shown: all work-list loops end; the invariant over
    forks, orphans, tombstones, buffers and waiters holds in every state of a run; every
    notification request is answered exactly once.

  \<^bold>\<open>Effects.\<close> State is passed explicitly. A panic, a failed assertion and an \<open>unwrap\<close> of \<open>None\<close> are
  the value \<open>None\<close>; returned errors are values of a sum type. Third-party code is a record argument:
  \<open>crypto\<close> and \<open>curve\<close> (cryptography), \<open>wire\<close> and \<open>block_wire\<close> (derived SSZ containers and certificate
  encodings), \<open>formats\<close> (hex, TOML and addresses), \<open>scheme\<close> (certificates), \<open>engine\<close> (the execution client, a state machine whose answers are arbitrary), \<open>kv\<close> (the
  key-value store). What the program relies on of them is a named predicate (\<open>zero_hashes_ok\<close>,
  \<open>wire_ok\<close>, \<open>kv_ok\<close> and the like), stated as a hypothesis where it is used and satisfied
  by the demonstration instances of the witnesses.

  \<^bold>\<open>Loops and bounds.\<close> Recursion over data is structural or has a termination proof. The work lists of
  the finalizer are \<open>while_option\<close>, whose result is \<open>None\<close> for a loop that does not end;
  \<open>finalizer_loops_end\<close> shows that this never happens. There is no fuel. Lengths are natural numbers;
  the 32-bit length prefixes of the codecs appear as explicit bounds in the round trips.

  \<^bold>\<open>Not modelled.\<close> Tracing and metrics; timers and clocks (a retry is the event \<open>DrainTick\<close>); the
  finalizer's read-only state queries. The application, syncer, orchestrator and RPC actors and the
  node binaries: channel plumbing around the \<open>commonware\<close> runtime, resolver, archive and Simplex engine
  and around HTTP servers, whose behaviour is that of third-party code. File handling (key store, key paths,
  command line), the HTTP and IPC transport of the engine client, and test, fuzz and benchmark
  harnesses.
\<close>

end
